(* ===== verification/Prelude.thy ===== *)
theory Prelude
  imports Main "HOL-Library.Word"
begin

unbundle bit_operations_syntax

text \<open>
  Shared ground of the development: the machine integer types, the exceptions the C++ code
  raises as values of a sum type, sequencing of computations that may raise, and the theory of
  little-endian digit lists.  A list of \<open>w\<close>-bit words read with the least significant word
  first stands for a natural number; with \<open>w = 8\<close> this is a little-endian byte string
  (\<open>compat/endian.h\<close>, \<open>crypto/common.h\<close>, \<open>serialize.h\<close>), with \<open>w = 32\<close> the limb
  array \<open>pn\<close> of \<open>base_uint\<close> (\<open>arith_uint256.h\<close>).
\<close>

section \<open>Machine integers\<close>

type_synonym u8 = "8 word"
type_synonym u16 = "16 word"
type_synonym u32 = "32 word"
type_synonym u64 = "64 word"
type_synonym bytes = "u8 list"

named_theorems bind_simps \<open>sequencing of computations that may raise\<close>
named_theorems digit_simps \<open>digit lists and the numbers they stand for\<close>

section \<open>Exceptions as values\<close>

text \<open>
  One constructor per exception class the modelled code throws.  A failed \<open>assert\<close> aborts the
  process and is \<open>AssertFailed\<close>; an access that C++ leaves undefined (a read or write
  outside a buffer, a shift by the width of the type) is \<open>UndefinedBehaviour\<close>, so that a
  theorem about a result \<open>Inr\<close> also says that no such access happened.
\<close>

datatype exc =
    IosFailure string
  | RuntimeError string
  | LogicError string
  | UintError string
  | ScriptNumError string
  | AssertFailed string
  | UndefinedBehaviour string

type_synonym 'a res = "exc + 'a"

definition bindE :: "'a res \<Rightarrow> ('a \<Rightarrow> 'b res) \<Rightarrow> 'b res" where
  "bindE m f = (case m of Inl e \<Rightarrow> Inl e | Inr x \<Rightarrow> f x)"

lemma bindE_Inl [simp, bind_simps]: "bindE (Inl e) f = Inl e"
  by (simp add: bindE_def)

lemma bindE_Inr [simp, bind_simps]: "bindE (Inr x) f = f x"
  by (simp add: bindE_def)

lemma bindE_eq_Inr [bind_simps]: "bindE m f = Inr y \<longleftrightarrow> (\<exists>x. m = Inr x \<and> f x = Inr y)"
  by (cases m) auto

lemma bindE_InrE:
  assumes "bindE m f = Inr y"
  obtains x where "m = Inr x" and "f x = Inr y"
  using assms by (auto simp: bindE_eq_Inr)

lemma bindE_cong [fundef_cong]:
  "m = m' \<Longrightarrow> (\<And>x. m' = Inr x \<Longrightarrow> f x = g x) \<Longrightarrow> bindE m f = bindE m' g"
  by (cases m') auto

section \<open>Little-endian digit lists\<close>

lemma unat_lt2p: "unat w < 2 ^ LENGTH('a)" for w :: "'a::len word"
  by (rule unsigned_less)

fun val_of :: "'a::len word list \<Rightarrow> nat" where
  "val_of [] = 0"
| "val_of (d # ds) = unat d + 2 ^ LENGTH('a) * val_of ds"

fun digits_of :: "nat \<Rightarrow> nat \<Rightarrow> 'a::len word list" where
  "digits_of 0 v = []"
| "digits_of (Suc k) v = word_of_nat v # digits_of k (v div 2 ^ LENGTH('a))"

lemma length_digits_of [simp]: "length (digits_of k v) = k"
  by (induction k arbitrary: v) auto

lemma val_of_less [digit_simps]: "val_of (ds :: 'a::len word list) < 2 ^ (LENGTH('a) * length ds)"
proof (induction ds)
  case Nil
  then show ?case by simp
next
  case (Cons d ds)
  have "unat d + 2 ^ LENGTH('a) * val_of ds < 2 ^ LENGTH('a) + 2 ^ LENGTH('a) * val_of ds"
    by (simp add: unsigned_less)
  also have "\<dots> = 2 ^ LENGTH('a) * (val_of ds + 1)"
    by (simp add: algebra_simps)
  also have "\<dots> \<le> 2 ^ LENGTH('a) * 2 ^ (LENGTH('a) * length ds)"
    using Cons by (intro mult_le_mono) auto
  also have "\<dots> = 2 ^ (LENGTH('a) * length (d # ds))"
    by (simp add: power_add)
  finally show ?case by simp
qed

lemma val_of_append [digit_simps]:
  "val_of (xs @ ys :: 'a::len word list) = val_of xs + 2 ^ (LENGTH('a) * length xs) * val_of ys"
  by (induction xs) (auto simp: power_add algebra_simps)

lemma val_of_replicate_zero [simp]: "val_of (replicate n 0) = 0"
  by (induction n) auto

lemma val_of_digits_of [digit_simps]:
  "val_of (digits_of k v :: 'a::len word list) = v mod 2 ^ (LENGTH('a) * k)"
proof (induction k arbitrary: v)
  case 0
  then show ?case by simp
next
  case (Suc k)
  have "val_of (digits_of (Suc k) v :: 'a word list)
      = v mod 2 ^ LENGTH('a) + 2 ^ LENGTH('a) * (v div 2 ^ LENGTH('a) mod 2 ^ (LENGTH('a) * k))"
    by (simp add: Suc unat_of_nat)
  also have "\<dots> = v mod (2 ^ LENGTH('a) * 2 ^ (LENGTH('a) * k))"
    by (metis add.commute mod_mult2_eq)
  also have "\<dots> = v mod 2 ^ (LENGTH('a) * Suc k)"
    by (simp add: power_add)
  finally show ?case .
qed

lemma digits_of_val_of [digit_simps]: "digits_of (length ds) (val_of ds) = ds"
proof (induction ds)
  case Nil
  then show ?case by simp
next
  case (Cons d ds)
  have "(unat d + 2 ^ LENGTH('a) * val_of ds) div 2 ^ LENGTH('a) = val_of ds"
    using unat_lt2p [of d] by simp
  with Cons show ?case by simp
qed

lemma val_of_inject:
  assumes "length xs = length ys"
  shows "val_of xs = val_of ys \<longleftrightarrow> xs = ys"
  by (metis assms digits_of_val_of)

lemma val_of_eq_0_iff [digit_simps]: "val_of ds = 0 \<longleftrightarrow> ds = replicate (length ds) 0"
  by (metis length_replicate val_of_inject val_of_replicate_zero)

lemma val_of_take_drop:
  "n \<le> length ds \<Longrightarrow>
   val_of (ds :: 'a::len word list) = val_of (take n ds) + 2 ^ (LENGTH('a) * n) * val_of (drop n ds)"
  using val_of_append [of "take n ds" "drop n ds"] by simp

section \<open>Words and numbers\<close>

lemma unat_eq_iff: "(x = y) \<longleftrightarrow> (unat x = unat y)" for x y :: "'a::len word"
  by (rule word_unat_eq_iff)

lemma unat_less_256 [simp]: "unat (b :: u8) < 256"
  using unat_lt2p [of b] by simp

lemma unat_drop_bit: "unat (drop_bit n w) = unat w div 2 ^ n" for w :: "'a::len word"
  by (subst unat_drop_bit_eq) (rule drop_bit_eq_div)

lemma unat_ucast_mod: "unat (ucast w :: 'b::len word) = unat w mod 2 ^ LENGTH('b)"
  for w :: "'a::len word"
  by (simp add: unsigned_ucast_eq take_bit_eq_mod)

lemma unat_ucast_up:
  "LENGTH('a) \<le> LENGTH('b) \<Longrightarrow> unat (ucast w :: 'b::len word) = unat w" for w :: "'a::len word"
proof -
  assume "LENGTH('a) \<le> LENGTH('b)"
  then have "(2::nat) ^ LENGTH('a) \<le> 2 ^ LENGTH('b)"
    by (intro power_increasing) auto
  with unat_lt2p have "unat w < 2 ^ LENGTH('b)"
    by (rule less_le_trans)
  then show ?thesis by (simp add: unat_ucast_mod)
qed

lemma all_less_8:
  "(\<forall>n < (8::nat). P n) \<longleftrightarrow> P 0 \<and> P 1 \<and> P 2 \<and> P 3 \<and> P 4 \<and> P 5 \<and> P 6 \<and> P 7"
  by (simp add: numeral_eq_Suc less_Suc_eq) blast

lemma byte_eq_iff_bits: "x = y \<longleftrightarrow> (\<forall>n < 8. bit x n = bit y n)" for x y :: u8
  by (auto intro: bit_word_eqI)

lemma unat_add_of_nat:
  "unat x + n < 2 ^ LENGTH('a) \<Longrightarrow> unat (x + word_of_nat n) = unat x + n" for x :: "'a::len word"
  by (simp add: unat_word_ariths unat_of_nat)

lemma unat_sub_of_nat:
  "n \<le> unat x \<Longrightarrow> unat (x - word_of_nat n) = unat x - n" for x :: "'a::len word"
proof -
  assume n: "n \<le> unat x"
  then have "n < 2 ^ LENGTH('a)"
    using unat_lt2p by (rule le_less_trans)
  then have "unat (word_of_nat n :: 'a word) = n"
    by (simp add: unat_of_nat)
  with n show ?thesis by (simp add: unat_sub_if')
qed

lemma of_nat_le_word_iff:
  "n < 2 ^ LENGTH('a) \<Longrightarrow> word_of_nat n \<le> x \<longleftrightarrow> n \<le> unat x" for x :: "'a::len word"
  by (simp add: word_le_nat_alt unat_of_nat)

section \<open>Bytes with and without their top bit\<close>

lemma unat_byte_and_7f: "unat (c AND 0x7F) = unat c mod 128" for c :: u8
proof -
  have "c AND 0x7F = take_bit 7 c"
    by (simp add: take_bit_eq_mask mask_eq_exp_minus_1)
  then have "unat (c AND 0x7F) = take_bit 7 (unat c)"
    by (simp only: unsigned_take_bit_eq)
  then show ?thesis by (simp add: take_bit_eq_mod)
qed

lemma bit_byte_7: "bit c 7 \<longleftrightarrow> 128 \<le> unat c" for c :: u8
proof -
  have "bit c 7 \<longleftrightarrow> odd (unat c div 128)"
    using bit_unsigned_iff [of c 7, where 'a = nat] by (simp add: bit_iff_odd)
  moreover have "unat c div 128 < 2"
    by (simp add: div_less_iff_less_mult)
  ultimately have "bit c 7 \<longleftrightarrow> unat c div 128 \<noteq> 0"
    by (auto simp: less_2_cases_iff)
  then show ?thesis
    by (simp only: div_eq_0_iff) auto
qed

lemma byte_and_80: "c AND 0x80 = 0 \<longleftrightarrow> unat c < 128" for c :: u8
proof -
  have "c AND 0x80 = 0 \<longleftrightarrow> \<not> bit c 7"
    by (simp add: byte_eq_iff_bits all_less_8 bit_simps)
  then show ?thesis by (simp add: bit_byte_7 not_le)
qed

lemma byte_or_80:
  assumes "k < 128"
  shows "unat (word_of_nat k OR 0x80 :: u8) = k + 128"
proof -
  have b: "\<not> bit (word_of_nat k :: u8) 7"
    using assms by (simp add: bit_byte_7 unat_of_nat)
  have "(word_of_nat k :: u8) OR 0x80 = word_of_nat k + 0x80"
    using b by (intro disjunctive_add_eq_or [symmetric]) (simp add: byte_eq_iff_bits all_less_8 bit_simps)
  also have "\<dots> = word_of_nat (k + 128)"
    by simp
  finally show ?thesis
    using assms by (simp only: unat_of_nat) simp
qed

lemma byte_high: "128 \<le> unat c \<Longrightarrow> word_of_nat (unat c mod 128) OR 0x80 = c" for c :: u8
proof -
  assume "128 \<le> unat c"
  moreover from this have "unat c mod 128 = unat c - 128"
    using unat_less_256 [of c] by (simp only: le_mod_geq) (rule mod_less; linarith)
  ultimately have "unat c mod 128 + 128 = unat c"
    by simp
  then show ?thesis
    using byte_or_80 [of "unat c mod 128"] by (simp add: word_unat_eq_iff)
qed

lemma bit_odd_div: "bit w n \<longleftrightarrow> odd (unat w div 2 ^ n)" for w :: "'b::len word"
  using bit_unsigned_iff [of w n, where 'a = nat] bit_imp_le_length [of w n] by (auto simp: bit_iff_odd)

lemma or_disjoint_add:
  "unat x < 2 ^ k \<Longrightarrow> x OR push_bit k y = x + push_bit k y" for x y :: "'a::len word"
proof -
  assume x: "unat x < 2 ^ k"
  have "\<not> bit x n" if "k \<le> n" for n
  proof -
    have "unat x < 2 ^ n" using x that by (meson less_le_trans one_le_numeral power_increasing)
    then show ?thesis by (simp add: bit_odd_div)
  qed
  then have "x AND push_bit k y = 0"
    by (intro bit_word_eqI) (auto simp: bit_and_iff bit_push_bit_iff)
  then show ?thesis by (rule disjunctive_add_eq_or [symmetric])
qed

lemma unat_plus_less:
  "unat a + unat b < 2 ^ LENGTH('a) \<Longrightarrow> unat (a + b) = unat a + unat b" for a b :: "'a::len word"
  by (simp add: unat_word_ariths)

lemma unat_push_bit: "unat (push_bit n w) = (unat w * 2 ^ n) mod 2 ^ LENGTH('a)" for w :: "'a::len word"
  by (simp only: unsigned_push_bit_eq take_bit_eq_mod) (simp add: push_bit_eq_mult)

end
