(* ===== verification/Endian.thy ===== *)
theory Endian
  imports Prelude
begin

unbundle bit_operations_syntax

text \<open>
  Byte order: \<open>compat/byteswap.h\<close>, \<open>compat/endian.h\<close> and the integer reads and writes of
  \<open>crypto/common.h\<close>.  The host's byte order is a parameter of the model (the macro
  \<open>WORDS_BIGENDIAN\<close>): it selects which half of \<open>endian.h\<close> is compiled and how an integer
  object lies in memory.  The lemmas show that the bytes written and the values read do not
  depend on it.
\<close>

section \<open>Definitions\<close>

datatype host_order = BigEndianHost | LittleEndianHost

text \<open>The bytes of an integer object in the host's memory, and the object such bytes form.\<close>

definition mem_of :: "host_order \<Rightarrow> 'a::len word \<Rightarrow> bytes" where
  "mem_of h x =
     (let le = digits_of (LENGTH('a) div 8) (unat x)
      in case h of LittleEndianHost \<Rightarrow> le | BigEndianHost \<Rightarrow> rev le)"

definition of_mem :: "host_order \<Rightarrow> bytes \<Rightarrow> 'a::len word" where
  "of_mem h bs =
     word_of_nat (val_of (case h of LittleEndianHost \<Rightarrow> bs | BigEndianHost \<Rightarrow> rev bs))"

definition bswap_16 :: "u16 \<Rightarrow> u16" where
  "bswap_16 x = (drop_bit 8 x) OR (push_bit 8 x)"

definition bswap_32 :: "u32 \<Rightarrow> u32" where
  "bswap_32 x =
     drop_bit 24 (x AND 0xff000000) OR drop_bit 8 (x AND 0x00ff0000) OR
     push_bit 8 (x AND 0x0000ff00) OR push_bit 24 (x AND 0x000000ff)"

definition bswap_64 :: "u64 \<Rightarrow> u64" where
  "bswap_64 x =
     drop_bit 56 (x AND 0xff00000000000000)
     OR drop_bit 40 (x AND 0x00ff000000000000)
     OR drop_bit 24 (x AND 0x0000ff0000000000)
     OR drop_bit 8 (x AND 0x000000ff00000000)
     OR push_bit 8 (x AND 0x00000000ff000000)
     OR push_bit 24 (x AND 0x0000000000ff0000)
     OR push_bit 40 (x AND 0x000000000000ff00)
     OR push_bit 56 (x AND 0x00000000000000ff)"

record endian_ops =
  htobe16 :: "u16 \<Rightarrow> u16"
  htole16 :: "u16 \<Rightarrow> u16"
  be16toh :: "u16 \<Rightarrow> u16"
  le16toh :: "u16 \<Rightarrow> u16"
  htobe32 :: "u32 \<Rightarrow> u32"
  htole32 :: "u32 \<Rightarrow> u32"
  be32toh :: "u32 \<Rightarrow> u32"
  le32toh :: "u32 \<Rightarrow> u32"
  htobe64 :: "u64 \<Rightarrow> u64"
  htole64 :: "u64 \<Rightarrow> u64"
  be64toh :: "u64 \<Rightarrow> u64"
  le64toh :: "u64 \<Rightarrow> u64"

definition words_bigendian_ops :: endian_ops where
  "words_bigendian_ops =
     \<lparr>htobe16 = (\<lambda>host_16bits. host_16bits),
      htole16 = (\<lambda>host_16bits. bswap_16 host_16bits),
      be16toh = (\<lambda>big_endian_16bits. big_endian_16bits),
      le16toh = (\<lambda>little_endian_16bits. bswap_16 little_endian_16bits),
      htobe32 = (\<lambda>host_32bits. host_32bits),
      htole32 = (\<lambda>host_32bits. bswap_32 host_32bits),
      be32toh = (\<lambda>big_endian_32bits. big_endian_32bits),
      le32toh = (\<lambda>little_endian_32bits. bswap_32 little_endian_32bits),
      htobe64 = (\<lambda>host_64bits. host_64bits),
      htole64 = (\<lambda>host_64bits. bswap_64 host_64bits),
      be64toh = (\<lambda>big_endian_64bits. big_endian_64bits),
      le64toh = (\<lambda>little_endian_64bits. bswap_64 little_endian_64bits)\<rparr>"

definition words_littleendian_ops :: endian_ops where
  "words_littleendian_ops =
     \<lparr>htobe16 = (\<lambda>host_16bits. bswap_16 host_16bits),
      htole16 = (\<lambda>host_16bits. host_16bits),
      be16toh = (\<lambda>big_endian_16bits. bswap_16 big_endian_16bits),
      le16toh = (\<lambda>little_endian_16bits. little_endian_16bits),
      htobe32 = (\<lambda>host_32bits. bswap_32 host_32bits),
      htole32 = (\<lambda>host_32bits. host_32bits),
      be32toh = (\<lambda>big_endian_32bits. bswap_32 big_endian_32bits),
      le32toh = (\<lambda>little_endian_32bits. little_endian_32bits),
      htobe64 = (\<lambda>host_64bits. bswap_64 host_64bits),
      htole64 = (\<lambda>host_64bits. host_64bits),
      be64toh = (\<lambda>big_endian_64bits. bswap_64 big_endian_64bits),
      le64toh = (\<lambda>little_endian_64bits. little_endian_64bits)\<rparr>"

text \<open>\<open>WORDS_BIGENDIAN\<close> selects one of the two sets of definitions.\<close>

definition endian :: "host_order \<Rightarrow> endian_ops" where
  "endian h = (case h of BigEndianHost \<Rightarrow> words_bigendian_ops
                       | LittleEndianHost \<Rightarrow> words_littleendian_ops)"

text \<open>
  Reads take the bytes from the pointer on; every caller passes at least as many bytes as the
  read copies.  Writes return the bytes stored at the pointer.
\<close>

definition ReadLE16 :: "host_order \<Rightarrow> bytes \<Rightarrow> u16" where
  "ReadLE16 h ptr = le16toh (endian h) (of_mem h (take 2 ptr))"

definition ReadLE32 :: "host_order \<Rightarrow> bytes \<Rightarrow> u32" where
  "ReadLE32 h ptr = le32toh (endian h) (of_mem h (take 4 ptr))"

definition ReadLE64 :: "host_order \<Rightarrow> bytes \<Rightarrow> u64" where
  "ReadLE64 h ptr = le64toh (endian h) (of_mem h (take 8 ptr))"

definition WriteLE16 :: "host_order \<Rightarrow> u16 \<Rightarrow> bytes" where
  "WriteLE16 h x = mem_of h (htole16 (endian h) x)"

definition WriteLE32 :: "host_order \<Rightarrow> u32 \<Rightarrow> bytes" where
  "WriteLE32 h x = mem_of h (htole32 (endian h) x)"

definition WriteLE64 :: "host_order \<Rightarrow> u64 \<Rightarrow> bytes" where
  "WriteLE64 h x = mem_of h (htole64 (endian h) x)"

definition ReadBE16 :: "host_order \<Rightarrow> bytes \<Rightarrow> u16" where
  "ReadBE16 h ptr = be16toh (endian h) (of_mem h (take 2 ptr))"

definition ReadBE32 :: "host_order \<Rightarrow> bytes \<Rightarrow> u32" where
  "ReadBE32 h ptr = be32toh (endian h) (of_mem h (take 4 ptr))"

definition ReadBE64 :: "host_order \<Rightarrow> bytes \<Rightarrow> u64" where
  "ReadBE64 h ptr = be64toh (endian h) (of_mem h (take 8 ptr))"

definition WriteBE32 :: "host_order \<Rightarrow> u32 \<Rightarrow> bytes" where
  "WriteBE32 h x = mem_of h (htobe32 (endian h) x)"

definition WriteBE64 :: "host_order \<Rightarrow> u64 \<Rightarrow> bytes" where
  "WriteBE64 h x = mem_of h (htobe64 (endian h) x)"

text \<open>
  \<open>CountBits\<close>: the portable loop; on targets with a count-leading-zeros builtin the
  compiler's version is used instead.
\<close>

function CountBits_loop :: "u64 \<Rightarrow> nat \<Rightarrow> nat" where
  "CountBits_loop x ret = (if x = 0 then ret else CountBits_loop (drop_bit 1 x) (Suc ret))"
  by pat_completeness auto
termination
proof (relation "measure (\<lambda>(x, ret). unat x)", goal_cases)
  case 1
  then show ?case by simp
next
  case (2 x ret)
  then have "0 < unat x" by (simp add: unat_gt_0)
  then show ?case by (simp only: in_measure prod.case unat_drop_bit) simp
qed

declare CountBits_loop.simps [simp del]

definition CountBits :: "u64 \<Rightarrow> nat" where
  "CountBits x = CountBits_loop x 0"

section \<open>Byte swaps reverse the bytes of the object\<close>

lemma digits_of_unat:
  "digits_of k (unat x) = (map (\<lambda>i. ucast (drop_bit (8 * i) x)) [0..<k] :: bytes)"
  for x :: "'a::len word"
proof (induction k arbitrary: x)
  case 0
  then show ?case by simp
next
  case (Suc k)
  have "unat x div 2 ^ 8 = unat (drop_bit 8 x)"
    by (simp only: unat_drop_bit)
  then have "digits_of (Suc k) (unat x)
      = (ucast x # map (\<lambda>i. ucast (drop_bit (8 * i) (drop_bit 8 x))) [0..<k] :: bytes)"
    by (simp add: Suc)
  also have "\<dots> = map (\<lambda>i. ucast (drop_bit (8 * i) x)) [0..<Suc k]"
    by (simp add: upt_conv_Cons map_Suc_upt [symmetric] add.commute del: upt_Suc)
  finally show ?case .
qed

lemma bswap_16_digits: "digits_of 2 (unat (bswap_16 x)) = rev (digits_of 2 (unat x) :: bytes)"
  unfolding digits_of_unat bswap_16_def
  by (simp add: numeral_2_eq_2 byte_eq_iff_bits all_less_8 bit_simps)

lemma bswap_32_digits: "digits_of 4 (unat (bswap_32 x)) = rev (digits_of 4 (unat x) :: bytes)"
  unfolding digits_of_unat bswap_32_def
  by (simp add: upt_rec byte_eq_iff_bits all_less_8 bit_simps)

lemma bswap_64_digits: "digits_of 8 (unat (bswap_64 x)) = rev (digits_of 8 (unat x) :: bytes)"
  unfolding digits_of_unat bswap_64_def
  by (simp add: upt_rec byte_eq_iff_bits all_less_8 bit_simps)

lemma swap_of_mem:
  fixes sw :: "'a::len word \<Rightarrow> 'a word" and bs :: bytes
  assumes sw: "\<And>x. digits_of k (unat (sw x)) = rev (digits_of k (unat x) :: bytes)"
    and k: "LENGTH('a) = 8 * k" and bs: "length bs = k"
  shows "sw (word_of_nat (val_of (rev bs))) = word_of_nat (val_of bs)"
proof -
  define y :: "'a word" where "y = word_of_nat (val_of (rev bs))"
  have ylt: "val_of (rev bs) < 2 ^ LENGTH('a)"
    using val_of_less [of "rev bs"] bs k by simp
  then have uy: "unat y = val_of (rev bs)"
    by (simp add: y_def unat_of_nat)
  have "digits_of k (unat (sw y)) = rev (digits_of (length (rev bs)) (val_of (rev bs)) :: bytes)"
    using sw [of y] bs by (simp add: uy)
  then have "digits_of k (unat (sw y)) = bs"
    by (simp only: digits_of_val_of rev_rev_ident)
  then have "val_of bs = unat (sw y) mod 2 ^ (8 * k)"
    using val_of_digits_of [of k "unat (sw y)", where 'a = 8] by simp
  then have "val_of bs = unat (sw y)"
    using unat_lt2p [of "sw y"] k by (simp add: mod_less)
  then show ?thesis by (simp add: y_def)
qed

lemmas swap_of_mem_16 = swap_of_mem [OF bswap_16_digits, simplified]
lemmas swap_of_mem_32 = swap_of_mem [OF bswap_32_digits, simplified]
lemmas swap_of_mem_64 = swap_of_mem [OF bswap_64_digits, simplified]

lemmas endian_defs =
  endian_def words_bigendian_ops_def words_littleendian_ops_def mem_of_def of_mem_def Let_def

section \<open>The bytes written and the values read do not depend on the host\<close>

lemma WriteLE16_bytes [simp]: "WriteLE16 h x = digits_of 2 (unat x)"
  by (cases h) (simp_all add: WriteLE16_def endian_defs bswap_16_digits)

lemma WriteLE32_bytes [simp]: "WriteLE32 h x = digits_of 4 (unat x)"
  by (cases h) (simp_all add: WriteLE32_def endian_defs bswap_32_digits)

lemma WriteLE64_bytes [simp]: "WriteLE64 h x = digits_of 8 (unat x)"
  by (cases h) (simp_all add: WriteLE64_def endian_defs bswap_64_digits)

lemma WriteBE32_bytes [simp]: "WriteBE32 h x = rev (digits_of 4 (unat x))"
  by (cases h) (simp_all add: WriteBE32_def endian_defs bswap_32_digits)

lemma WriteBE64_bytes [simp]: "WriteBE64 h x = rev (digits_of 8 (unat x))"
  by (cases h) (simp_all add: WriteBE64_def endian_defs bswap_64_digits)

lemma ReadLE16_value: "2 \<le> length ptr \<Longrightarrow> ReadLE16 h ptr = word_of_nat (val_of (take 2 ptr))"
  by (cases h) (simp_all add: ReadLE16_def endian_defs swap_of_mem_16)

lemma ReadLE32_value: "4 \<le> length ptr \<Longrightarrow> ReadLE32 h ptr = word_of_nat (val_of (take 4 ptr))"
  by (cases h) (simp_all add: ReadLE32_def endian_defs swap_of_mem_32)

lemma ReadLE64_value: "8 \<le> length ptr \<Longrightarrow> ReadLE64 h ptr = word_of_nat (val_of (take 8 ptr))"
  by (cases h) (simp_all add: ReadLE64_def endian_defs swap_of_mem_64)

lemma ReadBE16_value: "2 \<le> length ptr \<Longrightarrow> ReadBE16 h ptr = word_of_nat (val_of (rev (take 2 ptr)))"
  using swap_of_mem_16 [of "rev (take 2 ptr)"]
  by (cases h) (simp_all add: ReadBE16_def endian_defs)

lemma ReadBE32_value: "4 \<le> length ptr \<Longrightarrow> ReadBE32 h ptr = word_of_nat (val_of (rev (take 4 ptr)))"
  using swap_of_mem_32 [of "rev (take 4 ptr)"]
  by (cases h) (simp_all add: ReadBE32_def endian_defs)

lemma ReadBE64_value: "8 \<le> length ptr \<Longrightarrow> ReadBE64 h ptr = word_of_nat (val_of (rev (take 8 ptr)))"
  using swap_of_mem_64 [of "rev (take 8 ptr)"]
  by (cases h) (simp_all add: ReadBE64_def endian_defs)

lemma word_of_nat_val_of_digits [simp]:
  assumes "LENGTH('a) = 8 * k"
  shows "(word_of_nat (val_of (digits_of k (unat x) :: bytes)) :: 'a::len word) = x"
  by (simp add: digit_simps assms [symmetric] word_unat_eq_iff unat_of_nat)

lemmas endian_values =
  ReadLE16_value ReadLE32_value ReadLE64_value ReadBE16_value ReadBE32_value ReadBE64_value

text \<open>
  Property.  What one host writes every other host reads back, in either byte order and at
  every width, whatever follows the bytes in the buffer; no combination of the two preprocessor
  halves of \<open>endian.h\<close> makes a difference.
\<close>

theorem endian_portable:
  "ReadLE16 h (WriteLE16 w x @ rest) = x \<and>
   ReadLE32 h (WriteLE32 w y @ rest) = y \<and>
   ReadLE64 h (WriteLE64 w z @ rest) = z \<and>
   ReadBE32 h (WriteBE32 w y @ rest) = y \<and>
   ReadBE64 h (WriteBE64 w z @ rest) = z"
  by (simp add: endian_values)

section \<open>CountBits\<close>

lemma CountBits_loop_add: "CountBits_loop x (ret + k) = CountBits_loop x ret + k"
proof (induction x ret rule: CountBits_loop.induct)
  case (1 x ret)
  show ?case
    using 1 by (cases "x = 0") (simp_all add: CountBits_loop.simps [of x] CountBits_loop.simps [of 0])
qed

lemma CountBits_0 [simp]: "CountBits 0 = 0"
  by (simp add: CountBits_def CountBits_loop.simps)

lemma CountBits_rec: "CountBits x = (if x = 0 then 0 else Suc (CountBits (drop_bit 1 x)))"
  using CountBits_loop_add [of "drop_bit 1 x" 0 1]
  by (simp add: CountBits_def CountBits_loop.simps [of x])

lemma CountBits_least: "drop_bit n x = 0 \<longleftrightarrow> CountBits x \<le> n"
proof (induction n arbitrary: x)
  case 0
  show ?case by (simp add: CountBits_rec [of x])
next
  case (Suc n)
  have "drop_bit (Suc n) x = drop_bit n (drop_bit 1 x)"
    by (simp only: drop_bit_drop_bit) simp
  with Suc [of "drop_bit 1 x"] show ?case
    by (simp add: CountBits_rec [of x] del: drop_bit_drop_bit)
qed

end
