(* ===== verification/Streams.thy ===== *)
theory Streams
  imports Endian
begin

text \<open>
  The byte streams of \<open>streams.h\<close> and the size counting stream of \<open>serialize.h\<close>.  The
  serialisation templates are generic in the stream class; what a template uses of its stream
  is a record of operations, \<open>sink_ops\<close> for writing and \<open>source_ops\<close> for reading, with the
  byte order of the host the templates are compiled for.  Two locales state what a lawful sink
  and a lawful source promise; \<open>CDataStream\<close>, \<open>CVectorWriter\<close>, \<open>CAutoFile\<close>,
  \<open>OverrideStream\<close> and \<open>CSizeComputer\<close> are interpretations of them.
\<close>

section \<open>What a template uses of its stream\<close>

text \<open>
  \<open>sk_compact\<close> is the stream's own overload of \<open>WriteCompactSize\<close>, which only
  \<open>CSizeComputer\<close> has.
\<close>

record 's sink_ops =
  sk_host :: host_order
  sk_write :: "'s \<Rightarrow> bytes \<Rightarrow> 's res"
  sk_compact :: "('s \<Rightarrow> u64 \<Rightarrow> 's res) option"

record 's source_ops =
  sc_host :: host_order
  sc_read :: "'s \<Rightarrow> nat \<Rightarrow> (bytes \<times> 's) res"

section \<open>CBaseDataStream\<close>

record CBaseDataStream =
  ds_vch :: bytes
  ds_nReadPos :: u32
  ds_nType :: int
  ds_nVersion :: int

definition DataStream_Init :: "CBaseDataStream \<Rightarrow> int \<Rightarrow> int \<Rightarrow> CBaseDataStream" where
  "DataStream_Init s nTypeIn nVersionIn =
     s\<lparr>ds_nReadPos := 0, ds_nType := nTypeIn, ds_nVersion := nVersionIn\<rparr>"

definition DataStream_new :: "int \<Rightarrow> int \<Rightarrow> CBaseDataStream" where
  "DataStream_new nTypeIn nVersionIn =
     DataStream_Init \<lparr>ds_vch = [], ds_nReadPos = 0, ds_nType = 0, ds_nVersion = 0\<rparr> nTypeIn nVersionIn"

definition DataStream_from :: "bytes \<Rightarrow> int \<Rightarrow> int \<Rightarrow> CBaseDataStream" where
  "DataStream_from vchIn nTypeIn nVersionIn =
     DataStream_Init \<lparr>ds_vch = vchIn, ds_nReadPos = 0, ds_nType = 0, ds_nVersion = 0\<rparr> nTypeIn nVersionIn"

text \<open>An iterator into the buffer is its index.\<close>

definition DataStream_begin :: "CBaseDataStream \<Rightarrow> nat" where
  "DataStream_begin s = unat (ds_nReadPos s)"

definition DataStream_end :: "CBaseDataStream \<Rightarrow> nat" where
  "DataStream_end s = length (ds_vch s)"

definition DataStream_size :: "CBaseDataStream \<Rightarrow> u64" where
  "DataStream_size s = word_of_nat (length (ds_vch s)) - ucast (ds_nReadPos s)"

definition DataStream_empty :: "CBaseDataStream \<Rightarrow> bool" where
  "DataStream_empty s \<longleftrightarrow> length (ds_vch s) = unat (ds_nReadPos s)"

text \<open>The range from \<open>begin()\<close> to \<open>end()\<close>; it is no range once \<open>movePos\<close> went past the end.\<close>

definition DataStream_range :: "CBaseDataStream \<Rightarrow> bytes res" where
  "DataStream_range s =
     (if DataStream_begin s \<le> DataStream_end s then Inr (drop (DataStream_begin s) (ds_vch s))
      else Inl (UndefinedBehaviour ''iterator past the end''))"

definition DataStream_append :: "CBaseDataStream \<Rightarrow> CBaseDataStream \<Rightarrow> CBaseDataStream res" where
  "DataStream_append s b =
     bindE (DataStream_range b) (\<lambda>xs. Inr (s\<lparr>ds_vch := ds_vch s @ xs\<rparr>))"

definition DataStream_str :: "CBaseDataStream \<Rightarrow> bytes res" where
  "DataStream_str s = DataStream_range s"

definition DataStream_resize :: "CBaseDataStream \<Rightarrow> nat \<Rightarrow> u8 \<Rightarrow> CBaseDataStream" where
  "DataStream_resize s n c =
     (let m = n + unat (ds_nReadPos s)
      in s\<lparr>ds_vch := take m (ds_vch s) @ replicate (m - length (ds_vch s)) c\<rparr>)"

definition DataStream_at :: "CBaseDataStream \<Rightarrow> nat \<Rightarrow> u8 res" where
  "DataStream_at s pos =
     (if pos + unat (ds_nReadPos s) < length (ds_vch s) then Inr (ds_vch s ! (pos + unat (ds_nReadPos s)))
      else Inl (UndefinedBehaviour ''operator[]''))"

definition DataStream_clear :: "CBaseDataStream \<Rightarrow> CBaseDataStream" where
  "DataStream_clear s = s\<lparr>ds_vch := [], ds_nReadPos := 0\<rparr>"

definition vector_insert :: "bytes \<Rightarrow> nat \<Rightarrow> bytes \<Rightarrow> bytes res" where
  "vector_insert v it xs =
     (if it \<le> length v then Inr (take it v @ xs @ drop it v)
      else Inl (UndefinedBehaviour ''insert past the end''))"

definition DataStream_insert :: "CBaseDataStream \<Rightarrow> nat \<Rightarrow> bytes \<Rightarrow> CBaseDataStream res" where
  "DataStream_insert s it xs =
     (if xs = [] then Inr s
      else if it = unat (ds_nReadPos s)
              \<and> (word_of_nat (length xs) :: u32) \<le> ds_nReadPos s then
        (let p = ds_nReadPos s - word_of_nat (length xs)
         in if unat p + length xs \<le> length (ds_vch s)
            then Inr (s\<lparr>ds_nReadPos := p,
                        ds_vch := take (unat p) (ds_vch s) @ xs @ drop (unat p + length xs) (ds_vch s)\<rparr>)
            else Inl (UndefinedBehaviour ''memcpy past the end''))
      else bindE (vector_insert (ds_vch s) it xs) (\<lambda>v. Inr (s\<lparr>ds_vch := v\<rparr>)))"

definition DataStream_erase1 :: "CBaseDataStream \<Rightarrow> nat \<Rightarrow> (nat \<times> CBaseDataStream) res" where
  "DataStream_erase1 s it =
     (if it = unat (ds_nReadPos s) then
        (let p = ds_nReadPos s + 1
         in if length (ds_vch s) \<le> unat p then Inr (0, s\<lparr>ds_vch := [], ds_nReadPos := 0\<rparr>)
            else Inr (unat p, s\<lparr>ds_nReadPos := p\<rparr>))
      else if it < length (ds_vch s) then
        Inr (it, s\<lparr>ds_vch := take it (ds_vch s) @ drop (Suc it) (ds_vch s)\<rparr>)
      else Inl (UndefinedBehaviour ''erase past the end''))"

definition DataStream_erase :: "CBaseDataStream \<Rightarrow> nat \<Rightarrow> nat \<Rightarrow> (nat \<times> CBaseDataStream) res" where
  "DataStream_erase s first lst =
     (if first = unat (ds_nReadPos s) then
        (if lst = length (ds_vch s) then Inr (0, s\<lparr>ds_vch := [], ds_nReadPos := 0\<rparr>)
         else Inr (lst, s\<lparr>ds_nReadPos := word_of_nat lst\<rparr>))
      else if first \<le> lst \<and> lst \<le> length (ds_vch s) then
        Inr (first, s\<lparr>ds_vch := take first (ds_vch s) @ drop lst (ds_vch s)\<rparr>)
      else Inl (UndefinedBehaviour ''erase past the end''))"

definition DataStream_Compact :: "CBaseDataStream \<Rightarrow> CBaseDataStream res" where
  "DataStream_Compact s =
     (if unat (ds_nReadPos s) \<le> length (ds_vch s)
      then Inr (s\<lparr>ds_vch := drop (unat (ds_nReadPos s)) (ds_vch s), ds_nReadPos := 0\<rparr>)
      else Inl (UndefinedBehaviour ''erase past the end''))"

definition DataStream_Rewind :: "CBaseDataStream \<Rightarrow> nat \<Rightarrow> bool \<times> CBaseDataStream" where
  "DataStream_Rewind s n =
     (if n > unat (ds_nReadPos s) then (False, s)
      else (True, s\<lparr>ds_nReadPos := ds_nReadPos s - word_of_nat n\<rparr>))"

definition DataStream_eof :: "CBaseDataStream \<Rightarrow> bool" where
  "DataStream_eof s \<longleftrightarrow> DataStream_size s = 0"

text \<open>
  \<open>nReadPosNext\<close> is an \<open>unsigned int\<close>: the sum with a \<open>size_t\<close> is cut to 32 bits before it
  is compared with the size of the buffer.
\<close>

definition DataStream_read :: "CBaseDataStream \<Rightarrow> nat \<Rightarrow> (bytes \<times> CBaseDataStream) res" where
  "DataStream_read s nSize =
     (if nSize = 0 then Inr ([], s)
      else
        let nReadPosNext = ds_nReadPos s + word_of_nat nSize
        in if unat nReadPosNext > length (ds_vch s) then
             Inl (IosFailure ''CDataStream::read(): end of data'')
           else if unat (ds_nReadPos s) + nSize > length (ds_vch s) then
             Inl (UndefinedBehaviour ''memcpy past the end'')
           else
             let pch = take nSize (drop (unat (ds_nReadPos s)) (ds_vch s))
             in if unat nReadPosNext = length (ds_vch s)
                then Inr (pch, s\<lparr>ds_nReadPos := 0, ds_vch := []\<rparr>)
                else Inr (pch, s\<lparr>ds_nReadPos := nReadPosNext\<rparr>))"

definition DataStream_movePos :: "CBaseDataStream \<Rightarrow> nat \<Rightarrow> CBaseDataStream" where
  "DataStream_movePos s nSize = s\<lparr>ds_nReadPos := ds_nReadPos s + word_of_nat nSize\<rparr>"

definition DataStream_ignore :: "CBaseDataStream \<Rightarrow> int \<Rightarrow> CBaseDataStream res" where
  "DataStream_ignore s nSize =
     (if nSize < 0 then Inl (IosFailure ''CBaseDataStream::ignore(): nSize negative'')
      else
        let nReadPosNext = ds_nReadPos s + word_of_int nSize
        in if unat nReadPosNext \<ge> length (ds_vch s) then
             (if unat nReadPosNext > length (ds_vch s)
              then Inl (IosFailure ''CBaseDataStream::ignore() : end of data'')
              else Inr (s\<lparr>ds_nReadPos := 0, ds_vch := []\<rparr>))
           else Inr (s\<lparr>ds_nReadPos := nReadPosNext\<rparr>))"

definition DataStream_write :: "CBaseDataStream \<Rightarrow> bytes \<Rightarrow> CBaseDataStream res" where
  "DataStream_write s pch = Inr (s\<lparr>ds_vch := ds_vch s @ pch\<rparr>)"

definition DataStream_Serialize :: "'s sink_ops \<Rightarrow> 's \<Rightarrow> CBaseDataStream \<Rightarrow> 's res" where
  "DataStream_Serialize W s d = (if ds_vch d = [] then Inr s else sk_write W s (ds_vch d))"

definition DataStream_GetAndClear ::
  "CBaseDataStream \<Rightarrow> bytes \<Rightarrow> (bytes \<times> CBaseDataStream) res" where
  "DataStream_GetAndClear s data =
     bindE (DataStream_range s) (\<lambda>xs. Inr (data @ xs, DataStream_clear s))"

definition DataStream_sink :: "host_order \<Rightarrow> CBaseDataStream sink_ops" where
  "DataStream_sink h = \<lparr>sk_host = h, sk_write = DataStream_write, sk_compact = None\<rparr>"

definition DataStream_source :: "host_order \<Rightarrow> CBaseDataStream source_ops" where
  "DataStream_source h = \<lparr>sc_host = h, sc_read = DataStream_read\<rparr>"

section \<open>CVectorWriter\<close>

text \<open>\<open>vchData\<close> is a reference to a vector of the caller; the model returns it updated.\<close>

record CVectorWriter =
  vw_nType :: int
  vw_nVersion :: int
  vw_vchData :: bytes
  vw_nPos :: nat

definition vector_resize :: "bytes \<Rightarrow> nat \<Rightarrow> bytes" where
  "vector_resize v n = take n v @ replicate (n - length v) 0"

definition VectorWriter_new :: "int \<Rightarrow> int \<Rightarrow> bytes \<Rightarrow> nat \<Rightarrow> CVectorWriter" where
  "VectorWriter_new nTypeIn nVersionIn vchDataIn nPosIn =
     \<lparr>vw_nType = nTypeIn, vw_nVersion = nVersionIn,
      vw_vchData = (if nPosIn > length vchDataIn then vector_resize vchDataIn nPosIn else vchDataIn),
      vw_nPos = nPosIn\<rparr>"

definition VectorWriter_write :: "CVectorWriter \<Rightarrow> bytes \<Rightarrow> CVectorWriter res" where
  "VectorWriter_write s pch =
     (if \<not> vw_nPos s \<le> length (vw_vchData s) then
        Inl (AssertFailed ''nPos <= vw_vchData.size()'')
      else
        let nSize = length pch;
            nOverwrite = min nSize (length (vw_vchData s) - vw_nPos s);
            v1 = (if nOverwrite \<noteq> 0
                  then take (vw_nPos s) (vw_vchData s) @ take nOverwrite pch
                       @ drop (vw_nPos s + nOverwrite) (vw_vchData s)
                  else vw_vchData s);
            v2 = (if nOverwrite < nSize then v1 @ drop nOverwrite pch else v1)
        in Inr (s\<lparr>vw_vchData := v2, vw_nPos := vw_nPos s + nSize\<rparr>))"

definition VectorWriter_seek :: "CVectorWriter \<Rightarrow> nat \<Rightarrow> CVectorWriter" where
  "VectorWriter_seek s nSize =
     (let p = vw_nPos s + nSize
      in s\<lparr>vw_nPos := p,
           vw_vchData := (if p > length (vw_vchData s) then vector_resize (vw_vchData s) p
                       else vw_vchData s)\<rparr>)"

definition VectorWriter_sink :: "host_order \<Rightarrow> CVectorWriter sink_ops" where
  "VectorWriter_sink h = \<lparr>sk_host = h, sk_write = VectorWriter_write, sk_compact = None\<rparr>"

section \<open>CAutoFile\<close>

text \<open>
  A C library \<open>FILE\<close>: its contents, the file position, the end-of-file flag \<open>feof\<close> reports,
  and whether the device has failed.  \<open>fread\<close> returns fewer bytes than asked for at the end
  of the file, and none from a failed device; \<open>fwrite\<close> writes at the file position.
\<close>

record FILE =
  f_data :: bytes
  f_pos :: nat
  f_eof :: bool
  f_failed :: bool

definition fread :: "nat \<Rightarrow> FILE \<Rightarrow> bytes \<times> FILE" where
  "fread n f =
     (if f_failed f then ([], f)
      else let got = take n (drop (f_pos f) (f_data f))
           in (got, f\<lparr>f_pos := f_pos f + length got,
                      f_eof := (f_eof f \<or> length got < n)\<rparr>))"

definition fwrite :: "bytes \<Rightarrow> FILE \<Rightarrow> nat \<times> FILE" where
  "fwrite bs f =
     (if f_failed f then (0, f)
      else (length bs,
            f\<lparr>f_data := take (f_pos f) (f_data f) @ replicate (f_pos f - length (f_data f)) 0
                @ bs @ drop (f_pos f + length bs) (f_data f),
              f_pos := f_pos f + length bs\<rparr>))"

record CAutoFile =
  af_nType :: int
  af_nVersion :: int
  af_file :: "FILE option"

definition AutoFile_new :: "FILE option \<Rightarrow> int \<Rightarrow> int \<Rightarrow> CAutoFile" where
  "AutoFile_new filenew nTypeIn nVersionIn =
     \<lparr>af_nType = nTypeIn, af_nVersion = nVersionIn, af_file = filenew\<rparr>"

definition AutoFile_fclose :: "CAutoFile \<Rightarrow> CAutoFile" where
  "AutoFile_fclose s = (case af_file s of None \<Rightarrow> s | Some f \<Rightarrow> s\<lparr>af_file := None\<rparr>)"

definition AutoFile_release :: "CAutoFile \<Rightarrow> FILE option \<times> CAutoFile" where
  "AutoFile_release s = (af_file s, s\<lparr>af_file := None\<rparr>)"

definition AutoFile_IsNull :: "CAutoFile \<Rightarrow> bool" where
  "AutoFile_IsNull s \<longleftrightarrow> af_file s = None"

definition AutoFile_read :: "CAutoFile \<Rightarrow> nat \<Rightarrow> (bytes \<times> CAutoFile) res" where
  "AutoFile_read s nSize =
     (case af_file s of
        None \<Rightarrow> Inl (IosFailure ''CAutoFile::read : file handle is NULL'')
      | Some f \<Rightarrow>
          (case fread nSize f of (pch, f') \<Rightarrow>
             if length pch \<noteq> nSize then
               Inl (IosFailure (if f_eof f' then ''CAutoFile::read : end of file''
                                else ''CAutoFile::read : fread failed''))
             else Inr (pch, s\<lparr>af_file := Some f'\<rparr>)))"

function AutoFile_ignore_loop :: "FILE \<Rightarrow> nat \<Rightarrow> FILE res" where
  "AutoFile_ignore_loop f nSize =
     (if nSize > 0 then
        (case fread (min nSize 4096) f of (got, f') \<Rightarrow>
           if length got \<noteq> min nSize 4096 then
             Inl (IosFailure (if f_eof f' then ''CAutoFile::ignore: end of file''
                              else ''CAutoFile::read: fread failed''))
           else AutoFile_ignore_loop f' (nSize - min nSize 4096))
      else Inr f)"
  by pat_completeness auto
termination
  by (relation "measure (\<lambda>(f, nSize). nSize)") auto

declare AutoFile_ignore_loop.simps [simp del]

definition AutoFile_ignore :: "CAutoFile \<Rightarrow> nat \<Rightarrow> CAutoFile res" where
  "AutoFile_ignore s nSize =
     (case af_file s of
        None \<Rightarrow> Inl (IosFailure ''CAutoFile::ignore: file handle is NULL'')
      | Some f \<Rightarrow> bindE (AutoFile_ignore_loop f nSize) (\<lambda>f'. Inr (s\<lparr>af_file := Some f'\<rparr>)))"

definition AutoFile_write :: "CAutoFile \<Rightarrow> bytes \<Rightarrow> CAutoFile res" where
  "AutoFile_write s pch =
     (case af_file s of
        None \<Rightarrow> Inl (IosFailure ''CAutoFile::write : file handle is NULL'')
      | Some f \<Rightarrow>
          (case fwrite pch f of (n, f') \<Rightarrow>
             if n \<noteq> length pch then Inl (IosFailure ''CAutoFile::write : write failed'')
             else Inr (s\<lparr>af_file := Some f'\<rparr>)))"

definition AutoFile_sink :: "host_order \<Rightarrow> CAutoFile sink_ops" where
  "AutoFile_sink h = \<lparr>sk_host = h, sk_write = AutoFile_write, sk_compact = None\<rparr>"

definition AutoFile_source :: "host_order \<Rightarrow> CAutoFile source_ops" where
  "AutoFile_source h = \<lparr>sc_host = h, sc_read = AutoFile_read\<rparr>"

section \<open>OverrideStream\<close>

text \<open>
  A stream that forwards to another one under a different type and version.  The pointer to the
  inner stream is modelled by the inner stream's state, which every forwarded call updates.
\<close>

record 's OverrideStream =
  os_stream :: 's
  os_nType :: int
  os_nVersion :: int

definition OverrideStream_write ::
  "('s \<Rightarrow> bytes \<Rightarrow> 's res) \<Rightarrow> 's OverrideStream \<Rightarrow> bytes \<Rightarrow> 's OverrideStream res" where
  "OverrideStream_write wr s pch =
     bindE (wr (os_stream s) pch) (\<lambda>st. Inr (s\<lparr>os_stream := st\<rparr>))"

definition OverrideStream_read ::
  "('s \<Rightarrow> nat \<Rightarrow> (bytes \<times> 's) res) \<Rightarrow> 's OverrideStream \<Rightarrow> nat
     \<Rightarrow> (bytes \<times> 's OverrideStream) res" where
  "OverrideStream_read rd s nSize =
     bindE (rd (os_stream s) nSize) (\<lambda>(pch, st). Inr (pch, s\<lparr>os_stream := st\<rparr>))"

definition OverrideStream_ignore ::
  "('s \<Rightarrow> nat \<Rightarrow> 's res) \<Rightarrow> 's OverrideStream \<Rightarrow> nat \<Rightarrow> 's OverrideStream res" where
  "OverrideStream_ignore ign s sz =
     bindE (ign (os_stream s) sz) (\<lambda>st. Inr (s\<lparr>os_stream := st\<rparr>))"

section \<open>CSizeComputer\<close>

text \<open>The size the compact size of \<open>serialize.h\<close> takes, which this stream's overload counts.\<close>

definition GetSizeOfCompactSize :: "u64 \<Rightarrow> nat" where
  "GetSizeOfCompactSize nSize =
     (if nSize < 253 then 1
      else if nSize \<le> 0xffff then 1 + 2
      else if nSize \<le> 0xffffffff then 1 + 4
      else 1 + 8)"

record CSizeComputer =
  sz_nSize :: nat
  sz_nVersion :: int

definition SizeComputer_new :: "int \<Rightarrow> CSizeComputer" where
  "SizeComputer_new nVersionIn = \<lparr>sz_nSize = 0, sz_nVersion = nVersionIn\<rparr>"

definition SizeComputer_write :: "CSizeComputer \<Rightarrow> bytes \<Rightarrow> CSizeComputer res" where
  "SizeComputer_write s psz = Inr (s\<lparr>sz_nSize := sz_nSize s + length psz\<rparr>)"

definition SizeComputer_seek :: "CSizeComputer \<Rightarrow> nat \<Rightarrow> CSizeComputer" where
  "SizeComputer_seek s n = s\<lparr>sz_nSize := sz_nSize s + n\<rparr>"

definition SizeComputer_size :: "CSizeComputer \<Rightarrow> nat" where
  "SizeComputer_size s = sz_nSize s"

definition SizeComputer_WriteCompactSize :: "CSizeComputer \<Rightarrow> u64 \<Rightarrow> CSizeComputer res" where
  "SizeComputer_WriteCompactSize s nSize = Inr (SizeComputer_seek s (GetSizeOfCompactSize nSize))"

definition SizeComputer_sink :: "host_order \<Rightarrow> CSizeComputer sink_ops" where
  "SizeComputer_sink h =
     \<lparr>sk_host = h, sk_write = SizeComputer_write,
      sk_compact = Some SizeComputer_WriteCompactSize\<rparr>"

section \<open>Lawful sinks and sources\<close>

text \<open>
  A counting sink accepts every write and counts its bytes; its overload of
  \<open>WriteCompactSize\<close>, if it has one, counts as many bytes as the encoding has.
\<close>

locale count_sink =
  fixes W :: "'s sink_ops" and cnt :: "'s \<Rightarrow> nat" and winv :: "'s \<Rightarrow> bool"
  assumes cnt_write:
      "winv s \<Longrightarrow> \<exists>s'. sk_write W s bs = Inr s' \<and> winv s' \<and> cnt s' = cnt s + length bs"
    and cnt_compact:
      "winv s \<Longrightarrow> sk_compact W = Some f \<Longrightarrow>
       \<exists>s'. f s n = Inr s' \<and> winv s' \<and> cnt s' = cnt s + GetSizeOfCompactSize n"

text \<open>A byte sink keeps the bytes written to it, in order.\<close>

locale byte_sink =
  fixes W :: "'s sink_ops" and out :: "'s \<Rightarrow> bytes" and winv :: "'s \<Rightarrow> bool"
  assumes no_compact: "sk_compact W = None"
    and write_ok:
      "winv s \<Longrightarrow> \<exists>s'. sk_write W s bs = Inr s' \<and> winv s' \<and> out s' = out s @ bs"

sublocale byte_sink \<subseteq> cnt: count_sink W "\<lambda>s. length (out s)" winv
proof unfold_locales
  fix s bs assume "winv s"
  then show "\<exists>s'. sk_write W s bs = Inr s' \<and> winv s' \<and> length (out s') = length (out s) + length bs"
    using write_ok [of s bs] by auto
qed (simp add: no_compact)

text \<open>
  A byte source delivers the bytes in front of it in order, and raises when it has fewer bytes
  than asked for.  The bound on the size of a read is what the 32-bit read position of
  \<open>CDataStream\<close> needs; every read of the program asks for at most \<open>MAX_SIZE = 2 ^ 25\<close> bytes.
\<close>

locale byte_source =
  fixes R :: "'s source_ops" and inp :: "'s \<Rightarrow> bytes" and rinv :: "'s \<Rightarrow> bool"
  assumes read_ok:
      "rinv s \<Longrightarrow> n \<le> length (inp s) \<Longrightarrow>
       \<exists>s'. sc_read R s n = Inr (take n (inp s), s') \<and> rinv s' \<and> inp s' = drop n (inp s)"
    and read_short:
      "rinv s \<Longrightarrow> length (inp s) < n \<Longrightarrow> n \<le> 2 ^ 31 \<Longrightarrow> \<exists>m. sc_read R s n = Inl (IosFailure m)"

text \<open>Forwarding through an \<open>OverrideStream\<close> keeps the laws.\<close>

context byte_sink
begin

lemma OverrideStream_lawful:
  "byte_sink \<lparr>sk_host = sk_host W, sk_write = OverrideStream_write (sk_write W), sk_compact = None\<rparr>
     (\<lambda>s. out (os_stream s)) (\<lambda>s. winv (os_stream s))"
proof unfold_locales
  fix s :: "'s OverrideStream" and bs
  assume "winv (os_stream s)"
  then obtain st where "sk_write W (os_stream s) bs = Inr st" "winv st" "out st = out (os_stream s) @ bs"
    using write_ok by blast
  then show "\<exists>s'. sk_write \<lparr>sk_host = sk_host W, sk_write = OverrideStream_write (sk_write W),
      sk_compact = None\<rparr> s bs = Inr s' \<and> winv (os_stream s') \<and> out (os_stream s') = out (os_stream s) @ bs"
    by (auto simp: OverrideStream_write_def)
qed simp

end

context byte_source
begin

lemma OverrideStream_lawful:
  "byte_source \<lparr>sc_host = sc_host R, sc_read = OverrideStream_read (sc_read R)\<rparr>
     (\<lambda>s. inp (os_stream s)) (\<lambda>s. rinv (os_stream s))"
proof unfold_locales
  fix s :: "'s OverrideStream" and n
  assume "rinv (os_stream s)" "n \<le> length (inp (os_stream s))"
  from read_ok [OF this] show "\<exists>s'. sc_read \<lparr>sc_host = sc_host R,
      sc_read = OverrideStream_read (sc_read R)\<rparr> s n = Inr (take n (inp (os_stream s)), s') \<and>
      rinv (os_stream s') \<and> inp (os_stream s') = drop n (inp (os_stream s))"
    by (auto simp: OverrideStream_read_def)
next
  fix s :: "'s OverrideStream" and n :: nat
  assume "rinv (os_stream s)" "length (inp (os_stream s)) < n" "n \<le> 2 ^ 31"
  from read_short [OF this] show "\<exists>m. sc_read \<lparr>sc_host = sc_host R,
      sc_read = OverrideStream_read (sc_read R)\<rparr> s n = Inl (IosFailure m)"
    by (auto simp: OverrideStream_read_def)
qed

end

section \<open>CBaseDataStream is a byte queue\<close>

definition pending :: "CBaseDataStream \<Rightarrow> bytes" where
  "pending s = drop (unat (ds_nReadPos s)) (ds_vch s)"

definition DataStream_ok :: "CBaseDataStream \<Rightarrow> bool" where
  "DataStream_ok s \<longleftrightarrow> unat (ds_nReadPos s) \<le> length (ds_vch s)"

definition DataStream_rok :: "CBaseDataStream \<Rightarrow> bool" where
  "DataStream_rok s \<longleftrightarrow> DataStream_ok s \<and> length (ds_vch s) < 2 ^ 31"

lemma DataStream_write_pending:
  "DataStream_ok s \<Longrightarrow> \<exists>s'. DataStream_write s bs = Inr s' \<and> DataStream_ok s'
     \<and> pending s' = pending s @ bs \<and> ds_vch s' = ds_vch s @ bs"
  by (auto simp: DataStream_write_def DataStream_ok_def pending_def)

lemma DataStream_read_pending:
  assumes ok: "DataStream_rok s" and n: "n \<le> length (pending s)"
  shows "\<exists>s'. DataStream_read s n = Inr (take n (pending s), s') \<and> DataStream_rok s'
     \<and> pending s' = drop n (pending s) \<and> length (ds_vch s') \<le> length (ds_vch s)"
proof (cases "n = 0")
  case True
  then show ?thesis using ok by (simp add: DataStream_read_def)
next
  case False
  have le: "unat (ds_nReadPos s) + n \<le> length (ds_vch s)"
    using ok n by (auto simp: DataStream_rok_def DataStream_ok_def pending_def)
  moreover from this ok have "unat (ds_nReadPos s + word_of_nat n) = unat (ds_nReadPos s) + n"
    by (intro unat_add_of_nat) (simp add: DataStream_rok_def)
  ultimately show ?thesis
    using False ok
    by (auto simp: DataStream_read_def Let_def pending_def DataStream_rok_def DataStream_ok_def
          add.commute)
qed

lemma DataStream_read_short:
  assumes ok: "DataStream_rok s" and n: "length (pending s) < n" "n \<le> 2 ^ 31"
  shows "DataStream_read s n = Inl (IosFailure ''CDataStream::read(): end of data'')"
proof -
  have "length (ds_vch s) < unat (ds_nReadPos s) + n"
    using ok n by (auto simp: DataStream_rok_def DataStream_ok_def pending_def)
  moreover have "unat (ds_nReadPos s + word_of_nat n) = unat (ds_nReadPos s) + n"
    using ok n by (intro unat_add_of_nat) (simp add: DataStream_rok_def DataStream_ok_def)
  ultimately show ?thesis
    using n by (simp add: DataStream_read_def Let_def)
qed

interpretation ds_out: byte_sink "DataStream_sink h" pending DataStream_ok for h
  using DataStream_write_pending by unfold_locales (auto simp: DataStream_sink_def)

interpretation ds_in: byte_source "DataStream_source h" pending DataStream_rok for h
  using DataStream_read_pending DataStream_read_short
  by unfold_locales (fastforce simp: DataStream_source_def)+

interpretation ovds_out: byte_sink
  "\<lparr>sk_host = sk_host (DataStream_sink h),
    sk_write = OverrideStream_write (sk_write (DataStream_sink h)), sk_compact = None\<rparr>"
  "\<lambda>s. pending (os_stream s)" "\<lambda>s. DataStream_ok (os_stream s)" for h
  by (rule ds_out.OverrideStream_lawful)

interpretation ovds_in: byte_source
  "\<lparr>sc_host = sc_host (DataStream_source h),
    sc_read = OverrideStream_read (sc_read (DataStream_source h))\<rparr>"
  "\<lambda>s. pending (os_stream s)" "\<lambda>s. DataStream_rok (os_stream s)" for h
  by (rule ds_in.OverrideStream_lawful)

subsection \<open>The other operations on the queue\<close>

lemma DataStream_ignore_pending:
  assumes ok: "DataStream_rok s" and n: "n < 2 ^ 31"
  shows "if n \<le> length (pending s)
     then \<exists>s'. DataStream_ignore s (int n) = Inr s' \<and> DataStream_rok s'
        \<and> pending s' = drop n (pending s) \<and> length (ds_vch s') \<le> length (ds_vch s)
     else DataStream_ignore s (int n) = Inl (IosFailure ''CBaseDataStream::ignore() : end of data'')"
proof -
  have "unat (ds_nReadPos s + word_of_nat n) = unat (ds_nReadPos s) + n"
    using ok n by (intro unat_add_of_nat) (simp add: DataStream_rok_def DataStream_ok_def)
  then show ?thesis
    using ok n
    by (auto simp: DataStream_ignore_def Let_def pending_def DataStream_rok_def DataStream_ok_def
          add.commute)
qed

lemma DataStream_insert_front:
  assumes ok: "DataStream_ok s" and sz: "length xs < 2 ^ 32"
  shows "\<exists>s'. DataStream_insert s (DataStream_begin s) xs = Inr s' \<and> DataStream_ok s'
     \<and> pending s' = xs @ pending s \<and> length (ds_vch s') \<le> length (ds_vch s) + length xs"
proof (cases "xs = [] \<or> length xs \<le> unat (ds_nReadPos s)")
  case True
  moreover have "unat (ds_nReadPos s - word_of_nat (length xs)) = unat (ds_nReadPos s) - length xs"
    if "length xs \<le> unat (ds_nReadPos s)" using that by (rule unat_sub_of_nat)
  ultimately show ?thesis
    using ok sz
    by (auto simp: DataStream_insert_def DataStream_begin_def Let_def pending_def DataStream_ok_def
          of_nat_le_word_iff)
next
  case False
  then show ?thesis
    using ok sz
    by (auto simp: DataStream_insert_def DataStream_begin_def Let_def pending_def DataStream_ok_def
          of_nat_le_word_iff vector_insert_def)
qed

lemma DataStream_erase_front:
  assumes ok: "DataStream_rok s" and n: "n \<le> length (pending s)"
  shows "\<exists>it s'. DataStream_erase s (DataStream_begin s) (DataStream_begin s + n) = Inr (it, s')
     \<and> DataStream_rok s' \<and> pending s' = drop n (pending s) \<and> length (ds_vch s') \<le> length (ds_vch s)"
proof -
  have "unat (ds_nReadPos s) + n < 2 ^ 32"
    using ok n by (auto simp: DataStream_rok_def DataStream_ok_def pending_def)
  then have "unat (word_of_nat (unat (ds_nReadPos s) + n) :: u32) = unat (ds_nReadPos s) + n"
    by (simp add: unat_add_of_nat)
  then show ?thesis
    using ok n
    by (auto simp: DataStream_erase_def DataStream_begin_def pending_def DataStream_rok_def
          DataStream_ok_def add.commute)
qed

lemma DataStream_Compact_pending:
  "DataStream_rok s \<Longrightarrow> \<exists>s'. DataStream_Compact s = Inr s' \<and> DataStream_rok s'
     \<and> pending s' = pending s \<and> length (ds_vch s') \<le> length (ds_vch s)"
  by (auto simp: DataStream_Compact_def pending_def DataStream_rok_def DataStream_ok_def)

lemma DataStream_clear_pending:
  "DataStream_rok (DataStream_clear s)" "pending (DataStream_clear s) = []"
  "length (ds_vch (DataStream_clear s)) \<le> length (ds_vch s)"
  by (auto simp: DataStream_clear_def pending_def DataStream_rok_def DataStream_ok_def)

lemma DataStream_size_pending:
  "DataStream_rok s \<Longrightarrow> unat (DataStream_size s) = length (pending s)"
proof -
  assume ok: "DataStream_rok s"
  let ?u = "ucast (ds_nReadPos s) :: u64"
  have u: "unat ?u = unat (ds_nReadPos s)"
    using unat_lt2p [of "ds_nReadPos s"] by (simp add: unat_ucast_mod)
  have l: "unat (word_of_nat (length (ds_vch s)) :: u64) = length (ds_vch s)"
    using ok by (simp add: DataStream_rok_def unat_of_nat)
  show ?thesis
    using ok unfolding DataStream_size_def
    by (simp add: unat_sub_if' u l DataStream_rok_def DataStream_ok_def pending_def)
qed

text \<open>Rewinding undoes a read that left bytes behind; a read of everything clears the buffer.\<close>

lemma DataStream_read_Rewind:
  assumes ok: "DataStream_rok s" and n: "n < length (pending s)"
    and rd: "DataStream_read s n = Inr (bs, s')"
  shows "DataStream_Rewind s' n = (True, s)"
proof -
  have lt: "unat (ds_nReadPos s) + n < length (ds_vch s)"
    using ok n by (auto simp: DataStream_rok_def DataStream_ok_def pending_def)
  then have u: "unat (ds_nReadPos s + word_of_nat n) = unat (ds_nReadPos s) + n"
    using ok by (intro unat_add_of_nat) (simp add: DataStream_rok_def)
  have "s' = s\<lparr>ds_nReadPos := ds_nReadPos s + word_of_nat n\<rparr>"
    using rd lt u by (auto simp: DataStream_read_def Let_def split: if_splits)
  then show ?thesis
    using u by (simp add: DataStream_Rewind_def)
qed

section \<open>Runs of stream operations\<close>

text \<open>
  The abstract stream is the list of bytes still to be read.  A run of operations on a
  \<open>CDataStream\<close>, with its read position, its lazy clearing and its insertion in place, does
  what the same run does on that list, as long as the buffer stays below \<open>2 ^ 31\<close> bytes and no
  single read or skip asks for \<open>2 ^ 31\<close> bytes or more.  \<open>erase\<close> takes two iterators and tests
  nothing: its caller must not hand it one behind the end of the stream (\<open>ranges_ok\<close>).
\<close>

datatype ds_op =
    OpWrite bytes
  | OpRead nat
  | OpIgnore nat
  | OpInsertFront bytes
  | OpEraseFront nat
  | OpCompact
  | OpClear

fun ds_step :: "CBaseDataStream \<Rightarrow> ds_op \<Rightarrow> (bytes \<times> CBaseDataStream) res" where
  "ds_step s (OpWrite bs) = bindE (DataStream_write s bs) (\<lambda>s'. Inr ([], s'))"
| "ds_step s (OpRead n) = DataStream_read s n"
| "ds_step s (OpIgnore n) = bindE (DataStream_ignore s (int n)) (\<lambda>s'. Inr ([], s'))"
| "ds_step s (OpInsertFront bs) =
     bindE (DataStream_insert s (DataStream_begin s) bs) (\<lambda>s'. Inr ([], s'))"
| "ds_step s (OpEraseFront n) =
     bindE (DataStream_erase s (DataStream_begin s) (DataStream_begin s + n)) (\<lambda>(it, s'). Inr ([], s'))"
| "ds_step s OpCompact = bindE (DataStream_Compact s) (\<lambda>s'. Inr ([], s'))"
| "ds_step s OpClear = Inr ([], DataStream_clear s)"

fun ds_run :: "CBaseDataStream \<Rightarrow> ds_op list \<Rightarrow> (bytes list \<times> CBaseDataStream) res" where
  "ds_run s [] = Inr ([], s)"
| "ds_run s (x # xs) =
     bindE (ds_step s x) (\<lambda>(b, s'). bindE (ds_run s' xs) (\<lambda>(bs, s''). Inr (b # bs, s'')))"

fun q_step :: "bytes \<Rightarrow> ds_op \<Rightarrow> (bytes \<times> bytes) option" where
  "q_step q (OpWrite bs) = Some ([], q @ bs)"
| "q_step q (OpRead n) = (if n \<le> length q then Some (take n q, drop n q) else None)"
| "q_step q (OpIgnore n) = (if n \<le> length q then Some ([], drop n q) else None)"
| "q_step q (OpInsertFront bs) = Some ([], bs @ q)"
| "q_step q (OpEraseFront n) = Some ([], drop n q)"
| "q_step q OpCompact = Some ([], q)"
| "q_step q OpClear = Some ([], [])"

fun q_run :: "bytes \<Rightarrow> ds_op list \<Rightarrow> (bytes list \<times> bytes) option" where
  "q_run q [] = Some ([], q)"
| "q_run q (x # xs) =
     (case q_step q x of None \<Rightarrow> None
      | Some (b, q') \<Rightarrow> (case q_run q' xs of None \<Rightarrow> None | Some (bs, q'') \<Rightarrow> Some (b # bs, q'')))"

fun range_ok :: "bytes \<Rightarrow> ds_op \<Rightarrow> bool" where
  "range_ok q (OpEraseFront n) = (n \<le> length q)"
| "range_ok q _ = True"

fun ranges_ok :: "bytes \<Rightarrow> ds_op list \<Rightarrow> bool" where
  "ranges_ok q [] = True"
| "ranges_ok q (x # xs) =
     (range_ok q x \<and> (case q_step q x of None \<Rightarrow> True | Some (b, q') \<Rightarrow> ranges_ok q' xs))"

fun op_growth :: "ds_op \<Rightarrow> nat" where
  "op_growth (OpWrite bs) = length bs"
| "op_growth (OpInsertFront bs) = length bs"
| "op_growth _ = 0"

fun op_bounded :: "ds_op \<Rightarrow> bool" where
  "op_bounded (OpRead n) = (n < 2 ^ 31)"
| "op_bounded (OpIgnore n) = (n < 2 ^ 31)"
| "op_bounded _ = True"

lemma ds_step_refines:
  assumes "DataStream_rok s" "length (ds_vch s) + op_growth x < 2 ^ 31" "op_bounded x" "range_ok (pending s) x"
  shows "case q_step (pending s) x of
      Some (b, q) \<Rightarrow> \<exists>s'. ds_step s x = Inr (b, s') \<and> DataStream_rok s' \<and> pending s' = q
                     \<and> length (ds_vch s') \<le> length (ds_vch s) + op_growth x
    | None \<Rightarrow> \<exists>m. ds_step s x = Inl (IosFailure m)"
proof (cases x)
  case (OpWrite bs)
  then show ?thesis
    using assms DataStream_write_pending [of s bs] by (auto simp: DataStream_rok_def)
next
  case (OpRead n)
  then show ?thesis
    using assms DataStream_read_pending [of s n] DataStream_read_short [of s n] by auto
next
  case (OpIgnore n)
  then show ?thesis
    using assms DataStream_ignore_pending [of s n] by (auto split: if_splits)
next
  case (OpInsertFront bs)
  then show ?thesis
    using assms DataStream_insert_front [of s bs] by (auto simp: DataStream_rok_def)
next
  case (OpEraseFront n)
  then show ?thesis
    using assms DataStream_erase_front [of s n] by (auto simp: pending_def)
next
  case OpCompact
  then show ?thesis
    using assms DataStream_Compact_pending [of s] by auto
next
  case OpClear
  then show ?thesis
    using DataStream_clear_pending [of s] by auto
qed

text \<open>
  Property C18.  A \<open>CDataStream\<close> refines the byte queue, for runs in which the buffer, with all that is
  written to it, stays below \<open>2 ^ 31\<close> bytes, every single read or skip asks for less than \<open>2 ^ 31\<close> bytes
  and no erasure goes past the end: every such run of writes, reads, skips, insertions and erasures at
  the front, compactions and clears returns what the same run returns on the list of unread bytes
  and leaves the stream at the corresponding list; where a read or a skip asks for more bytes than the
  queue has, the run stops with \<open>std::ios_base::failure\<close> and nothing worse.  Without the bounds a read
  can wrap past the buffer (\<open>DataStream_read_wraps\<close>).
\<close>

theorem ds_run_refines_q_run:
  assumes "DataStream_rok s" "length (ds_vch s) + sum_list (map op_growth xs) < 2 ^ 31"
    "list_all op_bounded xs" "ranges_ok (pending s) xs"
  shows "case q_run (pending s) xs of
      Some (bs, q) \<Rightarrow> \<exists>s'. ds_run s xs = Inr (bs, s') \<and> DataStream_rok s' \<and> pending s' = q
    | None \<Rightarrow> \<exists>m. ds_run s xs = Inl (IosFailure m)"
  using assms
proof (induction xs arbitrary: s)
  case Nil
  then show ?case by simp
next
  case (Cons x xs)
  have pre: "length (ds_vch s) + op_growth x < 2 ^ 31" "op_bounded x" "range_ok (pending s) x"
    using Cons.prems by auto
  note step = ds_step_refines [OF Cons.prems(1) pre]
  show ?case
  proof (cases "q_step (pending s) x")
    case None
    then show ?thesis using step by auto
  next
    case (Some p)
    then obtain b q where p: "q_step (pending s) x = Some (b, q)" by (cases p) auto
    with step obtain s' where s': "ds_step s x = Inr (b, s')" "DataStream_rok s'" "pending s' = q"
      "length (ds_vch s') \<le> length (ds_vch s) + op_growth x" by auto
    have "case q_run (pending s') xs of
        Some (bs, q) \<Rightarrow> \<exists>s''. ds_run s' xs = Inr (bs, s'') \<and> DataStream_rok s'' \<and> pending s'' = q
      | None \<Rightarrow> \<exists>m. ds_run s' xs = Inl (IosFailure m)"
      using Cons.prems s' p by (intro Cons.IH) auto
    then show ?thesis
      using p s' by (auto split: option.splits)
  qed
qed

theorem ds_run_refines_q_run_witness:
  "(\<exists>s'. ds_run \<lparr>ds_vch = [9, 1, 2], ds_nReadPos = 1, ds_nType = 0, ds_nVersion = 0\<rparr>
      [OpRead 1, OpInsertFront [7, 8], OpWrite [3, 4], OpIgnore 1, OpRead 2, OpEraseFront 1] =
      Inr ([[1], [], [], [], [8, 2], []], s') \<and> DataStream_rok s' \<and> pending s' = [4]) \<and>
    (\<exists>m. ds_run \<lparr>ds_vch = [9, 1, 2], ds_nReadPos = 1, ds_nType = 0, ds_nVersion = 0\<rparr> [OpRead 1, OpRead 2] =
      Inl (IosFailure m))"
  using ds_run_refines_q_run [of "\<lparr>ds_vch = [9, 1, 2], ds_nReadPos = 1, ds_nType = 0, ds_nVersion = 0\<rparr>"
      "[OpRead 1, OpInsertFront [7, 8], OpWrite [3, 4], OpIgnore 1, OpRead 2, OpEraseFront 1]"]
    ds_run_refines_q_run [of "\<lparr>ds_vch = [9, 1, 2], ds_nReadPos = 1, ds_nType = 0, ds_nVersion = 0\<rparr>"
      "[OpRead 1, OpRead 2]"]
  by (simp add: DataStream_rok_def DataStream_ok_def pending_def del: ds_run.simps)

text \<open>
  Property.  Without the bound the contract fails: the sum of the read position and the
  requested size is cut to 32 bits, so a read of almost \<open>2 ^ 32\<close> bytes from a stream that has
  already been read from passes the end-of-data test and copies past the end of the buffer.
\<close>

theorem DataStream_read_wraps:
  assumes "0 < unat (ds_nReadPos s)" "unat (ds_nReadPos s) \<le> length (ds_vch s)"
    "length (ds_vch s) < 2 ^ 31"
  shows "DataStream_read s (2 ^ 32 - unat (ds_nReadPos s)) = Inl (UndefinedBehaviour ''memcpy past the end'')"
proof -
  have lt: "unat (ds_nReadPos s) < 2 ^ 32" using unat_lt2p [of "ds_nReadPos s"] by simp
  have "ds_nReadPos s + word_of_nat (2 ^ 32 - unat (ds_nReadPos s)) =
      word_of_nat (unat (ds_nReadPos s) + (2 ^ 32 - unat (ds_nReadPos s)))"
    by simp
  also have "\<dots> = 0"
    using lt by (simp only: le_add_diff_inverse less_imp_le) (simp add: of_nat_power)
  finally have "ds_nReadPos s + word_of_nat (2 ^ 32 - unat (ds_nReadPos s)) = 0" .
  with assms lt show ?thesis unfolding DataStream_read_def Let_def by auto
qed

theorem DataStream_read_wraps_witness:
  "DataStream_read \<lparr>ds_vch = [1, 2], ds_nReadPos = 1, ds_nType = 0, ds_nVersion = 0\<rparr> 4294967295 =
     Inl (UndefinedBehaviour ''memcpy past the end'')"
  using DataStream_read_wraps [of "\<lparr>ds_vch = [1, 2], ds_nReadPos = 1, ds_nType = 0, ds_nVersion = 0\<rparr>"]
  by simp

section \<open>The other streams are lawful\<close>

definition VectorWriter_ok :: "CVectorWriter \<Rightarrow> bool" where
  "VectorWriter_ok s \<longleftrightarrow> vw_nPos s \<le> length (vw_vchData s)"

lemma VectorWriter_new_ok: "VectorWriter_ok (VectorWriter_new t v d p)"
  by (auto simp: VectorWriter_ok_def VectorWriter_new_def vector_resize_def)

lemma VectorWriter_seek_ok: "VectorWriter_ok s \<Longrightarrow> VectorWriter_ok (VectorWriter_seek s n)"
  by (auto simp: VectorWriter_ok_def VectorWriter_seek_def vector_resize_def Let_def)

lemma VectorWriter_write_eq:
  assumes "VectorWriter_ok s"
  shows "VectorWriter_write s bs =
    Inr (s\<lparr>vw_vchData := take (vw_nPos s) (vw_vchData s) @ bs @ drop (vw_nPos s + length bs) (vw_vchData s),
           vw_nPos := vw_nPos s + length bs\<rparr>)"
  using assms by (auto simp: VectorWriter_write_def VectorWriter_ok_def Let_def min_def)

interpretation vw_out: byte_sink
  "VectorWriter_sink h" "\<lambda>s. take (vw_nPos s) (vw_vchData s)" VectorWriter_ok for h
  by unfold_locales (auto simp: VectorWriter_sink_def VectorWriter_write_eq VectorWriter_ok_def)

definition AutoFile_ready :: "CAutoFile \<Rightarrow> bool" where
  "AutoFile_ready s \<longleftrightarrow>
     (case af_file s of None \<Rightarrow> False
      | Some f \<Rightarrow> \<not> f_failed f \<and> f_pos f \<le> length (f_data f))"

definition AutoFile_written :: "CAutoFile \<Rightarrow> bytes" where
  "AutoFile_written s =
     (case af_file s of None \<Rightarrow> [] | Some f \<Rightarrow> take (f_pos f) (f_data f))"

definition AutoFile_unread :: "CAutoFile \<Rightarrow> bytes" where
  "AutoFile_unread s =
     (case af_file s of None \<Rightarrow> [] | Some f \<Rightarrow> drop (f_pos f) (f_data f))"

lemmas AutoFile_simps =
  AutoFile_ready_def AutoFile_written_def AutoFile_unread_def AutoFile_write_def AutoFile_read_def
  fwrite_def fread_def

interpretation af_out: byte_sink "AutoFile_sink h" AutoFile_written AutoFile_ready for h
  by unfold_locales (auto simp: AutoFile_sink_def AutoFile_simps split: option.splits)

interpretation af_in: byte_source "AutoFile_source h" AutoFile_unread AutoFile_ready for h
  by unfold_locales
    (auto simp: AutoFile_source_def AutoFile_simps Let_def add.commute split: option.splits)

interpretation sz_cnt: count_sink "SizeComputer_sink h" SizeComputer_size "\<lambda>_. True" for h
  by unfold_locales
    (auto simp: SizeComputer_sink_def SizeComputer_size_def SizeComputer_write_def
      SizeComputer_WriteCompactSize_def SizeComputer_seek_def)

end
