(* ===== verification/Serialize.thy ===== *)
theory Serialize
  imports Streams
begin

unbundle bit_operations_syntax

text \<open>
  The serialisation templates of \<open>serialize.h\<close>: fixed-width integers, compact sizes, variable
  length integers, the formatter classes and the container templates.  Each template is a
  definition over the operations of its stream (\<open>sink_ops\<close>, \<open>source_ops\<close> of theory
  \<open>Streams\<close>); an element type's own \<open>Serialize\<close> and \<open>Unserialize\<close> are function
  arguments.  The second half states the codec contract as a locale and proves that every
  template keeps it.
\<close>

section \<open>Constants\<close>

definition MAX_SIZE :: u64 where
  "MAX_SIZE = 0x02000000"

definition MAX_VECTOR_ALLOCATE :: nat where
  "MAX_VECTOR_ALLOCATE = 5000000"

section \<open>Lowest-level serialisation\<close>

definition ser_writedata8 :: "'s sink_ops \<Rightarrow> 's \<Rightarrow> u8 \<Rightarrow> 's res" where
  "ser_writedata8 W s obj = sk_write W s [obj]"

definition ser_writedata16 :: "'s sink_ops \<Rightarrow> 's \<Rightarrow> u16 \<Rightarrow> 's res" where
  "ser_writedata16 W s obj =
     (let obj = htole16 (endian (sk_host W)) obj in sk_write W s (mem_of (sk_host W) obj))"

definition ser_writedata16be :: "'s sink_ops \<Rightarrow> 's \<Rightarrow> u16 \<Rightarrow> 's res" where
  "ser_writedata16be W s obj =
     (let obj = htobe16 (endian (sk_host W)) obj in sk_write W s (mem_of (sk_host W) obj))"

definition ser_writedata32 :: "'s sink_ops \<Rightarrow> 's \<Rightarrow> u32 \<Rightarrow> 's res" where
  "ser_writedata32 W s obj =
     (let obj = htole32 (endian (sk_host W)) obj in sk_write W s (mem_of (sk_host W) obj))"

definition ser_writedata64 :: "'s sink_ops \<Rightarrow> 's \<Rightarrow> u64 \<Rightarrow> 's res" where
  "ser_writedata64 W s obj =
     (let obj = htole64 (endian (sk_host W)) obj in sk_write W s (mem_of (sk_host W) obj))"

definition ser_readdata8 :: "'s source_ops \<Rightarrow> 's \<Rightarrow> (u8 \<times> 's) res" where
  "ser_readdata8 R s = bindE (sc_read R s 1) (\<lambda>(obj, s). Inr (of_mem (sc_host R) obj, s))"

definition ser_readdata16 :: "'s source_ops \<Rightarrow> 's \<Rightarrow> (u16 \<times> 's) res" where
  "ser_readdata16 R s =
     bindE (sc_read R s 2) (\<lambda>(obj, s).
       Inr (le16toh (endian (sc_host R)) (of_mem (sc_host R) obj), s))"

definition ser_readdata16be :: "'s source_ops \<Rightarrow> 's \<Rightarrow> (u16 \<times> 's) res" where
  "ser_readdata16be R s =
     bindE (sc_read R s 2) (\<lambda>(obj, s).
       Inr (be16toh (endian (sc_host R)) (of_mem (sc_host R) obj), s))"

definition ser_readdata32 :: "'s source_ops \<Rightarrow> 's \<Rightarrow> (u32 \<times> 's) res" where
  "ser_readdata32 R s =
     bindE (sc_read R s 4) (\<lambda>(obj, s).
       Inr (le32toh (endian (sc_host R)) (of_mem (sc_host R) obj), s))"

definition ser_readdata64 :: "'s source_ops \<Rightarrow> 's \<Rightarrow> (u64 \<times> 's) res" where
  "ser_readdata64 R s =
     bindE (sc_read R s 8) (\<lambda>(obj, s).
       Inr (le64toh (endian (sc_host R)) (of_mem (sc_host R) obj), s))"

text \<open>
  The overloads for the built-in integer types are the functions above at the type's width: a
  signed integer is the word of its two's complement.  \<open>bool\<close> goes through a \<open>char\<close>; a
  byte array or span is written as it is.
\<close>

definition Serialize_bool :: "'s sink_ops \<Rightarrow> 's \<Rightarrow> bool \<Rightarrow> 's res" where
  "Serialize_bool W s a = (let f = (if a then 1 else 0) in ser_writedata8 W s f)"

definition Unserialize_bool :: "'s source_ops \<Rightarrow> 's \<Rightarrow> (bool \<times> 's) res" where
  "Unserialize_bool R s = bindE (ser_readdata8 R s) (\<lambda>(f, s). Inr (f \<noteq> 0, s))"

definition Serialize_span :: "'s sink_ops \<Rightarrow> 's \<Rightarrow> bytes \<Rightarrow> 's res" where
  "Serialize_span W s a = sk_write W s a"

definition Unserialize_span :: "nat \<Rightarrow> 's source_ops \<Rightarrow> 's \<Rightarrow> (bytes \<times> 's) res" where
  "Unserialize_span N R s = sc_read R s N"

section \<open>Compact sizes\<close>

definition WriteCompactSize_template :: "'s sink_ops \<Rightarrow> 's \<Rightarrow> u64 \<Rightarrow> 's res" where
  "WriteCompactSize_template W os nSize =
     (if nSize < 253 then
        ser_writedata8 W os (ucast nSize)
      else if nSize \<le> 0xffff then
        bindE (ser_writedata8 W os 253) (\<lambda>os. ser_writedata16 W os (ucast nSize))
      else if nSize \<le> 0xffffffff then
        bindE (ser_writedata8 W os 254) (\<lambda>os. ser_writedata32 W os (ucast nSize))
      else
        bindE (ser_writedata8 W os 255) (\<lambda>os. ser_writedata64 W os nSize))"

text \<open>A call with no explicit template argument prefers the overload of the stream.\<close>

definition WriteCompactSize :: "'s sink_ops \<Rightarrow> 's \<Rightarrow> u64 \<Rightarrow> 's res" where
  "WriteCompactSize W os nSize =
     (case sk_compact W of Some f \<Rightarrow> f os nSize
      | None \<Rightarrow> WriteCompactSize_template W os nSize)"

text \<open>The branches on the first byte, then the range check.\<close>

definition ReadCompactSize_branch :: "'s source_ops \<Rightarrow> u8 \<Rightarrow> 's \<Rightarrow> (u64 \<times> 's) res" where
  "ReadCompactSize_branch R chSize is =
     (if chSize < 253 then Inr (ucast chSize, is)
      else if chSize = 253 then
        bindE (ser_readdata16 R is) (\<lambda>(n, is).
          if (ucast n :: u64) < 253 then Inl (IosFailure ''non-canonical ReadCompactSize()'')
          else Inr (ucast n, is))
      else if chSize = 254 then
        bindE (ser_readdata32 R is) (\<lambda>(n, is).
          if (ucast n :: u64) < 0x10000 then Inl (IosFailure ''non-canonical ReadCompactSize()'')
          else Inr (ucast n, is))
      else
        bindE (ser_readdata64 R is) (\<lambda>(n, is).
          if n < 0x100000000 then Inl (IosFailure ''non-canonical ReadCompactSize()'')
          else Inr (n, is)))"

definition ReadCompactSize :: "bool \<Rightarrow> 's source_ops \<Rightarrow> 's \<Rightarrow> (u64 \<times> 's) res" where
  "ReadCompactSize range_check R is =
     bindE (ser_readdata8 R is) (\<lambda>(chSize, is).
     bindE (ReadCompactSize_branch R chSize is) (\<lambda>(nSizeRet, is).
       if range_check \<and> nSizeRet > MAX_SIZE then
         Inl (IosFailure ''ReadCompactSize(): size too large'')
       else Inr (nSizeRet, is)))"

section \<open>Variable-length integers\<close>

text \<open>
  The integer type \<open>I\<close> enters through its size in bytes and its largest value: both modes,
  unsigned and non-negative signed, run the same code on the values from 0 to that maximum.
\<close>

fun GetSizeOfVarInt :: "nat \<Rightarrow> nat" where
  "GetSizeOfVarInt n = (if n \<le> 0x7F then 1 else 1 + GetSizeOfVarInt (n div 128 - 1))"

declare GetSizeOfVarInt.simps [simp del]

text \<open>The array \<open>tmp\<close> as the loop fills it from index \<open>len\<close> on, last digit first.\<close>

fun VarInt_tmp :: "nat \<Rightarrow> nat \<Rightarrow> bytes" where
  "VarInt_tmp len n =
     (let b = word_of_nat (n mod 128) OR (if len \<noteq> 0 then 0x80 else 0x00)
      in if n \<le> 0x7F then [b] else b # VarInt_tmp (Suc len) (n div 128 - 1))"

declare VarInt_tmp.simps [simp del]

fun write_bytes :: "'s sink_ops \<Rightarrow> 's \<Rightarrow> bytes \<Rightarrow> 's res" where
  "write_bytes W os [] = Inr os"
| "write_bytes W os (b # bs) = bindE (ser_writedata8 W os b) (\<lambda>os. write_bytes W os bs)"

definition WriteVarInt :: "nat \<Rightarrow> 's sink_ops \<Rightarrow> 's \<Rightarrow> nat \<Rightarrow> 's res" where
  "WriteVarInt isize W os n =
     (let tmp = VarInt_tmp 0 n
      in if length tmp > (isize * 8 + 6) div 7 then Inl (UndefinedBehaviour ''tmp overrun'')
         else write_bytes W os (rev tmp))"

function ReadVarInt_loop :: "nat \<Rightarrow> 's source_ops \<Rightarrow> nat \<Rightarrow> 's \<Rightarrow> (nat \<times> 's) res" where
  "ReadVarInt_loop imax R n is =
     bindE (ser_readdata8 R is) (\<lambda>(chData, is).
       if n > imax div 128 then Inl (IosFailure ''ReadVarInt(): size too large'')
       else
         let n = n * 128 + unat (chData AND 0x7F)
         in if chData AND 0x80 \<noteq> 0 then
              (if n = imax then Inl (IosFailure ''ReadVarInt(): size too large'')
               else ReadVarInt_loop imax R (n + 1) is)
            else Inr (n, is))"
  by pat_completeness auto
termination
  by (relation "measure (\<lambda>(imax, R, n, is). imax + 1 - n)") (auto simp: less_eq_div_iff_mult_less_eq)

declare ReadVarInt_loop.simps [simp del]

definition ReadVarInt :: "nat \<Rightarrow> 's source_ops \<Rightarrow> 's \<Rightarrow> (nat \<times> 's) res" where
  "ReadVarInt imax R is = ReadVarInt_loop imax R 0 is"

section \<open>Formatters\<close>

definition CustomUint_MAX :: "nat \<Rightarrow> u64" where
  "CustomUint_MAX Bytes = drop_bit (8 * (8 - Bytes)) 0xffffffffffffffff"

definition CustomUintFormatter_Ser :: "nat \<Rightarrow> bool \<Rightarrow> 's sink_ops \<Rightarrow> 's \<Rightarrow> int \<Rightarrow> 's res" where
  "CustomUintFormatter_Ser Bytes BigEndian W s v =
     (if v < 0 \<or> v > uint (CustomUint_MAX Bytes)
      then Inl (IosFailure ''CustomUintFormatter value out of range'')
      else if BigEndian then
        (let raw = htobe64 (endian (sk_host W)) (word_of_int v)
         in sk_write W s (drop (8 - Bytes) (mem_of (sk_host W) raw)))
      else
        (let raw = htole64 (endian (sk_host W)) (word_of_int v)
         in sk_write W s (take Bytes (mem_of (sk_host W) raw))))"

text \<open>The bytes read overwrite part of the object \<open>raw\<close>, which holds 0 before.\<close>

definition CustomUintFormatter_Unser :: "nat \<Rightarrow> bool \<Rightarrow> 's source_ops \<Rightarrow> 's \<Rightarrow> (int \<times> 's) res" where
  "CustomUintFormatter_Unser Bytes BigEndian R s =
     (let raw0 = mem_of (sc_host R) (0 :: u64)
      in if BigEndian then
           bindE (sc_read R s Bytes) (\<lambda>(bs, s).
             Inr (uint (be64toh (endian (sc_host R)) (of_mem (sc_host R) (take (8 - Bytes) raw0 @ bs))), s))
         else
           bindE (sc_read R s Bytes) (\<lambda>(bs, s).
             Inr (uint (le64toh (endian (sc_host R)) (of_mem (sc_host R) (bs @ drop Bytes raw0))), s)))"

definition CompactSizeFormatter_Unser ::
  "bool \<Rightarrow> u64 \<Rightarrow> 's source_ops \<Rightarrow> 's \<Rightarrow> (u64 \<times> 's) res" where
  "CompactSizeFormatter_Unser RangeCheck imax R s =
     bindE (ReadCompactSize RangeCheck R s) (\<lambda>(n, s).
       if n > imax then Inl (IosFailure ''CompactSize exceeds limit of type'') else Inr (n, s))"

definition CompactSizeFormatter_Ser :: "'s sink_ops \<Rightarrow> 's \<Rightarrow> u64 \<Rightarrow> 's res" where
  "CompactSizeFormatter_Ser W s v = WriteCompactSize_template W s v"

definition VarIntFormatter_Ser :: "nat \<Rightarrow> 's sink_ops \<Rightarrow> 's \<Rightarrow> nat \<Rightarrow> 's res" where
  "VarIntFormatter_Ser isize W s v = WriteVarInt isize W s v"

definition VarIntFormatter_Unser :: "nat \<Rightarrow> 's source_ops \<Rightarrow> 's \<Rightarrow> (nat \<times> 's) res" where
  "VarIntFormatter_Unser imax R s = ReadVarInt imax R s"

section \<open>Strings and byte vectors\<close>

definition Serialize_string :: "'s sink_ops \<Rightarrow> 's \<Rightarrow> bytes \<Rightarrow> 's res" where
  "Serialize_string W os str =
     bindE (WriteCompactSize W os (word_of_nat (length str))) (\<lambda>os.
       if str \<noteq> [] then sk_write W os str else Inr os)"

definition Unserialize_string :: "'s source_ops \<Rightarrow> 's \<Rightarrow> (bytes \<times> 's) res" where
  "Unserialize_string R is =
     bindE (ReadCompactSize True R is) (\<lambda>(sz, is).
       let nSize = ucast sz :: u32
       in if nSize \<noteq> 0 then sc_read R is (unat nSize) else Inr ([], is))"

definition LimitedStringFormatter_Unser :: "u64 \<Rightarrow> 's source_ops \<Rightarrow> 's \<Rightarrow> (bytes \<times> 's) res" where
  "LimitedStringFormatter_Unser Limit R s =
     bindE (ReadCompactSize True R s) (\<lambda>(size, s).
       if size > Limit then Inl (IosFailure ''String length limit exceeded'')
       else if size \<noteq> 0 then sc_read R s (unat size) else Inr ([], s))"

definition LimitedStringFormatter_Ser :: "'s sink_ops \<Rightarrow> 's \<Rightarrow> bytes \<Rightarrow> 's res" where
  "LimitedStringFormatter_Ser W s v = Serialize_string W s v"

text \<open>
  The special case of \<open>std::vector<unsigned char>\<close> and \<open>prevector<N, unsigned char>\<close>: one
  opaque blob, read in blocks of at most \<open>1 + 4999999 / sizeof(T)\<close> elements.
\<close>

definition Serialize_bytevector :: "'s sink_ops \<Rightarrow> 's \<Rightarrow> bytes \<Rightarrow> 's res" where
  "Serialize_bytevector W os v =
     bindE (WriteCompactSize W os (word_of_nat (length v))) (\<lambda>os.
       if v \<noteq> [] then sk_write W os v else Inr os)"

function Unserialize_blocks ::
  "'s source_ops \<Rightarrow> nat \<Rightarrow> nat \<Rightarrow> bytes \<Rightarrow> 's \<Rightarrow> (bytes \<times> 's) res" where
  "Unserialize_blocks R nSize i v is =
     (if i < nSize then
        let blk = min (nSize - i) (1 + 4999999)
        in bindE (sc_read R is blk) (\<lambda>(bs, is). Unserialize_blocks R nSize (i + blk) (v @ bs) is)
      else Inr (v, is))"
  by pat_completeness auto
termination
  by (relation "measure (\<lambda>(R, nSize, i, v, is). nSize - i)") auto

declare Unserialize_blocks.simps [simp del]

definition Unserialize_bytevector :: "'s source_ops \<Rightarrow> 's \<Rightarrow> (bytes \<times> 's) res" where
  "Unserialize_bytevector R is =
     bindE (ReadCompactSize True R is) (\<lambda>(sz, is).
       let nSize = ucast sz :: u32 in Unserialize_blocks R (unat nSize) 0 [] is)"

section \<open>Containers\<close>

fun serialize_each :: "('s \<Rightarrow> 'a \<Rightarrow> 's res) \<Rightarrow> 's \<Rightarrow> 'a list \<Rightarrow> 's res" where
  "serialize_each ser s [] = Inr s"
| "serialize_each ser s (x # xs) = bindE (ser s x) (\<lambda>s. serialize_each ser s xs)"

fun unserialize_n :: "('s \<Rightarrow> ('a \<times> 's) res) \<Rightarrow> nat \<Rightarrow> 's \<Rightarrow> ('a list \<times> 's) res" where
  "unserialize_n uns 0 s = Inr ([], s)"
| "unserialize_n uns (Suc k) s =
     bindE (uns s) (\<lambda>(x, s). bindE (unserialize_n uns k s) (\<lambda>(xs, s). Inr (x # xs, s)))"

definition VectorFormatter_Ser ::
  "('s \<Rightarrow> 'a \<Rightarrow> 's res) \<Rightarrow> 's sink_ops \<Rightarrow> 's \<Rightarrow> 'a list \<Rightarrow> 's res" where
  "VectorFormatter_Ser ser W s v =
     bindE (WriteCompactSize W s (word_of_nat (length v))) (\<lambda>s. serialize_each ser s v)"

text \<open>
  The reader allocates in batches of \<open>MAX_VECTOR_ALLOCATE / sizeof(value_type)\<close> elements;
  \<open>elsize\<close> is that size.  The \<open>static_assert\<close> rules out element types larger than a batch.
\<close>

function VectorFormatter_batches ::
  "nat \<Rightarrow> ('s \<Rightarrow> ('a \<times> 's) res) \<Rightarrow> nat \<Rightarrow> nat \<Rightarrow> 'a list \<Rightarrow> 's \<Rightarrow> ('a list \<times> 's) res" where
  "VectorFormatter_batches elsize uns nsize allocated v s =
     (if \<not> (0 < elsize \<and> elsize \<le> MAX_VECTOR_ALLOCATE)
      then Inl (AssertFailed ''Vector element nsize too large'')
      else if allocated < nsize then
        let allocated' = min nsize (allocated + MAX_VECTOR_ALLOCATE div elsize)
        in bindE (unserialize_n uns (allocated' - length v) s) (\<lambda>(xs, s).
             VectorFormatter_batches elsize uns nsize allocated' (v @ xs) s)
      else Inr (v, s))"
  by pat_completeness auto
termination
proof (relation "measure (\<lambda>(elsize, uns, nsize, allocated, v, s). nsize - allocated)", goal_cases)
  case 1
  then show ?case by simp
next
  case (2 elsize uns nsize allocated v s x y z)
  then have "0 < MAX_VECTOR_ALLOCATE div elsize"
    by (simp add: div_greater_zero_iff)
  then show ?case using 2 by auto
qed

declare VectorFormatter_batches.simps [simp del]

definition VectorFormatter_Unser ::
  "nat \<Rightarrow> ('s \<Rightarrow> ('a \<times> 's) res) \<Rightarrow> 's source_ops \<Rightarrow> 's \<Rightarrow> ('a list \<times> 's) res" where
  "VectorFormatter_Unser elsize uns R s =
     bindE (ReadCompactSize True R s) (\<lambda>(size, s).
       VectorFormatter_batches elsize uns (unat size) 0 [] s)"

definition Serialize_list :: "('s \<Rightarrow> 'a \<Rightarrow> 's res) \<Rightarrow> 's sink_ops \<Rightarrow> 's \<Rightarrow> 'a list \<Rightarrow> 's res" where
  "Serialize_list ser W os l =
     bindE (WriteCompactSize W os (word_of_nat (length l))) (\<lambda>os. serialize_each ser os l)"

definition Unserialize_list ::
  "('s \<Rightarrow> ('a \<times> 's) res) \<Rightarrow> 's source_ops \<Rightarrow> 's \<Rightarrow> ('a list \<times> 's) res" where
  "Unserialize_list uns R is =
     bindE (ReadCompactSize True R is) (\<lambda>(sz, is).
       let nSize = ucast sz :: u32 in unserialize_n uns (unat nSize) is)"

definition Serialize_pair ::
  "('s \<Rightarrow> 'k \<Rightarrow> 's res) \<Rightarrow> ('s \<Rightarrow> 't \<Rightarrow> 's res) \<Rightarrow> 's \<Rightarrow> 'k \<times> 't \<Rightarrow> 's res" where
  "Serialize_pair serK serT os item = bindE (serK os (fst item)) (\<lambda>os. serT os (snd item))"

definition Unserialize_pair ::
  "('s \<Rightarrow> ('k \<times> 's) res) \<Rightarrow> ('s \<Rightarrow> ('t \<times> 's) res) \<Rightarrow> 's \<Rightarrow> (('k \<times> 't) \<times> 's) res" where
  "Unserialize_pair unsK unsT is =
     bindE (unsK is) (\<lambda>(k, is). bindE (unsT is) (\<lambda>(t, is). Inr ((k, t), is)))"

text \<open>
  \<open>std::map\<close> and \<open>std::set\<close> as lists in key order.  \<open>insert\<close> leaves the container unchanged
  when the key is present; the position hint it is given only affects its running time.
\<close>

fun map_insert :: "'k::linorder \<Rightarrow> 't \<Rightarrow> ('k \<times> 't) list \<Rightarrow> ('k \<times> 't) list" where
  "map_insert k t [] = [(k, t)]"
| "map_insert k t ((k', t') # m) =
     (if k < k' then (k, t) # (k', t') # m
      else if k = k' then (k', t') # m
      else (k', t') # map_insert k t m)"

definition Serialize_map ::
  "('s \<Rightarrow> 'k \<Rightarrow> 's res) \<Rightarrow> ('s \<Rightarrow> 't \<Rightarrow> 's res) \<Rightarrow> 's sink_ops \<Rightarrow> 's \<Rightarrow> ('k \<times> 't) list \<Rightarrow> 's res" where
  "Serialize_map serK serT W os m =
     bindE (WriteCompactSize W os (word_of_nat (length m))) (\<lambda>os.
       serialize_each (Serialize_pair serK serT) os m)"

fun Unserialize_map_loop ::
  "('s \<Rightarrow> (('k::linorder \<times> 't) \<times> 's) res) \<Rightarrow> nat \<Rightarrow> ('k \<times> 't) list \<Rightarrow> 's
     \<Rightarrow> (('k \<times> 't) list \<times> 's) res" where
  "Unserialize_map_loop uns 0 m is = Inr (m, is)"
| "Unserialize_map_loop uns (Suc i) m is =
     bindE (uns is) (\<lambda>(item, is). Unserialize_map_loop uns i (map_insert (fst item) (snd item) m) is)"

definition Unserialize_map ::
  "('s \<Rightarrow> ('k::linorder \<times> 's) res) \<Rightarrow> ('s \<Rightarrow> ('t \<times> 's) res) \<Rightarrow> 's source_ops \<Rightarrow> 's
     \<Rightarrow> (('k \<times> 't) list \<times> 's) res" where
  "Unserialize_map unsK unsT R is =
     bindE (ReadCompactSize True R is) (\<lambda>(sz, is).
       let nSize = ucast sz :: u32
       in Unserialize_map_loop (Unserialize_pair unsK unsT) (unat nSize) [] is)"

fun set_insert :: "'k::linorder \<Rightarrow> 'k list \<Rightarrow> 'k list" where
  "set_insert k [] = [k]"
| "set_insert k (k' # m) =
     (if k < k' then k # k' # m else if k = k' then k' # m else k' # set_insert k m)"

definition Serialize_set :: "('s \<Rightarrow> 'k \<Rightarrow> 's res) \<Rightarrow> 's sink_ops \<Rightarrow> 's \<Rightarrow> 'k list \<Rightarrow> 's res" where
  "Serialize_set ser W os m =
     bindE (WriteCompactSize W os (word_of_nat (length m))) (\<lambda>os. serialize_each ser os m)"

fun Unserialize_set_loop ::
  "('s \<Rightarrow> ('k::linorder \<times> 's) res) \<Rightarrow> nat \<Rightarrow> 'k list \<Rightarrow> 's \<Rightarrow> ('k list \<times> 's) res" where
  "Unserialize_set_loop uns 0 m is = Inr (m, is)"
| "Unserialize_set_loop uns (Suc i) m is =
     bindE (uns is) (\<lambda>(key, is). Unserialize_set_loop uns i (set_insert key m) is)"

definition Unserialize_set ::
  "('s \<Rightarrow> ('k::linorder \<times> 's) res) \<Rightarrow> 's source_ops \<Rightarrow> 's \<Rightarrow> ('k list \<times> 's) res" where
  "Unserialize_set uns R is =
     bindE (ReadCompactSize True R is) (\<lambda>(sz, is).
       let nSize = ucast sz :: u32 in Unserialize_set_loop uns (unat nSize) [] is)"

definition Serialize_optional :: "('s \<Rightarrow> 'a \<Rightarrow> 's res) \<Rightarrow> 's sink_ops \<Rightarrow> 's \<Rightarrow> 'a option \<Rightarrow> 's res" where
  "Serialize_optional ser W os item =
     (case item of
        Some x \<Rightarrow> bindE (ser_writedata8 W os 0x01) (\<lambda>os. ser os x)
      | None \<Rightarrow> ser_writedata8 W os 0x00)"

definition Unserialize_optional ::
  "('s \<Rightarrow> ('a \<times> 's) res) \<Rightarrow> 's source_ops \<Rightarrow> 's \<Rightarrow> ('a option \<times> 's) res" where
  "Unserialize_optional uns R is =
     bindE (ser_readdata8 R is) (\<lambda>(discriminant, is).
       if discriminant = 0x00 then Inr (None, is)
       else bindE (uns is) (\<lambda>(object, is). Inr (Some object, is)))"

definition Serialize_array :: "('s \<Rightarrow> 'a \<Rightarrow> 's res) \<Rightarrow> 's \<Rightarrow> 'a list \<Rightarrow> 's res" where
  "Serialize_array ser os item = serialize_each ser os item"

definition Unserialize_array ::
  "nat \<Rightarrow> ('s \<Rightarrow> ('a \<times> 's) res) \<Rightarrow> 's \<Rightarrow> ('a list \<times> 's) res" where
  "Unserialize_array N uns is = unserialize_n uns N is"

section \<open>Sizes\<close>

text \<open>\<open>GetSerializeSize\<close> runs the serialiser of a type on a fresh \<open>CSizeComputer\<close>.\<close>

definition GetSerializeSize ::
  "(CSizeComputer sink_ops \<Rightarrow> CSizeComputer \<Rightarrow> 'a \<Rightarrow> CSizeComputer res) \<Rightarrow> host_order
     \<Rightarrow> 'a \<Rightarrow> int \<Rightarrow> nat res" where
  "GetSerializeSize ser h t nVersion =
     bindE (ser (SizeComputer_sink h) (SizeComputer_new nVersion) t) (\<lambda>sc. Inr (SizeComputer_size sc))"

text \<open>
  The overloads for \<open>std::list\<close>, \<open>std::array\<close> and \<open>Optional\<close>, which add up the sizes of the
  elements.  The one for arrays takes the size of the first element at every index.
\<close>

definition GetSerializeSize_list :: "('a \<Rightarrow> nat) \<Rightarrow> 'a list \<Rightarrow> nat" where
  "GetSerializeSize_list sz l =
     foldl (\<lambda>nSize it. nSize + sz it) (GetSizeOfCompactSize (word_of_nat (length l))) l"

fun GetSerializeSize_array_loop :: "('a \<Rightarrow> nat) \<Rightarrow> 'a list \<Rightarrow> nat \<Rightarrow> nat \<Rightarrow> nat" where
  "GetSerializeSize_array_loop sz item 0 nsize = nsize"
| "GetSerializeSize_array_loop sz item (Suc k) nsize =
     GetSerializeSize_array_loop sz item k (nsize + sz (item ! 0))"

definition GetSerializeSize_array :: "('a \<Rightarrow> nat) \<Rightarrow> 'a list \<Rightarrow> nat" where
  "GetSerializeSize_array sz item = GetSerializeSize_array_loop sz item (length item) 0"

definition GetSerializeSize_optional :: "('a \<Rightarrow> nat) \<Rightarrow> 'a option \<Rightarrow> nat" where
  "GetSerializeSize_optional sz item = (case item of Some x \<Rightarrow> 1 + sz x | None \<Rightarrow> 1)"

end
