(* ===== verification/Codecs.thy ===== *)
theory Codecs
  imports Serialize
begin

unbundle bit_operations_syntax

text \<open>
  What the serialisation templates promise.  A writer \<open>emits\<close> a byte string into a lawful
  sink; a reader \<open>parses\<close> a value from a byte string at the front of a lawful source, and
  \<open>consumes\<close> nothing but the encoding of what it returns.  The locale \<open>codec\<close> is the
  contract between a type's \<open>Serialize\<close> and \<open>Unserialize\<close>; the container templates are
  proved inside it once for every element type and every pair of streams, and the
  interpretations apply them to the streams of the program.
\<close>

section \<open>Emitting, counting, parsing and consuming\<close>

definition emits :: "('s \<Rightarrow> bytes) \<Rightarrow> ('s \<Rightarrow> bool) \<Rightarrow> ('s \<Rightarrow> 's res) \<Rightarrow> bytes \<Rightarrow> bool" where
  "emits out I f bs \<longleftrightarrow>
     (\<forall>s. I s \<longrightarrow> (\<exists>s'. f s = Inr s' \<and> I s' \<and> out s' = out s @ bs))"

definition counts :: "('s \<Rightarrow> nat) \<Rightarrow> ('s \<Rightarrow> bool) \<Rightarrow> ('s \<Rightarrow> 's res) \<Rightarrow> nat \<Rightarrow> bool" where
  "counts cnt I f n \<longleftrightarrow>
     (\<forall>s. I s \<longrightarrow> (\<exists>s'. f s = Inr s' \<and> I s' \<and> cnt s' = cnt s + n))"

definition parses :: "('s \<Rightarrow> bytes) \<Rightarrow> ('s \<Rightarrow> bool) \<Rightarrow> ('s \<Rightarrow> ('a \<times> 's) res) \<Rightarrow> 'a \<Rightarrow> bytes \<Rightarrow> bool" where
  "parses inp I f x bs \<longleftrightarrow>
     (\<forall>s rest. I s \<longrightarrow> inp s = bs @ rest \<longrightarrow> (\<exists>s'. f s = Inr (x, s') \<and> I s' \<and> inp s' = rest))"

definition consumes ::
  "('s \<Rightarrow> bytes) \<Rightarrow> ('s \<Rightarrow> bool) \<Rightarrow> ('s \<Rightarrow> ('a \<times> 's) res) \<Rightarrow> ('a \<Rightarrow> bytes \<Rightarrow> bool) \<Rightarrow> bool" where
  "consumes inp I f P \<longleftrightarrow>
     (\<forall>s x s'. I s \<longrightarrow> f s = Inr (x, s') \<longrightarrow> I s' \<and> (\<exists>bs. P x bs \<and> inp s = bs @ inp s'))"

lemma emits_Inr: "emits out I Inr []"
  by (simp add: emits_def)

lemma emits_bind:
  "emits out I f a \<Longrightarrow> emits out I g b \<Longrightarrow> emits out I (\<lambda>s. bindE (f s) g) (a @ b)"
  by (fastforce simp: emits_def)

lemma counts_Inr: "counts cnt I Inr 0"
  by (simp add: counts_def)

lemma counts_bind:
  "counts cnt I f a \<Longrightarrow> counts cnt I g b \<Longrightarrow> counts cnt I (\<lambda>s. bindE (f s) g) (a + b)"
  by (fastforce simp: counts_def)

lemma parses_Inr: "parses inp I (\<lambda>s. Inr (x, s)) x []"
  by (simp add: parses_def)

lemma parses_bind:
  "parses inp I f x a \<Longrightarrow> parses inp I (g x) y b \<Longrightarrow>
   parses inp I (\<lambda>s. bindE (f s) (\<lambda>(v, s). g v s)) y (a @ b)"
  by (fastforce simp: parses_def)

lemma parses_map:
  "parses inp I f x a \<Longrightarrow> g x = y \<Longrightarrow> parses inp I (\<lambda>s. bindE (f s) (\<lambda>(v, s). Inr (g v, s))) y a"
  by (fastforce simp: parses_def)

lemma emitsD:
  "emits out I f bs \<Longrightarrow> I s \<Longrightarrow> \<exists>s'. f s = Inr s' \<and> I s' \<and> out s' = out s @ bs"
  unfolding emits_def by blast

lemma countsD:
  "counts cnt I f n \<Longrightarrow> I s \<Longrightarrow> \<exists>s'. f s = Inr s' \<and> I s' \<and> cnt s' = cnt s + n"
  unfolding counts_def by blast

lemma parsesD:
  "parses inp I f x bs \<Longrightarrow> I s \<Longrightarrow> inp s = bs @ rest \<Longrightarrow>
   \<exists>s'. f s = Inr (x, s') \<and> I s' \<and> inp s' = rest"
  unfolding parses_def by blast

lemma consumesD:
  "consumes inp I f P \<Longrightarrow> I s \<Longrightarrow> f s = Inr (x, s') \<Longrightarrow>
   I s' \<and> (\<exists>bs. P x bs \<and> inp s = bs @ inp s')"
  unfolding consumes_def by blast

lemma parses_cong: "parses inp I f x a \<Longrightarrow> (\<And>s. f s = g s) \<Longrightarrow> parses inp I g x a"
  by (simp add: parses_def)

lemma consumes_Inr: "P x [] \<Longrightarrow> consumes inp I (\<lambda>s. Inr (x, s)) P"
  by (simp add: consumes_def)

lemma consumes_Inl: "consumes inp I (\<lambda>s. Inl e) P"
  by (simp add: consumes_def)

lemma consumes_bind:
  assumes f: "consumes inp I f P"
    and g: "\<And>v a. P v a \<Longrightarrow> consumes inp I (g v) (\<lambda>y b. Q y (a @ b))"
  shows "consumes inp I (\<lambda>s. bindE (f s) (\<lambda>(v, s). g v s)) Q"
  unfolding consumes_def
proof (intro allI impI)
  fix s y s'
  assume I: "I s" and eq: "bindE (f s) (\<lambda>(v, s). g v s) = Inr (y, s')"
  then obtain v t where v: "f s = Inr (v, t)" "g v t = Inr (y, s')"
    by (auto simp: bindE_eq_Inr)
  with f I obtain a where a: "I t" "P v a" "inp s = a @ inp t"
    unfolding consumes_def by blast
  with g v obtain b where "I s'" "Q y (a @ b)" "inp t = b @ inp s'"
    unfolding consumes_def by blast
  with a show "I s' \<and> (\<exists>bs. Q y bs \<and> inp s = bs @ inp s')"
    by auto
qed

lemma consumes_mono:
  "consumes inp I f P \<Longrightarrow> (\<And>x bs. P x bs \<Longrightarrow> Q x bs) \<Longrightarrow> consumes inp I f Q"
  unfolding consumes_def by blast

lemma consumes_if:
  "(c \<Longrightarrow> consumes inp I f P) \<Longrightarrow> (\<not> c \<Longrightarrow> consumes inp I g P) \<Longrightarrow>
   consumes inp I (\<lambda>s. if c then f s else g s) P"
  by (cases c) auto

lemma parses_guard:
  "parses inp I f x a \<Longrightarrow> (\<And>s. g x s = Inr (y, s)) \<Longrightarrow>
   parses inp I (\<lambda>s. bindE (f s) (\<lambda>(v, s). g v s)) y a"
  by (fastforce simp: parses_def)

lemma consumes_guard:
  "consumes inp I f P \<Longrightarrow> (\<And>v s y s' a. P v a \<Longrightarrow> g v s = Inr (y, s') \<Longrightarrow> s' = s \<and> Q y a) \<Longrightarrow>
   consumes inp I (\<lambda>s. bindE (f s) (\<lambda>(v, s). g v s)) Q"
  unfolding consumes_def by (fastforce simp: bindE_eq_Inr)

section \<open>The encodings\<close>

definition compact_bytes :: "u64 \<Rightarrow> bytes" where
  "compact_bytes n =
     (if n < 253 then [ucast n]
      else if n \<le> 0xffff then 253 # digits_of 2 (unat n)
      else if n \<le> 0xffffffff then 254 # digits_of 4 (unat n)
      else 255 # digits_of 8 (unat n))"

definition varint_bytes :: "nat \<Rightarrow> bytes" where
  "varint_bytes n = rev (VarInt_tmp 0 n)"

lemma length_compact_bytes: "length (compact_bytes n) = GetSizeOfCompactSize n"
  by (simp add: compact_bytes_def GetSizeOfCompactSize_def)

lemma unat_ucast_small:
  "unat n < 2 ^ LENGTH('b) \<Longrightarrow> unat (ucast n :: 'b::len word) = unat n" for n :: "'a::len word"
  by (simp add: unat_ucast_mod)

lemma decode_le16: "length bs = 2 \<Longrightarrow> le16toh (endian h) (of_mem h bs) = word_of_nat (val_of bs)"
  using ReadLE16_value [of bs h] by (simp add: ReadLE16_def)

lemma decode_be16: "length bs = 2 \<Longrightarrow> be16toh (endian h) (of_mem h bs) = word_of_nat (val_of (rev bs))"
  using ReadBE16_value [of bs h] by (simp add: ReadBE16_def)

lemma decode_le32: "length bs = 4 \<Longrightarrow> le32toh (endian h) (of_mem h bs) = word_of_nat (val_of bs)"
  using ReadLE32_value [of bs h] by (simp add: ReadLE32_def)

lemma decode_le64: "length bs = 8 \<Longrightarrow> le64toh (endian h) (of_mem h bs) = word_of_nat (val_of bs)"
  using ReadLE64_value [of bs h] by (simp add: ReadLE64_def)

lemma decode_be64: "length bs = 8 \<Longrightarrow> be64toh (endian h) (of_mem h bs) = word_of_nat (val_of (rev bs))"
  using ReadBE64_value [of bs h] by (simp add: ReadBE64_def)

lemma encode_be16: "mem_of h (htobe16 (endian h) x) = rev (digits_of 2 (unat x))"
  by (cases h) (simp_all add: endian_defs bswap_16_digits)

lemma encode_le16: "mem_of h (htole16 (endian h) x) = digits_of 2 (unat x)"
  using WriteLE16_bytes [of h x] by (simp only: WriteLE16_def)

lemma encode_le32: "mem_of h (htole32 (endian h) x) = digits_of 4 (unat x)"
  using WriteLE32_bytes [of h x] by (simp only: WriteLE32_def)

lemma encode_le64: "mem_of h (htole64 (endian h) x) = digits_of 8 (unat x)"
  using WriteLE64_bytes [of h x] by (simp only: WriteLE64_def)

lemma encode_be64: "mem_of h (htobe64 (endian h) x) = rev (digits_of 8 (unat x))"
  using WriteBE64_bytes [of h x] by (simp only: WriteBE64_def)

lemmas decode_host = decode_le16 decode_be16 decode_le32 decode_le64 decode_be64
lemmas encode_host = encode_le16 encode_be16 encode_le32 encode_le64 encode_be64

lemma of_mem_byte: "of_mem h [b] = b"
  by (cases h) (simp_all add: of_mem_def)

lemma digits_of_word_of_nat:
  "length bs = k \<Longrightarrow> LENGTH('a) = 8 * k \<Longrightarrow>
   digits_of k (unat (word_of_nat (val_of (bs :: bytes)) :: 'a::len word)) = bs"
  using val_of_less [of bs] digits_of_val_of [of bs] by (simp add: unat_of_nat)

lemma digits_of_word_of_nat_rev:
  "length bs = k \<Longrightarrow> LENGTH('a) = 8 * k \<Longrightarrow>
   rev (digits_of k (unat (word_of_nat (val_of (rev (bs :: bytes))) :: 'a::len word))) = bs"
  using digits_of_word_of_nat [of "rev bs" k, where 'a = 'a] by simp

section \<open>The digits of a variable-length integer\<close>

lemma VarInt_tmp_Suc: "VarInt_tmp (Suc len) n = VarInt_tmp (Suc 0) n"
proof (induction n arbitrary: len rule: less_induct)
  case (less n)
  have "VarInt_tmp (Suc (Suc len)) (n div 128 - 1) = VarInt_tmp (Suc 1) (n div 128 - 1)"
    if "\<not> n \<le> 0x7F"
  proof -
    have "n div 128 - 1 < n" using that by (simp add: less_imp_diff_less)
    from less.IH [OF this, of "Suc len"] less.IH [OF this, of 1] show ?thesis by simp
  qed
  then show ?case
    by (auto simp: VarInt_tmp.simps [of "Suc len" n] VarInt_tmp.simps [of "Suc 0" n] Let_def)
qed

lemma length_VarInt_tmp: "length (VarInt_tmp len n) = GetSizeOfVarInt n"
proof (induction len n rule: VarInt_tmp.induct)
  case (1 len n)
  then show ?case
    by (simp add: VarInt_tmp.simps [of len n] GetSizeOfVarInt.simps [of n] Let_def)
qed

lemma GetSizeOfVarInt_le:
  assumes "n < 2 ^ (7 * k)" "0 < k"
  shows "GetSizeOfVarInt n \<le> k"
  using assms
proof (induction n arbitrary: k rule: GetSizeOfVarInt.induct)
  case (1 n)
  show ?case
  proof (cases "n \<le> 0x7F")
    case True
    then show ?thesis using 1 by (simp add: GetSizeOfVarInt.simps [of n])
  next
    case False
    then obtain j where k: "k = Suc (Suc j)"
      using 1 by (cases k; cases "k - 1") auto
    have "n div 128 < 2 ^ (7 * Suc j)"
      using 1(2) k by (simp add: div_less_iff_less_mult power_add)
    then have "GetSizeOfVarInt (n div 128 - 1) \<le> Suc j"
      using False by (intro 1) auto
    then show ?thesis
      using False k by (simp add: GetSizeOfVarInt.simps [of n])
  qed
qed

lemma varint_bytes_rec:
  "varint_bytes n =
     (if n \<le> 0x7F then [word_of_nat n]
      else rev (VarInt_tmp (Suc 0) (n div 128 - 1)) @ [word_of_nat (n mod 128)])"
  by (simp add: varint_bytes_def VarInt_tmp.simps [of 0 n] Let_def)

lemma VarInt_high_rec:
  "rev (VarInt_tmp (Suc 0) n) =
     (if n \<le> 0x7F then [] else rev (VarInt_tmp (Suc 0) (n div 128 - 1))) @
     [word_of_nat (n mod 128) OR 0x80]"
  by (simp add: VarInt_tmp.simps [of "Suc 0" n] VarInt_tmp_Suc [of "Suc 0"] Let_def)

text \<open>What has been read when the loop of \<open>ReadVarInt\<close> stands at \<open>n\<close>.\<close>

definition varint_prefix :: "nat \<Rightarrow> bytes" where
  "varint_prefix n = (if n = 0 then [] else rev (VarInt_tmp (Suc 0) (n - 1)))"

lemma varint_prefix_high:
  assumes "128 \<le> unat c"
  shows "varint_prefix (n * 128 + unat c mod 128 + 1) = varint_prefix n @ [c]"
proof -
  let ?m = "n * 128 + unat c mod 128"
  have "?m mod 128 = unat c mod 128" "?m div 128 = n" by simp_all
  moreover have "?m \<le> 0x7F \<longleftrightarrow> n = 0"
  proof -
    have "unat c mod 128 < 128" by simp
    then show ?thesis by linarith
  qed
  ultimately show ?thesis
    using byte_high [OF assms] VarInt_high_rec [of ?m]
    by (simp add: varint_prefix_def)
qed

lemma varint_prefix_last:
  assumes "unat c < 128"
  shows "varint_bytes (n * 128 + unat c) = varint_prefix n @ [c]"
proof -
  let ?m = "n * 128 + unat c"
  have "?m mod 128 = unat c" "?m div 128 = n" "?m \<le> 0x7F \<longleftrightarrow> n = 0"
    using assms by auto
  then show ?thesis
    by (simp add: varint_bytes_rec [of ?m] varint_prefix_def)
qed

section \<open>Writers\<close>

lemma VarInt_tmp_fits:
  assumes "n < 2 ^ (8 * isize)" "0 < isize"
  shows "length (VarInt_tmp 0 n) \<le> (isize * 8 + 6) div 7"
proof -
  let ?k = "(isize * 8 + 6) div 7"
  have "8 * isize \<le> 7 * ?k" by simp
  then have "(2::nat) ^ (8 * isize) \<le> 2 ^ (7 * ?k)"
    by (intro power_increasing) auto
  then have "n < 2 ^ (7 * ?k)" using assms by linarith
  then show ?thesis
    using assms by (simp only: length_VarInt_tmp) (intro GetSizeOfVarInt_le; simp)
qed

context byte_sink
begin

lemma write_emits: "emits out winv (\<lambda>s. sk_write W s bs) bs"
  using write_ok by (simp add: emits_def)

lemma writedata_emits:
  "emits out winv (\<lambda>s. ser_writedata8 W s b) [b]"
  "emits out winv (\<lambda>s. ser_writedata16 W s x) (digits_of 2 (unat x))"
  "emits out winv (\<lambda>s. ser_writedata16be W s x) (rev (digits_of 2 (unat x)))"
  "emits out winv (\<lambda>s. ser_writedata32 W s y) (digits_of 4 (unat y))"
  "emits out winv (\<lambda>s. ser_writedata64 W s z) (digits_of 8 (unat z))"
  unfolding ser_writedata8_def ser_writedata16_def ser_writedata16be_def ser_writedata32_def
    ser_writedata64_def Let_def encode_host
  by (rule write_emits)+

lemma WriteCompactSize_template_emits:
  "emits out winv (\<lambda>s. WriteCompactSize_template W s n) (compact_bytes n)"
proof -
  consider "n < 253" | "253 \<le> n" "n \<le> 0xffff" | "0xffff < n" "n \<le> 0xffffffff" | "0xffffffff < n"
    by fastforce
  then show ?thesis
  proof cases
    case 1
    then show ?thesis
      using writedata_emits(1) [of "ucast n"] by (simp add: WriteCompactSize_template_def compact_bytes_def)
  next
    case 2
    moreover have "unat (ucast n :: u16) = unat n"
      using 2 by (intro unat_ucast_small) (simp add: word_le_nat_alt)
    ultimately show ?thesis
      using emits_bind [OF writedata_emits(1) [of 253] writedata_emits(2) [of "ucast n"]]
      by (simp add: WriteCompactSize_template_def compact_bytes_def not_less [symmetric])
  next
    case 3
    moreover have "unat (ucast n :: u32) = unat n"
      using 3 by (intro unat_ucast_small) (simp add: word_le_nat_alt)
    moreover have "\<not> n < 253" "\<not> n \<le> 0xffff"
      using 3 by (auto simp: word_less_nat_alt word_le_nat_alt)
    ultimately show ?thesis
      using emits_bind [OF writedata_emits(1) [of 254] writedata_emits(4) [of "ucast n"]]
      by (simp add: WriteCompactSize_template_def compact_bytes_def)
  next
    case 4
    then have "\<not> n < 253" "\<not> n \<le> 0xffff" "\<not> n \<le> 0xffffffff"
      by (auto simp: word_less_nat_alt word_le_nat_alt)
    then show ?thesis
      using emits_bind [OF writedata_emits(1) [of 255] writedata_emits(5) [of n]]
      by (simp add: WriteCompactSize_template_def compact_bytes_def)
  qed
qed

lemma WriteCompactSize_emits: "emits out winv (\<lambda>s. WriteCompactSize W s n) (compact_bytes n)"
  using WriteCompactSize_template_emits by (simp add: WriteCompactSize_def no_compact)

lemma write_bytes_emits: "emits out winv (\<lambda>s. write_bytes W s bs) bs"
proof (induction bs)
  case Nil
  then show ?case by (simp add: emits_Inr)
next
  case (Cons b bs)
  then show ?case using emits_bind [OF writedata_emits(1) [of b]] by simp
qed

lemma serialize_each_emits:
  "(\<And>x. x \<in> set xs \<Longrightarrow> emits out winv (\<lambda>s. ser s x) (enc x)) \<Longrightarrow>
   emits out winv (\<lambda>s. serialize_each ser s xs) (concat (map enc xs))"
proof (induction xs)
  case Nil
  then show ?case by (simp add: emits_Inr)
next
  case (Cons x xs)
  then show ?case using emits_bind [of out winv "\<lambda>s. ser s x" "enc x"] by simp
qed

lemma Serialize_string_emits:
  "emits out winv (\<lambda>s. Serialize_string W s v) (compact_bytes (word_of_nat (length v)) @ v)"
  using emits_bind [OF WriteCompactSize_emits write_emits [of v]]
    emits_bind [OF WriteCompactSize_emits emits_Inr]
  by (cases "v = []") (simp_all add: Serialize_string_def)

lemma Serialize_bytevector_emits:
  "emits out winv (\<lambda>s. Serialize_bytevector W s v) (compact_bytes (word_of_nat (length v)) @ v)"
  using Serialize_string_emits [of v] by (simp add: Serialize_bytevector_def Serialize_string_def)

lemma WriteVarInt_emits:
  assumes "n < 2 ^ (8 * isize)" "0 < isize"
  shows "emits out winv (\<lambda>s. WriteVarInt isize W s n) (varint_bytes n)"
  using VarInt_tmp_fits [OF assms] write_bytes_emits [of "varint_bytes n"]
  by (simp add: WriteVarInt_def Let_def varint_bytes_def)

end

section \<open>Readers\<close>

context byte_source
begin

lemma read_parses: "length bs = n \<Longrightarrow> parses inp rinv (\<lambda>s. sc_read R s n) bs bs"
  unfolding parses_def
proof (intro allI impI)
  fix s rest assume "length bs = n" "rinv s" "inp s = bs @ rest"
  then show "\<exists>s'. sc_read R s n = Inr (bs, s') \<and> rinv s' \<and> inp s' = rest"
    using read_ok [of s n] by auto
qed

lemma read_consumes:
  assumes "n \<le> 2 ^ 31"
  shows "consumes inp rinv (\<lambda>s. sc_read R s n) (\<lambda>x bs. x = bs \<and> length bs = n)"
  unfolding consumes_def
proof (intro allI impI)
  fix s x s' assume I: "rinv s" and eq: "sc_read R s n = Inr (x, s')"
  then have n: "n \<le> length (inp s)"
    using read_short [of s n] assms by (cases "n \<le> length (inp s)") auto
  show "rinv s' \<and> (\<exists>bs. (x = bs \<and> length bs = n) \<and> inp s = bs @ inp s')"
    using read_ok [OF I n] eq n by (intro conjI exI [of _ "take n (inp s)"]) auto
qed

lemma readdata_parses:
  "parses inp rinv (\<lambda>s. ser_readdata8 R s) b [b]"
  "parses inp rinv (\<lambda>s. ser_readdata16 R s) x (digits_of 2 (unat x))"
  "parses inp rinv (\<lambda>s. ser_readdata16be R s) x (rev (digits_of 2 (unat x)))"
  "parses inp rinv (\<lambda>s. ser_readdata32 R s) y (digits_of 4 (unat y))"
  "parses inp rinv (\<lambda>s. ser_readdata64 R s) z (digits_of 8 (unat z))"
  unfolding ser_readdata8_def ser_readdata16_def ser_readdata16be_def ser_readdata32_def
    ser_readdata64_def
  by (rule parses_map [OF read_parses]; simp add: of_mem_byte decode_host)+

lemma readdata_consumes:
  "consumes inp rinv (\<lambda>s. ser_readdata8 R s) (\<lambda>b bs. bs = [b])"
  "consumes inp rinv (\<lambda>s. ser_readdata16 R s) (\<lambda>x bs. bs = digits_of 2 (unat x))"
  "consumes inp rinv (\<lambda>s. ser_readdata16be R s) (\<lambda>x bs. bs = rev (digits_of 2 (unat x)))"
  "consumes inp rinv (\<lambda>s. ser_readdata32 R s) (\<lambda>x bs. bs = digits_of 4 (unat x))"
  "consumes inp rinv (\<lambda>s. ser_readdata64 R s) (\<lambda>x bs. bs = digits_of 8 (unat x))"
  unfolding ser_readdata8_def ser_readdata16_def ser_readdata16be_def ser_readdata32_def
    ser_readdata64_def
  by (rule consumes_bind [OF read_consumes]; (rule consumes_Inr)?;
      clarsimp simp: of_mem_byte decode_host digits_of_word_of_nat digits_of_word_of_nat_rev
        length_Suc_conv)+

subsection \<open>Compact sizes\<close>

lemma compact_cases:
  fixes n :: u64
  obtains (c1) "n < 253" | (c2) "253 \<le> n" "n \<le> 0xffff"
    | (c4) "\<not> n < 253" "\<not> n \<le> 0xffff" "n \<le> 0xffffffff" "unat n \<le> 0xffffffff" "0xffff < unat n"
    | (c8) "\<not> n < 253" "\<not> n \<le> 0xffff" "\<not> n \<le> 0xffffffff" "0xffffffff < unat n"
  by (cases "n < 253"; cases "n \<le> 0xffff"; cases "n \<le> 0xffffffff")
    (auto simp: word_less_nat_alt word_le_nat_alt)

lemma ReadCompactSize_branch_parses:
  "\<exists>ch rest. compact_bytes n = ch # rest \<and> parses inp rinv (ReadCompactSize_branch R ch) n rest"
proof (cases n rule: compact_cases)
  case c1
  then have u: "unat (ucast n :: u8) = unat n"
    by (intro unat_ucast_small) (simp add: word_less_nat_alt)
  then have "(ucast n :: u8) < 253" "ucast (ucast n :: u8) = n"
    using c1 by (auto simp: word_less_nat_alt word_unat_eq_iff unat_ucast_small)
  with c1 show ?thesis
    by (simp add: compact_bytes_def ReadCompactSize_branch_def [abs_def] parses_Inr)
next
  case c2
  then have u: "unat (ucast n :: u16) = unat n"
    by (intro unat_ucast_small) (simp add: word_le_nat_alt)
  then have "ucast (ucast n :: u16) = n"
    by (simp add: word_unat_eq_iff unat_ucast_up)
  with c2 u show ?thesis
    using parses_guard [OF readdata_parses(2) [of "ucast n"], where y = n]
    by (simp add: compact_bytes_def ReadCompactSize_branch_def [abs_def] not_less [symmetric])
next
  case c4
  then have u: "unat (ucast n :: u32) = unat n"
    by (intro unat_ucast_small) simp
  then have "ucast (ucast n :: u32) = n" "\<not> n < 0x10000"
    using c4 by (simp_all add: word_unat_eq_iff unat_ucast_up word_less_nat_alt)
  with c4 u show ?thesis
    using parses_guard [OF readdata_parses(4) [of "ucast n"], where y = n]
    by (simp add: compact_bytes_def ReadCompactSize_branch_def [abs_def])
next
  case c8
  then have "\<not> n < 0x100000000"
    by (simp add: word_less_nat_alt)
  with c8 show ?thesis
    using parses_guard [OF readdata_parses(5) [of n], where y = n]
    by (simp add: compact_bytes_def ReadCompactSize_branch_def [abs_def])
qed

lemma ReadCompactSize_parses:
  assumes "\<not> range_check \<or> n \<le> MAX_SIZE"
  shows "parses inp rinv (\<lambda>s. ReadCompactSize range_check R s) n (compact_bytes n)"
proof -
  obtain ch rest where c: "compact_bytes n = [ch] @ rest"
    and p: "parses inp rinv (ReadCompactSize_branch R ch) n rest"
    using ReadCompactSize_branch_parses [of n] by auto
  show ?thesis
    unfolding c ReadCompactSize_def
    by (rule parses_bind [OF readdata_parses(1)], rule parses_guard [OF p]) (use assms in auto)
qed

lemma ReadCompactSize_branch_consumes:
  "consumes inp rinv (ReadCompactSize_branch R ch) (\<lambda>n bs. ch # bs = compact_bytes n)"
proof -
  consider "ch < 253" | "ch = 253" | "ch = 254" | "ch = 255"
  proof -
    have "unat ch < 253 \<or> unat ch = 253 \<or> unat ch = 254 \<or> unat ch = 255"
      using unat_less_256 [of ch] by linarith
    then show thesis
      using that by (auto simp: word_less_nat_alt word_unat_eq_iff)
  qed
  then show ?thesis
  proof cases
    case 1
    then have "(ucast ch :: u64) < 253" "ucast (ucast ch :: u64) = ch"
      by (simp_all add: word_less_nat_alt unat_ucast_small word_unat_eq_iff)
    with 1 show ?thesis
      by (auto simp: ReadCompactSize_branch_def [abs_def] compact_bytes_def intro: consumes_Inr)
  next
    case 2
    have "unat (ucast m :: u64) = unat m" for m :: u16
      using unat_lt2p [of m] by (intro unat_ucast_small) simp
    moreover have "unat m \<le> 0xffff" "unat m \<le> 0xffffffff" for m :: u16
      using unat_lt2p [of m] by simp_all
    ultimately have "consumes inp rinv (\<lambda>is. bindE (ser_readdata16 R is) (\<lambda>(n, is).
          if (ucast n :: u64) < 253 then Inl (IosFailure ''non-canonical ReadCompactSize()'')
          else Inr (ucast n, is))) (\<lambda>n bs. 253 # bs = compact_bytes n)"
      by (intro consumes_guard [OF readdata_consumes(2)])
        (auto simp: compact_bytes_def word_le_nat_alt split: if_splits)
    with 2 show ?thesis by (simp add: ReadCompactSize_branch_def [abs_def])
  next
    case 3
    have "unat (ucast m :: u64) = unat m" for m :: u32
      using unat_lt2p [of m] by (intro unat_ucast_small) simp
    moreover have "unat m \<le> 0xffffffff" for m :: u32
      using unat_lt2p [of m] by simp
    ultimately have "consumes inp rinv (\<lambda>is. bindE (ser_readdata32 R is) (\<lambda>(n, is).
          if (ucast n :: u64) < 0x10000 then Inl (IosFailure ''non-canonical ReadCompactSize()'')
          else Inr (ucast n, is))) (\<lambda>n bs. 254 # bs = compact_bytes n)"
      by (intro consumes_guard [OF readdata_consumes(4)])
        (auto simp: compact_bytes_def word_le_nat_alt word_less_nat_alt split: if_splits)
    with 3 show ?thesis by (simp add: ReadCompactSize_branch_def [abs_def])
  next
    case 4
    have "consumes inp rinv (\<lambda>is. bindE (ser_readdata64 R is) (\<lambda>(n, is).
          if n < 0x100000000 then Inl (IosFailure ''non-canonical ReadCompactSize()'')
          else Inr (n, is))) (\<lambda>n bs. 255 # bs = compact_bytes n)"
      by (intro consumes_guard [OF readdata_consumes(5)])
        (auto simp: compact_bytes_def word_le_nat_alt word_less_nat_alt split: if_splits)
    with 4 show ?thesis by (simp add: ReadCompactSize_branch_def [abs_def])
  qed
qed

lemma ReadCompactSize_consumes:
  "consumes inp rinv (\<lambda>s. ReadCompactSize range_check R s)
     (\<lambda>n bs. bs = compact_bytes n \<and> (range_check \<longrightarrow> n \<le> MAX_SIZE))"
  unfolding ReadCompactSize_def
  by (rule consumes_bind [OF readdata_consumes(1)],
      rule consumes_guard [OF ReadCompactSize_branch_consumes]) (auto split: if_splits)

subsection \<open>Variable-length integers\<close>

lemma ReadVarInt_step:
  assumes I: "rinv s" and inp: "inp s = c # rest"
  obtains s' where "rinv s'" "inp s' = rest"
    and "ReadVarInt_loop imax R n s =
      (if n > imax div 128 then Inl (IosFailure ''ReadVarInt(): size too large'')
       else if 128 \<le> unat c then
         (if n * 128 + unat c mod 128 = imax then Inl (IosFailure ''ReadVarInt(): size too large'')
          else ReadVarInt_loop imax R (n * 128 + unat c mod 128 + 1) s')
       else Inr (n * 128 + unat c, s'))"
proof -
  obtain s' where s': "ser_readdata8 R s = Inr (c, s')" "rinv s'" "inp s' = rest"
    using parsesD [OF readdata_parses(1) [of c] I, of rest] inp by auto
  show thesis
    by (rule that [OF s'(2,3)], subst ReadVarInt_loop.simps)
      (simp add: s'(1) Let_def byte_and_80 unat_byte_and_7f not_less)
qed

lemma ReadVarInt_high:
  assumes "rinv s" "inp s = rev (VarInt_tmp (Suc 0) n) @ rest" "n < imax"
  shows "\<exists>s'. rinv s' \<and> inp s' = rest \<and> ReadVarInt_loop imax R 0 s = ReadVarInt_loop imax R (n + 1) s'"
  using assms
proof (induction n arbitrary: s rest rule: less_induct)
  case (less n)
  let ?c = "word_of_nat (n mod 128) OR 0x80 :: u8"
  have c: "unat ?c = n mod 128 + 128"
    by (rule byte_or_80) simp
  have "\<exists>t m. rinv t \<and> inp t = ?c # rest \<and> m = n div 128 \<and>
      ReadVarInt_loop imax R 0 s = ReadVarInt_loop imax R m t"
  proof (cases "n \<le> 0x7F")
    case True
    then show ?thesis
      using less.prems by (intro exI [of _ s] exI [of _ 0]) (simp add: VarInt_high_rec [of n])
  next
    case False
    then have "n div 128 - 1 < n" "n div 128 - 1 + 1 = n div 128" "n div 128 - 1 < imax"
      using less.prems(3) by auto
    with False less.prems less.IH [of "n div 128 - 1" s "?c # rest"] show ?thesis
      by (auto simp: VarInt_high_rec [of n])
  qed
  then obtain t where t: "rinv t" "inp t = ?c # rest"
    "ReadVarInt_loop imax R 0 s = ReadVarInt_loop imax R (n div 128) t" by blast
  obtain t' where t': "rinv t'" "inp t' = rest"
    and eq: "ReadVarInt_loop imax R (n div 128) t =
      (if n div 128 > imax div 128 then Inl (IosFailure ''ReadVarInt(): size too large'')
       else if 128 \<le> unat ?c then
         (if n div 128 * 128 + unat ?c mod 128 = imax
          then Inl (IosFailure ''ReadVarInt(): size too large'')
          else ReadVarInt_loop imax R (n div 128 * 128 + unat ?c mod 128 + 1) t')
       else Inr (n div 128 * 128 + unat ?c, t'))"
    by (rule ReadVarInt_step [OF t(1,2), of imax "n div 128"]) (rule that)
  have "\<not> n div 128 > imax div 128" "unat ?c mod 128 = n mod 128"
    using less.prems(3) by (simp_all add: c div_le_mono not_less)
  then show ?case
    using t t' eq less.prems(3) by (auto simp: c)
qed

lemma ReadVarInt_parses:
  assumes "n \<le> imax"
  shows "parses inp rinv (\<lambda>s. ReadVarInt imax R s) n (varint_bytes n)"
  unfolding parses_def ReadVarInt_def
proof (intro allI impI)
  fix s rest assume I: "rinv s" and inp: "inp s = varint_bytes n @ rest"
  let ?c = "word_of_nat (n mod 128) :: u8"
  have c: "unat ?c = n mod 128"
    by (simp add: unat_of_nat)
  have "\<exists>t. rinv t \<and> inp t = ?c # rest \<and>
      ReadVarInt_loop imax R 0 s = ReadVarInt_loop imax R (n div 128) t"
  proof (cases "n \<le> 0x7F")
    case True
    then show ?thesis
      using I inp by (intro exI [of _ s]) (simp add: varint_bytes_rec [of n])
  next
    case False
    then have "n div 128 - 1 < imax" "n div 128 - 1 + 1 = n div 128"
      using assms by auto
    with False I inp ReadVarInt_high [of s "n div 128 - 1" "?c # rest" imax] show ?thesis
      by (auto simp: varint_bytes_rec [of n])
  qed
  then obtain t where t: "rinv t" "inp t = ?c # rest"
    "ReadVarInt_loop imax R 0 s = ReadVarInt_loop imax R (n div 128) t" by blast
  have "\<not> n div 128 > imax div 128" "\<not> 128 \<le> unat ?c"
    using assms by (simp_all add: c div_le_mono not_less not_le)
  with t show "\<exists>s'. ReadVarInt_loop imax R 0 s = Inr (n, s') \<and> rinv s' \<and> inp s' = rest"
    using ReadVarInt_step [OF t(1,2), of imax "n div 128"] by (auto simp: c)
qed

lemma ReadVarInt_loop_consumes:
  assumes "rinv s" "ReadVarInt_loop imax R n s = Inr (x, s')" "imax mod 128 = 127"
  shows "rinv s' \<and> x \<le> imax \<and> (\<exists>bs. varint_prefix n @ bs = varint_bytes x \<and> inp s = bs @ inp s')"
  using assms
proof (induction "imax + 1 - n" arbitrary: n s rule: less_induct)
  case less
  obtain c t where c: "ser_readdata8 R s = Inr (c, t)"
    using less.prems(2) by (subst (asm) ReadVarInt_loop.simps) (auto simp: bindE_eq_Inr)
  from consumesD [OF readdata_consumes(1) less.prems(1) c]
  have t: "rinv t" and inp: "inp s = c # inp t" by auto
  have n: "n \<le> imax div 128"
    using less.prems(2) by (subst (asm) ReadVarInt_loop.simps) (auto simp: c split: if_splits)
  let ?m = "n * 128 + unat c mod 128"
  have m: "?m \<le> imax"
  proof -
    have "imax = imax div 128 * 128 + 127" using less.prems(3) by (metis div_mult_mod_eq)
    moreover have "unat c mod 128 \<le> 127" by simp
    ultimately show ?thesis using n by linarith
  qed
  show ?case
  proof (cases "128 \<le> unat c")
    case True
    then have "ReadVarInt_loop imax R (?m + 1) t = Inr (x, s')" "?m \<noteq> imax"
      using less.prems(2) by (subst (asm) ReadVarInt_loop.simps;
          auto simp: c n not_less Let_def byte_and_80 unat_byte_and_7f split: if_splits)+
    moreover have "imax + 1 - (?m + 1) < imax + 1 - n"
      using n m \<open>?m \<noteq> imax\<close> by linarith
    ultimately have "rinv s' \<and> x \<le> imax \<and>
        (\<exists>bs. varint_prefix (?m + 1) @ bs = varint_bytes x \<and> inp t = bs @ inp s')"
      using less.hyps t less.prems(3) by blast
    then show ?thesis
      using True inp varint_prefix_high [OF True, of n] by auto
  next
    case False
    then have "x = n * 128 + unat c" "s' = t"
      using less.prems(2) by (subst (asm) ReadVarInt_loop.simps;
          auto simp: c n not_less Let_def byte_and_80 unat_byte_and_7f split: if_splits)+
    then show ?thesis
      using False t inp m varint_prefix_last [of c n]
      by (auto simp: not_le intro!: exI [of _ "[c]"])
  qed
qed

lemma ReadVarInt_consumes:
  assumes "imax mod 128 = 127"
  shows "consumes inp rinv (\<lambda>s. ReadVarInt imax R s) (\<lambda>x bs. bs = varint_bytes x \<and> x \<le> imax)"
  unfolding consumes_def ReadVarInt_def
  using ReadVarInt_loop_consumes [where n = 0, OF _ _ assms] by (fastforce simp: varint_prefix_def)

end

section \<open>Counting\<close>

context count_sink
begin

lemma write_counts: "counts cnt winv (\<lambda>s. sk_write W s bs) (length bs)"
  using cnt_write by (simp add: counts_def)

lemma writedata_counts:
  "counts cnt winv (\<lambda>s. ser_writedata8 W s b) 1"
  "counts cnt winv (\<lambda>s. ser_writedata16 W s x) 2"
  "counts cnt winv (\<lambda>s. ser_writedata32 W s y) 4"
  "counts cnt winv (\<lambda>s. ser_writedata64 W s z) 8"
  using write_counts [of "[b]"] write_counts [of "digits_of 2 (unat x)"]
    write_counts [of "digits_of 4 (unat y)"] write_counts [of "digits_of 8 (unat z)"]
  by (simp_all add: ser_writedata8_def ser_writedata16_def ser_writedata32_def ser_writedata64_def
      Let_def encode_host)

lemma WriteCompactSize_template_counts:
  "counts cnt winv (\<lambda>s. WriteCompactSize_template W s n) (GetSizeOfCompactSize n)"
  using writedata_counts(1) [of "ucast n"]
    counts_bind [OF writedata_counts(1) [of 253] writedata_counts(2) [of "ucast n"]]
    counts_bind [OF writedata_counts(1) [of 254] writedata_counts(3) [of "ucast n"]]
    counts_bind [OF writedata_counts(1) [of 255] writedata_counts(4) [of n]]
  by (simp add: WriteCompactSize_template_def GetSizeOfCompactSize_def)

lemma WriteCompactSize_counts:
  "counts cnt winv (\<lambda>s. WriteCompactSize W s n) (GetSizeOfCompactSize n)"
proof (cases "sk_compact W")
  case None
  then show ?thesis
    using WriteCompactSize_template_counts by (simp add: WriteCompactSize_def)
next
  case (Some f)
  then show ?thesis
    using cnt_compact by (simp add: WriteCompactSize_def counts_def)
qed

lemma write_bytes_counts: "counts cnt winv (\<lambda>s. write_bytes W s bs) (length bs)"
proof (induction bs)
  case Nil
  then show ?case by (simp add: counts_Inr)
next
  case (Cons b bs)
  then show ?case using counts_bind [OF writedata_counts(1) [of b]] by simp
qed

lemma WriteVarInt_counts:
  assumes "n < 2 ^ (8 * isize)" "0 < isize"
  shows "counts cnt winv (\<lambda>s. WriteVarInt isize W s n) (length (varint_bytes n))"
  using VarInt_tmp_fits [OF assms] write_bytes_counts [of "varint_bytes n"]
  by (simp add: WriteVarInt_def Let_def varint_bytes_def)

lemma serialize_each_counts:
  "(\<And>x. x \<in> set xs \<Longrightarrow> counts cnt winv (\<lambda>s. ser s x) (sz x)) \<Longrightarrow>
   counts cnt winv (\<lambda>s. serialize_each ser s xs) (sum_list (map sz xs))"
proof (induction xs)
  case Nil
  then show ?case by (simp add: counts_Inr)
next
  case (Cons x xs)
  then show ?case using counts_bind [of cnt winv "\<lambda>s. ser s x" "sz x"] by simp
qed

lemma Serialize_bytevector_counts:
  "counts cnt winv (\<lambda>s. Serialize_bytevector W s v)
     (GetSizeOfCompactSize (word_of_nat (length v)) + length v)"
  using counts_bind [OF WriteCompactSize_counts write_counts [of v]]
    counts_bind [OF WriteCompactSize_counts counts_Inr]
  by (cases "v = []") (simp_all add: Serialize_bytevector_def)

lemma VectorFormatter_Ser_counts:
  "(\<And>x. x \<in> set xs \<Longrightarrow> counts cnt winv (\<lambda>s. ser s x) (sz x)) \<Longrightarrow>
   counts cnt winv (\<lambda>s. VectorFormatter_Ser ser W s xs)
     (GetSizeOfCompactSize (word_of_nat (length xs)) + sum_list (map sz xs))"
  unfolding VectorFormatter_Ser_def
  by (rule counts_bind [OF WriteCompactSize_counts serialize_each_counts])

end

section \<open>Batches and blocks read the same elements as a plain loop\<close>

lemma unserialize_n_length:
  "unserialize_n uns k s = Inr (xs, s') \<Longrightarrow> length xs = k"
  by (induction k arbitrary: s xs s') (auto simp: bindE_eq_Inr)

lemma unserialize_n_add:
  "unserialize_n uns (a + b) s =
     bindE (unserialize_n uns a s) (\<lambda>(xs, s). bindE (unserialize_n uns b s) (\<lambda>(ys, s). Inr (xs @ ys, s)))"
proof (induction a arbitrary: s)
  case 0
  show ?case by (cases "unserialize_n uns b s") auto
next
  case (Suc a)
  show ?case
  proof (cases "uns s")
    case (Inr p)
    then obtain x t where xt: "uns s = Inr (x, t)" by (cases p) auto
    show ?thesis
      by (cases "unserialize_n uns a t") (auto simp: xt Suc bindE_def split: sum.splits)
  qed simp
qed

lemma VectorFormatter_batches_eq:
  assumes "0 < elsize" "elsize \<le> MAX_VECTOR_ALLOCATE" "length v = allocated" "allocated \<le> n"
  shows "VectorFormatter_batches elsize uns n allocated v s =
    bindE (unserialize_n uns (n - allocated) s) (\<lambda>(xs, s). Inr (v @ xs, s))"
  using assms
proof (induction "n - allocated" arbitrary: allocated v s rule: less_induct)
  case less
  show ?case
  proof (cases "allocated < n")
    case False
    with less.prems have "allocated = n" by simp
    with less.prems show ?thesis
      by (simp add: VectorFormatter_batches.simps [of elsize uns n n v s])
  next
    case True
    define a' where "a' = min n (allocated + MAX_VECTOR_ALLOCATE div elsize)"
    have "0 < MAX_VECTOR_ALLOCATE div elsize"
      using less.prems by (simp add: div_greater_zero_iff)
    with True have a': "allocated < a'" "a' \<le> n" by (auto simp: a'_def)
    have "VectorFormatter_batches elsize uns n allocated v s =
        bindE (unserialize_n uns (a' - allocated) s) (\<lambda>(xs, s).
          VectorFormatter_batches elsize uns n a' (v @ xs) s)"
      using True less.prems
      by (simp add: VectorFormatter_batches.simps [of elsize uns n allocated v s] a'_def Let_def)
    also have "\<dots> = bindE (unserialize_n uns (a' - allocated) s) (\<lambda>(xs, s).
          bindE (unserialize_n uns (n - a') s) (\<lambda>(ys, s). Inr ((v @ xs) @ ys, s)))"
    proof (intro bindE_cong refl, clarify)
      fix xs t assume "unserialize_n uns (a' - allocated) s = Inr (xs, t)"
      then have "length (v @ xs) = a'"
        using a' less.prems by (auto dest!: unserialize_n_length)
      then show "VectorFormatter_batches elsize uns n a' (v @ xs) t =
          bindE (unserialize_n uns (n - a') t) (\<lambda>(ys, s). Inr ((v @ xs) @ ys, s))"
        using a' less.prems by (intro less.hyps) auto
    qed
    also have "\<dots> = bindE (unserialize_n uns ((a' - allocated) + (n - a')) s) (\<lambda>(xs, s). Inr (v @ xs, s))"
      unfolding unserialize_n_add
      by (auto simp: bindE_def split: sum.splits)
    finally show ?thesis using a' by simp
  qed
qed

context byte_source
begin

lemma Unserialize_blocks_parses:
  "parses inp rinv (\<lambda>s. Unserialize_blocks R (i + length bs) i v s) (v @ bs) bs"
proof (induction "length bs" arbitrary: bs i v rule: less_induct)
  case less
  show ?case
  proof (cases "bs = []")
    case True
    have "Unserialize_blocks R i i v s = Inr (v, s)" for s
      by (simp add: Unserialize_blocks.simps [of R i i v])
    then show ?thesis
      using True by (auto intro: parses_cong [OF parses_Inr])
  next
    case False
    define blk where "blk = min (length bs) 5000000"
    have blk: "0 < blk" "blk \<le> length bs" using False by (auto simp: blk_def)
    have IH: "parses inp rinv (\<lambda>s. Unserialize_blocks R (i + blk + length (drop blk bs)) (i + blk)
        (v @ take blk bs) s) ((v @ take blk bs) @ drop blk bs) (drop blk bs)"
      using blk by (intro less) auto
    have eq: "Unserialize_blocks R (i + length bs) i v s =
        bindE (sc_read R s blk) (\<lambda>(xs, s). Unserialize_blocks R (i + length bs) (i + blk) (v @ xs) s)" for s
      using False by (subst Unserialize_blocks.simps) (simp add: blk_def Let_def)
    have "parses inp rinv (\<lambda>s. bindE (sc_read R s blk)
        (\<lambda>(xs, s). Unserialize_blocks R (i + length bs) (i + blk) (v @ xs) s)) (v @ bs)
        (take blk bs @ drop blk bs)"
      using IH blk by (intro parses_bind [OF read_parses]) auto
    then show ?thesis
      unfolding append_take_drop_id by (rule parses_cong) (simp add: eq)
  qed
qed

lemma unat_small_compact:
  assumes "length v \<le> unat MAX_SIZE"
  shows "(word_of_nat (length v) :: u64) \<le> MAX_SIZE"
    and "unat (word_of_nat (length v) :: u64) = length v"
    and "unat (ucast (word_of_nat (length v) :: u64) :: u32) = length v"
  using assms by (simp_all add: MAX_SIZE_def word_le_nat_alt unat_of_nat unat_ucast_mod)

lemma Unserialize_bytevector_parses:
  assumes "length v \<le> unat MAX_SIZE"
  shows "parses inp rinv (\<lambda>s. Unserialize_bytevector R s) v (compact_bytes (word_of_nat (length v)) @ v)"
  unfolding Unserialize_bytevector_def
  using assms Unserialize_blocks_parses [of 0 v "[]"]
  by (intro parses_bind [OF ReadCompactSize_parses]) (simp_all add: unat_small_compact Let_def)

lemma Unserialize_string_parses:
  assumes "length v \<le> unat MAX_SIZE"
  shows "parses inp rinv (\<lambda>s. Unserialize_string R s) v (compact_bytes (word_of_nat (length v)) @ v)"
  unfolding Unserialize_string_def
  using assms read_parses [of v "length v"] parses_Inr [of inp rinv "[]"]
  by (cases "v = []"; intro parses_bind [OF ReadCompactSize_parses])
    (simp_all add: unat_small_compact Let_def word_unat_eq_iff [where 'a = 32])

lemma LimitedStringFormatter_Unser_parses:
  assumes "length v \<le> unat MAX_SIZE" "length v \<le> unat Limit"
  shows "parses inp rinv (\<lambda>s. LimitedStringFormatter_Unser Limit R s) v
     (compact_bytes (word_of_nat (length v)) @ v)"
  unfolding LimitedStringFormatter_Unser_def
  using assms read_parses [of v "length v"] parses_Inr [of inp rinv "[]"]
  by (cases "v = []"; intro parses_bind [OF ReadCompactSize_parses])
    (simp_all add: unat_small_compact word_unat_eq_iff [where 'a = 64] word_less_nat_alt)

lemma Unserialize_optional_parses:
  assumes "\<And>y. x = Some y \<Longrightarrow> parses inp rinv uns y (enc y)"
  shows "parses inp rinv (\<lambda>s. Unserialize_optional uns R s) x
     (case x of None \<Rightarrow> [0] | Some y \<Rightarrow> [1] @ enc y)"
proof (cases x)
  case None
  then show ?thesis
    unfolding Unserialize_optional_def None option.case
    by (intro parses_guard [OF readdata_parses(1)]) simp
next
  case (Some y)
  then have "parses inp rinv (\<lambda>s. bindE (uns s) (\<lambda>(object, is). Inr (Some object, is))) x (enc y)"
    using assms by (intro parses_map) auto
  then show ?thesis
    unfolding Unserialize_optional_def Some option.case
    by (intro parses_bind [OF readdata_parses(1)]) (simp add: Some)
qed

end

end
