(* ===== verification/Containers.thy ===== *)
theory Containers
  imports Codecs
begin

unbundle bit_operations_syntax

text \<open>
  The codec contract of a serialisable type and its closure under the container templates of
  \<open>serialize.h\<close>, the interpretations for the integer, string and byte vector codecs over
  the program's streams, and the properties of the serialisation layer.
\<close>

section \<open>The codec contract\<close>

locale codec =
  sink: byte_sink W out winv + source: byte_source R inp rinv
  for W :: "'w sink_ops" and out :: "'w \<Rightarrow> bytes" and winv :: "'w \<Rightarrow> bool"
    and R :: "'r source_ops" and inp :: "'r \<Rightarrow> bytes" and rinv :: "'r \<Rightarrow> bool" +
  fixes ser :: "'w \<Rightarrow> 'a \<Rightarrow> 'w res" and uns :: "'r \<Rightarrow> ('a \<times> 'r) res"
    and enc :: "'a \<Rightarrow> bytes" and ok :: "'a \<Rightarrow> bool"
  assumes ser_emits: "ok x \<Longrightarrow> emits out winv (\<lambda>s. ser s x) (enc x)"
    and uns_parses: "ok x \<Longrightarrow> parses inp rinv uns x (enc x)"

lemma map_insert_last:
  "(\<And>p. p \<in> set m \<Longrightarrow> fst p < k) \<Longrightarrow> map_insert k t m = m @ [(k, t)]"
  by (induction m) force+

lemma set_insert_last:
  "(\<And>x. x \<in> set m \<Longrightarrow> x < k) \<Longrightarrow> set_insert k m = m @ [k]"
  by (induction m) force+

context codec
begin

text \<open>What a value's serialiser adds to a sink, its reader takes from a source.\<close>

lemma roundtrip:
  assumes "ok x" "winv s"
  shows "\<exists>s'. ser s x = Inr s' \<and> winv s' \<and> out s' = out s @ enc x \<and>
    (\<forall>t rest. rinv t \<longrightarrow> inp t = enc x @ rest \<longrightarrow>
       (\<exists>t'. uns t = Inr (x, t') \<and> rinv t' \<and> inp t' = rest))"
  using ser_emits [OF assms(1)] uns_parses [OF assms(1)] assms(2)
  unfolding emits_def parses_def by blast

lemma unserialize_n_parses:
  "list_all ok xs \<Longrightarrow>
   parses inp rinv (\<lambda>s. unserialize_n uns (length xs) s) xs (concat (map enc xs))"
proof (induction xs)
  case Nil
  then show ?case by (simp add: parses_Inr)
next
  case (Cons x xs)
  then have "parses inp rinv (\<lambda>s. bindE (unserialize_n uns (length xs) s) (\<lambda>(xs, s). Inr (x # xs, s)))
      (x # xs) (concat (map enc xs))"
    by (intro parses_map) auto
  with Cons.prems show ?case
    using parses_bind [OF uns_parses [of x]] by simp
qed

lemma each_emits:
  "list_all ok xs \<Longrightarrow> emits out winv (\<lambda>s. serialize_each ser s xs) (concat (map enc xs))"
  by (rule sink.serialize_each_emits) (auto simp: list_all_iff ser_emits)

abbreviation list_enc :: "'a list \<Rightarrow> bytes" where
  "list_enc xs \<equiv> compact_bytes (word_of_nat (length xs)) @ concat (map enc xs)"

abbreviation list_ok :: "'a list \<Rightarrow> bool" where
  "list_ok xs \<equiv> length xs \<le> unat MAX_SIZE \<and> list_all ok xs"

lemma Serialize_list_emits:
  "list_ok xs \<Longrightarrow> emits out winv (\<lambda>s. Serialize_list ser W s xs) (list_enc xs)"
  unfolding Serialize_list_def
  by (rule emits_bind [OF sink.WriteCompactSize_emits each_emits]) simp

lemma vector_codec:
  assumes "0 < elsize" "elsize \<le> MAX_VECTOR_ALLOCATE"
  shows "codec W out winv R inp rinv (\<lambda>s. VectorFormatter_Ser ser W s)
     (\<lambda>s. VectorFormatter_Unser elsize uns R s) list_enc list_ok"
proof unfold_locales
  fix xs assume "list_ok xs"
  then show "emits out winv (\<lambda>s. VectorFormatter_Ser ser W s xs) (list_enc xs)"
    using Serialize_list_emits [of xs] by (simp add: Serialize_list_def VectorFormatter_Ser_def)
next
  fix xs assume xs: "list_ok xs"
  have eq: "VectorFormatter_batches elsize uns n 0 [] s = unserialize_n uns n s" for n s
    using VectorFormatter_batches_eq [OF assms, of "[]" 0 n uns s]
    by (cases "unserialize_n uns n s") auto
  show "parses inp rinv (\<lambda>s. VectorFormatter_Unser elsize uns R s) xs (list_enc xs)"
    unfolding VectorFormatter_Unser_def eq
    using xs unserialize_n_parses [of xs]
    by (intro parses_bind [OF source.ReadCompactSize_parses])
      (simp_all add: source.unat_small_compact)
qed

lemma list_codec:
  "codec W out winv R inp rinv (\<lambda>s. Serialize_list ser W s) (\<lambda>s. Unserialize_list uns R s)
     list_enc list_ok"
proof unfold_locales
  fix xs assume xs: "list_ok xs"
  then show "emits out winv (\<lambda>s. Serialize_list ser W s xs) (list_enc xs)"
    by (rule Serialize_list_emits)
  show "parses inp rinv (\<lambda>s. Unserialize_list uns R s) xs (list_enc xs)"
    unfolding Unserialize_list_def
    using xs unserialize_n_parses [of xs]
    by (intro parses_bind [OF source.ReadCompactSize_parses])
      (simp_all add: source.unat_small_compact Let_def)
qed

lemma optional_codec:
  "codec W out winv R inp rinv (\<lambda>s. Serialize_optional ser W s) (\<lambda>s. Unserialize_optional uns R s)
     (\<lambda>x. case x of None \<Rightarrow> [0] | Some y \<Rightarrow> [1] @ enc y) (\<lambda>x. \<forall>y. x = Some y \<longrightarrow> ok y)"
proof unfold_locales
  fix x assume x: "\<forall>y. x = Some y \<longrightarrow> ok y"
  then show "emits out winv (\<lambda>s. Serialize_optional ser W s x)
      (case x of None \<Rightarrow> [0] | Some y \<Rightarrow> [1] @ enc y)"
    using sink.writedata_emits(1) [of 0] emits_bind [OF sink.writedata_emits(1) [of 1] ser_emits]
    by (cases x) (simp_all add: Serialize_optional_def)
  from x show "parses inp rinv (\<lambda>s. Unserialize_optional uns R s) x
      (case x of None \<Rightarrow> [0] | Some y \<Rightarrow> [1] @ enc y)"
    by (intro source.Unserialize_optional_parses uns_parses) auto
qed

lemma array_codec:
  "codec W out winv R inp rinv (\<lambda>s. Serialize_array ser s) (\<lambda>s. Unserialize_array N uns s)
     (\<lambda>xs. concat (map enc xs)) (\<lambda>xs. length xs = N \<and> list_all ok xs)"
  using each_emits unserialize_n_parses
  by unfold_locales (auto simp: Serialize_array_def Unserialize_array_def)

end

text \<open>Sets: the keys are written in order, so each one read goes to the end.\<close>

locale ordered_codec = codec W out winv R inp rinv ser uns enc ok
  for W :: "'w sink_ops" and out winv and R :: "'r source_ops" and inp rinv
    and ser :: "'w \<Rightarrow> 'a::linorder \<Rightarrow> 'w res" and uns enc ok
begin

lemma Unserialize_set_loop_parses:
  "list_all ok xs \<Longrightarrow> sorted_wrt (<) (m @ xs) \<Longrightarrow>
   parses inp rinv (\<lambda>s. Unserialize_set_loop uns (length xs) m s) (m @ xs) (concat (map enc xs))"
proof (induction xs arbitrary: m)
  case Nil
  then show ?case by (simp add: parses_Inr)
next
  case (Cons x xs)
  have "set_insert x m = m @ [x]"
    using Cons.prems(2) by (intro set_insert_last) (auto simp: sorted_wrt_append)
  moreover have "parses inp rinv (\<lambda>s. Unserialize_set_loop uns (length xs) (m @ [x]) s)
      ((m @ [x]) @ xs) (concat (map enc xs))"
    using Cons.prems by (intro Cons.IH) auto
  ultimately have "parses inp rinv
      (\<lambda>s. bindE (uns s) (\<lambda>(key, s). Unserialize_set_loop uns (length xs) (set_insert key m) s))
      (m @ x # xs) (enc x @ concat (map enc xs))"
    using Cons.prems by (intro parses_bind [OF uns_parses]) auto
  then show ?case by simp
qed

lemma set_codec:
  "codec W out winv R inp rinv (\<lambda>s. Serialize_set ser W s) (\<lambda>s. Unserialize_set uns R s)
     list_enc (\<lambda>xs. list_ok xs \<and> sorted_wrt (<) xs)"
proof unfold_locales
  fix xs assume "list_ok xs \<and> sorted_wrt (<) xs"
  then show "emits out winv (\<lambda>s. Serialize_set ser W s xs) (list_enc xs)"
    using Serialize_list_emits [of xs] by (simp add: Serialize_list_def Serialize_set_def)
next
  fix xs assume "list_ok xs \<and> sorted_wrt (<) xs"
  then show "parses inp rinv (\<lambda>s. Unserialize_set uns R s) xs (list_enc xs)"
    unfolding Unserialize_set_def
    using Unserialize_set_loop_parses [of xs "[]"]
    by (intro parses_bind [OF source.ReadCompactSize_parses])
      (simp_all add: source.unat_small_compact Let_def)
qed

end

text \<open>Pairs and maps combine two codecs over the same streams.\<close>

locale codec_pair =
  key: codec W out winv R inp rinv serK unsK encK okK +
  val: codec W out winv R inp rinv serT unsT encT okT
  for W :: "'w sink_ops" and out winv and R :: "'r source_ops" and inp rinv
    and serK :: "'w \<Rightarrow> 'k::linorder \<Rightarrow> 'w res" and unsK encK okK
    and serT :: "'w \<Rightarrow> 't \<Rightarrow> 'w res" and unsT encT okT

sublocale codec_pair \<subseteq> pair: codec W out winv R inp rinv
  "Serialize_pair serK serT" "Unserialize_pair unsK unsT"
  "\<lambda>p. encK (fst p) @ encT (snd p)" "\<lambda>p. okK (fst p) \<and> okT (snd p)"
proof unfold_locales
  fix p :: "'k \<times> 't" assume p: "okK (fst p) \<and> okT (snd p)"
  then show "emits out winv (\<lambda>s. Serialize_pair serK serT s p) (encK (fst p) @ encT (snd p))"
    unfolding Serialize_pair_def by (intro emits_bind key.ser_emits val.ser_emits) auto
  show "parses inp rinv (Unserialize_pair unsK unsT) p (encK (fst p) @ encT (snd p))"
    unfolding Unserialize_pair_def
    using p by (intro parses_bind [OF key.uns_parses] parses_map [OF val.uns_parses]) auto
qed

context codec_pair
begin

lemma Unserialize_map_loop_parses:
  "list_all (\<lambda>p. okK (fst p) \<and> okT (snd p)) xs \<Longrightarrow> sorted_wrt (<) (map fst (m @ xs)) \<Longrightarrow>
   parses inp rinv (\<lambda>s. Unserialize_map_loop (Unserialize_pair unsK unsT) (length xs) m s) (m @ xs)
     (concat (map (\<lambda>p. encK (fst p) @ encT (snd p)) xs))"
proof (induction xs arbitrary: m)
  case Nil
  then show ?case by (simp add: parses_Inr)
next
  case (Cons x xs)
  have "map_insert (fst x) (snd x) m = m @ [x]"
    using Cons.prems(2) map_insert_last [of m "fst x" "snd x"]
    by (auto simp: sorted_wrt_append)
  moreover have "parses inp rinv
      (\<lambda>s. Unserialize_map_loop (Unserialize_pair unsK unsT) (length xs) (m @ [x]) s)
      ((m @ [x]) @ xs) (concat (map (\<lambda>p. encK (fst p) @ encT (snd p)) xs))"
    using Cons.prems by (intro Cons.IH) auto
  ultimately have "parses inp rinv
      (\<lambda>s. bindE (Unserialize_pair unsK unsT s) (\<lambda>(item, s).
         Unserialize_map_loop (Unserialize_pair unsK unsT) (length xs)
           (map_insert (fst item) (snd item) m) s))
      (m @ x # xs) ((encK (fst x) @ encT (snd x)) @ concat (map (\<lambda>p. encK (fst p) @ encT (snd p)) xs))"
    using Cons.prems by (intro parses_bind [OF pair.uns_parses]) auto
  then show ?case by simp
qed

lemma map_codec:
  "codec W out winv R inp rinv (\<lambda>s. Serialize_map serK serT W s) (\<lambda>s. Unserialize_map unsK unsT R s)
     (\<lambda>m. compact_bytes (word_of_nat (length m)) @ concat (map (\<lambda>p. encK (fst p) @ encT (snd p)) m))
     (\<lambda>m. length m \<le> unat MAX_SIZE \<and> list_all (\<lambda>p. okK (fst p) \<and> okT (snd p)) m
        \<and> sorted_wrt (<) (map fst m))"
proof unfold_locales
  fix m :: "('k \<times> 't) list"
  assume m: "length m \<le> unat MAX_SIZE \<and> list_all (\<lambda>p. okK (fst p) \<and> okT (snd p)) m
    \<and> sorted_wrt (<) (map fst m)"
  then show "emits out winv (\<lambda>s. Serialize_map serK serT W s m)
      (compact_bytes (word_of_nat (length m)) @ concat (map (\<lambda>p. encK (fst p) @ encT (snd p)) m))"
    unfolding Serialize_map_def
    by (intro emits_bind key.sink.WriteCompactSize_emits pair.each_emits) simp
  show "parses inp rinv (\<lambda>s. Unserialize_map unsK unsT R s) m
      (compact_bytes (word_of_nat (length m)) @ concat (map (\<lambda>p. encK (fst p) @ encT (snd p)) m))"
    unfolding Unserialize_map_def
    using m Unserialize_map_loop_parses [of m "[]"]
    by (intro parses_bind [OF key.source.ReadCompactSize_parses])
      (simp_all add: key.source.unat_small_compact Let_def)
qed

end

section \<open>The codecs of the program over its streams\<close>

text \<open>
  The writer's host \<open>h\<close> and the reader's host \<open>h'\<close> need not have the same byte order.
\<close>

interpretation u32_ds: codec "DataStream_sink h" pending DataStream_ok
  "DataStream_source h'" pending DataStream_rok
  "ser_writedata32 (DataStream_sink h)" "ser_readdata32 (DataStream_source h')"
  "\<lambda>x. digits_of 4 (unat x)" "\<lambda>_. True" for h h'
  by unfold_locales (simp_all add: ds_out.writedata_emits ds_in.readdata_parses)

interpretation bool_ds: codec "DataStream_sink h" pending DataStream_ok
  "DataStream_source h'" pending DataStream_rok
  "Serialize_bool (DataStream_sink h)" "Unserialize_bool (DataStream_source h')"
  "\<lambda>b. [if b then 1 else 0]" "\<lambda>_. True" for h h'
proof unfold_locales
  fix b
  show "emits pending DataStream_ok (\<lambda>s. Serialize_bool (DataStream_sink h) s b) [if b then 1 else 0]"
    using ds_out.writedata_emits(1) by (simp add: Serialize_bool_def Let_def)
  show "parses pending DataStream_rok (Unserialize_bool (DataStream_source h')) b [if b then 1 else 0]"
    unfolding Unserialize_bool_def by (rule parses_map [OF ds_in.readdata_parses(1)]) simp
qed

interpretation compact_ds: codec "DataStream_sink h" pending DataStream_ok
  "DataStream_source h'" pending DataStream_rok
  "WriteCompactSize (DataStream_sink h)" "ReadCompactSize range_check (DataStream_source h')"
  compact_bytes "\<lambda>n. \<not> range_check \<or> n \<le> MAX_SIZE" for h h' range_check
  using ds_in.ReadCompactSize_parses ds_out.WriteCompactSize_emits by unfold_locales auto

interpretation bytevector_ds: codec "DataStream_sink h" pending DataStream_ok
  "DataStream_source h'" pending DataStream_rok
  "Serialize_bytevector (DataStream_sink h)" "Unserialize_bytevector (DataStream_source h')"
  "\<lambda>v. compact_bytes (word_of_nat (length v)) @ v" "\<lambda>v. length v \<le> unat MAX_SIZE" for h h'
  by unfold_locales (simp_all add: ds_out.Serialize_bytevector_emits ds_in.Unserialize_bytevector_parses)

interpretation bytevectors_ds: codec "DataStream_sink h" pending DataStream_ok
  "DataStream_source h'" pending DataStream_rok
  "\<lambda>s. VectorFormatter_Ser (Serialize_bytevector (DataStream_sink h)) (DataStream_sink h) s"
  "\<lambda>s. VectorFormatter_Unser 24 (Unserialize_bytevector (DataStream_source h')) (DataStream_source h') s"
  "\<lambda>xs. compact_bytes (word_of_nat (length xs)) @
     concat (map (\<lambda>v. compact_bytes (word_of_nat (length v)) @ v) xs)"
  "\<lambda>xs. length xs \<le> unat MAX_SIZE \<and> list_all (\<lambda>v. length v \<le> unat MAX_SIZE) xs" for h h'
  by (rule bytevector_ds.vector_codec) (simp_all add: MAX_VECTOR_ALLOCATE_def)

interpretation u32_set_ds: ordered_codec "DataStream_sink h" pending DataStream_ok
  "DataStream_source h'" pending DataStream_rok
  "ser_writedata32 (DataStream_sink h)" "ser_readdata32 (DataStream_source h')"
  "\<lambda>x. digits_of 4 (unat x)" "\<lambda>_. True" for h h' ..

interpretation u32_map_ds: codec_pair "DataStream_sink h" pending DataStream_ok
  "DataStream_source h'" pending DataStream_rok
  "ser_writedata32 (DataStream_sink h)" "ser_readdata32 (DataStream_source h')"
  "\<lambda>x. digits_of 4 (unat x)" "\<lambda>_. True"
  "Serialize_bytevector (DataStream_sink h)" "Unserialize_bytevector (DataStream_source h')"
  "\<lambda>v. compact_bytes (word_of_nat (length v)) @ v" "\<lambda>v. length v \<le> unat MAX_SIZE" for h h' ..

interpretation u32_map: codec "DataStream_sink h" pending DataStream_ok
  "DataStream_source h'" pending DataStream_rok
  "\<lambda>s. Serialize_map (ser_writedata32 (DataStream_sink h)) (Serialize_bytevector (DataStream_sink h))
     (DataStream_sink h) s"
  "\<lambda>s. Unserialize_map (ser_readdata32 (DataStream_source h'))
     (Unserialize_bytevector (DataStream_source h')) (DataStream_source h') s"
  "\<lambda>m. compact_bytes (word_of_nat (length m)) @
     concat (map (\<lambda>p. digits_of 4 (unat (fst p)) @ compact_bytes (word_of_nat (length (snd p))) @ snd p) m)"
  "\<lambda>m. length m \<le> unat MAX_SIZE \<and> list_all (\<lambda>p. True \<and> length (snd p) \<le> unat MAX_SIZE) m
     \<and> sorted_wrt (<) (map fst m)" for h h'
  by (rule u32_map_ds.map_codec)

interpretation bytevector_file: codec "AutoFile_sink h" AutoFile_written AutoFile_ready
  "AutoFile_source h'" AutoFile_unread AutoFile_ready
  "Serialize_bytevector (AutoFile_sink h)" "Unserialize_bytevector (AutoFile_source h')"
  "\<lambda>v. compact_bytes (word_of_nat (length v)) @ v" "\<lambda>v. length v \<le> unat MAX_SIZE" for h h'
  by unfold_locales (simp_all add: af_out.Serialize_bytevector_emits af_in.Unserialize_bytevector_parses)

section \<open>Fresh streams\<close>

lemma DataStream_new_ok [simp]: "DataStream_ok (DataStream_new t v)" "pending (DataStream_new t v) = []"
  by (simp_all add: DataStream_new_def DataStream_Init_def DataStream_ok_def pending_def)

lemma DataStream_from_ok [simp]:
  "length bs < 2 ^ 31 \<Longrightarrow> DataStream_rok (DataStream_from bs t v)"
  "pending (DataStream_from bs t v) = bs"
  by (simp_all add: DataStream_from_def DataStream_Init_def DataStream_ok_def DataStream_rok_def pending_def)

section \<open>Properties\<close>

text \<open>
  Property C26.  Compact sizes survive the trip: what \<open>WriteCompactSize\<close> puts into a stream,
  \<open>ReadCompactSize\<close> on any host reads back as the same number and leaves nothing behind, for
  every size up to \<open>MAX_SIZE\<close>, and for every 64-bit number without the range check.
\<close>

theorem CompactSize_roundtrip:
  assumes "\<not> range_check \<or> n \<le> MAX_SIZE"
  shows "\<exists>s t. WriteCompactSize (DataStream_sink h) (DataStream_new ty v) n = Inr s \<and>
    length (pending s) = GetSizeOfCompactSize n \<and>
    ReadCompactSize range_check (DataStream_source h') (DataStream_from (pending s) ty' v') = Inr (n, t) \<and>
    pending t = []"
proof -
  obtain s where s: "WriteCompactSize (DataStream_sink h) (DataStream_new ty v) n = Inr s"
    "pending s = compact_bytes n"
    and rd: "\<And>t rest. DataStream_rok t \<Longrightarrow> pending t = compact_bytes n @ rest \<Longrightarrow>
      \<exists>t'. ReadCompactSize range_check (DataStream_source h') t = Inr (n, t') \<and> DataStream_rok t' \<and> pending t' = rest"
    using compact_ds.roundtrip [OF assms, of "DataStream_new ty v" h h'] by auto
  have "length (compact_bytes n) < 2 ^ 31"
    by (simp add: length_compact_bytes GetSizeOfCompactSize_def)
  then show ?thesis
    using s rd [of "DataStream_from (pending s) ty' v'" "[]"] by (auto simp: length_compact_bytes)
qed

theorem CompactSize_roundtrip_witness:
  "\<exists>s t. WriteCompactSize (DataStream_sink LittleEndianHost) (DataStream_new 1 70923) 70000 = Inr s \<and>
    length (pending s) = GetSizeOfCompactSize 70000 \<and>
    ReadCompactSize True (DataStream_source BigEndianHost) (DataStream_from (pending s) 1 70923) = Inr (70000, t) \<and>
    pending t = []"
  by (rule CompactSize_roundtrip) (simp add: MAX_SIZE_def)

text \<open>
  Property C27.  The encoding of a compact size is unique: whenever \<open>ReadCompactSize\<close> accepts,
  the bytes it took are exactly those \<open>WriteCompactSize\<close> writes for the value it returned, so
  no longer form of a small number is accepted.
\<close>

theorem ReadCompactSize_canonical:
  assumes "length bs < 2 ^ 31"
    and "ReadCompactSize range_check (DataStream_source h) (DataStream_from bs ty v) = Inr (n, t)"
  shows "(range_check \<longrightarrow> n \<le> MAX_SIZE) \<and>
    (\<exists>s. WriteCompactSize (DataStream_sink h') (DataStream_new ty' v') n = Inr s \<and>
       bs = pending s @ pending t)"
  using consumesD [OF ds_in.ReadCompactSize_consumes DataStream_from_ok(1) [OF assms(1)] assms(2)]
    emitsD [OF ds_out.WriteCompactSize_emits [of h' n] DataStream_new_ok(1) [of ty' v']]
  by auto

theorem ReadCompactSize_canonical_witness:
  "ReadCompactSize True (DataStream_source LittleEndianHost) (DataStream_from [253, 0, 1, 7] 1 0) =
     Inr (256, \<lparr>ds_vch = [253, 0, 1, 7], ds_nReadPos = 3, ds_nType = 1, ds_nVersion = 0\<rparr>) \<and>
   (\<exists>s. WriteCompactSize (DataStream_sink LittleEndianHost) (DataStream_new 1 0) 256 = Inr s \<and>
      [253, 0, 1, 7] = pending s @ [7])"
proof -
  have rd: "ReadCompactSize True (DataStream_source LittleEndianHost) (DataStream_from [253, 0, 1, 7] 1 0) =
      Inr (256, \<lparr>ds_vch = [253, 0, 1, 7], ds_nReadPos = 3, ds_nType = 1, ds_nVersion = 0\<rparr>)"
    by code_simp
  have "\<exists>s. WriteCompactSize (DataStream_sink LittleEndianHost) (DataStream_new 1 0) 256 = Inr s \<and>
      [253, 0, 1, 7] = pending s @
        pending \<lparr>ds_vch = [253, 0, 1, 7], ds_nReadPos = 3, ds_nType = 1, ds_nVersion = 0\<rparr>"
    using ReadCompactSize_canonical [OF _ rd, of LittleEndianHost 1 0] by simp
  with rd show ?thesis by (simp add: pending_def)
qed

text \<open>
  Property C29.  Variable-length integers: for an integer type of \<open>isize\<close> bytes, writing any
  of its values stays inside the array \<open>tmp\<close>, produces as many bytes as \<open>GetSizeOfVarInt\<close>
  says, and \<open>ReadVarInt\<close> reads the value back at every type that can hold it.
\<close>

theorem VarInt_roundtrip:
  assumes "0 < isize" "isize \<le> 8" "n < 2 ^ (8 * isize)" "n \<le> imax"
  shows "\<exists>s t. WriteVarInt isize (DataStream_sink h) (DataStream_new ty v) n = Inr s \<and>
    length (pending s) = GetSizeOfVarInt n \<and>
    ReadVarInt imax (DataStream_source h') (DataStream_from (pending s) ty' v') = Inr (n, t) \<and>
    pending t = []"
proof -
  obtain s where s: "WriteVarInt isize (DataStream_sink h) (DataStream_new ty v) n = Inr s"
    "pending s = varint_bytes n"
    using emitsD [OF ds_out.WriteVarInt_emits [OF assms(3,1)] DataStream_new_ok(1), of h ty v] by auto
  have "(2::nat) ^ (8 * isize) \<le> 2 ^ (7 * 10)"
    using assms by (intro power_increasing) auto
  then have "GetSizeOfVarInt n \<le> 10"
    using assms by (intro GetSizeOfVarInt_le) auto
  then have l: "length (varint_bytes n) = GetSizeOfVarInt n" "length (varint_bytes n) < 2 ^ 31"
    by (simp_all add: varint_bytes_def length_VarInt_tmp)
  then show ?thesis
    using s parsesD [OF ds_in.ReadVarInt_parses [OF assms(4)] DataStream_from_ok(1),
        of "varint_bytes n" ty' v' "[]" h'] by auto
qed

theorem VarInt_roundtrip_witness:
  "\<exists>s t. WriteVarInt 4 (DataStream_sink LittleEndianHost) (DataStream_new 1 0) 65535 = Inr s \<and>
    length (pending s) = GetSizeOfVarInt 65535 \<and>
    ReadVarInt 4294967295 (DataStream_source BigEndianHost) (DataStream_from (pending s) 1 0) = Inr (65535, t) \<and>
    pending t = []"
  by (rule VarInt_roundtrip) simp_all

text \<open>
  Property C28.  Every integer has exactly one variable-length encoding, as the comment in
  \<open>serialize.h\<close> says: whenever \<open>ReadVarInt\<close> accepts, the bytes it took are the ones
  \<open>WriteVarInt\<close> writes for the value, and the value fits the type.
\<close>

theorem ReadVarInt_unique:
  assumes "length bs < 2 ^ 31" "0 < isize"
    and "ReadVarInt (2 ^ (8 * isize) - 1) (DataStream_source h) (DataStream_from bs ty v) = Inr (n, t)"
  shows "n < 2 ^ (8 * isize) \<and>
    (\<exists>s. WriteVarInt isize (DataStream_sink h') (DataStream_new ty' v') n = Inr s \<and>
       bs = pending s @ pending t)"
proof -
  have m: "((2::nat) ^ (8 * isize) - 1) mod 128 = 127"
  proof -
    obtain k where k: "8 * isize = k + 7" using assms(2) by (cases isize) auto
    have "(2::nat) ^ (8 * isize) = 2 ^ k * 128"
      by (simp only: k power_add) simp
    moreover have "1 \<le> x \<Longrightarrow> (x * 128 - 1) mod 128 = 127" for x :: nat by (cases x) simp_all
    ultimately show ?thesis by simp
  qed
  have b: "bs = varint_bytes n @ pending t" and le: "n \<le> 2 ^ (8 * isize) - 1"
    using consumesD [OF ds_in.ReadVarInt_consumes [OF m] DataStream_from_ok(1) [OF assms(1)] assms(3)]
    by auto
  have "(0::nat) < 2 ^ (8 * isize)" by simp
  with le have lt: "n < 2 ^ (8 * isize)" by linarith
  with b show ?thesis
    using emitsD [OF ds_out.WriteVarInt_emits [OF lt assms(2)] DataStream_new_ok(1), of h' ty' v'] by auto
qed

theorem ReadVarInt_unique_witness:
  "\<exists>t. ReadVarInt (2 ^ (8 * 1) - 1) (DataStream_source LittleEndianHost)
      (DataStream_from [0x80, 0x7F, 9] 1 0) = Inr (255, t) \<and>
   (255::nat) < 2 ^ (8 * 1) \<and>
   (\<exists>s. WriteVarInt 1 (DataStream_sink LittleEndianHost) (DataStream_new 1 0) 255 = Inr s \<and>
      [0x80, 0x7F, 9] = pending s @ pending t)"
proof -
  let ?t = "\<lparr>ds_vch = [0x80, 0x7F, 9], ds_nReadPos = 2, ds_nType = 1, ds_nVersion = 0\<rparr>"
  have rd: "ReadVarInt (2 ^ (8 * 1) - 1) (DataStream_source LittleEndianHost)
      (DataStream_from [0x80, 0x7F, 9] 1 0) = Inr (255, ?t)"
    by code_simp
  show ?thesis
    using ReadVarInt_unique [OF _ _ rd, of LittleEndianHost 1 0] rd by (intro exI [of _ ?t]) simp
qed

text \<open>
  Property.  A vector of byte vectors, the shape of a list of scripts or signatures, survives
  the trip through a stream: the batched reader returns the elements the writer was given and
  stops exactly at their end.
\<close>

theorem vector_of_bytevectors_roundtrip:
  assumes "length xs \<le> unat MAX_SIZE" "list_all (\<lambda>v. length v \<le> unat MAX_SIZE) xs"
    and w: "VectorFormatter_Ser (Serialize_bytevector (DataStream_sink h)) (DataStream_sink h)
      (DataStream_new ty v) xs = Inr s"
    and "length (pending s) + length rest < 2 ^ 31"
  shows "\<exists>t. VectorFormatter_Unser 24 (Unserialize_bytevector (DataStream_source h')) (DataStream_source h')
      (DataStream_from (pending s @ rest) ty' v') = Inr (xs, t) \<and> pending t = rest"
proof -
  have ok: "length xs \<le> unat MAX_SIZE \<and> list_all (\<lambda>v. length v \<le> unat MAX_SIZE) xs"
    using assms by simp
  from bytevectors_ds.roundtrip [OF ok DataStream_new_ok(1) [of ty v], of h h'] w
  obtain bs where bs: "pending s = bs" and rd: "\<And>t rest. DataStream_rok t \<Longrightarrow> pending t = bs @ rest \<Longrightarrow>
      \<exists>t'. VectorFormatter_Unser 24 (Unserialize_bytevector (DataStream_source h')) (DataStream_source h') t
        = Inr (xs, t') \<and> DataStream_rok t' \<and> pending t' = rest"
    by auto
  show ?thesis
    using rd [of "DataStream_from (pending s @ rest) ty' v'" rest] assms(4) bs by auto
qed

theorem vector_of_bytevectors_roundtrip_witness:
  "\<exists>s. VectorFormatter_Ser (Serialize_bytevector (DataStream_sink LittleEndianHost))
      (DataStream_sink LittleEndianHost) (DataStream_new 1 0) [[0x6a], [], [1, 2]] = Inr s \<and>
    (\<exists>t. VectorFormatter_Unser 24 (Unserialize_bytevector (DataStream_source BigEndianHost))
      (DataStream_source BigEndianHost) (DataStream_from (pending s @ [7]) 1 0)
        = Inr ([[0x6a], [], [1, 2]], t) \<and> pending t = [7])"
proof -
  let ?s = "\<lparr>ds_vch = [3, 1, 0x6a, 0, 2, 1, 2], ds_nReadPos = 0, ds_nType = 1, ds_nVersion = 0\<rparr>"
  have w: "VectorFormatter_Ser (Serialize_bytevector (DataStream_sink LittleEndianHost))
      (DataStream_sink LittleEndianHost) (DataStream_new 1 0) [[0x6a], [], [1, 2]] = Inr ?s"
    by code_simp
  show ?thesis
    using vector_of_bytevectors_roundtrip [OF _ _ w, of "[7]" BigEndianHost 1 0] w
    by (intro exI [of _ ?s]) (simp add: MAX_SIZE_def pending_def)
qed

text \<open>
  Property.  A \<open>std::map\<close> from 32-bit keys to byte vectors survives the trip: entries are
  written in key order, and inserting them one by one with a moving hint rebuilds the same map.
\<close>

theorem map_roundtrip:
  assumes "length m \<le> unat MAX_SIZE" "list_all (\<lambda>p. length (snd p) \<le> unat MAX_SIZE) m"
    and "sorted_wrt (<) (map fst m)"
    and w: "Serialize_map (ser_writedata32 (DataStream_sink h)) (Serialize_bytevector (DataStream_sink h))
      (DataStream_sink h) (DataStream_new ty v) m = Inr s"
    and "length (pending s) + length rest < 2 ^ 31"
  shows "\<exists>t. Unserialize_map (ser_readdata32 (DataStream_source h'))
      (Unserialize_bytevector (DataStream_source h')) (DataStream_source h')
      (DataStream_from (pending s @ rest) ty' v') = Inr (m, t) \<and> pending t = rest"
proof -
  have "length m \<le> unat MAX_SIZE \<and> list_all (\<lambda>p. True \<and> length (snd p) \<le> unat MAX_SIZE) m
      \<and> sorted_wrt (<) (map fst m)"
    using assms by simp
  from u32_map.roundtrip [OF this DataStream_new_ok(1) [of ty v], of h h'] w
  obtain bs where bs: "pending s = bs" and rd: "\<And>t rest. DataStream_rok t \<Longrightarrow> pending t = bs @ rest \<Longrightarrow>
      \<exists>t'. Unserialize_map (ser_readdata32 (DataStream_source h'))
        (Unserialize_bytevector (DataStream_source h')) (DataStream_source h') t
        = Inr (m, t') \<and> DataStream_rok t' \<and> pending t' = rest"
    by auto
  show ?thesis
    using rd [of "DataStream_from (pending s @ rest) ty' v'" rest] assms(5) bs by auto
qed

theorem map_roundtrip_witness:
  "\<exists>s. Serialize_map (ser_writedata32 (DataStream_sink LittleEndianHost))
      (Serialize_bytevector (DataStream_sink LittleEndianHost))
      (DataStream_sink LittleEndianHost) (DataStream_new 1 0) [(3, [1]), (256, [])] = Inr s \<and>
    (\<exists>t. Unserialize_map (ser_readdata32 (DataStream_source BigEndianHost))
      (Unserialize_bytevector (DataStream_source BigEndianHost)) (DataStream_source BigEndianHost)
      (DataStream_from (pending s @ [5]) 1 0) = Inr ([(3, [1]), (256, [])], t) \<and> pending t = [5])"
proof -
  let ?s = "\<lparr>ds_vch = [2, 3, 0, 0, 0, 1, 1, 0, 1, 0, 0, 0], ds_nReadPos = 0, ds_nType = 1, ds_nVersion = 0\<rparr>"
  have w: "Serialize_map (ser_writedata32 (DataStream_sink LittleEndianHost))
      (Serialize_bytevector (DataStream_sink LittleEndianHost))
      (DataStream_sink LittleEndianHost) (DataStream_new 1 0) [(3, [1]), (256, [])] = Inr ?s"
    by code_simp
  show ?thesis
    using map_roundtrip [OF _ _ _ w, of "[5]" BigEndianHost 1 0] w
    by (intro exI [of _ ?s]) (simp add: MAX_SIZE_def pending_def)
qed

text \<open>
  Property.  \<open>GetSerializeSize\<close> of a vector of byte vectors, which runs the serialiser on
  a \<open>CSizeComputer\<close> that only adds lengths up and shortcuts compact sizes, is the number of
  bytes the same serialiser puts into a stream.
\<close>

theorem GetSerializeSize_vector_exact:
  assumes "length xs \<le> unat MAX_SIZE" "list_all (\<lambda>v. length v \<le> unat MAX_SIZE) xs"
  shows "\<exists>s. VectorFormatter_Ser (Serialize_bytevector (DataStream_sink h)) (DataStream_sink h)
       (DataStream_new ty v) xs = Inr s \<and>
     GetSerializeSize (\<lambda>W. VectorFormatter_Ser (Serialize_bytevector W) W) h' xs v =
       Inr (length (pending s))"
proof -
  let ?n = "GetSizeOfCompactSize (word_of_nat (length xs)) +
      sum_list (map (\<lambda>v. GetSizeOfCompactSize (word_of_nat (length v)) + length v) xs)"
  have ok: "length xs \<le> unat MAX_SIZE \<and> list_all (\<lambda>v. length v \<le> unat MAX_SIZE) xs"
    using assms by simp
  from bytevectors_ds.roundtrip [OF ok DataStream_new_ok(1) [of ty v], of h h']
  obtain s where s: "VectorFormatter_Ser (Serialize_bytevector (DataStream_sink h)) (DataStream_sink h)
       (DataStream_new ty v) xs = Inr s" and p: "length (pending s) = ?n"
    by (auto simp: length_compact_bytes length_concat o_def)
  have "counts SizeComputer_size (\<lambda>_. True)
      (\<lambda>s. VectorFormatter_Ser (Serialize_bytevector (SizeComputer_sink h')) (SizeComputer_sink h') s xs) ?n"
    by (rule sz_cnt.VectorFormatter_Ser_counts) (rule sz_cnt.Serialize_bytevector_counts)
  then have "GetSerializeSize (\<lambda>W. VectorFormatter_Ser (Serialize_bytevector W) W) h' xs v = Inr ?n"
    unfolding counts_def by (auto simp: GetSerializeSize_def SizeComputer_new_def SizeComputer_size_def
        dest: spec [where x = "\<lparr>sz_nSize = 0, sz_nVersion = v\<rparr>"])
  with s p show ?thesis by simp
qed

theorem GetSerializeSize_vector_exact_witness:
  "\<exists>s. VectorFormatter_Ser (Serialize_bytevector (DataStream_sink LittleEndianHost))
       (DataStream_sink LittleEndianHost) (DataStream_new 1 0) [[1, 2], []] = Inr s \<and>
     GetSerializeSize (\<lambda>W. VectorFormatter_Ser (Serialize_bytevector W) W) BigEndianHost [[1, 2], []] 0 =
       Inr (length (pending s))"
  by (rule GetSerializeSize_vector_exact) (simp_all add: MAX_SIZE_def)

text \<open>
  Property.  Reading a vector in batches, the defence against a forged length, changes no
  result: it returns the elements, or the failure, that a loop reading the announced number of
  elements would.
\<close>

theorem VectorFormatter_batching_transparent:
  assumes "0 < elsize" "elsize \<le> MAX_VECTOR_ALLOCATE"
  shows "VectorFormatter_Unser elsize uns R is =
    bindE (ReadCompactSize True R is) (\<lambda>(size, is). unserialize_n uns (unat size) is)"
proof -
  have "VectorFormatter_batches elsize uns n 0 [] s = unserialize_n uns n s" for n s
    using VectorFormatter_batches_eq [OF assms, of "[]" 0 n uns s]
    by (cases "unserialize_n uns n s") auto
  then show ?thesis by (simp add: VectorFormatter_Unser_def)
qed

theorem VectorFormatter_batching_transparent_witness:
  "VectorFormatter_Unser 4 (ser_readdata32 (DataStream_source LittleEndianHost))
      (DataStream_source LittleEndianHost) (DataStream_from [1, 7, 0, 0, 0] 0 0) =
    bindE (ReadCompactSize True (DataStream_source LittleEndianHost) (DataStream_from [1, 7, 0, 0, 0] 0 0))
      (\<lambda>(size, is). unserialize_n (ser_readdata32 (DataStream_source LittleEndianHost)) (unat size) is)"
  by (rule VectorFormatter_batching_transparent) (simp_all add: MAX_VECTOR_ALLOCATE_def)

text \<open>
  Property.  The size overload for \<open>std::array\<close> takes the first element's size at every
  index, so for elements of unequal size it is not the number of bytes written: for the array
  of the byte vectors \<open>[1]\<close> and \<open>[2, 3, 4]\<close> it says 4 where 6 bytes are written.
\<close>

theorem GetSerializeSize_array_wrong:
  "\<exists>s. Serialize_array (Serialize_bytevector (DataStream_sink LittleEndianHost)) (DataStream_new 0 0)
      [[1], [2, 3, 4]] = Inr s \<and> length (pending s) = 6 \<and>
    GetSerializeSize_array (\<lambda>v. GetSizeOfCompactSize (word_of_nat (length v)) + length v)
      [[1], [2, 3, 4 :: u8]] = 4"
proof -
  have "Serialize_array (Serialize_bytevector (DataStream_sink LittleEndianHost)) (DataStream_new 0 0)
      [[1], [2, 3, 4]] =
      Inr \<lparr>ds_vch = [1, 1, 3, 2, 3, 4], ds_nReadPos = 0, ds_nType = 0, ds_nVersion = 0\<rparr>"
    by code_simp
  moreover have "GetSerializeSize_array (\<lambda>v. GetSizeOfCompactSize (word_of_nat (length v)) + length v)
      [[1], [2, 3, 4 :: u8]] = 4"
    by code_simp
  ultimately show ?thesis by (simp add: pending_def)
qed

end
