(* ===== verification/Arith_Uint256.thy ===== *)
theory Arith_Uint256
  imports Endian
begin

unbundle bit_operations_syntax

text \<open>
  Unsigned big integers: the template \<open>base_uint\<close> of \<open>arith_uint256.h\<close> and
  \<open>arith_uint256.cpp\<close>, the compact format of difficulty targets, and the conversions to the
  opaque blobs of \<open>uint256.h\<close>.  A \<open>base_uint\<close> is its limb array \<open>pn\<close>, least significant limb
  first; \<open>WIDTH\<close> is the length of the list.  The lemmas show that every operation computes on
  \<open>val_of\<close>, the number the limbs stand for, modulo \<open>2 ^ (32 * WIDTH)\<close>.
\<close>

type_synonym base_uint = "u32 list"

section \<open>Construction and limb-wise operations\<close>

definition base_uint_new :: "nat \<Rightarrow> base_uint" where
  "base_uint_new WIDTH = replicate WIDTH 0"

definition base_uint_of64 :: "nat \<Rightarrow> u64 \<Rightarrow> base_uint" where
  "base_uint_of64 WIDTH b = [ucast b, ucast (drop_bit 32 b)] @ replicate (WIDTH - 2) 0"

text \<open>The bytes of the array in memory, and the array such bytes form (a \<open>memcpy\<close> into it).\<close>

definition base_uint_mem :: "host_order \<Rightarrow> base_uint \<Rightarrow> bytes" where
  "base_uint_mem h pn = concat (map (mem_of h) pn)"

fun base_uint_of_mem :: "host_order \<Rightarrow> nat \<Rightarrow> bytes \<Rightarrow> base_uint" where
  "base_uint_of_mem h 0 bs = []"
| "base_uint_of_mem h (Suc k) bs = of_mem h (take 4 bs) # base_uint_of_mem h k (drop 4 bs)"

definition base_uint_of_vch :: "host_order \<Rightarrow> nat \<Rightarrow> bytes \<Rightarrow> base_uint res" where
  "base_uint_of_vch h WIDTH vch =
     (if length vch \<noteq> 4 * WIDTH
      then Inl (UintError ''Converting vector of wrong size to base_uint'')
      else Inr (base_uint_of_mem h WIDTH vch))"

definition base_uint_IsNull :: "base_uint \<Rightarrow> bool" where
  "base_uint_IsNull pn \<longleftrightarrow> list_all (\<lambda>w. w = 0) pn"

definition base_uint_not :: "base_uint \<Rightarrow> base_uint" where
  "base_uint_not pn = map (\<lambda>w. NOT w) pn"

fun base_uint_inc :: "base_uint \<Rightarrow> base_uint" where
  "base_uint_inc [] = []"
| "base_uint_inc (w # pn) = (if w + 1 = 0 then (w + 1) # base_uint_inc pn else (w + 1) # pn)"

fun base_uint_dec :: "base_uint \<Rightarrow> base_uint" where
  "base_uint_dec [] = []"
| "base_uint_dec (w # pn) = (if w - 1 = - 1 then (w - 1) # base_uint_dec pn else (w - 1) # pn)"

definition base_uint_neg :: "base_uint \<Rightarrow> base_uint" where
  "base_uint_neg pn = base_uint_inc (base_uint_not pn)"

definition base_uint_xor :: "base_uint \<Rightarrow> base_uint \<Rightarrow> base_uint" where
  "base_uint_xor pn b = map2 (\<lambda>x y. x XOR y) pn b"

definition base_uint_and :: "base_uint \<Rightarrow> base_uint \<Rightarrow> base_uint" where
  "base_uint_and pn b = map2 (\<lambda>x y. x AND y) pn b"

definition base_uint_or :: "base_uint \<Rightarrow> base_uint \<Rightarrow> base_uint" where
  "base_uint_or pn b = map2 (\<lambda>x y. x OR y) pn b"

definition base_uint_xor64 :: "base_uint \<Rightarrow> u64 \<Rightarrow> base_uint" where
  "base_uint_xor64 pn b =
     pn[0 := pn ! 0 XOR ucast b, 1 := pn ! 1 XOR ucast (drop_bit 32 b)]"

definition base_uint_or64 :: "base_uint \<Rightarrow> u64 \<Rightarrow> base_uint" where
  "base_uint_or64 pn b =
     pn[0 := pn ! 0 OR ucast b, 1 := pn ! 1 OR ucast (drop_bit 32 b)]"

section \<open>Addition and subtraction\<close>

fun base_uint_add_loop :: "u64 \<Rightarrow> base_uint \<Rightarrow> base_uint \<Rightarrow> base_uint" where
  "base_uint_add_loop carry (x # pn) (y # b) =
     (let n = carry + ucast x + ucast y
      in ucast (n AND 0xffffffff) # base_uint_add_loop (drop_bit 32 n) pn b)"
| "base_uint_add_loop carry pn b = []"

definition base_uint_add :: "base_uint \<Rightarrow> base_uint \<Rightarrow> base_uint" where
  "base_uint_add pn b = base_uint_add_loop 0 pn b"

definition base_uint_sub :: "base_uint \<Rightarrow> base_uint \<Rightarrow> base_uint" where
  "base_uint_sub pn b = base_uint_add pn (base_uint_neg b)"

definition base_uint_add64 :: "base_uint \<Rightarrow> u64 \<Rightarrow> base_uint" where
  "base_uint_add64 pn b64 = base_uint_add pn (base_uint_of64 (length pn) b64)"

definition base_uint_sub64 :: "base_uint \<Rightarrow> u64 \<Rightarrow> base_uint" where
  "base_uint_sub64 pn b64 = base_uint_add pn (base_uint_neg (base_uint_of64 (length pn) b64))"

section \<open>Shifts\<close>

definition base_uint_shl :: "base_uint \<Rightarrow> nat \<Rightarrow> base_uint" where
  "base_uint_shl a shift0 =
     (let WIDTH = length a; k = shift0 div 32; shift = shift0 mod 32
      in foldl (\<lambda>pn i.
           let pn1 = (if i + k + 1 < WIDTH \<and> shift \<noteq> 0
                      then pn[i + k + 1 := pn ! (i + k + 1) OR drop_bit (32 - shift) (a ! i)] else pn)
           in if i + k < WIDTH then pn1[i + k := pn1 ! (i + k) OR push_bit shift (a ! i)] else pn1)
         (replicate WIDTH 0) [0..<WIDTH])"

definition base_uint_shr :: "base_uint \<Rightarrow> nat \<Rightarrow> base_uint" where
  "base_uint_shr a shift0 =
     (let WIDTH = length a; k = shift0 div 32; shift = shift0 mod 32
      in foldl (\<lambda>pn i.
           let pn1 = (if k + 1 \<le> i \<and> shift \<noteq> 0
                      then pn[i - k - 1 := pn ! (i - k - 1) OR push_bit (32 - shift) (a ! i)] else pn)
           in if k \<le> i then pn1[i - k := pn1 ! (i - k) OR drop_bit shift (a ! i)] else pn1)
         (replicate WIDTH 0) [0..<WIDTH])"

section \<open>Multiplication\<close>

fun base_uint_mul32_loop :: "u64 \<Rightarrow> base_uint \<Rightarrow> u32 \<Rightarrow> base_uint" where
  "base_uint_mul32_loop carry [] b32 = []"
| "base_uint_mul32_loop carry (x # pn) b32 =
     (let n = carry + ucast b32 * ucast x
      in ucast (n AND 0xffffffff) # base_uint_mul32_loop (drop_bit 32 n) pn b32)"

definition base_uint_mul32 :: "base_uint \<Rightarrow> u32 \<Rightarrow> base_uint" where
  "base_uint_mul32 pn b32 = base_uint_mul32_loop 0 pn b32"

text \<open>The inner loop over the limbs \<open>a.pn[j], a.pn[j + 1], \<dots>\<close>, against \<open>b.pn[0], b.pn[1], \<dots>\<close>.\<close>

fun base_uint_mul_row :: "u32 \<Rightarrow> u64 \<Rightarrow> base_uint \<Rightarrow> base_uint \<Rightarrow> base_uint" where
  "base_uint_mul_row pnj carry (x # a) (y # b) =
     (let n = carry + ucast x + ucast pnj * ucast y
      in ucast (n AND 0xffffffff) # base_uint_mul_row pnj (drop_bit 32 n) a b)"
| "base_uint_mul_row pnj carry a b = a"

definition base_uint_mul :: "base_uint \<Rightarrow> base_uint \<Rightarrow> base_uint" where
  "base_uint_mul pn b =
     foldl (\<lambda>a j. take j a @ base_uint_mul_row (pn ! j) 0 (drop j a) b)
       (base_uint_new (length pn)) [0..<length pn]"

section \<open>Comparison and bit length\<close>

text \<open>The loops run down from the most significant limb; the counter is the number of limbs left.\<close>

fun base_uint_CompareTo_loop :: "base_uint \<Rightarrow> base_uint \<Rightarrow> nat \<Rightarrow> int" where
  "base_uint_CompareTo_loop pn b 0 = 0"
| "base_uint_CompareTo_loop pn b (Suc i) =
     (if pn ! i < b ! i then - 1
      else if pn ! i > b ! i then 1
      else base_uint_CompareTo_loop pn b i)"

definition base_uint_CompareTo :: "base_uint \<Rightarrow> base_uint \<Rightarrow> int" where
  "base_uint_CompareTo pn b = base_uint_CompareTo_loop pn b (length pn)"

definition base_uint_EqualTo :: "base_uint \<Rightarrow> u64 \<Rightarrow> bool" where
  "base_uint_EqualTo pn b \<longleftrightarrow>
     (if \<not> list_all (\<lambda>w. w = 0) (drop 2 pn) then False
      else if ucast (pn ! 1) \<noteq> drop_bit 32 b then False
      else if ucast (pn ! 0) \<noteq> (b AND 0xffffffff) then False
      else True)"

definition base_uint_eq :: "base_uint \<Rightarrow> base_uint \<Rightarrow> bool" where
  "base_uint_eq a b \<longleftrightarrow> a = b"

definition base_uint_gt :: "base_uint \<Rightarrow> base_uint \<Rightarrow> bool" where
  "base_uint_gt a b \<longleftrightarrow> base_uint_CompareTo a b > 0"

definition base_uint_lt :: "base_uint \<Rightarrow> base_uint \<Rightarrow> bool" where
  "base_uint_lt a b \<longleftrightarrow> base_uint_CompareTo a b < 0"

definition base_uint_ge :: "base_uint \<Rightarrow> base_uint \<Rightarrow> bool" where
  "base_uint_ge a b \<longleftrightarrow> base_uint_CompareTo a b \<ge> 0"

definition base_uint_le :: "base_uint \<Rightarrow> base_uint \<Rightarrow> bool" where
  "base_uint_le a b \<longleftrightarrow> base_uint_CompareTo a b \<le> 0"

fun base_uint_bits_inner :: "u32 \<Rightarrow> nat \<Rightarrow> nat" where
  "base_uint_bits_inner w 0 = 1"
| "base_uint_bits_inner w (Suc bits) =
     (if w AND push_bit (Suc bits) 1 \<noteq> 0 then Suc bits + 1 else base_uint_bits_inner w bits)"

fun base_uint_bits_loop :: "base_uint \<Rightarrow> nat \<Rightarrow> nat" where
  "base_uint_bits_loop pn 0 = 0"
| "base_uint_bits_loop pn (Suc pos) =
     (if pn ! pos \<noteq> 0 then 32 * pos + base_uint_bits_inner (pn ! pos) 31
      else base_uint_bits_loop pn pos)"

definition base_uint_bits :: "base_uint \<Rightarrow> nat" where
  "base_uint_bits pn = base_uint_bits_loop pn (length pn)"

definition base_uint_Get64 :: "base_uint \<Rightarrow> nat \<Rightarrow> u64" where
  "base_uint_Get64 pn n = ucast (pn ! (2 * n)) OR push_bit 32 (ucast (pn ! (2 * n + 1)))"

definition base_uint_Get32 :: "base_uint \<Rightarrow> nat \<Rightarrow> u32" where
  "base_uint_Get32 pn n = pn ! (2 * n)"

definition base_uint_GetLow64 :: "base_uint \<Rightarrow> u64" where
  "base_uint_GetLow64 pn = ucast (pn ! 0) OR push_bit 32 (ucast (pn ! 1))"

section \<open>Division\<close>

text \<open>The counter of the loop is \<open>shift + 1\<close>.\<close>

fun base_uint_div_loop :: "nat \<Rightarrow> base_uint \<Rightarrow> base_uint \<Rightarrow> base_uint \<Rightarrow> base_uint" where
  "base_uint_div_loop 0 num dv pn = pn"
| "base_uint_div_loop (Suc shift) num dv pn =
     (let (num, pn) =
        (if base_uint_ge num dv
         then (base_uint_sub num dv,
               pn[shift div 32 := pn ! (shift div 32) OR push_bit (shift mod 32) 1])
         else (num, pn))
      in base_uint_div_loop shift num (base_uint_shr dv 1) pn)"

definition base_uint_div :: "base_uint \<Rightarrow> base_uint \<Rightarrow> base_uint res" where
  "base_uint_div pn b =
     (let num_bits = base_uint_bits pn; div_bits = base_uint_bits b
      in if div_bits = 0 then Inl (UintError ''Division by zero'')
         else if div_bits > num_bits then Inr (base_uint_of64 (length pn) 0)
         else
           let shift = num_bits - div_bits
           in Inr (base_uint_div_loop (Suc shift) pn (base_uint_shl b shift)
                     (base_uint_of64 (length pn) 0)))"

section \<open>Lengths\<close>

lemma length_of64 [simp]: "2 \<le> W \<Longrightarrow> length (base_uint_of64 W b) = W"
  by (simp add: base_uint_of64_def)

lemma length_inc [simp]: "length (base_uint_inc pn) = length pn"
  by (induction pn) auto

lemma length_not [simp]: "length (base_uint_not pn) = length pn"
  by (simp add: base_uint_not_def)

lemma length_neg [simp]: "length (base_uint_neg pn) = length pn"
  by (simp add: base_uint_neg_def)

lemma length_add_loop: "length a = length b \<Longrightarrow> length (base_uint_add_loop c a b) = length b"
  by (induction c a b rule: base_uint_add_loop.induct) (auto simp: Let_def)

lemma length_add [simp]: "length a = length b \<Longrightarrow> length (base_uint_add a b) = length b"
  by (simp add: base_uint_add_def length_add_loop)

lemma length_sub [simp]: "length a = length b \<Longrightarrow> length (base_uint_sub a b) = length b"
  by (simp add: base_uint_sub_def)

lemma length_mul32_loop: "length (base_uint_mul32_loop c a b) = length a"
  by (induction c a b rule: base_uint_mul32_loop.induct) (auto simp: Let_def)

lemma length_mul32 [simp]: "length (base_uint_mul32 a b) = length a"
  by (simp add: base_uint_mul32_def length_mul32_loop)

lemma length_mul_row [simp]: "length (base_uint_mul_row p c a b) = length a"
  by (induction p c a b rule: base_uint_mul_row.induct) (auto simp: Let_def)

section \<open>Values of sums\<close>

lemma mod_step:
  "n mod B + B * ((n div B + v) mod M) = (n + B * v) mod (B * M)" if "0 < B" for n B v M :: nat
proof -
  have "(n + B * v) mod (B * M) = B * ((n + B * v) div B mod M) + (n + B * v) mod B"
    by (rule mod_mult2_eq)
  with that show ?thesis by (simp add: add.commute)
qed

lemma unat_and_ffffffff: "unat (ucast (n AND 0xffffffff) :: u32) = unat n mod 2 ^ 32" for n :: u64
proof -
  have "n AND 0xffffffff = take_bit 32 n"
    by (simp add: take_bit_eq_mask mask_eq_exp_minus_1)
  then have "unat (n AND 0xffffffff) = unat n mod 2 ^ 32"
    by (simp only: unsigned_take_bit_eq) (simp add: take_bit_eq_mod)
  then show ?thesis by (simp add: unat_ucast_mod)
qed

lemma unat32_less: "unat (x :: u32) < 2 ^ 32"
  using unat_lt2p [of x] by simp

lemma unat32_less_numeral: "unat (x :: u32) < 4294967296"
  using unat_lt2p [of x] by simp

lemma unat_u64_of_u32 [simp]: "unat (ucast (x :: u32) :: u64) = unat x"
  by (simp add: unat_ucast_up)

lemma val_add_loop:
  "length a = length b \<Longrightarrow> unat c \<le> 1 \<Longrightarrow>
   val_of (base_uint_add_loop c a b) = (val_of a + val_of b + unat c) mod 2 ^ (32 * length a)"
proof (induction c a b rule: base_uint_add_loop.induct)
  case (1 carry x pn y b)
  define n where "n = carry + ucast x + ucast y"
  have n: "unat n = unat carry + unat x + unat y"
    using "1.prems" unat32_less [of x] unat32_less [of y]
    by (simp add: n_def unat_word_ariths)
  have "unat n div 2 ^ 32 \<le> 1"
    using "1.prems" unat32_less [of x] unat32_less [of y] n by (simp add: div_le_dividend less_Suc_eq_le [symmetric] div_less_iff_less_mult)
  then have ih: "val_of (base_uint_add_loop (drop_bit 32 n) pn b) =
      (unat n div 2 ^ 32 + (val_of pn + val_of b)) mod 2 ^ (32 * length pn)"
    using "1.prems" "1.IH" [OF n_def] by (simp add: unat_drop_bit add.commute)
  have "val_of (base_uint_add_loop carry (x # pn) (y # b)) =
      unat n mod 2 ^ 32 + 2 ^ 32 * ((unat n div 2 ^ 32 + (val_of pn + val_of b)) mod 2 ^ (32 * length pn))"
    unfolding base_uint_add_loop.simps Let_def n_def [symmetric] val_of.simps ih
    by (simp add: unat_and_ffffffff)
  also have "\<dots> = (unat n + 2 ^ 32 * (val_of pn + val_of b)) mod (2 ^ 32 * 2 ^ (32 * length pn))"
    by (rule mod_step) simp
  also have "unat n + 2 ^ 32 * (val_of pn + val_of b) = val_of (x # pn) + val_of (y # b) + unat carry"
    by (simp add: n)
  also have "2 ^ 32 * 2 ^ (32 * length pn) = (2::nat) ^ (32 * length (x # pn))"
    by (simp only: power_add [symmetric]) simp
  finally show ?case .
qed auto

lemma val_add:
  "length a = length b \<Longrightarrow>
   val_of (base_uint_add a b) = (val_of a + val_of b) mod 2 ^ (32 * length a)"
  by (simp add: base_uint_add_def val_add_loop)

lemma pow_limbs: "2 ^ 32 * 2 ^ (32 * n) = (2::nat) ^ (32 * Suc n)"
  by (simp only: power_add [symmetric]) simp

lemma unat_NOT_limb: "unat (NOT w) = 2 ^ 32 - 1 - unat w" for w :: u32
proof -
  have "NOT w = - 1 - w" by (simp add: not_eq_complement)
  then have "unat (NOT w) = unat (- 1 :: u32) - unat w"
    by (simp only: unat_sub word_order.extremum)
  then show ?thesis by (simp add: unsigned_minus_1_eq_mask mask_eq_exp_minus_1)
qed

lemma val_not_add: "val_of (base_uint_not pn) + val_of pn + 1 = 2 ^ (32 * length pn)"
proof (induction pn)
  case Nil
  then show ?case by (simp add: base_uint_not_def)
next
  case (Cons w pn)
  let ?N = "val_of (base_uint_not pn)"
  have w: "unat (NOT w) + unat w + 1 = 2 ^ 32"
    using unat32_less [of w] unfolding unat_NOT_limb by linarith
  have "val_of (base_uint_not (w # pn)) = unat (NOT w) + 2 ^ 32 * ?N"
    "val_of (w # pn) = unat w + 2 ^ 32 * val_of pn"
    by (simp_all add: base_uint_not_def)
  then have "val_of (base_uint_not (w # pn)) + val_of (w # pn) + 1 =
      (unat (NOT w) + unat w + 1) + 2 ^ 32 * (?N + val_of pn)"
    by (simp only: add_mult_distrib add_mult_distrib2 ac_simps)
  also have "\<dots> = 2 ^ 32 * (?N + val_of pn + 1)"
    by (simp only: w) simp
  also have "\<dots> = 2 ^ (32 * length (w # pn))"
    by (simp only: Cons.IH pow_limbs length_Cons)
  finally show ?case .
qed

lemma val_inc: "val_of (base_uint_inc pn) = (val_of pn + 1) mod 2 ^ (32 * length pn)"
proof (induction pn)
  case Nil
  then show ?case by simp
next
  case (Cons w pn)
  show ?case
  proof (cases "w + 1 = 0")
    case True
    then have w: "w = - 1" by (simp add: eq_neg_iff_add_eq_0)
    then have u: "unat w = 2 ^ 32 - 1"
      by (simp add: unsigned_minus_1_eq_mask mask_eq_exp_minus_1)
    have "val_of (base_uint_inc (w # pn)) = 2 ^ 32 * ((val_of pn + 1) mod 2 ^ (32 * length pn))"
      using True Cons.IH by simp
    also have "\<dots> = (2 ^ 32 * (val_of pn + 1)) mod (2 ^ 32 * 2 ^ (32 * length pn))"
      by (rule mult_mod_right)
    also have "2 ^ 32 * (val_of pn + 1) = val_of (w # pn) + 1"
      by (simp add: u)
    finally show ?thesis by (simp only: pow_limbs length_Cons)
  next
    case False
    then have "unat w + 1 \<noteq> 2 ^ 32"
      by (auto simp: word_unat_eq_iff unat_word_ariths)
    then have "unat (w + 1) = unat w + 1"
      using unat_add_of_nat [of w 1] unat32_less [of w] by simp
    then have v: "val_of ((w + 1) # pn) = val_of (w # pn) + 1"
      by simp
    with val_of_less [of "(w + 1) # pn"] False show ?thesis
      by simp
  qed
qed

lemma val_neg: "val_of (base_uint_neg pn) = (2 ^ (32 * length pn) - val_of pn) mod 2 ^ (32 * length pn)"
proof -
  have "val_of (base_uint_not pn) + 1 = 2 ^ (32 * length pn) - val_of pn"
    using val_not_add [of pn] by linarith
  then show ?thesis by (simp add: base_uint_neg_def val_inc)
qed

lemma val_sub:
  assumes "length a = length b"
  shows "val_of (base_uint_sub a b) =
    (val_of a + (2 ^ (32 * length a) - val_of b)) mod 2 ^ (32 * length a)"
  using assms by (simp add: base_uint_sub_def val_add val_neg mod_add_right_eq)

lemma val_sub_le:
  assumes "length a = length b" "val_of b \<le> val_of a"
  shows "val_of (base_uint_sub a b) = val_of a - val_of b"
proof -
  have e: "val_of a + (2 ^ (32 * length a) - val_of b) = (val_of a - val_of b) + 2 ^ (32 * length a)"
    using assms val_of_less [of b] by simp
  have l: "val_of a - val_of b < 2 ^ (32 * length a)"
    using val_of_less [of a] by simp
  show ?thesis
    unfolding val_sub [OF assms(1)] e using l by (simp only: mod_add_self2 mod_less)
qed

section \<open>Values of products\<close>

lemma carry_bound:
  "c < 2 ^ 32 \<Longrightarrow> x < 2 ^ 32 \<Longrightarrow> p < 2 ^ 32 \<Longrightarrow> y < 2 ^ 32 \<Longrightarrow> c + x + p * y < (2::nat) ^ 64"
proof -
  assume a: "c < 2 ^ 32" "x < 2 ^ 32" "p < 2 ^ 32" "y < (2::nat) ^ 32"
  have "p * y \<le> (2 ^ 32 - 1) * (2 ^ 32 - 1)"
    using a by (intro mult_le_mono) auto
  with a show ?thesis by simp
qed

lemma row_algebra:
  "c + x + p * y + B * (va + p * vb) = (x + B * va) + p * (y + B * vb) + c"
  "c + p * x + B * (va * p) = (x + B * va) * p + c" for B :: nat
  by (simp_all add: algebra_simps)

lemma val_mul_row:
  "length a \<le> length b \<Longrightarrow> unat c < 2 ^ 32 \<Longrightarrow>
   val_of (base_uint_mul_row p c a b) =
     (val_of a + unat p * val_of b + unat c) mod 2 ^ (32 * length a)"
proof (induction p c a b rule: base_uint_mul_row.induct)
  case (1 p carry x a y b)
  define n where "n = carry + ucast x + ucast p * ucast y"
  have less: "unat carry + unat x + unat p * unat y < 2 ^ 64"
    using "1.prems" by (intro carry_bound unat32_less) simp_all
  then have n: "unat n = unat carry + unat x + unat p * unat y"
    by (simp add: n_def unat_word_ariths)
  have "unat n div 2 ^ 32 < 2 ^ 32"
    using less n by (simp add: div_less_iff_less_mult)
  then have ih: "val_of (base_uint_mul_row p (drop_bit 32 n) a b) =
      (unat n div 2 ^ 32 + (val_of a + unat p * val_of b)) mod 2 ^ (32 * length a)"
    using "1.prems" "1.IH" [OF n_def] by (simp add: unat_drop_bit add.commute)
  have "val_of (base_uint_mul_row p carry (x # a) (y # b)) =
      unat n mod 2 ^ 32 + 2 ^ 32 * ((unat n div 2 ^ 32 + (val_of a + unat p * val_of b)) mod 2 ^ (32 * length a))"
    unfolding base_uint_mul_row.simps Let_def n_def [symmetric] val_of.simps ih
    by (simp add: unat_and_ffffffff)
  also have "\<dots> = (unat n + 2 ^ 32 * (val_of a + unat p * val_of b)) mod (2 ^ 32 * 2 ^ (32 * length a))"
    by (rule mod_step) simp
  also have "unat n + 2 ^ 32 * (val_of a + unat p * val_of b) =
      val_of (x # a) + unat p * val_of (y # b) + unat carry"
    unfolding n val_of.simps len_num1 by (simp only: row_algebra len_bit0 len_num1) simp
  finally show ?case by (simp only: pow_limbs length_Cons)
qed auto

lemma val_mul32_loop:
  "unat c < 2 ^ 32 \<Longrightarrow>
   val_of (base_uint_mul32_loop c a b) = (val_of a * unat b + unat c) mod 2 ^ (32 * length a)"
proof (induction c a b rule: base_uint_mul32_loop.induct)
  case (2 carry x a b)
  define n where "n = carry + ucast b * ucast x"
  have less: "unat carry + 0 + unat b * unat x < 2 ^ 64"
    using "2.prems" by (intro carry_bound unat32_less) simp_all
  then have n: "unat n = unat carry + unat b * unat x"
    by (simp add: n_def unat_word_ariths)
  have "unat n div 2 ^ 32 < 2 ^ 32"
    using less n by (simp add: div_less_iff_less_mult)
  then have ih: "val_of (base_uint_mul32_loop (drop_bit 32 n) a b) =
      (unat n div 2 ^ 32 + val_of a * unat b) mod 2 ^ (32 * length a)"
    using "2.prems" "2.IH" [OF n_def] by (simp add: unat_drop_bit add.commute)
  have "val_of (base_uint_mul32_loop carry (x # a) b) =
      unat n mod 2 ^ 32 + 2 ^ 32 * ((unat n div 2 ^ 32 + val_of a * unat b) mod 2 ^ (32 * length a))"
    unfolding base_uint_mul32_loop.simps Let_def n_def [symmetric] val_of.simps ih
    by (simp add: unat_and_ffffffff)
  also have "\<dots> = (unat n + 2 ^ 32 * (val_of a * unat b)) mod (2 ^ 32 * 2 ^ (32 * length a))"
    by (rule mod_step) simp
  also have "unat n + 2 ^ 32 * (val_of a * unat b) = val_of (x # a) * unat b + unat carry"
    unfolding n val_of.simps by (simp only: row_algebra len_bit0 len_num1) simp
  finally show ?case by (simp only: pow_limbs length_Cons)
qed simp

lemma val_mul32: "val_of (base_uint_mul32 a b) = (val_of a * unat b) mod 2 ^ (32 * length a)"
  by (simp add: base_uint_mul32_def val_mul32_loop)

text \<open>The accumulator after the rows below \<open>j\<close> holds the product with the limbs below \<open>j\<close>.\<close>

abbreviation mul_upto :: "base_uint \<Rightarrow> base_uint \<Rightarrow> nat \<Rightarrow> base_uint" where
  "mul_upto pn b j \<equiv> foldl (\<lambda>a j. take j a @ base_uint_mul_row (pn ! j) 0 (drop j a) b)
     (base_uint_new (length pn)) [0..<j]"

lemma length_mul_upto: "j \<le> length pn \<Longrightarrow> length (mul_upto pn b j) = length pn"
  by (induction j) (auto simp: base_uint_new_def)

lemma mod_scale: "t + B * (v mod M) = (t + B * v) mod (B * M)" if "t < B" for t B v M :: nat
proof -
  have "(t + B * v) mod (B * M) = B * ((t + B * v) div B mod M) + (t + B * v) mod B"
    by (rule mod_mult2_eq)
  with that show ?thesis by (simp add: add.commute)
qed

lemma val_mul_upto:
  assumes "length b = length pn"
  shows "j \<le> length pn \<Longrightarrow>
    val_of (mul_upto pn b j) = (val_of (take j pn) * val_of b) mod 2 ^ (32 * length pn)"
proof (induction j)
  case 0
  then show ?case by (simp add: base_uint_new_def)
next
  case (Suc j)
  define a where "a = mul_upto pn b j"
  let ?W = "length pn"
  have a: "length a = ?W" and IH: "val_of a = (val_of (take j pn) * val_of b) mod 2 ^ (32 * ?W)"
    using Suc by (simp_all add: a_def length_mul_upto)
  have t: "val_of (take j a) < 2 ^ (32 * j)"
    using val_of_less [of "take j a"] a Suc.prems by (simp add: min_absorb2)
  have pw: "(2::nat) ^ (32 * j) * 2 ^ (32 * (?W - j)) = 2 ^ (32 * ?W)"
    using Suc.prems by (simp flip: power_add add: diff_mult_distrib2)
  have "val_of (mul_upto pn b (Suc j)) =
      val_of (take j a) + 2 ^ (32 * j) *
        ((val_of (drop j a) + unat (pn ! j) * val_of b) mod 2 ^ (32 * (?W - j)))"
    using Suc.prems a assms
    by (simp add: a_def [symmetric] val_of_append min_absorb2 val_mul_row)
  also have "\<dots> = (val_of (take j a) + 2 ^ (32 * j) * (val_of (drop j a) + unat (pn ! j) * val_of b))
      mod 2 ^ (32 * ?W)"
    by (simp only: mod_scale [OF t] pw)
  also have "val_of (take j a) + 2 ^ (32 * j) * (val_of (drop j a) + unat (pn ! j) * val_of b) =
      val_of a + 2 ^ (32 * j) * (unat (pn ! j) * val_of b)"
    using Suc.prems a val_of_take_drop [of j a] by (simp add: add_mult_distrib2)
  also have "\<dots> mod 2 ^ (32 * ?W) =
      (val_of (take j pn) * val_of b + 2 ^ (32 * j) * (unat (pn ! j) * val_of b)) mod 2 ^ (32 * ?W)"
    unfolding IH by (rule mod_add_left_eq)
  also have "val_of (take j pn) * val_of b + 2 ^ (32 * j) * (unat (pn ! j) * val_of b) =
      val_of (take (Suc j) pn) * val_of b"
  proof -
    have "val_of (take (Suc j) pn) = val_of (take j pn) + 2 ^ (32 * j) * unat (pn ! j)"
      using Suc.prems by (simp add: take_Suc_conv_app_nth val_of_append min_absorb2)
    then show ?thesis by (simp only: add_mult_distrib mult.assoc)
  qed
  finally show ?case .
qed

lemma val_mul:
  "length b = length a \<Longrightarrow>
   val_of (base_uint_mul a b) = (val_of a * val_of b) mod 2 ^ (32 * length a)"
  using val_mul_upto [of b a "length a"] by (simp add: base_uint_mul_def)

lemma length_mul [simp]: "length (base_uint_mul a b) = length a"
  using length_mul_upto [of "length a" a b] by (simp add: base_uint_mul_def)

section \<open>Bits of the number and of its limbs\<close>

lemma bit_val_of:
  "bit (val_of xs) n \<longleftrightarrow> n div LENGTH('a) < length xs \<and> bit (xs ! (n div LENGTH('a))) (n mod LENGTH('a))"
  for xs :: "'a::len word list"
proof (induction xs arbitrary: n)
  case Nil
  then show ?case by simp
next
  case (Cons x xs)
  let ?L = "LENGTH('a)"
  have split: "take_bit ?L (val_of (x # xs)) = unat x" "drop_bit ?L (val_of (x # xs)) = val_of xs"
    using unat_lt2p [of x] by (simp_all add: take_bit_eq_mod drop_bit_eq_div)
  show ?case
  proof (cases "n < ?L")
    case True
    then have "bit (val_of (x # xs)) n \<longleftrightarrow> bit (take_bit ?L (val_of (x # xs))) n"
      by (simp only: bit_take_bit_iff) simp
    with True show ?thesis
      by (simp only: split) (simp add: bit_unsigned_iff)
  next
    case False
    then have "bit (val_of (x # xs)) n \<longleftrightarrow> bit (drop_bit ?L (val_of (x # xs))) (n - ?L)"
      by (simp only: bit_drop_bit_eq) (simp add: comp_def)
    then have "bit (val_of (x # xs)) n \<longleftrightarrow> bit (val_of xs) (n - ?L)"
      by (simp only: split)
    with False Cons.IH [of "n - ?L"] show ?thesis
      by (simp add: le_div_geq le_mod_geq)
  qed
qed

lemma limb_bits: "bit (val_of pn) n \<longleftrightarrow> n div 32 < length pn \<and> bit (pn ! (n div 32)) (n mod 32)"
  for pn :: base_uint
  using bit_val_of [of pn n] by simp

section \<open>Values of shifts\<close>

text \<open>The limbs after the first \<open>m\<close> iterations of the two loops.\<close>

lemma shl_loop_limbs:
  fixes a :: base_uint and k s :: nat
  defines "step \<equiv> (\<lambda>pn i.
      let pn1 = (if i + k + 1 < length a \<and> s \<noteq> 0
                 then pn[i + k + 1 := pn ! (i + k + 1) OR drop_bit (32 - s) (a ! i)] else pn)
      in if i + k < length a then pn1[i + k := pn1 ! (i + k) OR push_bit s (a ! i)] else pn1)"
  shows "length (foldl step (replicate (length a) 0) [0..<m]) = length a \<and>
    (\<forall>j < length a. foldl step (replicate (length a) 0) [0..<m] ! j =
      (if k \<le> j \<and> j < k + m then push_bit s (a ! (j - k)) else 0) OR
      (if k + 1 \<le> j \<and> j < k + 1 + m \<and> s \<noteq> 0 then drop_bit (32 - s) (a ! (j - k - 1)) else 0))"
proof (induction m)
  case 0
  show ?case by auto
next
  case (Suc m)
  define pn where "pn = foldl step (replicate (length a) 0) [0..<m]"
  have fold: "foldl step (replicate (length a) 0) [0..<Suc m] = step pn m"
    by (simp add: pn_def)
  have IH: "length pn = length a" "\<And>j. j < length a \<Longrightarrow> pn ! j =
      (if k \<le> j \<and> j < k + m then push_bit s (a ! (j - k)) else 0) OR
      (if k + 1 \<le> j \<and> j < k + 1 + m \<and> s \<noteq> 0 then drop_bit (32 - s) (a ! (j - k - 1)) else 0)"
    using Suc by (auto simp: pn_def)
  show ?case unfolding fold
  proof (intro conjI allI impI)
    show "length (step pn m) = length a" using IH(1) by (simp add: step_def Let_def)
    fix j assume j: "j < length a"
    consider "j = m + k" | "j = m + k + 1" | "j \<noteq> m + k" "j \<noteq> m + k + 1" by blast
    then show "step pn m ! j =
      (if k \<le> j \<and> j < k + Suc m then push_bit s (a ! (j - k)) else 0) OR
      (if k + 1 \<le> j \<and> j < k + 1 + Suc m \<and> s \<noteq> 0 then drop_bit (32 - s) (a ! (j - k - 1)) else 0)"
    proof cases
      case 1
      with j IH show ?thesis by (auto simp: step_def Let_def nth_list_update or.commute)
    next
      case 2
      with j IH show ?thesis by (auto simp: step_def Let_def nth_list_update)
    next
      case 3
      then have "step pn m ! j = pn ! j"
        using IH(1) by (auto simp: step_def Let_def nth_list_update)
      with 3 j show ?thesis by (simp add: IH(2))
    qed
  qed
qed

lemma length_shl [simp]: "length (base_uint_shl a n) = length a"
  using shl_loop_limbs [where a = a and k = "n div 32" and s = "n mod 32" and m = "length a"]
  by (simp add: base_uint_shl_def Let_def)

lemma shl_limb:
  "j < length a \<Longrightarrow> base_uint_shl a n ! j =
     (if n div 32 \<le> j then push_bit (n mod 32) (a ! (j - n div 32)) else 0) OR
     (if n div 32 + 1 \<le> j \<and> n mod 32 \<noteq> 0
      then drop_bit (32 - n mod 32) (a ! (j - n div 32 - 1)) else 0)"
  using shl_loop_limbs [where a = a and k = "n div 32" and s = "n mod 32" and m = "length a"]
  by (simp add: base_uint_shl_def Let_def)

lemma shr_loop_limbs:
  fixes a :: base_uint and k s :: nat
  defines "step \<equiv> (\<lambda>pn i.
      let pn1 = (if k + 1 \<le> i \<and> s \<noteq> 0
                 then pn[i - k - 1 := pn ! (i - k - 1) OR push_bit (32 - s) (a ! i)] else pn)
      in if k \<le> i then pn1[i - k := pn1 ! (i - k) OR drop_bit s (a ! i)] else pn1)"
  shows "m \<le> length a \<Longrightarrow> length (foldl step (replicate (length a) 0) [0..<m]) = length a \<and>
    (\<forall>j < length a. foldl step (replicate (length a) 0) [0..<m] ! j =
      (if j + k < m then drop_bit s (a ! (j + k)) else 0) OR
      (if j + k + 1 < m \<and> s \<noteq> 0 then push_bit (32 - s) (a ! (j + k + 1)) else 0))"
proof (induction m)
  case 0
  show ?case by auto
next
  case (Suc m)
  define pn where "pn = foldl step (replicate (length a) 0) [0..<m]"
  have fold: "foldl step (replicate (length a) 0) [0..<Suc m] = step pn m"
    by (simp add: pn_def)
  have IH: "length pn = length a" "\<And>j. j < length a \<Longrightarrow> pn ! j =
      (if j + k < m then drop_bit s (a ! (j + k)) else 0) OR
      (if j + k + 1 < m \<and> s \<noteq> 0 then push_bit (32 - s) (a ! (j + k + 1)) else 0)"
    using Suc by (auto simp: pn_def)
  show ?case unfolding fold
  proof (intro conjI allI impI)
    show "length (step pn m) = length a" using IH(1) by (simp add: step_def Let_def)
    fix j assume j: "j < length a"
    consider "m = j + k" | "m = j + k + 1" | "m \<noteq> j + k" "m \<noteq> j + k + 1" by blast
    then show "step pn m ! j =
      (if j + k < Suc m then drop_bit s (a ! (j + k)) else 0) OR
      (if j + k + 1 < Suc m \<and> s \<noteq> 0 then push_bit (32 - s) (a ! (j + k + 1)) else 0)"
    proof cases
      case 1
      with j Suc.prems IH show ?thesis by (auto simp: step_def Let_def nth_list_update)
    next
      case 2
      with j Suc.prems IH show ?thesis by (auto simp: step_def Let_def nth_list_update)
    next
      case 3
      then have "step pn m ! j = pn ! j"
        using IH(1) by (auto simp: step_def Let_def nth_list_update)
      with 3 j show ?thesis by (simp add: IH(2))
    qed
  qed
qed

lemma length_shr [simp]: "length (base_uint_shr a n) = length a"
  using shr_loop_limbs [where a = a and k = "n div 32" and s = "n mod 32" and m = "length a"]
  by (simp add: base_uint_shr_def Let_def)

lemma shr_limb:
  "j < length a \<Longrightarrow> base_uint_shr a n ! j =
     (if j + n div 32 < length a then drop_bit (n mod 32) (a ! (j + n div 32)) else 0) OR
     (if j + n div 32 + 1 < length a \<and> n mod 32 \<noteq> 0
      then push_bit (32 - n mod 32) (a ! (j + n div 32 + 1)) else 0)"
  using shr_loop_limbs [where a = a and k = "n div 32" and s = "n mod 32" and m = "length a"]
  by (simp add: base_uint_shr_def Let_def)

lemma limb_bits_at:
  "r < 32 \<Longrightarrow> bit (val_of pn) (32 * q + r) \<longleftrightarrow> q < length pn \<and> bit (pn ! q) r" for pn :: base_uint
  by (simp add: limb_bits)

lemma limb_bit_bound: "bit w n \<Longrightarrow> n < 32" for w :: u32
  using bit_imp_le_length [of w n] by simp

lemma bit_shl_limb:
  assumes "r < 32" "t < 32" "q < length a"
  shows "bit (base_uint_shl a (32 * k + t) ! q) r \<longleftrightarrow>
    (k \<le> q \<and> t \<le> r \<and> bit (a ! (q - k)) (r - t)) \<or>
    (k + 1 \<le> q \<and> r < t \<and> bit (a ! (q - k - 1)) (32 - t + r))"
proof -
  have kt: "(32 * k + t) div 32 = k" "(32 * k + t) mod 32 = t" using assms by simp_all
  have "bit (drop_bit (32 - t) w) r \<longleftrightarrow> r < t \<and> bit w (32 - t + r)" if "t \<noteq> 0" for w :: u32
    using that assms limb_bit_bound [of w "32 - t + r"] by (auto simp: bit_drop_bit_eq)
  moreover have "bit (push_bit t w) r \<longleftrightarrow> t \<le> r \<and> bit w (r - t)" for w :: u32
    using assms by (simp add: bit_push_bit_iff)
  ultimately show ?thesis
    unfolding shl_limb [OF assms(3), of "32 * k + t", unfolded kt] by (auto simp: bit_or_iff)
qed

lemma bit_shr_limb:
  assumes "r < 32" "t < 32" "q < length a"
  shows "bit (base_uint_shr a (32 * k + t) ! q) r \<longleftrightarrow>
    (q + k < length a \<and> r + t < 32 \<and> bit (a ! (q + k)) (r + t)) \<or>
    (q + k + 1 < length a \<and> 32 \<le> r + t \<and> bit (a ! (q + k + 1)) (r + t - 32))"
proof -
  have kt: "(32 * k + t) div 32 = k" "(32 * k + t) mod 32 = t" using assms by simp_all
  have p: "bit (push_bit (32 - t) w) r \<longleftrightarrow> 32 \<le> r + t \<and> bit w (r + t - 32)" if "t \<noteq> 0" for w :: u32
    using that assms by (auto simp: bit_push_bit_iff)
  have d: "bit (drop_bit t w) r \<longleftrightarrow> r + t < 32 \<and> bit w (r + t)" for w :: u32
    using limb_bit_bound [of w "t + r"] by (auto simp: bit_drop_bit_eq add.commute)
  have "bit (base_uint_shr a (32 * k + t) ! q) r \<longleftrightarrow>
      (q + k < length a \<and> bit (drop_bit t (a ! (q + k))) r) \<or>
      (q + k + 1 < length a \<and> t \<noteq> 0 \<and> bit (push_bit (32 - t) (a ! (q + k + 1))) r)"
    unfolding shr_limb [OF assms(3), of "32 * k + t", unfolded kt] by (auto simp: bit_or_iff)
  then show ?thesis
    unfolding d using p [of "a ! (q + k + 1)"] assms(1) by (cases "t = 0") auto
qed

lemma val_shl: "val_of (base_uint_shl a s) = (val_of a * 2 ^ s) mod 2 ^ (32 * length a)"
proof -
  define k t where "k = s div 32" and "t = s mod 32"
  have s: "s = 32 * k + t" and t: "t < 32" by (simp_all add: k_def t_def)
  have "bit (val_of (base_uint_shl a s)) n = bit (take_bit (32 * length a) (push_bit s (val_of a))) n" for n
  proof -
    define q r where "q = n div 32" and "r = n mod 32"
    have n: "n = 32 * q + r" and r: "r < 32" by (simp_all add: q_def r_def)
    have lt: "n < 32 * length a \<longleftrightarrow> q < length a" using r unfolding n by linarith
    have L: "bit (val_of (base_uint_shl a s)) n \<longleftrightarrow> q < length a \<and> bit (base_uint_shl a s ! q) r"
      unfolding n by (simp add: limb_bits_at [OF r])
    consider "k \<le> q" "t \<le> r" | "k + 1 \<le> q" "r < t" | "n < s" "\<not> (k \<le> q \<and> t \<le> r)" "\<not> (k + 1 \<le> q \<and> r < t)"
      using r t unfolding n s by linarith
    then show ?thesis
    proof cases
      case 1
      then have e: "n - s = 32 * (q - k) + (r - t)" "s \<le> n" unfolding n s by linarith+
      have "bit (val_of a) (n - s) \<longleftrightarrow> q - k < length a \<and> bit (a ! (q - k)) (r - t)"
        unfolding e using r by (intro limb_bits_at) simp
      with 1 lt e show ?thesis
        by (auto simp: bit_take_bit_iff bit_push_bit_iff L bit_shl_limb [OF r t, of q a k, folded s])
    next
      case 2
      then have e: "n - s = 32 * (q - k - 1) + (32 - t + r)" "s \<le> n" using t unfolding n s by linarith+
      have "bit (val_of a) (n - s) \<longleftrightarrow> q - k - 1 < length a \<and> bit (a ! (q - k - 1)) (32 - t + r)"
        unfolding e using 2 t by (intro limb_bits_at) simp
      with 2 lt e show ?thesis
        by (auto simp: bit_take_bit_iff bit_push_bit_iff L bit_shl_limb [OF r t, of q a k, folded s])
    next
      case 3
      with lt show ?thesis
        by (auto simp: bit_take_bit_iff bit_push_bit_iff L bit_shl_limb [OF r t, of q a k, folded s])
    qed
  qed
  then have "val_of (base_uint_shl a s) = take_bit (32 * length a) (push_bit s (val_of a))"
    by (intro bit_eqI) simp
  then show ?thesis by (simp add: take_bit_eq_mod push_bit_eq_mult)
qed

lemma val_shr: "val_of (base_uint_shr a s) = val_of a div 2 ^ s"
proof -
  define k t where "k = s div 32" and "t = s mod 32"
  have s: "s = 32 * k + t" and t: "t < 32" by (simp_all add: k_def t_def)
  have "bit (val_of (base_uint_shr a s)) n = bit (drop_bit s (val_of a)) n" for n
  proof -
    define q r where "q = n div 32" and "r = n mod 32"
    have n: "n = 32 * q + r" and r: "r < 32" by (simp_all add: q_def r_def)
    have L: "bit (val_of (base_uint_shr a s)) n \<longleftrightarrow> q < length a \<and> bit (base_uint_shr a s ! q) r"
      unfolding n by (simp add: limb_bits_at [OF r])
    show ?thesis
    proof (cases "r + t < 32")
      case True
      have e: "s + n = 32 * (q + k) + (r + t)" unfolding n s by simp
      have "bit (val_of a) (s + n) \<longleftrightarrow> q + k < length a \<and> bit (a ! (q + k)) (r + t)"
        unfolding e using True by (rule limb_bits_at)
      with True show ?thesis
        by (auto simp: bit_drop_bit_eq L bit_shr_limb [OF r t, of q a k, folded s])
    next
      case False
      then have e: "s + n = 32 * (q + k + 1) + (r + t - 32)" unfolding n s by simp
      have "bit (val_of a) (s + n) \<longleftrightarrow> q + k + 1 < length a \<and> bit (a ! (q + k + 1)) (r + t - 32)"
        unfolding e using r t by (intro limb_bits_at) simp
      with False show ?thesis
        by (auto simp: bit_drop_bit_eq L bit_shr_limb [OF r t, of q a k, folded s])
    qed
  qed
  then have "val_of (base_uint_shr a s) = drop_bit s (val_of a)"
    by (intro bit_eqI) simp
  then show ?thesis by (simp add: drop_bit_eq_div)
qed

section \<open>Comparison and bit length of the number\<close>

lemma val_take_Suc:
  "i < length a \<Longrightarrow> val_of (take (Suc i) a) = val_of (take i a) + 2 ^ (32 * i) * unat (a ! i)"
  for a :: base_uint
  by (simp add: take_Suc_conv_app_nth val_of_append min_absorb2)

lemma digit_less:
  "x < B \<Longrightarrow> y < B \<Longrightarrow> p < q \<Longrightarrow> x + B * p < y + B * q" for x y B p q :: nat
proof -
  assume "x < B" "p < q"
  then have "x + B * p < B * Suc p" "B * Suc p \<le> B * q"
    by (simp, intro mult_le_mono2, simp)
  then show ?thesis by linarith
qed

lemma CompareTo_loop_sgn:
  assumes "length a = length b"
  shows "i \<le> length a \<Longrightarrow>
    base_uint_CompareTo_loop a b i = sgn (int (val_of (take i a)) - int (val_of (take i b)))"
proof (induction i)
  case 0
  then show ?case by simp
next
  case (Suc i)
  have l: "val_of (take i a) < 2 ^ (32 * i)" "val_of (take i b) < 2 ^ (32 * i)"
    using val_of_less [of "take i a"] val_of_less [of "take i b"] Suc.prems assms
    by (simp_all add: min_absorb2)
  note v = val_take_Suc [of i a] val_take_Suc [of i b]
  consider "a ! i < b ! i" | "b ! i < a ! i" | "a ! i = b ! i" by fastforce
  then show ?case
  proof cases
    case 1
    then have "val_of (take (Suc i) a) < val_of (take (Suc i) b)"
      using digit_less [OF l] v Suc.prems assms by (simp add: word_less_nat_alt)
    with 1 show ?thesis by simp
  next
    case 2
    then have "val_of (take (Suc i) b) < val_of (take (Suc i) a)"
      using digit_less [OF l(2,1)] v Suc.prems assms by (simp add: word_less_nat_alt)
    with 2 show ?thesis by (simp add: word_less_nat_alt)
  next
    case 3
    with Suc v assms show ?thesis by simp
  qed
qed

lemma CompareTo_sgn:
  "length a = length b \<Longrightarrow> base_uint_CompareTo a b = sgn (int (val_of a) - int (val_of b))"
  using CompareTo_loop_sgn [of a b "length a"] by (simp add: base_uint_CompareTo_def)

lemma compare_vals:
  assumes "length a = length b"
  shows "base_uint_lt a b \<longleftrightarrow> val_of a < val_of b" "base_uint_le a b \<longleftrightarrow> val_of a \<le> val_of b"
    "base_uint_gt a b \<longleftrightarrow> val_of a > val_of b" "base_uint_ge a b \<longleftrightarrow> val_of a \<ge> val_of b"
    "base_uint_eq a b \<longleftrightarrow> val_of a = val_of b"
  using assms
  by (simp_all add: base_uint_lt_def base_uint_le_def base_uint_gt_def base_uint_ge_def
      base_uint_eq_def CompareTo_sgn sgn_if) (auto simp: val_of_inject [symmetric])

lemma and_push_bit_one: "w AND push_bit n 1 \<noteq> 0 \<longleftrightarrow> n < 32 \<and> bit w n" for w :: u32
proof -
  have "w AND push_bit n 1 = (if n < 32 \<and> bit w n then push_bit n 1 else 0)"
    by (rule bit_word_eqI) (auto simp: bit_and_iff bit_exp_iff)
  moreover have "n < 32 \<Longrightarrow> push_bit n 1 \<noteq> (0::u32)"
    by (simp add: push_bit_eq_mult)
  ultimately show ?thesis by simp
qed

lemma bits_inner_bounds:
  "w \<noteq> 0 \<Longrightarrow> unat w < 2 ^ Suc n \<Longrightarrow> n < 32 \<Longrightarrow>
   2 ^ (base_uint_bits_inner w n - 1) \<le> unat w \<and> unat w < 2 ^ base_uint_bits_inner w n \<and>
   0 < base_uint_bits_inner w n \<and> base_uint_bits_inner w n \<le> Suc n"
proof (induction n)
  case 0
  then show ?case by (auto simp: word_unat_eq_iff)
next
  case (Suc n)
  show ?case
  proof (cases "bit w (Suc n)")
    case True
    then have "odd (unat w div 2 ^ Suc n)"
      by (simp add: bit_odd_div del: power_Suc)
    then have "2 ^ Suc n \<le> unat w"
      by (metis div_less even_zero not_le)
    moreover have "w AND push_bit (Suc n) 1 \<noteq> 0"
      using and_push_bit_one [of w "Suc n"] True Suc.prems by blast
    then have "base_uint_bits_inner w (Suc n) = Suc (Suc n)"
      by (simp only: base_uint_bits_inner.simps) simp
    ultimately show ?thesis using Suc.prems by simp
  next
    case False
    have "unat w div 2 ^ Suc n < 2"
      using Suc.prems by (simp add: div_less_iff_less_mult)
    moreover have "even (unat w div 2 ^ Suc n)"
      using False by (simp add: bit_odd_div del: power_Suc)
    ultimately have "unat w div 2 ^ Suc n = 0" by (auto simp: less_2_cases_iff)
    then have "unat w < 2 ^ Suc n"
      by (simp add: div_eq_0_iff del: power_Suc)
    moreover have "w AND push_bit (Suc n) 1 = 0"
      using and_push_bit_one [of w "Suc n"] False by blast
    then have "base_uint_bits_inner w (Suc n) = base_uint_bits_inner w n"
      by (simp only: base_uint_bits_inner.simps) simp
    ultimately show ?thesis using Suc by simp
  qed
qed

lemma bits_loop_bounds:
  "pos \<le> length pn \<Longrightarrow>
   (val_of (take pos pn) = 0 \<longleftrightarrow> base_uint_bits_loop pn pos = 0) \<and>
   base_uint_bits_loop pn pos \<le> 32 * pos \<and>
   (val_of (take pos pn) \<noteq> 0 \<longrightarrow>
      2 ^ (base_uint_bits_loop pn pos - 1) \<le> val_of (take pos pn) \<and>
      val_of (take pos pn) < 2 ^ base_uint_bits_loop pn pos)"
proof (induction pos)
  case 0
  then show ?case by simp
next
  case (Suc pos)
  have v: "val_of (take (Suc pos) pn) = val_of (take pos pn) + 2 ^ (32 * pos) * unat (pn ! pos)"
    using Suc.prems by (intro val_take_Suc) simp
  show ?case
  proof (cases "pn ! pos = 0")
    case True
    with Suc v show ?thesis by (simp del: power_Suc) linarith
  next
    case False
    define n where "n = base_uint_bits_inner (pn ! pos) 31"
    have n: "2 ^ (n - 1) \<le> unat (pn ! pos)" "unat (pn ! pos) < 2 ^ n" "0 < n" "n \<le> 32"
      using bits_inner_bounds [OF False, of 31] unat32_less [of "pn ! pos"] by (simp_all add: n_def)
    have l: "val_of (take pos pn) < 2 ^ (32 * pos)"
      using val_of_less [of "take pos pn"] Suc.prems by (simp add: min_absorb2)
    have e: "(2::nat) ^ (32 * pos) * 2 ^ (n - 1) = 2 ^ (32 * pos + n - 1)"
      "(2::nat) ^ (32 * pos) * 2 ^ n = 2 ^ (32 * pos + n)"
      using n(3) by (simp_all flip: power_add)
    have "2 ^ (32 * pos + n - 1) \<le> val_of (take (Suc pos) pn)"
      unfolding v e(1) [symmetric] using n(1) by (intro trans_le_add2 mult_le_mono2)
    moreover have "val_of (take (Suc pos) pn) < 2 ^ (32 * pos + n)"
      unfolding v e(2) [symmetric] using digit_less [OF l, of 0 "unat (pn ! pos)" "2 ^ n"] n(2) by simp
    moreover from calculation(1) have "val_of (take (Suc pos) pn) \<noteq> 0"
      by (metis not_le power_eq_0_iff zero_less_iff_neq_zero zero_neq_numeral)
    ultimately show ?thesis
      using False n(3,4) by (simp add: n_def [symmetric])
  qed
qed

lemma bits_bounds:
  "base_uint_bits pn \<le> 32 * length pn"
  "base_uint_bits pn = 0 \<longleftrightarrow> val_of pn = 0"
  "val_of pn < 2 ^ base_uint_bits pn"
  "val_of pn \<noteq> 0 \<Longrightarrow> 2 ^ (base_uint_bits pn - 1) \<le> val_of pn"
  using bits_loop_bounds [of "length pn" pn]
  by (cases "val_of pn = 0"; simp add: base_uint_bits_def)+

lemma bits_le_iff: "base_uint_bits pn \<le> n \<longleftrightarrow> val_of pn < 2 ^ n"
proof
  assume "base_uint_bits pn \<le> n"
  then show "val_of pn < 2 ^ n"
    using bits_bounds(3) [of pn] by (meson less_le_trans one_le_numeral power_increasing)
next
  assume l: "val_of pn < 2 ^ n"
  show "base_uint_bits pn \<le> n"
  proof (rule ccontr)
    assume "\<not> base_uint_bits pn \<le> n"
    then have n: "n \<le> base_uint_bits pn - 1" and "val_of pn \<noteq> 0"
      using bits_bounds(2) [of pn] by auto
    from n have "(2::nat) ^ n \<le> 2 ^ (base_uint_bits pn - 1)"
      by (intro power_increasing) auto
    with bits_bounds(4) [of pn] \<open>val_of pn \<noteq> 0\<close> l show False by linarith
  qed
qed

lemma val_of64 [simp]: "2 \<le> W \<Longrightarrow> val_of (base_uint_of64 W b) = unat b"
proof -
  have "unat (ucast b :: u32) + 2 ^ 32 * unat (ucast (drop_bit 32 b) :: u32) = unat b"
  proof -
    have "unat b div 2 ^ 32 < 2 ^ 32"
      using unat_lt2p [of b] by (simp add: div_less_iff_less_mult)
    then show ?thesis
      by (simp add: unat_ucast_mod unat_drop_bit)
  qed
  then show ?thesis by (simp add: base_uint_of64_def)
qed

lemma IsNull_val: "base_uint_IsNull pn \<longleftrightarrow> val_of pn = 0"
  by (induction pn) (auto simp: base_uint_IsNull_def word_unat_eq_iff)

section \<open>Quotients\<close>

lemma val_set_bit:
  fixes pn :: base_uint
  assumes "n < 32 * length pn" "\<not> bit (val_of pn) n"
  shows "val_of (pn[n div 32 := pn ! (n div 32) OR push_bit (n mod 32) 1]) = val_of pn + 2 ^ n"
proof -
  let ?pn = "pn[n div 32 := pn ! (n div 32) OR push_bit (n mod 32) 1]"
  have "bit (val_of ?pn) m = bit (val_of pn OR push_bit n 1) m" for m
    using assms(1)
    by (auto simp: limb_bits nth_list_update bit_or_iff bit_exp_iff)
      (metis div_mult_mod_eq)+
  then have "val_of ?pn = val_of pn OR push_bit n 1"
    by (intro bit_eqI) simp
  also have "\<dots> = val_of pn + push_bit n 1"
    using assms(2) by (intro disjunctive_add_eq_or [symmetric] bit_eqI) (auto simp: bit_and_iff bit_exp_iff)
  finally show ?thesis by (simp add: push_bit_eq_mult)
qed

lemma div_split:
  "d * 2 ^ s \<le> n \<Longrightarrow> 0 < d \<Longrightarrow> n div d = 2 ^ s + (n - d * 2 ^ s) div d" for n d s :: nat
proof -
  assume "d * 2 ^ s \<le> n" "0 < d"
  then have "n div d = ((n - d * 2 ^ s) + 2 ^ s * d) div d" by (simp add: mult.commute)
  with \<open>0 < d\<close> show ?thesis by simp
qed

lemma dvd_bits_clear: "2 ^ Suc s dvd v \<Longrightarrow> \<not> bit v s" for v :: nat
  by (auto simp: bit_iff_odd elim!: dvdE)

lemma val_div_loop:
  assumes "0 < d"
  shows "length num = W \<Longrightarrow> length dv = W \<Longrightarrow> length q = W \<Longrightarrow> c \<le> 32 * W \<Longrightarrow>
    (0 < c \<longrightarrow> val_of dv = d * 2 ^ (c - 1)) \<Longrightarrow> val_of num < d * 2 ^ c \<Longrightarrow> 2 ^ c dvd val_of q \<Longrightarrow>
    length (base_uint_div_loop c num dv q) = W \<and>
    val_of (base_uint_div_loop c num dv q) = val_of q + val_of num div d"
proof (induction c arbitrary: num dv q)
  case 0
  then show ?case by simp
next
  case (Suc s)
  have dv: "val_of dv = d * 2 ^ s" using Suc.prems by simp
  have next_dv: "0 < s \<longrightarrow> val_of (base_uint_shr dv 1) = d * 2 ^ (s - 1)"
    by (cases s) (simp_all add: val_shr dv)
  show ?case
  proof (cases "base_uint_ge num dv")
    case True
    then have le: "d * 2 ^ s \<le> val_of num"
      using Suc.prems dv by (simp add: compare_vals)
    define q' where "q' = q[s div 32 := q ! (s div 32) OR push_bit (s mod 32) 1]"
    have q': "val_of q' = val_of q + 2 ^ s" "length q' = W"
      using Suc.prems val_set_bit [of s q] dvd_bits_clear [of s] by (simp_all add: q'_def)
    have num': "val_of (base_uint_sub num dv) = val_of num - d * 2 ^ s"
      using le Suc.prems dv val_sub_le [of num dv] by simp
    have "2 ^ s dvd val_of q"
      using Suc.prems(7) by (rule dvd_trans [rotated]) simp
    then have "2 ^ s dvd val_of q'" unfolding q'(1) by (rule dvd_add) simp
    moreover have "val_of num - d * 2 ^ s < d * 2 ^ s"
      using Suc.prems(6) by simp
    ultimately have "length (base_uint_div_loop s (base_uint_sub num dv) (base_uint_shr dv 1) q') = W \<and>
        val_of (base_uint_div_loop s (base_uint_sub num dv) (base_uint_shr dv 1) q') =
        val_of q' + val_of (base_uint_sub num dv) div d"
      using Suc.prems q'(2) next_dv num' by (intro Suc.IH) simp_all
    with True show ?thesis
      by (simp only: base_uint_div_loop.simps if_True Let_def prod.case q'_def [symmetric] num' q'
          div_split [OF le assms]) simp
  next
    case False
    then have "val_of num < d * 2 ^ s"
      using Suc.prems dv by (simp add: compare_vals)
    moreover have "2 ^ s dvd val_of q"
      using Suc.prems(7) by (rule dvd_trans [rotated]) simp
    ultimately have "length (base_uint_div_loop s num (base_uint_shr dv 1) q) = W \<and>
        val_of (base_uint_div_loop s num (base_uint_shr dv 1) q) = val_of q + val_of num div d"
      using Suc.prems next_dv by (intro Suc.IH) simp_all
    with False show ?thesis
      by (simp only: base_uint_div_loop.simps if_False Let_def prod.case)
  qed
qed

lemma val_div:
  assumes "length a = W" "length b = W" "2 \<le> W"
  shows "if val_of b = 0 then base_uint_div a b = Inl (UintError ''Division by zero'')
    else \<exists>q. base_uint_div a b = Inr q \<and> length q = W \<and> val_of q = val_of a div val_of b"
proof (cases "val_of b = 0")
  case True
  then show ?thesis using bits_bounds(2) [of b] by (simp add: base_uint_div_def Let_def)
next
  case False
  let ?na = "base_uint_bits a" and ?nb = "base_uint_bits b"
  have nb: "?nb \<noteq> 0" using False bits_bounds(2) [of b] by simp
  show ?thesis
  proof (cases "?na < ?nb")
    case True
    then have "?na \<le> ?nb - 1" by linarith
    then have "val_of a < 2 ^ (?nb - 1)" by (simp only: bits_le_iff)
    then have "val_of a div val_of b = 0"
      using bits_bounds(4) [OF False] by simp
    with True nb False assms show ?thesis
      by (simp add: base_uint_div_def Let_def)
  next
    case le: False
    define s where "s = ?na - ?nb"
    have na: "?na \<le> 32 * W" using bits_bounds(1) [of a] assms by simp
    have "val_of b * 2 ^ s < 2 ^ ?nb * 2 ^ s" using bits_bounds(3) [of b] by simp
    also have "\<dots> = 2 ^ ?na" using le by (simp add: s_def flip: power_add)
    also have "\<dots> \<le> 2 ^ (32 * W)" using na by (intro power_increasing) auto
    finally have shl: "val_of (base_uint_shl b s) = val_of b * 2 ^ s"
      using assms by (simp add: val_shl)
    have "val_of a < 2 ^ ?na" by (rule bits_bounds(3))
    also have "(2::nat) ^ ?na = 2 ^ (?nb - 1) * 2 ^ Suc s"
      using le nb by (simp add: s_def flip: power_add power_Suc)
    also have "\<dots> \<le> val_of b * 2 ^ Suc s"
      using bits_bounds(4) [OF False] by (intro mult_le_mono1)
    finally have "val_of a < val_of b * 2 ^ Suc s" .
    then have "length (base_uint_div_loop (Suc s) a (base_uint_shl b s) (base_uint_of64 W 0)) = W \<and>
        val_of (base_uint_div_loop (Suc s) a (base_uint_shl b s) (base_uint_of64 W 0)) =
        val_of (base_uint_of64 W 0) + val_of a div val_of b"
      using False assms na nb shl by (intro val_div_loop) (simp_all add: s_def)
    with le nb False assms show ?thesis
      by (simp add: base_uint_div_def Let_def s_def [symmetric] del: base_uint_div_loop.simps)
  qed
qed

lemma length_dec [simp]: "length (base_uint_dec pn) = length pn"
  by (induction pn) auto

lemma inc_dec: "base_uint_inc (base_uint_dec pn) = pn"
  by (induction pn) auto

lemma val_dec: "pn \<noteq> [] \<Longrightarrow> val_of (base_uint_dec pn) = (val_of pn + (2 ^ (32 * length pn) - 1)) mod 2 ^ (32 * length pn)"
proof -
  let ?M = "(2::nat) ^ (32 * length pn)"
  assume "pn \<noteq> []"
  have l: "val_of (base_uint_dec pn) < ?M" "val_of pn < ?M"
    using val_of_less [of "base_uint_dec pn"] val_of_less [of pn] by simp_all
  have v: "val_of pn = (val_of (base_uint_dec pn) + 1) mod ?M"
    using val_inc [of "base_uint_dec pn"] by (simp add: inc_dec)
  show ?thesis
  proof (cases "val_of (base_uint_dec pn) + 1 = ?M")
    case True
    with v have "val_of pn = 0" by simp
    with True show ?thesis by simp
  next
    case False
    with l v have "val_of pn = val_of (base_uint_dec pn) + 1" by simp
    then have "val_of pn + (?M - 1) = val_of (base_uint_dec pn) + ?M" using l by simp
    with l show ?thesis by simp
  qed
qed

lemma val_bitwise:
  assumes "length a = length b"
  shows "val_of (base_uint_and a b) = val_of a AND val_of b"
    "val_of (base_uint_or a b) = val_of a OR val_of b"
    "val_of (base_uint_xor a b) = val_of a XOR val_of b"
  using assms
  by (auto intro!: bit_eqI simp: limb_bits base_uint_and_def base_uint_or_def base_uint_xor_def
      bit_and_iff bit_or_iff bit_xor_iff)

lemma EqualTo_val:
  "2 \<le> length pn \<Longrightarrow> base_uint_EqualTo pn b \<longleftrightarrow> val_of pn = unat b"
proof -
  assume l: "2 \<le> length pn"
  then obtain x y rest where pn: "pn = x # y # rest"
    by (metis One_nat_def Suc_1 Suc_le_length_iff)
  have b: "base_uint_of64 (length pn) b = ucast b # ucast (drop_bit 32 b) # replicate (length rest) 0"
    by (simp add: base_uint_of64_def pn)
  have y: "ucast y = drop_bit 32 b \<longleftrightarrow> y = ucast (drop_bit 32 b)"
  proof -
    have "unat b div 2 ^ 32 < 2 ^ 32"
      using unat_lt2p [of b] by (simp add: div_less_iff_less_mult)
    then show ?thesis by (simp add: word_unat_eq_iff unat_ucast_mod unat_drop_bit)
  qed
  have x: "ucast x = (b AND 0xffffffff) \<longleftrightarrow> x = ucast b"
  proof -
    have "b AND 0xffffffff = take_bit 32 b"
      by (simp add: take_bit_eq_mask mask_eq_exp_minus_1)
    then have "unat (b AND 0xffffffff) = unat b mod 2 ^ 32"
      by (simp only: unsigned_take_bit_eq) (simp add: take_bit_eq_mod)
    then show ?thesis by (simp add: word_unat_eq_iff unat_ucast_mod)
  qed
  have "list_all (\<lambda>w. w = 0) rest \<longleftrightarrow> rest = replicate (length rest) 0"
    by (induction rest) auto
  then have "base_uint_EqualTo pn b \<longleftrightarrow> pn = base_uint_of64 (length pn) b"
    unfolding b by (auto simp: base_uint_EqualTo_def pn x y)
  also have "\<dots> \<longleftrightarrow> val_of pn = unat b"
    using l val_of_inject [of pn "base_uint_of64 (length pn) b"] by simp
  finally show ?thesis .
qed

section \<open>The interface of fixed-width unsigned integers\<close>

text \<open>
  What the users of \<open>base_uint\<close> rely on: the operations compute on numbers below \<open>2 ^ N\<close>.  The
  work of a target (\<open>GetBlockProof\<close> in \<open>pow.cpp\<close>) is computed once against this interface.
\<close>

locale fixed_width_uint =
  fixes N :: nat and V :: "'u \<Rightarrow> bool" and val :: "'u \<Rightarrow> nat"
    and of64 :: "u64 \<Rightarrow> 'u" and compl :: "'u \<Rightarrow> 'u" and plus :: "'u \<Rightarrow> 'u \<Rightarrow> 'u"
    and divide :: "'u \<Rightarrow> 'u \<Rightarrow> 'u res"
  assumes wide: "64 \<le> N"
    and val_bound: "V x \<Longrightarrow> val x < 2 ^ N"
    and of64_val: "V (of64 b)" "val (of64 b) = unat b"
    and compl_val: "V x \<Longrightarrow> V (compl x)" "V x \<Longrightarrow> val (compl x) = 2 ^ N - 1 - val x"
    and plus_val: "V x \<Longrightarrow> V y \<Longrightarrow> V (plus x y)"
      "V x \<Longrightarrow> V y \<Longrightarrow> val (plus x y) = (val x + val y) mod 2 ^ N"
    and divide_val: "V x \<Longrightarrow> V y \<Longrightarrow> val y \<noteq> 0 \<Longrightarrow>
      \<exists>q. divide x y = Inr q \<and> V q \<and> val q = val x div val y"
begin

lemma complement_quotient:
  assumes "V t" "0 < val t" "val t + 1 < 2 ^ N"
  shows "\<exists>q. bindE (divide (compl t) (plus t (of64 1))) (\<lambda>q. Inr (plus q (of64 1))) = Inr q \<and> V q \<and>
    val q = 2 ^ N div (val t + 1)"
proof -
  let ?d = "val t + 1"
  have d: "V (plus t (of64 1))" "val (plus t (of64 1)) = ?d"
    using assms plus_val [OF assms(1) of64_val(1)] by (simp_all add: of64_val)
  obtain q where q: "divide (compl t) (plus t (of64 1)) = Inr q" "V q"
    "val q = (2 ^ N - 1 - val t) div ?d"
    using divide_val [OF compl_val(1) [OF assms(1)] d(1)] d(2) compl_val(2) [OF assms(1)] by auto
  have "2 ^ N = (2 ^ N - 1 - val t) + ?d" using assms(3) by simp
  then have e: "2 ^ N div ?d = (2 ^ N - 1 - val t) div ?d + 1"
    by (metis div_add_self2 add_is_0 one_neq_zero)
  have "(2::nat) ^ N div ?d < 2 ^ N" using assms(2) by (intro div_less_dividend) auto
  moreover have "val (plus q (of64 1)) = (2 ^ N div ?d) mod 2 ^ N"
    unfolding plus_val(2) [OF q(2) of64_val(1)] of64_val(2) q(3) e by simp
  ultimately have "val (plus q (of64 1)) = 2 ^ N div ?d" by (simp only: mod_less)
  with q plus_val(1) [OF q(2) of64_val(1)] show ?thesis by simp
qed

end

interpretation u256: fixed_width_uint 256 "\<lambda>pn. length pn = 8" val_of
  "base_uint_of64 8" base_uint_not base_uint_add base_uint_div
proof unfold_locales
  fix x y :: base_uint
  assume x: "length x = 8"
  show "val_of (base_uint_not x) = 2 ^ 256 - 1 - val_of x"
    using val_not_add [of x] x by simp
  show "val_of x < 2 ^ 256" using val_of_less [of x] x by simp
  assume y: "length y = 8"
  show "val_of (base_uint_add x y) = (val_of x + val_of y) mod 2 ^ 256"
    using x y by (simp add: val_add)
  show "\<exists>q. base_uint_div x y = Inr q \<and> length q = 8 \<and> val_of q = val_of x div val_of y" if "val_of y \<noteq> 0"
    using val_div [OF x y] that by simp
qed simp_all

section \<open>Properties\<close>

text \<open>
  Property C30.  \<open>base_uint\<close> is arithmetic modulo \<open>2 ^ (32 * WIDTH)\<close>: sum, difference,
  negation, increment, decrement, the products by a limb and by a \<open>base_uint\<close>, and both shifts
  give the limbs of the number the corresponding operation gives, carries, borrows and limb
  boundaries included.
\<close>

theorem base_uint_modular:
  assumes "length a = W" "length b = W" "0 < W"
  defines "M \<equiv> 2 ^ (32 * W)"
  shows "val_of (base_uint_add a b) = (val_of a + val_of b) mod M \<and>
    int (val_of (base_uint_sub a b)) = (int (val_of a) - int (val_of b)) mod int M \<and>
    int (val_of (base_uint_neg a)) = - int (val_of a) mod int M \<and>
    val_of (base_uint_inc a) = (val_of a + 1) mod M \<and>
    int (val_of (base_uint_dec a)) = (int (val_of a) - 1) mod int M \<and>
    val_of (base_uint_mul32 a x) = (val_of a * unat x) mod M \<and>
    val_of (base_uint_mul a b) = (val_of a * val_of b) mod M \<and>
    val_of (base_uint_shl a n) = (val_of a * 2 ^ n) mod M \<and>
    val_of (base_uint_shr a n) = val_of a div 2 ^ n"
proof -
  have lt: "val_of a < M" "val_of b < M"
    using val_of_less [of a] val_of_less [of b] assms by (simp_all add: M_def)
  have neg: "int ((c + (M - d)) mod M) = (int c - int d) mod int M" if "d \<le> M" for c d
    using that by (simp add: zmod_int of_nat_diff algebra_simps mod_simps flip: add_diff_eq)
  have "int (val_of (base_uint_sub a b)) = (int (val_of a) - int (val_of b)) mod int M"
    using neg [of "val_of b" "val_of a"] lt assms by (simp add: val_sub)
  moreover have "int (val_of (base_uint_neg a)) = - int (val_of a) mod int M"
    using neg [of "val_of a" 0] lt assms by (simp add: val_neg)
  moreover have "int (val_of (base_uint_dec a)) = (int (val_of a) - 1) mod int M"
    using neg [of 1 "val_of a"] lt assms by (subst val_dec) auto
  ultimately show ?thesis
    using assms by (simp add: val_add val_inc val_mul32 val_mul val_shl val_shr)
qed

theorem base_uint_modular_witness:
  "val_of (base_uint_add [0xffffffff, 1] [1, 0xffffffff]) =
    (val_of [0xffffffff, 1 :: u32] + val_of [1, 0xffffffff :: u32]) mod 2 ^ (32 * 2)"
  using base_uint_modular [of "[0xffffffff, 1]" 2 "[1, 0xffffffff]" 0 0] by simp

text \<open>
  Property C16.  Long division by shift and subtract is exact: it throws \<open>uint_error\<close> for a zero
  divisor and otherwise returns the limbs of the quotient.
\<close>

theorem base_uint_div_exact:
  assumes "length a = W" "length b = W" "2 \<le> W"
  shows "if val_of b = 0 then base_uint_div a b = Inl (UintError ''Division by zero'')
    else \<exists>q. base_uint_div a b = Inr q \<and> length q = W \<and> val_of q = val_of a div val_of b"
  using assms by (rule val_div)

theorem base_uint_div_exact_witness:
  "\<exists>q. base_uint_div [7, 0, 3, 0, 0] [2, 0, 0, 0, 0] = Inr q \<and> length q = 5 \<and>
    val_of q = val_of [7, 0, 3, 0, 0 :: u32] div 2"
  using base_uint_div_exact [of "[7, 0, 3, 0, 0]" 5 "[2, 0, 0, 0, 0]"] by simp

text \<open>
  Property.  The comparisons order the numbers, \<open>EqualTo\<close> compares with a 64-bit value, and
  \<open>bits()\<close> is the length of the binary representation.
\<close>

theorem base_uint_order:
  assumes "length a = W" "length b = W" "2 \<le> W"
  shows "base_uint_CompareTo a b = sgn (int (val_of a) - int (val_of b)) \<and>
    (base_uint_EqualTo a x \<longleftrightarrow> val_of a = unat x) \<and>
    (base_uint_bits a \<le> n \<longleftrightarrow> val_of a < 2 ^ n)"
  using assms by (simp add: CompareTo_sgn EqualTo_val bits_le_iff)

theorem base_uint_order_witness:
  "base_uint_CompareTo [9, 1] [3, 2] = sgn (int (val_of [9, 1 :: u32]) - int (val_of [3, 2 :: u32])) \<and>
    (base_uint_EqualTo [9, 1] 4294967305 \<longleftrightarrow> val_of [9, 1 :: u32] = unat (4294967305 :: u64)) \<and>
    (base_uint_bits [9, 1] \<le> 33 \<longleftrightarrow> val_of [9, 1 :: u32] < 2 ^ 33)"
  using base_uint_order [of "[9, 1]" 2 "[3, 2]" 4294967305 33] by simp

end
