(* ===== verification/Compact.thy ===== *)
theory Compact
  imports Arith_Uint256
begin

unbundle bit_operations_syntax

text \<open>
  The compact format of difficulty targets: \<open>arith_uint256::SetCompact\<close> and
  \<open>arith_uint256::GetCompact\<close>, over 256-bit integers (eight limbs).
\<close>

section \<open>Definitions\<close>

definition SetCompact :: "u32 \<Rightarrow> base_uint \<times> bool \<times> bool" where
  "SetCompact nCompact =
     (let nSize = unat (drop_bit 24 nCompact);
          nWord0 = nCompact AND 0x007fffff;
          (nWord, this) =
            (if nSize \<le> 3
             then let nWord = drop_bit (8 * (3 - nSize)) nWord0 in (nWord, base_uint_of64 8 (ucast nWord))
             else (nWord0, base_uint_shl (base_uint_of64 8 (ucast nWord0)) (8 * (nSize - 3))));
          pfNegative = (nWord \<noteq> 0 \<and> (nCompact AND 0x00800000) \<noteq> 0);
          pfOverflow = (nWord \<noteq> 0 \<and> (nSize > 34 \<or> (nWord > 0xff \<and> nSize > 33) \<or>
                                       (nWord > 0xffff \<and> nSize > 32)))
      in (this, pfNegative, pfOverflow))"

definition GetCompact :: "base_uint \<Rightarrow> bool \<Rightarrow> u32 res" where
  "GetCompact this fNegative =
     (let nSize = (base_uint_bits this + 7) div 8;
          nCompact = (if nSize \<le> 3 then ucast (push_bit (8 * (3 - nSize)) (base_uint_GetLow64 this))
                      else ucast (base_uint_GetLow64 (base_uint_shr this (8 * (nSize - 3)))) :: u32);
          (nCompact, nSize) = (if nCompact AND 0x00800000 \<noteq> 0
                               then (drop_bit 8 nCompact, nSize + 1) else (nCompact, nSize))
      in if nCompact AND NOT 0x007fffff \<noteq> 0 then Inl (AssertFailed ''(nCompact & ~0x007fffff) == 0'')
         else if \<not> nSize < 256 then Inl (AssertFailed ''nSize < 256'')
         else
           let nCompact = nCompact OR push_bit 24 (word_of_nat nSize)
           in Inr (nCompact OR (if fNegative \<and> nCompact AND 0x007fffff \<noteq> 0 then 0x00800000 else 0)))"

section \<open>The three fields of a compact number\<close>

lemma pow256: "(2::nat) ^ (8 * k) = 256 ^ k"
  by (simp add: power_mult)

lemma mask23: "c AND 0x007fffff = take_bit 23 c" for c :: u32
  by (simp add: take_bit_eq_mask mask_eq_exp_minus_1)

lemma unat_mask23: "unat (c AND 0x007fffff) = unat c mod 2 ^ 23" for c :: u32
  by (simp only: mask23 unsigned_take_bit_eq) (simp add: take_bit_eq_mod)

lemma sign_bit: "c AND 0x00800000 \<noteq> 0 \<longleftrightarrow> bit c 23" for c :: u32
  using and_push_bit_one [of c 23] by simp

lemma sign_bit_ge: "unat c < 2 ^ 24 \<Longrightarrow> c AND 0x00800000 \<noteq> 0 \<longleftrightarrow> 2 ^ 23 \<le> unat c" for c :: u32
proof -
  assume "unat c < 2 ^ 24"
  then have "unat c div 2 ^ 23 < 2" by (simp add: div_less_iff_less_mult)
  moreover have "bit c 23 \<longleftrightarrow> odd (unat c div 2 ^ 23)" by (rule bit_odd_div)
  ultimately have "bit c 23 \<longleftrightarrow> unat c div 2 ^ 23 \<noteq> 0" by (auto simp: less_2_cases_iff)
  then show ?thesis unfolding sign_bit by (simp add: div_eq_0_iff not_less)
qed

lemma high_bits_clear: "unat c < 2 ^ 23 \<Longrightarrow> c AND NOT 0x007fffff = 0" for c :: u32
proof -
  assume c: "unat c < 2 ^ 23"
  then have "unat (c AND 0x007fffff) = unat c" by (simp add: unat_mask23)
  then have "c AND 0x007fffff = c" by (simp only: word_unat_eq_iff)
  then have "c AND NOT 0x007fffff = (c AND 0x007fffff) AND NOT 0x007fffff" by simp
  also have "\<dots> = 0" by (simp add: and.assoc)
  finally show ?thesis .
qed

text \<open>The compact number with exponent \<open>n\<close>, mantissa \<open>m\<close> and sign \<open>s\<close>.\<close>

definition compact_word :: "nat \<Rightarrow> nat \<Rightarrow> bool \<Rightarrow> u32" where
  "compact_word n m s = word_of_nat (m + (if s then 2 ^ 23 else 0) + 2 ^ 24 * n)"

lemma compact_word_fields:
  assumes "m < 2 ^ 23" "n < 256"
  shows "unat (drop_bit 24 (compact_word n m s)) = n"
    "unat (compact_word n m s AND 0x007fffff) = m"
    "compact_word n m s AND 0x00800000 \<noteq> 0 \<longleftrightarrow> s"
proof -
  let ?v = "m + (if s then 2 ^ 23 else 0) + 2 ^ 24 * n"
  have "?v < 2 ^ 24 + 2 ^ 24 * 255" using assms by (cases s) simp_all
  then have v: "unat (compact_word n m s) = ?v"
    by (simp only: compact_word_def unat_of_nat) simp
  have lo: "m + (if s then 2 ^ 23 else 0) < 2 ^ 24" using assms by (cases s) simp_all
  show "unat (drop_bit 24 (compact_word n m s)) = n"
    unfolding unat_drop_bit v using lo by simp
  have e: "?v = m + 2 ^ 23 * ((if s then 1 else 0) + 2 * n)" by simp
  show "unat (compact_word n m s AND 0x007fffff) = m"
    unfolding unat_mask23 v e using assms(1) by (simp only: mod_mult_self2 mod_less)
  have "?v div 2 ^ 23 = (if s then 1 else 0) + 2 * n"
    using assms by (cases s) simp_all
  then show "compact_word n m s AND 0x00800000 \<noteq> 0 \<longleftrightarrow> s"
    unfolding sign_bit bit_odd_div v by (cases s) simp_all
qed

lemma compact_word_eq:
  fixes c :: u32
  assumes "unat c = m" "m < 2 ^ 23" "n < 256"
  shows "c OR push_bit 24 (word_of_nat n) = compact_word n m False"
    "compact_word n m False OR 0x00800000 = compact_word n m True"
proof -
  have c: "c = word_of_nat m" using assms by (simp add: assms(1) [symmetric])
  have "c OR push_bit 24 (word_of_nat n) = c + push_bit 24 (word_of_nat n)"
    using assms by (intro or_disjoint_add) simp
  also have "\<dots> = compact_word n m False"
    by (simp add: c compact_word_def push_bit_eq_mult mult.commute)
  finally show "c OR push_bit 24 (word_of_nat n) = compact_word n m False" .
  have "\<not> bit (compact_word n m False) 23"
    using compact_word_fields(3) [OF assms(2,3), of False] unfolding sign_bit by blast
  then have "compact_word n m False AND push_bit 23 1 = 0"
    using and_push_bit_one [of "compact_word n m False" 23] by blast
  then have "compact_word n m False OR push_bit 23 1 = compact_word n m False + push_bit 23 1"
    by (rule disjunctive_add_eq_or [symmetric])
  then show "compact_word n m False OR 0x00800000 = compact_word n m True"
    by (simp add: compact_word_def)
qed

section \<open>Decoding\<close>

lemma SetCompact_word:
  assumes m: "m < 2 ^ 23" and n: "n < 256"
  defines "w \<equiv> (if n \<le> 3 then m div 256 ^ (3 - n) else m)"
  shows "\<exists>a. SetCompact (compact_word n m s) =
      (a, s \<and> w \<noteq> 0, w \<noteq> 0 \<and> (n > 34 \<or> w > 0xff \<and> n > 33 \<or> w > 0xffff \<and> n > 32)) \<and>
    length a = 8 \<and> val_of a = (if n \<le> 3 then w else (m * 256 ^ (n - 3)) mod 2 ^ 256)"
proof -
  let ?c = "compact_word n m s"
  define W where "W = (if n \<le> 3 then drop_bit (8 * (3 - n)) (?c AND 0x007fffff) else ?c AND 0x007fffff)"
  define a where "a = (if n \<le> 3 then base_uint_of64 8 (ucast W)
      else base_uint_shl (base_uint_of64 8 (ucast W)) (8 * (n - 3)))"
  note f = compact_word_fields [OF m n, of s]
  have W: "unat W = w"
    by (simp only: W_def w_def if_distrib [of unat] unat_drop_bit f(2) pow256)
  have cmp: "W = 0 \<longleftrightarrow> w = 0" "W > 0xff \<longleftrightarrow> w > 0xff" "W > 0xffff \<longleftrightarrow> w > 0xffff"
    by (simp_all add: W [symmetric] word_less_nat_alt word_unat_eq_iff)
  have "SetCompact ?c = (a, W \<noteq> 0 \<and> ?c AND 0x00800000 \<noteq> 0,
      W \<noteq> 0 \<and> (n > 34 \<or> W > 0xff \<and> n > 33 \<or> W > 0xffff \<and> n > 32))"
    unfolding SetCompact_def f(1) Let_def a_def W_def by (cases "n \<le> 3") simp_all
  moreover have "length a = 8" by (simp add: a_def)
  moreover have "val_of a = (if n \<le> 3 then w else (m * 256 ^ (n - 3)) mod 2 ^ 256)"
  proof (cases "n \<le> 3")
    case False
    then have "(2::nat) ^ (8 * (n - 3)) = 256 ^ (n - 3)" "unat W = m"
      by (simp_all add: power_mult W w_def)
    with False show ?thesis by (simp only: a_def if_False val_shl) simp
  qed (simp add: a_def W)
  ultimately show ?thesis using f(3) cmp by auto
qed

lemma compact_word_surj: "\<exists>n m s. c = compact_word n m s \<and> m < 2 ^ 23 \<and> n < 256"
proof -
  define q r h where "q = unat c div 2 ^ 23" and "r = unat c mod 2 ^ 23" and "h = unat c div 2 ^ 24"
  have v: "unat c = 2 ^ 23 * q + r" by (simp add: q_def r_def)
  have "h = q div 2" by (simp add: q_def h_def div_mult2_eq [symmetric])
  then have "q = 2 * h + (if odd q then 1 else 0)" by (auto elim: oddE evenE)
  with v have "r + (if odd q then 2 ^ 23 else 0) + 2 ^ 24 * h = unat c"
    by (cases "odd q") auto
  then have "compact_word h r (odd q) = word_of_nat (unat c)"
    by (simp only: compact_word_def)
  then have "c = compact_word h r (odd q)" by simp
  moreover have "h < 256" using unat32_less [of c] by (simp add: h_def div_less_iff_less_mult)
  moreover have "r < 2 ^ 23" by (simp add: r_def)
  ultimately show ?thesis by blast
qed

section \<open>Encoding\<close>

definition mantissa :: "nat \<Rightarrow> nat \<Rightarrow> nat" where
  "mantissa v n = (if n \<le> 3 then v * 256 ^ (3 - n) else v div 256 ^ (n - 3))"

lemma mantissa_Suc: "mantissa v n div 256 = mantissa v (Suc n)"
proof -
  consider "n < 3" | "n = 3" | "n > 3" by linarith
  then show ?thesis
  proof cases
    case 1
    then have "3 - n = Suc (3 - Suc n)" by simp
    with 1 show ?thesis by (simp add: mantissa_def)
  next
    case 3
    then have "Suc n - 3 = Suc (n - 3)" by simp
    with 3 show ?thesis by (simp add: mantissa_def div_mult2_eq [symmetric] mult.commute)
  qed (simp add: mantissa_def)
qed

lemma mantissa_bounds:
  assumes "2 ^ b \<le> v" "v < 2 ^ Suc b" "8 * n \<le> b + 24"
  shows "2 ^ (b + 24 - 8 * n) \<le> mantissa v n \<and> mantissa v n < 2 ^ (Suc b + 24 - 8 * n)"
proof (cases "n \<le> 3")
  case True
  have p: "(256::nat) ^ (3 - n) = 2 ^ (24 - 8 * n)"
    unfolding pow256 [symmetric] using True by (simp add: diff_mult_distrib2)
  have e: "2 ^ (b + 24 - 8 * n) = 2 ^ b * (2::nat) ^ (24 - 8 * n)"
    "2 ^ (Suc b + 24 - 8 * n) = 2 ^ Suc b * (2::nat) ^ (24 - 8 * n)"
    using True by (simp_all flip: power_add power_Suc)
  show ?thesis
    unfolding e using True assms(1,2) by (simp add: mantissa_def p del: power_Suc)
next
  case False
  have p: "(256::nat) ^ (n - 3) = 2 ^ (8 * n - 24)"
    unfolding pow256 [symmetric] using False by (simp add: diff_mult_distrib2)
  have e: "2 ^ b = 2 ^ (b + 24 - 8 * n) * (2::nat) ^ (8 * n - 24)"
    "2 ^ Suc b = 2 ^ (Suc b + 24 - 8 * n) * (2::nat) ^ (8 * n - 24)"
    using False assms(3) by (simp_all flip: power_add power_Suc)
  then show ?thesis
    using False assms(1,2) by (simp add: mantissa_def p less_eq_div_iff_mult_less_eq div_less_iff_less_mult del: power_Suc)
qed

lemma unat_GetLow64: "2 \<le> length pn \<Longrightarrow> unat (base_uint_GetLow64 pn) = val_of pn mod 2 ^ 64"
proof -
  assume "2 \<le> length pn"
  then obtain x y rest where pn: "pn = x # y # rest"
    by (metis One_nat_def Suc_1 Suc_le_length_iff)
  have "base_uint_GetLow64 pn = ucast x + push_bit 32 (ucast y)"
    using or_disjoint_add [of "ucast x :: u64" 32 "ucast y"] unat32_less [of x]
    by (simp add: base_uint_GetLow64_def pn)
  also have "unat \<dots> = unat x + 2 ^ 32 * unat y"
  proof -
    have "unat (push_bit 32 (ucast y :: u64)) = 2 ^ 32 * unat y"
      unfolding unat_push_bit using unat32_less [of y] by simp
    then show ?thesis
      using unat32_less [of x] unat32_less [of y] by (simp add: unat_plus_less)
  qed
  also have "\<dots> = val_of pn mod 2 ^ 64"
  proof -
    have "val_of pn = (unat x + 2 ^ 32 * unat y) + 2 ^ 64 * val_of rest" by (simp add: pn)
    then show ?thesis using unat32_less [of x] unat32_less [of y] by simp
  qed
  finally show ?thesis .
qed

lemma GetCompact_zero: "length a = 8 \<Longrightarrow> val_of a = 0 \<Longrightarrow> GetCompact a neg = Inr (compact_word 0 0 False)"
proof -
  assume a: "length a = 8" "val_of a = 0"
  then have "base_uint_bits a = 0" "base_uint_GetLow64 a = 0"
    using bits_bounds(2) [of a] unat_GetLow64 [of a] by (simp_all add: word_unat_eq_iff)
  then show ?thesis by (simp add: GetCompact_def compact_word_def Let_def)
qed

text \<open>The compact number of a positive integer: exponent and mantissa, both asserts passed.\<close>

lemma GetCompact_pos:
  assumes a: "length a = 8" and v: "val_of a \<noteq> 0"
  defines "n \<equiv> base_uint_bits a div 8 + 1"
  shows "mantissa (val_of a) n < 2 ^ 23 \<and> 2 ^ 15 \<le> mantissa (val_of a) n \<and> n < 34 \<and>
    GetCompact a neg = Inr (compact_word n (mantissa (val_of a) n) neg)"
proof -
  define B where "B = base_uint_bits a"
  define b where "b = B - 1"
  have B: "0 < B" "B \<le> 256"
    using bits_bounds(1,2) [of a] a v by (auto simp: B_def)
  have vb: "2 ^ b \<le> val_of a" "val_of a < 2 ^ Suc b"
    using bits_bounds(3,4) [of a] v B(1) by (simp_all add: B_def b_def)
  define k where "k = (B + 7) div 8"
  define C :: u32 where "C = (if k \<le> 3 then ucast (push_bit (8 * (3 - k)) (base_uint_GetLow64 a))
      else ucast (base_uint_GetLow64 (base_uint_shr a (8 * (k - 3)))))"
  have k: "8 * k \<le> B + 7" "B \<le> 8 * k" by (simp_all add: k_def)
  have mb: "2 ^ (b + 24 - 8 * k) \<le> mantissa (val_of a) k \<and> mantissa (val_of a) k < 2 ^ (Suc b + 24 - 8 * k)"
    using vb k B by (intro mantissa_bounds) (simp_all add: b_def)
  have "(2::nat) ^ (Suc b + 24 - 8 * k) \<le> 2 ^ 24"
    using k B by (intro power_increasing) (simp_all add: b_def)
  with mb have m24: "mantissa (val_of a) k < 2 ^ 24" by linarith
  have C: "unat C = mantissa (val_of a) k"
  proof (cases "k \<le> 3")
    case True
    then have "mantissa (val_of a) k = val_of a * 256 ^ (3 - k)" by (simp add: mantissa_def)
    moreover have "val_of a \<le> val_of a * 256 ^ (3 - k)" by simp
    ultimately have "val_of a < 2 ^ 24" "val_of a * 256 ^ (3 - k) < 2 ^ 24" using m24 by linarith+
    with True a show ?thesis
      by (simp add: C_def mantissa_def unat_ucast_mod unat_push_bit unat_GetLow64 pow256)
  next
    case False
    with m24 a show ?thesis
      by (simp add: C_def mantissa_def unat_ucast_mod unat_GetLow64 val_shr power_mult)
  qed
  have bump: "C AND 0x00800000 \<noteq> 0 \<longleftrightarrow> B = 8 * k"
  proof (cases "B = 8 * k")
    case True
    then have "b + 24 - 8 * k = 23" using B by (simp add: b_def)
    with mb C True sign_bit_ge [of C] m24 show ?thesis by simp
  next
    case False
    then have "Suc b + 24 - 8 * k \<le> 23" using k B by (simp add: b_def)
    then have "(2::nat) ^ (Suc b + 24 - 8 * k) \<le> 2 ^ 23" by (rule power_increasing) simp
    with mb C False sign_bit_ge [of C] m24 show ?thesis by simp
  qed
  define D where "D = (if B = 8 * k then drop_bit 8 C else C)"
  have n: "n = (if B = 8 * k then k + 1 else k)"
    using k B by (auto simp: n_def B_def [symmetric])
  have D: "unat D = mantissa (val_of a) n"
    using C mantissa_Suc [of "val_of a" k] by (simp add: D_def n unat_drop_bit)
  have nB: "8 * n \<le> b + 9" "Suc b < 8 * n" "n < 34"
    using B by (auto simp: n_def B_def [symmetric] b_def)
  then have mn: "2 ^ (b + 24 - 8 * n) \<le> mantissa (val_of a) n \<and> mantissa (val_of a) n < 2 ^ (Suc b + 24 - 8 * n)"
    using vb by (intro mantissa_bounds) simp_all
  have "(2::nat) ^ 15 \<le> 2 ^ (b + 24 - 8 * n)" "(2::nat) ^ (Suc b + 24 - 8 * n) \<le> 2 ^ 23"
    using nB by (intro power_increasing; simp)+
  with mn have m: "2 ^ 15 \<le> mantissa (val_of a) n" "mantissa (val_of a) n < 2 ^ 23" by linarith+
  let ?c = "compact_word n (mantissa (val_of a) n)"
  have eq: "D OR push_bit 24 (word_of_nat n) = ?c False" "?c False OR 0x00800000 = ?c True"
    using compact_word_eq [OF D m(2), of n] nB(3) by simp_all
  have nz: "?c False AND 0x007fffff \<noteq> 0"
    using compact_word_fields(2) [OF m(2), of n False] nB(3) m(1) by (auto simp: word_unat_eq_iff)
  have hi: "D AND NOT 0x007fffff = 0" using D m(2) by (intro high_bits_clear) simp
  have "GetCompact a neg =
      (if D AND NOT 0x007fffff \<noteq> 0 then Inl (AssertFailed ''(nCompact & ~0x007fffff) == 0'')
       else if \<not> n < 256 then Inl (AssertFailed ''nSize < 256'')
       else let c = D OR push_bit 24 (word_of_nat n)
            in Inr (c OR (if neg \<and> c AND 0x007fffff \<noteq> 0 then 0x00800000 else 0)))"
    unfolding GetCompact_def B_def [symmetric] k_def [symmetric] Let_def C_def [symmetric] bump
    by (cases "B = 8 * k") (simp_all only: D_def n if_True if_False prod.case simp_thms)
  also have "\<dots> = Inr (?c neg)"
    unfolding Let_def eq(1) using hi nB(3) nz eq(2) by (cases neg) simp_all
  finally show ?thesis using m nB(3) by simp
qed

section \<open>The number a compact value stands for\<close>

lemma SetCompact_number:
  fixes c :: u32
  defines "e \<equiv> unat (drop_bit 24 c)" and "m \<equiv> unat (c AND 0x007fffff)"
  defines "N \<equiv> (if e \<le> 3 then m div 256 ^ (3 - e) else m * 256 ^ (e - 3))"
  shows "\<exists>a neg ovf. SetCompact c = (a, neg, ovf) \<and> length a = 8 \<and>
    (ovf \<longleftrightarrow> 2 ^ 256 \<le> N) \<and> (neg \<longleftrightarrow> bit c 23 \<and> N \<noteq> 0) \<and> val_of a = N mod 2 ^ 256"
proof -
  obtain n k s where c: "c = compact_word n k s" and k: "k < 2 ^ 23" and n: "n < 256"
    using compact_word_surj [of c] by blast
  note f = compact_word_fields [OF k n, of s]
  have em: "e = n" "m = k" by (simp_all add: e_def m_def c f(1,2))
  have s: "bit c 23 \<longleftrightarrow> s" using f(3) unfolding c sign_bit .
  define w where "w = (if n \<le> 3 then k div 256 ^ (3 - n) else k)"
  from SetCompact_word [OF k n, of s, folded w_def]
  obtain a where a: "SetCompact c =
      (a, s \<and> w \<noteq> 0, w \<noteq> 0 \<and> (n > 34 \<or> w > 0xff \<and> n > 33 \<or> w > 0xffff \<and> n > 32))" "length a = 8"
    "val_of a = (if n \<le> 3 then w else (k * 256 ^ (n - 3)) mod 2 ^ 256)"
    unfolding c by blast
  have N: "N = (if n \<le> 3 then w else k * 256 ^ (n - 3))" by (simp add: N_def em w_def)
  have "w \<le> k" by (simp add: w_def)
  then have w: "w < 2 ^ 256" using k by (simp add: less_le_trans)
  have ovf: "w \<noteq> 0 \<and> (n > 34 \<or> w > 0xff \<and> n > 33 \<or> w > 0xffff \<and> n > 32) \<longleftrightarrow> 2 ^ 256 \<le> N"
  proof (cases "n \<le> 32")
    case True
    have "k * 256 ^ (n - 3) < 2 ^ 23 * 256 ^ (n - 3)" using k by simp
    also have "\<dots> \<le> 2 ^ 23 * 256 ^ 29" using True by (intro mult_le_mono2 power_increasing) auto
    finally have "k * 256 ^ (n - 3) < 2 ^ 256" by simp
    with True w show ?thesis by (simp add: N)
  next
    case False
    then have N': "N = w * 256 ^ (n - 3)" "w = k" by (simp_all add: N w_def)
    consider "n = 33" | "n = 34" | "n \<ge> 35" using False by linarith
    then show ?thesis
    proof cases
      case 3
      have "(2::nat) ^ 256 = 256 ^ 32" by simp
      also have "\<dots> \<le> 256 ^ (n - 3)" using 3 by (intro power_increasing) auto
      finally have "2 ^ 256 \<le> w * 256 ^ (n - 3) \<longleftrightarrow> w \<noteq> 0"
        by (cases w) (auto intro: order_trans)
      with 3 show ?thesis by (simp add: N')
    qed (use N' in \<open>auto simp: not_less\<close>)
  qed
  have nz: "N \<noteq> 0 \<longleftrightarrow> w \<noteq> 0" by (simp add: N w_def)
  have "val_of a = N mod 2 ^ 256" using a(3) w by (simp add: N)
  with a ovf nz s show ?thesis by blast
qed

lemma GetCompact_decodes:
  assumes "length a = 8"
  defines "k \<equiv> base_uint_bits a div 8 - 2"
  shows "\<exists>c b. GetCompact a neg = Inr c \<and> SetCompact c = (b, neg \<and> val_of a \<noteq> 0, False) \<and>
    length b = 8 \<and> val_of b = val_of a div 256 ^ k * 256 ^ k \<and> (val_of a - val_of b) * 2 ^ 15 \<le> val_of a"
proof (cases "val_of a = 0")
  case True
  then show ?thesis
    using GetCompact_zero [OF assms(1) True, of neg] SetCompact_word [of 0 0 False] by auto
next
  case False
  define n where "n = base_uint_bits a div 8 + 1"
  define m where "m = mantissa (val_of a) n"
  have k: "k = n - 3" by (simp add: k_def n_def)
  have m: "m < 2 ^ 23" "2 ^ 15 \<le> m" "n < 34" and c: "GetCompact a neg = Inr (compact_word n m neg)"
    using GetCompact_pos [OF assms(1) False, of neg] by (simp_all add: n_def m_def)
  define w where "w = (if n \<le> 3 then m div 256 ^ (3 - n) else m)"
  from SetCompact_word [OF m(1), of n neg, folded w_def] m(3)
  obtain b where b: "SetCompact (compact_word n m neg) =
      (b, neg \<and> w \<noteq> 0, w \<noteq> 0 \<and> (n > 34 \<or> w > 0xff \<and> n > 33 \<or> w > 0xffff \<and> n > 32))" "length b = 8"
    "val_of b = (if n \<le> 3 then w else (m * 256 ^ (n - 3)) mod 2 ^ 256)"
    by auto
  have w: "w = val_of a div 256 ^ k"
    by (simp add: w_def m_def mantissa_def k)
  have "val_of a < 2 ^ 256" using val_of_less [of a] assms(1) by simp
  moreover have le: "w * 256 ^ k \<le> val_of a" unfolding w by simp
  ultimately have fits: "w * 256 ^ k < 2 ^ 256" by linarith
  then have v: "val_of b = w * 256 ^ k"
    using b(3) by (cases "n \<le> 3") (simp_all add: k w_def)
  have "w \<noteq> 0"
    using m(2) False by (auto simp: w_def m_def mantissa_def)
  moreover have "\<not> (w > 0xffff \<and> n > 32)"
  proof
    assume "w > 0xffff \<and> n > 32"
    then have "k = 30" "0x10000 \<le> w" using m(3) k by linarith+
    then have "0x10000 * 256 ^ 30 \<le> w * 256 ^ k" by simp
    with fits show False by simp
  qed
  moreover have "(val_of a - val_of b) * 2 ^ 15 \<le> val_of a"
  proof (cases "n \<le> 3")
    case True
    then show ?thesis unfolding v w by (simp add: k)
  next
    case gt: False
    have "val_of a - val_of b = val_of a mod 256 ^ k"
      unfolding v w by (simp add: minus_div_mult_eq_mod)
    then have "val_of a - val_of b \<le> 256 ^ k" by (simp add: less_imp_le)
    then have "(val_of a - val_of b) * 2 ^ 15 \<le> 256 ^ k * w"
      using m(2) gt by (intro mult_le_mono) (simp_all add: w_def)
    with le show ?thesis by (simp add: mult.commute)
  qed
  ultimately show ?thesis using b c v w m(3) False by auto
qed

section \<open>Properties\<close>

text \<open>
  Property C23.  \<open>SetCompact\<close> computes what the comment of \<open>arith_uint256.h\<close> says,
  \<open>N = (-1)^sign * mantissa * 256^(exponent - 3)\<close>: its overflow flag is set exactly when the
  number does not fit 256 bits, its sign flag exactly for a negative nonzero number, and without
  overflow the integer is the number itself (rounded towards zero for an exponent below 3).
\<close>

theorem SetCompact_exact:
  fixes c :: u32
  defines "e \<equiv> unat (drop_bit 24 c)" and "m \<equiv> unat (c AND 0x007fffff)"
  defines "N \<equiv> (if e \<le> 3 then m div 256 ^ (3 - e) else m * 256 ^ (e - 3))"
  shows "\<exists>a neg ovf. SetCompact c = (a, neg, ovf) \<and> length a = 8 \<and>
    (ovf \<longleftrightarrow> 2 ^ 256 \<le> N) \<and> (neg \<longleftrightarrow> bit c 23 \<and> N \<noteq> 0) \<and> val_of a = N mod 2 ^ 256"
  unfolding assms by (rule SetCompact_number)

text \<open>
  Property C24.  \<open>GetCompact\<close> never trips its asserts, and the compact form keeps the leading
  bytes of the target: decoding it again raises no overflow, keeps the sign of a nonzero number
  and gives the target with its bytes below the mantissa cleared, so the loss is below one part in
  \<open>2 ^ 15\<close>.
\<close>

theorem GetCompact_SetCompact:
  assumes "length a = 8"
  defines "k \<equiv> base_uint_bits a div 8 - 2"
  shows "\<exists>c b. GetCompact a neg = Inr c \<and> SetCompact c = (b, neg \<and> val_of a \<noteq> 0, False) \<and>
    length b = 8 \<and> val_of b = val_of a div 256 ^ k * 256 ^ k \<and> (val_of a - val_of b) * 2 ^ 15 \<le> val_of a"
  unfolding k_def using assms(1) by (rule GetCompact_decodes)

theorem GetCompact_SetCompact_witness:
  "\<exists>c b. GetCompact [0x89abcdef, 0x01234567, 0, 0, 0, 0, 0, 0] False = Inr c \<and>
    SetCompact c = (b, False \<and> val_of [0x89abcdef, 0x01234567 :: u32, 0, 0, 0, 0, 0, 0] \<noteq> 0, False) \<and> length b = 8 \<and>
    val_of b = val_of [0x89abcdef, 0x01234567 :: u32, 0, 0, 0, 0, 0, 0] div
        256 ^ (base_uint_bits [0x89abcdef, 0x01234567, 0, 0, 0, 0, 0, 0] div 8 - 2) *
        256 ^ (base_uint_bits [0x89abcdef, 0x01234567, 0, 0, 0, 0, 0, 0] div 8 - 2) \<and>
    (val_of [0x89abcdef, 0x01234567 :: u32, 0, 0, 0, 0, 0, 0] - val_of b) * 2 ^ 15 \<le>
      val_of [0x89abcdef, 0x01234567 :: u32, 0, 0, 0, 0, 0, 0]"
  by (rule GetCompact_SetCompact) simp

end
