(* ===== verification/Uint256.thy ===== *)
theory Uint256
  imports Compact
begin

unbundle bit_operations_syntax

text \<open>
  Opaque blobs: \<open>base_blob\<close> of \<open>uint256.h\<close> and \<open>uint256.cpp\<close>, its hexadecimal form
  (\<open>HexStr\<close> and \<open>HexDigit\<close> of \<open>utilstrencodings.cpp\<close>), and the conversions between \<open>uint256\<close>
  and \<open>arith_uint256\<close>.  A blob is the byte array \<open>m_data\<close>; \<open>WIDTH\<close> is its length.  A C string
  is the list of its characters before the terminating zero.
\<close>

section \<open>Hexadecimal digits\<close>

definition p_util_hexdigit :: "int list" where
  "p_util_hexdigit =
     replicate 48 (- 1) @ [0, 1, 2, 3, 4, 5, 6, 7, 8, 9] @ replicate 7 (- 1) @
     [0xa, 0xb, 0xc, 0xd, 0xe, 0xf] @ replicate 26 (- 1) @
     [0xa, 0xb, 0xc, 0xd, 0xe, 0xf] @ replicate 153 (- 1)"

definition HexDigit :: "char \<Rightarrow> int" where
  "HexDigit c = p_util_hexdigit ! (of_char c)"

definition hexmap :: string where
  "hexmap = ''0123456789abcdef''"

definition HexStr :: "bytes \<Rightarrow> string" where
  "HexStr s = concat (map (\<lambda>v. [hexmap ! unat (drop_bit 4 v), hexmap ! unat (v AND 15)]) s)"

definition isspace :: "char \<Rightarrow> bool" where
  "isspace c \<longleftrightarrow> (let n = of_char c :: nat in n = 32 \<or> 9 \<le> n \<and> n \<le> 13)"

section \<open>base_blob\<close>

definition base_blob_new :: "nat \<Rightarrow> bytes" where
  "base_blob_new WIDTH = replicate WIDTH 0"

definition base_blob_of_u8 :: "nat \<Rightarrow> u8 \<Rightarrow> bytes" where
  "base_blob_of_u8 WIDTH v = v # replicate (WIDTH - 1) 0"

definition base_blob_of_vch :: "nat \<Rightarrow> bytes \<Rightarrow> bytes res" where
  "base_blob_of_vch WIDTH vch =
     (if length vch \<noteq> WIDTH then Inl (AssertFailed ''vch.size() == sizeof(m_data)'') else Inr vch)"

definition base_blob_IsNull :: "bytes \<Rightarrow> bool" where
  "base_blob_IsNull m_data \<longleftrightarrow> list_all (\<lambda>b. b = 0) m_data"

definition base_blob_SetNull :: "bytes \<Rightarrow> bytes" where
  "base_blob_SetNull m_data = replicate (length m_data) 0"

text \<open>The sign of \<open>memcmp\<close>.\<close>

fun memcmp :: "bytes \<Rightarrow> bytes \<Rightarrow> int" where
  "memcmp (x # xs) (y # ys) = (if x < y then - 1 else if x > y then 1 else memcmp xs ys)"
| "memcmp xs ys = 0"

definition base_blob_eq :: "bytes \<Rightarrow> bytes \<Rightarrow> bool" where
  "base_blob_eq a b \<longleftrightarrow> memcmp a b = 0"

definition base_blob_less :: "bytes \<Rightarrow> bytes \<Rightarrow> bool" where
  "base_blob_less a b \<longleftrightarrow> memcmp a b < 0"

definition base_blob_GetHex :: "bytes \<Rightarrow> string" where
  "base_blob_GetHex m_data = HexStr (rev m_data)"

text \<open>The loop consumes the digits from the last one on, two per byte.\<close>

fun SetHex_loop :: "string \<Rightarrow> nat \<Rightarrow> nat \<Rightarrow> bytes \<Rightarrow> bytes" where
  "SetHex_loop psz 0 p1 m_data = m_data"
| "SetHex_loop psz (Suc 0) p1 m_data =
     (if p1 < length m_data then m_data[p1 := word_of_int (HexDigit (psz ! 0))] else m_data)"
| "SetHex_loop psz (Suc (Suc digits)) p1 m_data =
     (if p1 < length m_data
      then SetHex_loop psz digits (p1 + 1)
             (m_data[p1 := word_of_int (HexDigit (psz ! Suc digits)) OR
                           push_bit 4 (word_of_int (HexDigit (psz ! digits)))])
      else m_data)"

definition base_blob_SetHex :: "nat \<Rightarrow> string \<Rightarrow> bytes" where
  "base_blob_SetHex WIDTH str =
     (let psz = dropWhile isspace str;
          psz = (if psz \<noteq> [] \<and> hd psz = CHR ''0'' \<and> tl psz \<noteq> [] \<and>
                    (hd (tl psz) = CHR ''x'' \<or> hd (tl psz) = CHR ''X'')
                 then drop 2 psz else psz);
          digits = length (takeWhile (\<lambda>c. HexDigit c \<noteq> - 1) psz)
      in SetHex_loop psz digits 0 (replicate WIDTH 0))"

definition base_blob_GetUint64 :: "bytes \<Rightarrow> nat \<Rightarrow> u64" where
  "base_blob_GetUint64 m_data pos =
     (let ptr = drop (pos * 8) m_data
      in ucast (ptr ! 0) OR push_bit 8 (ucast (ptr ! 1)) OR push_bit 16 (ucast (ptr ! 2))
         OR push_bit 24 (ucast (ptr ! 3)) OR push_bit 32 (ucast (ptr ! 4)) OR push_bit 40 (ucast (ptr ! 5))
         OR push_bit 48 (ucast (ptr ! 6)) OR push_bit 56 (ucast (ptr ! 7)))"

definition GetCheapHash :: "host_order \<Rightarrow> bytes \<Rightarrow> u64" where
  "GetCheapHash h m_data = ReadLE64 h m_data"

definition uint256S :: "string \<Rightarrow> bytes" where
  "uint256S str = base_blob_SetHex 32 str"

section \<open>Conversions\<close>

definition ArithToUint256 :: "host_order \<Rightarrow> base_uint \<Rightarrow> bytes" where
  "ArithToUint256 h a = concat (map (WriteLE32 h) a)"

definition UintToArith256 :: "host_order \<Rightarrow> bytes \<Rightarrow> base_uint" where
  "UintToArith256 h a = map (\<lambda>x. ReadLE32 h (drop (x * 4) a)) [0..<8]"

definition arith_uint512_trim256 :: "host_order \<Rightarrow> base_uint \<Rightarrow> bytes res" where
  "arith_uint512_trim256 h a = base_blob_of_vch 32 (take 32 (base_uint_mem h a))"

text \<open>
  \<open>base_uint\<close> has its own copies of the hexadecimal routines, over the bytes of \<open>pn\<close> in memory.
\<close>

definition base_uint_GetHex :: "host_order \<Rightarrow> base_uint \<Rightarrow> string" where
  "base_uint_GetHex h pn = HexStr (rev (base_uint_mem h pn))"

definition base_uint_ToStringReverseEndian :: "host_order \<Rightarrow> base_uint \<Rightarrow> string" where
  "base_uint_ToStringReverseEndian h pn = HexStr (base_uint_mem h pn)"

definition base_uint_SetHex :: "host_order \<Rightarrow> nat \<Rightarrow> string \<Rightarrow> base_uint" where
  "base_uint_SetHex h WIDTH str = base_uint_of_mem h WIDTH (base_blob_SetHex (4 * WIDTH) str)"

section \<open>Hexadecimal round trip\<close>

lemma hexmap_digits:
  "\<forall>n < 16. HexDigit (hexmap ! n) = int n \<and> \<not> isspace (hexmap ! n) \<and> hexmap ! n \<noteq> CHR ''x'' \<and>
     hexmap ! n \<noteq> CHR ''X''"
proof -
  define P where "P n \<longleftrightarrow> HexDigit (hexmap ! n) = int n \<and> \<not> isspace (hexmap ! n) \<and>
      hexmap ! n \<noteq> CHR ''x'' \<and> hexmap ! n \<noteq> CHR ''X''" for n
  have "list_all P [0, 1, 2, 3, 4, 5, 6, 7, 8, 9, 10, 11, 12, 13, 14, 15]"
    by (simp add: P_def HexDigit_def p_util_hexdigit_def hexmap_def nth_append isspace_def)
  also have "[0, 1, 2, 3, 4, 5, 6, 7, 8, 9, 10, 11, 12, 13, 14, 15] = [0..<16]"
    by (simp add: upt_rec)
  finally have "\<forall>n < 16. P n" by (simp add: list_all_iff del: upt_rec_numeral)
  then show ?thesis by (simp only: P_def)
qed

lemma dropWhile_blanks:
  "list_all P xs \<Longrightarrow> ys \<noteq> [] \<Longrightarrow> \<not> P (hd ys) \<Longrightarrow> dropWhile P (xs @ ys) = ys"
  by (induction xs) (auto simp: neq_Nil_conv)

lemma nibbles: "unat (drop_bit 4 v) < 16" "unat (v AND 15) < 16" for v :: u8
proof -
  show "unat (drop_bit 4 v) < 16"
    unfolding unat_drop_bit using unat_less_256 [of v] by (simp add: div_less_iff_less_mult)
  have "v AND 15 = take_bit 4 v" by (simp add: take_bit_eq_mask mask_eq_exp_minus_1)
  then have "unat (v AND 15) = unat v mod 16"
    by (simp only: unsigned_take_bit_eq) (simp add: take_bit_eq_mod)
  then show "unat (v AND 15) < 16" by simp
qed

lemma join_nibbles: "(v AND 15) OR push_bit 4 (drop_bit 4 v) = v" for v :: u8
  by (simp add: byte_eq_iff_bits all_less_8 bit_simps)

lemma HexStr_Cons: "HexStr (v # vs) = hexmap ! unat (drop_bit 4 v) # hexmap ! unat (v AND 15) # HexStr vs"
  by (simp add: HexStr_def)

lemma HexStr_Nil [simp]: "HexStr [] = []"
  by (simp add: HexStr_def)

lemma length_HexStr [simp]: "length (HexStr s) = 2 * length s"
  by (induction s) (simp_all add: HexStr_Cons)

lemma HexStr_nth:
  "j < length s \<Longrightarrow> HexStr s ! (2 * j) = hexmap ! unat (drop_bit 4 (s ! j)) \<and>
     HexStr s ! (2 * j + 1) = hexmap ! unat (s ! j AND 15)"
proof (induction s arbitrary: j)
  case (Cons v s)
  then show ?case by (cases j) (simp_all add: HexStr_Cons)
qed simp

lemma HexStr_digits: "c \<in> set (HexStr s) \<Longrightarrow> \<exists>n < 16. c = hexmap ! n"
  by (induction s) (auto simp: HexStr_Cons intro: nibbles)

lemma length_SetHex_loop [simp]: "length (SetHex_loop psz n p1 m) = length m"
  by (induction psz n p1 m rule: SetHex_loop.induct) auto

lemma length_SetHex [simp]: "length (base_blob_SetHex W s) = W"
  by (simp add: base_blob_SetHex_def Let_def)

lemma length_uint256S [simp]: "length (uint256S s) = 32"
  by (simp add: uint256S_def)

lemma SetHex_loop_HexStr:
  assumes "length d = W" "\<And>j. j < 2 * W \<Longrightarrow> psz ! j = HexStr (rev d) ! j"
  shows "k \<le> W \<Longrightarrow> SetHex_loop psz (2 * (W - k)) k (take k d @ replicate (W - k) 0) = d"
proof (induction "W - k" arbitrary: k)
  case 0
  with assms show ?case by simp
next
  case (Suc n)
  then have k: "k < W" and n: "W - k = Suc n" "W - Suc k = n" "rev d ! n = d ! k"
    using assms(1) by (auto simp: rev_nth)
  have "psz ! (2 * n) = hexmap ! unat (drop_bit 4 (d ! k))" "psz ! (2 * n + 1) = hexmap ! unat (d ! k AND 15)"
    using assms n k HexStr_nth [of n "rev d"] by simp_all
  moreover have "word_of_int (int (unat (w :: u8))) = w" for w by simp
  ultimately have byte: "word_of_int (HexDigit (psz ! Suc (2 * n))) OR
      push_bit 4 (word_of_int (HexDigit (psz ! (2 * n)))) = d ! k"
    using hexmap_digits nibbles [of "d ! k"] join_nibbles [of "d ! k"] by simp
  have upd: "(take k d @ replicate (Suc n) 0)[k := d ! k] = take (Suc k) d @ replicate n 0"
    using k assms(1) by (simp add: take_Suc_conv_app_nth list_update_append)
  have "SetHex_loop psz (2 * n) (Suc k) (take (Suc k) d @ replicate n 0) = d"
    using Suc.hyps(1) [of "Suc k"] n k by simp
  then show ?case
    unfolding n(1) using k assms(1) byte upd by simp
qed

lemma SetHex_of_GetHex:
  assumes "length d = WIDTH" "list_all isspace blanks"
    "prefix = [] \<or> prefix = ''0x'' \<or> prefix = ''0X''" "rest = [] \<or> HexDigit (hd rest) = - 1"
    "0 < WIDTH"
  shows "base_blob_SetHex WIDTH (blanks @ prefix @ base_blob_GetHex d @ rest) = d"
proof -
  let ?h = "HexStr (rev d)"
  have dig: "\<forall>c \<in> set ?h. HexDigit c \<noteq> - 1 \<and> \<not> isspace c \<and> c \<noteq> CHR ''x'' \<and> c \<noteq> CHR ''X''"
    using HexStr_digits [of _ "rev d"] hexmap_digits by fastforce
  have "length ?h = 2 * WIDTH" using assms(1) by simp
  then obtain x y hs where h: "?h = x # y # hs"
    using assms(5) by (cases ?h; cases "tl ?h") auto
  have z: "\<not> isspace (CHR ''0'')" by (simp add: isspace_def)
  have x: "\<not> isspace x" "y \<noteq> CHR ''x''" "y \<noteq> CHR ''X''" using dig by (simp_all add: h)
  have "dropWhile isspace (blanks @ prefix @ ?h @ rest) = prefix @ ?h @ rest"
    by (rule dropWhile_blanks [OF assms(2)]) (use assms(3) x z in \<open>auto simp: h\<close>)
  moreover have "length (takeWhile (\<lambda>c. HexDigit c \<noteq> - 1) (?h @ rest)) = 2 * WIDTH"
    using dig assms(1,4) by (subst takeWhile_append2) (auto simp: takeWhile_eq_Nil_iff)
  moreover have "(if prefix @ ?h @ rest \<noteq> [] \<and> hd (prefix @ ?h @ rest) = CHR ''0'' \<and> tl (prefix @ ?h @ rest) \<noteq> [] \<and>
        (hd (tl (prefix @ ?h @ rest)) = CHR ''x'' \<or> hd (tl (prefix @ ?h @ rest)) = CHR ''X'')
      then drop 2 (prefix @ ?h @ rest) else prefix @ ?h @ rest) = ?h @ rest"
    using assms(3) x(2,3) by (elim disjE) (simp_all add: h)
  ultimately have "base_blob_SetHex WIDTH (blanks @ prefix @ ?h @ rest) =
      SetHex_loop (?h @ rest) (2 * WIDTH) 0 (replicate WIDTH 0)"
    by (simp only: base_blob_SetHex_def Let_def)
  also have "\<dots> = d"
    using SetHex_loop_HexStr [OF assms(1), of "?h @ rest" 0] assms(1) by (simp add: nth_append)
  finally show ?thesis by (simp add: base_blob_GetHex_def)
qed

text \<open>
  Property.  Parsing the hexadecimal form of a blob gives the blob back, whatever its width;
  leading blanks, a \<open>0x\<close> prefix and anything after the last digit change nothing.
\<close>

theorem SetHex_GetHex:
  assumes "length d = WIDTH" "list_all isspace blanks"
    "prefix = [] \<or> prefix = ''0x'' \<or> prefix = ''0X''" "rest = [] \<or> HexDigit (hd rest) = - 1"
    "0 < WIDTH"
  shows "base_blob_SetHex WIDTH (blanks @ prefix @ base_blob_GetHex d @ rest) = d"
  using assms by (rule SetHex_of_GetHex)

theorem SetHex_GetHex_witness:
  "base_blob_SetHex 3 ('' '' @ ''0x'' @ base_blob_GetHex [0x0a, 0xff, 0x07] @ ''.'') = [0x0a, 0xff, 0x07]"
proof -
  have "list_all isspace '' ''" "HexDigit (hd ''.'') = - 1"
    by (simp_all add: isspace_def HexDigit_def p_util_hexdigit_def nth_append)
  then show ?thesis by (intro SetHex_GetHex) simp_all
qed

section \<open>Integers and blobs\<close>

lemma val_of_limb_bytes: "val_of (concat (map (WriteLE32 h) a)) = val_of a"
proof (induction a)
  case (Cons x a)
  have "val_of (digits_of 4 (unat x) :: bytes) = unat x"
    using unat32_less [of x] by (simp add: val_of_digits_of)
  with Cons show ?case by (simp add: val_of_append)
qed simp

lemma ReadLE32_limb:
  "x < length a \<Longrightarrow> ReadLE32 h (drop (x * 4) (concat (map (WriteLE32 h') a))) = a ! x"
proof (induction a arbitrary: x)
  case (Cons w a)
  show ?case
  proof (cases x)
    case 0
    then show ?thesis by (simp add: ReadLE32_value)
  next
    case (Suc y)
    with Cons show ?thesis by simp
  qed
qed simp

text \<open>
  Property.  Converting a 256-bit integer to a blob and back is the identity, whatever the
  byte orders of the two hosts, and the blob is the little-endian form of the number.
\<close>

theorem Arith_Uint_roundtrip:
  assumes "length a = 8"
  shows "UintToArith256 h (ArithToUint256 h' a) = a \<and> val_of (ArithToUint256 h' a) = val_of a \<and>
    length (ArithToUint256 h' a) = 32"
proof -
  have "UintToArith256 h (ArithToUint256 h' a) = map (\<lambda>x. a ! x) [0..<8]"
    using assms unfolding UintToArith256_def ArithToUint256_def
    by (intro map_cong refl ReadLE32_limb) simp
  moreover have "map (\<lambda>x. a ! x) [0..<8] = a" using assms map_nth [of a] by simp
  moreover have "length (concat (map (WriteLE32 h') a)) = 4 * length a" by (induction a) simp_all
  ultimately show ?thesis
    using assms by (simp add: ArithToUint256_def val_of_limb_bytes del: WriteLE32_bytes)
qed

theorem Arith_Uint_roundtrip_witness:
  "UintToArith256 LittleEndianHost (ArithToUint256 BigEndianHost [1, 2, 3, 4, 5, 6, 7, 8]) =
     [1, 2, 3, 4, 5, 6, 7, 8]"
  using Arith_Uint_roundtrip [of "[1, 2, 3, 4, 5, 6, 7, 8]"] by simp

lemma length_UintToArith256 [simp]: "length (UintToArith256 h b) = 8"
  by (simp add: UintToArith256_def)

end
