(* ===== verification/Params.thy ===== *)
theory Params
  imports Uint256
begin

unbundle bit_operations_syntax

text \<open>
  Consensus parameters and network upgrades: \<open>consensus/params.h\<close> and \<open>consensus/upgrades.cpp\<close>.
  Heights are unbounded integers.  \<open>Params::MoneyRange\<close> is in the theory of transaction checks;
  \<open>Params::Zerocoin_Params\<close> builds parameters of another library and is not modelled.  The
  records hold the fields the modelled code reads.
\<close>

section \<open>Data\<close>

datatype UpgradeIndex =
    BASE_NETWORK | UPGRADE_POS | UPGRADE_POS_V2 | UPGRADE_ZC | UPGRADE_ZC_V2 | UPGRADE_BIP65
  | UPGRADE_ZC_PUBLIC | UPGRADE_V3_4 | UPGRADE_V4_0 | UPGRADE_V5_0 | UPGRADE_V5_2 | UPGRADE_V5_3
  | UPGRADE_V6_0 | UPGRADE_TESTDUMMY

fun upgrade_idx :: "UpgradeIndex \<Rightarrow> nat" where
  "upgrade_idx BASE_NETWORK = 0"
| "upgrade_idx UPGRADE_POS = 1"
| "upgrade_idx UPGRADE_POS_V2 = 2"
| "upgrade_idx UPGRADE_ZC = 3"
| "upgrade_idx UPGRADE_ZC_V2 = 4"
| "upgrade_idx UPGRADE_BIP65 = 5"
| "upgrade_idx UPGRADE_ZC_PUBLIC = 6"
| "upgrade_idx UPGRADE_V3_4 = 7"
| "upgrade_idx UPGRADE_V4_0 = 8"
| "upgrade_idx UPGRADE_V5_0 = 9"
| "upgrade_idx UPGRADE_V5_2 = 10"
| "upgrade_idx UPGRADE_V5_3 = 11"
| "upgrade_idx UPGRADE_V6_0 = 12"
| "upgrade_idx UPGRADE_TESTDUMMY = 13"

definition MAX_NETWORK_UPGRADES :: nat where
  "MAX_NETWORK_UPGRADES = 14"

record NetworkUpgrade =
  nActivationHeight :: int
  hashActivationBlock :: "bytes option"

definition NO_ACTIVATION_HEIGHT :: int where
  "NO_ACTIVATION_HEIGHT = - 1"

record Params =
  hashGenesisBlock :: bytes
  fPowAllowMinDifficultyBlocks :: bool
  fPowNoRetargeting :: bool
  powLimit :: bytes
  posLimitV1 :: bytes
  posLimitV2 :: bytes
  nCoinbaseMaturity :: int
  nFutureTimeDriftPoW :: int
  nFutureTimeDriftPoS :: int
  nStakeMinAge :: int
  nStakeMinDepth :: int
  nTargetTimespan :: int
  nTargetTimespanV2 :: int
  nTargetSpacing :: int
  nTimeSlotLength :: int
  vUpgrades :: "NetworkUpgrade list"

section \<open>Network upgrades\<close>

datatype UpgradeState = UPGRADE_DISABLED | UPGRADE_PENDING | UPGRADE_ACTIVE

definition NetworkUpgradeState :: "int \<Rightarrow> Params \<Rightarrow> nat \<Rightarrow> UpgradeState res" where
  "NetworkUpgradeState nHeight params idx =
     (if \<not> nHeight \<ge> 0 then Inl (AssertFailed ''nHeight >= 0'')
      else if \<not> idx < MAX_NETWORK_UPGRADES then Inl (AssertFailed ''idx < MAX_NETWORK_UPGRADES'')
      else
        let nActivationHeight = nActivationHeight (vUpgrades params ! idx)
        in if nActivationHeight = NO_ACTIVATION_HEIGHT then Inr UPGRADE_DISABLED
           else if nHeight \<ge> nActivationHeight then Inr UPGRADE_ACTIVE
           else Inr UPGRADE_PENDING)"

definition NetworkUpgradeActive :: "int \<Rightarrow> Params \<Rightarrow> nat \<Rightarrow> bool res" where
  "NetworkUpgradeActive nHeight params idx =
     bindE (NetworkUpgradeState nHeight params idx) (\<lambda>st. Inr (st = UPGRADE_ACTIVE))"

text \<open>The loop of \<open>CurrentEpoch\<close> runs down from the last upgrade; \<open>idx\<close> is the next one to test.\<close>

fun CurrentEpoch_loop :: "int \<Rightarrow> Params \<Rightarrow> nat \<Rightarrow> nat res" where
  "CurrentEpoch_loop nHeight params 0 = Inr 0"
| "CurrentEpoch_loop nHeight params (Suc idx) =
     bindE (NetworkUpgradeActive nHeight params (Suc idx)) (\<lambda>active.
       if active then Inr (Suc idx) else CurrentEpoch_loop nHeight params idx)"

definition CurrentEpoch :: "int \<Rightarrow> Params \<Rightarrow> nat res" where
  "CurrentEpoch nHeight params = CurrentEpoch_loop nHeight params (MAX_NETWORK_UPGRADES - 1)"

definition IsActivationHeight :: "int \<Rightarrow> Params \<Rightarrow> nat \<Rightarrow> bool res" where
  "IsActivationHeight nHeight params idx =
     (if \<not> idx < MAX_NETWORK_UPGRADES then Inl (AssertFailed ''idx < MAX_NETWORK_UPGRADES'')
      else if idx = 0 then Inr False
      else Inr (nHeight \<ge> 0 \<and> nHeight = nActivationHeight (vUpgrades params ! idx)))"

definition IsActivationHeightForAnyUpgrade :: "int \<Rightarrow> Params \<Rightarrow> bool" where
  "IsActivationHeightForAnyUpgrade nHeight params \<longleftrightarrow>
     (if nHeight < 0 then False
      else list_ex (\<lambda>idx. nHeight = nActivationHeight (vUpgrades params ! idx)) [1..<MAX_NETWORK_UPGRADES])"

fun NextEpoch_loop :: "int \<Rightarrow> Params \<Rightarrow> nat list \<Rightarrow> nat option res" where
  "NextEpoch_loop nHeight params [] = Inr None"
| "NextEpoch_loop nHeight params (idx # idxs) =
     bindE (NetworkUpgradeState nHeight params idx) (\<lambda>st.
       if st = UPGRADE_PENDING then Inr (Some idx) else NextEpoch_loop nHeight params idxs)"

definition NextEpoch :: "int \<Rightarrow> Params \<Rightarrow> nat option res" where
  "NextEpoch nHeight params =
     (if nHeight < 0 then Inr None
      else NextEpoch_loop nHeight params [1..<MAX_NETWORK_UPGRADES])"

definition NextActivationHeight :: "int \<Rightarrow> Params \<Rightarrow> int option res" where
  "NextActivationHeight nHeight params =
     bindE (NextEpoch nHeight params) (\<lambda>idx.
       Inr (case idx of Some i \<Rightarrow> Some (nActivationHeight (vUpgrades params ! i)) | None \<Rightarrow> None))"

section \<open>Rules that depend on the height\<close>

definition TargetTimespan :: "Params \<Rightarrow> bool \<Rightarrow> int" where
  "TargetTimespan c fV2 = (if fV2 then nTargetTimespanV2 c else nTargetTimespan c)"

definition ProofOfStakeLimit :: "Params \<Rightarrow> bool \<Rightarrow> bytes" where
  "ProofOfStakeLimit c fV2 = (if fV2 then posLimitV2 c else posLimitV1 c)"

definition IsTimeProtocolV2 :: "Params \<Rightarrow> int \<Rightarrow> bool res" where
  "IsTimeProtocolV2 c nHeight = NetworkUpgradeActive nHeight c (upgrade_idx UPGRADE_V4_0)"

definition FutureBlockTimeDrift :: "Params \<Rightarrow> int \<Rightarrow> int res" where
  "FutureBlockTimeDrift c nHeight =
     bindE (IsTimeProtocolV2 c nHeight) (\<lambda>v2.
       if v2 then Inr (nTimeSlotLength c - 1)
       else bindE (NetworkUpgradeActive nHeight c (upgrade_idx UPGRADE_POS)) (\<lambda>pos.
         Inr (if pos then nFutureTimeDriftPoS c else nFutureTimeDriftPoW c)))"

text \<open>\<open>%\<close> of C++ is zero exactly when the divisor divides, whatever the signs.\<close>

definition IsValidBlockTimeStamp :: "Params \<Rightarrow> int \<Rightarrow> int \<Rightarrow> bool res" where
  "IsValidBlockTimeStamp c nTime nHeight =
     bindE (IsTimeProtocolV2 c nHeight) (\<lambda>v2.
       if \<not> v2 then Inr True
       else if nTimeSlotLength c = 0 then Inl (UndefinedBehaviour ''modulo by zero'')
       else Inr (nTime mod nTimeSlotLength c = 0))"

text \<open>
  \<open>utxoFromBlockTime + nStakeMinAge\<close> is computed at 32 unsigned bits: the \<open>int\<close> operand is
  converted to \<open>uint32_t\<close>.
\<close>

definition HasStakeMinAgeOrDepth :: "Params \<Rightarrow> int \<Rightarrow> u32 \<Rightarrow> int \<Rightarrow> u32 \<Rightarrow> bool res" where
  "HasStakeMinAgeOrDepth c contextHeight contextTime utxoFromBlockHeight utxoFromBlockTime =
     bindE (NetworkUpgradeActive contextHeight c (upgrade_idx UPGRADE_V3_4)) (\<lambda>v34.
       if \<not> v34 then Inr (utxoFromBlockTime + word_of_int (nStakeMinAge c) \<le> contextTime)
       else Inr (contextHeight - utxoFromBlockHeight \<ge> nStakeMinDepth c))"

section \<open>The main network\<close>

definition main_upgrade :: "int \<Rightarrow> bytes option \<Rightarrow> NetworkUpgrade" where
  "main_upgrade h b = \<lparr>nActivationHeight = h, hashActivationBlock = b\<rparr>"

definition main_upgrades :: "NetworkUpgrade list" where
  "main_upgrades =
     [main_upgrade 0 None,
      main_upgrade 3001 None,
      main_upgrade 9615800 None,
      main_upgrade 9863787 (Some (uint256S ''0x5b2482eca24caf2a46bb22e0545db7b7037282733faa3a42ec20542509999a64'')),
      main_upgrade 9153160 (Some (uint256S ''0x37ea75fe1c9314171cff429a91b25b9f11331076d1c9de50ee4054d61877f8af'')),
      main_upgrade 9808634 (Some (uint256S ''0x82629b7a9978f5c7ea3f70a12db92633a7d2e436711500db28b97efd48b1e527'')),
      main_upgrade 9880000 (Some (uint256S ''0xe2448b76d88d37aba4194ffed1041b680d779919157ddf5cbf423373d7f8078e'')),
      main_upgrade 9967000 (Some (uint256S ''0x0ef2556e40f3b9f6e02ce611b832e0bbfe7734a8ea751c7b555310ee49b61456'')),
      main_upgrade 9153200 (Some (uint256S ''0x14e477e597d24549cac5e59d97d32155e6ec2861c1003b42d0566f9bf39b65d5'')),
      main_upgrade 9700500 None,
      main_upgrade 9927000 None,
      main_upgrade 9014000 None,
      main_upgrade NO_ACTIVATION_HEIGHT None,
      main_upgrade NO_ACTIVATION_HEIGHT None]"

definition main_consensus :: Params where
  "main_consensus =
     \<lparr>hashGenesisBlock = uint256S ''0x0000c65dcc82b25425fce3c74a342ca4107e6b60dc31015ad42c1c07281b80f8'',
      fPowAllowMinDifficultyBlocks = False,
      fPowNoRetargeting = False,
      powLimit = uint256S ''0x0002ffffffffffffffffffffffffffffffffffffffffffffffffffffffffffff'',
      posLimitV1 = uint256S ''0x000000ffffffffffffffffffffffffffffffffffffffffffffffffffffffffff'',
      posLimitV2 = uint256S ''0x000000ffffffffffffffffffffffffffffffffffffffffffffffffffffffffff'',
      nCoinbaseMaturity = 90,
      nFutureTimeDriftPoW = 7200,
      nFutureTimeDriftPoS = 180,
      nStakeMinAge = 8 * 60 * 60,
      nStakeMinDepth = 600,
      nTargetTimespan = 40 * 60,
      nTargetTimespanV2 = 40 * 60,
      nTargetSpacing = 1 * 60,
      nTimeSlotLength = 15,
      vUpgrades = main_upgrades\<rparr>"

section \<open>Upgrades\<close>

lemma upgrade_idx_less [simp]: "upgrade_idx u < MAX_NETWORK_UPGRADES"
  by (cases u) (simp_all add: MAX_NETWORK_UPGRADES_def)

text \<open>The rule of an upgrade: switched on at its activation height and never switched off.\<close>

definition upgrade_on :: "Params \<Rightarrow> nat \<Rightarrow> int \<Rightarrow> bool" where
  "upgrade_on c idx h \<longleftrightarrow>
     nActivationHeight (vUpgrades c ! idx) \<noteq> - 1 \<and> nActivationHeight (vUpgrades c ! idx) \<le> h"

lemma NetworkUpgradeActive_eq:
  "0 \<le> h \<Longrightarrow> idx < MAX_NETWORK_UPGRADES \<Longrightarrow> NetworkUpgradeActive h c idx = Inr (upgrade_on c idx h)"
  by (simp add: NetworkUpgradeActive_def NetworkUpgradeState_def upgrade_on_def NO_ACTIVATION_HEIGHT_def Let_def)

lemma upgrade_on_mono: "upgrade_on c idx h \<Longrightarrow> h \<le> h' \<Longrightarrow> upgrade_on c idx h'"
  by (simp add: upgrade_on_def)

lemma IsTimeProtocolV2_eq:
  "0 \<le> h \<Longrightarrow> IsTimeProtocolV2 c h = Inr (upgrade_on c (upgrade_idx UPGRADE_V4_0) h)"
  unfolding IsTimeProtocolV2_def by (rule NetworkUpgradeActive_eq [OF _ upgrade_idx_less])

lemma CurrentEpoch_loop_greatest:
  "0 \<le> h \<Longrightarrow> n < MAX_NETWORK_UPGRADES \<Longrightarrow>
   \<exists>e \<le> n. CurrentEpoch_loop h c n = Inr e \<and> (e \<noteq> 0 \<longrightarrow> upgrade_on c e h) \<and>
     (\<forall>i. e < i \<and> i \<le> n \<longrightarrow> \<not> upgrade_on c i h)"
proof (induction n)
  case (Suc n)
  show ?case
  proof (cases "upgrade_on c (Suc n) h")
    case True
    with Suc.prems show ?thesis
      by (intro exI [of _ "Suc n"]) (auto simp: NetworkUpgradeActive_eq)
  next
    case False
    from Suc obtain e where "e \<le> n" "CurrentEpoch_loop h c n = Inr e" "e \<noteq> 0 \<longrightarrow> upgrade_on c e h"
      "\<forall>i. e < i \<and> i \<le> n \<longrightarrow> \<not> upgrade_on c i h" by auto
    with False Suc.prems show ?thesis
      by (intro exI [of _ e]) (auto simp: NetworkUpgradeActive_eq le_Suc_eq)
  qed
qed simp

text \<open>
  Property.  At every height \<open>CurrentEpoch\<close> returns the last upgrade, in the order of the enum,
  that is active there, or the base network; and an upgrade once active stays active.
\<close>

theorem CurrentEpoch_last_active:
  assumes "0 \<le> h"
  shows "\<exists>e < MAX_NETWORK_UPGRADES. CurrentEpoch h c = Inr e \<and>
    (e \<noteq> 0 \<longrightarrow> (\<forall>h' \<ge> h. NetworkUpgradeActive h' c e = Inr True)) \<and>
    (\<forall>i. e < i \<and> i < MAX_NETWORK_UPGRADES \<longrightarrow> NetworkUpgradeActive h c i = Inr False)"
proof -
  have m: "MAX_NETWORK_UPGRADES - 1 < MAX_NETWORK_UPGRADES" by (simp add: MAX_NETWORK_UPGRADES_def)
  from CurrentEpoch_loop_greatest [OF assms m, of c]
  obtain e where e: "e \<le> MAX_NETWORK_UPGRADES - 1" "CurrentEpoch h c = Inr e"
    "e \<noteq> 0 \<longrightarrow> upgrade_on c e h" "\<forall>i. e < i \<and> i \<le> MAX_NETWORK_UPGRADES - 1 \<longrightarrow> \<not> upgrade_on c i h"
    by (auto simp: CurrentEpoch_def)
  from e(1) m have "e < MAX_NETWORK_UPGRADES" by linarith
  with e show ?thesis
    using assms upgrade_on_mono by (intro exI [of _ e]) (auto simp: NetworkUpgradeActive_eq)
qed

theorem CurrentEpoch_last_active_witness:
  "\<exists>e < MAX_NETWORK_UPGRADES. CurrentEpoch 9014000 main_consensus = Inr e \<and>
    (e \<noteq> 0 \<longrightarrow> (\<forall>h' \<ge> 9014000. NetworkUpgradeActive h' main_consensus e = Inr True)) \<and>
    (\<forall>i. e < i \<and> i < MAX_NETWORK_UPGRADES \<longrightarrow> NetworkUpgradeActive 9014000 main_consensus i = Inr False)"
  by (rule CurrentEpoch_last_active) simp

text \<open>
  Property.  \<open>params.h\<close> demands that the upgrades are numbered in the order they happen on the
  chain, as several functions depend on it; the main network's heights are not in that order.  At
  height 9014000 the epoch is \<open>UPGRADE_V5_3\<close> while every upgrade between \<open>UPGRADE_POS\<close> and it is
  still pending.
\<close>

theorem main_upgrades_out_of_order:
  "CurrentEpoch 9014000 main_consensus = Inr (upgrade_idx UPGRADE_V5_3) \<and>
   list_all (\<lambda>u. NetworkUpgradeState 9014000 main_consensus (upgrade_idx u) = Inr UPGRADE_PENDING)
     [UPGRADE_POS_V2, UPGRADE_ZC, UPGRADE_ZC_V2, UPGRADE_BIP65, UPGRADE_ZC_PUBLIC, UPGRADE_V3_4,
      UPGRADE_V4_0, UPGRADE_V5_0, UPGRADE_V5_2]"
  by (simp add: CurrentEpoch_def NetworkUpgradeActive_def NetworkUpgradeState_def MAX_NETWORK_UPGRADES_def
      NO_ACTIVATION_HEIGHT_def main_consensus_def main_upgrades_def main_upgrade_def eval_nat_numeral)

end
