(* ===== verification/Chain.thy ===== *)
theory Chain
  imports Params
begin

unbundle bit_operations_syntax

text \<open>
  The block index and the active chain: \<open>chain.h\<close> and \<open>chain.cpp\<close>.  Block index entries live in
  a heap (a map from addresses); the pointers \<open>pprev\<close> and \<open>pskip\<close> are optional addresses and
  following a null or dangling pointer is undefined behaviour.  Loops along pointers are partial
  functions whose value \<open>None\<close> is divergence; the lemmas show that they return on every
  well-formed index.  Heights are unbounded integers.
\<close>

section \<open>Block index entries\<close>

type_synonym addr = nat

record CBlockIndex =
  phashBlock :: bytes
  pprev :: "addr option"
  pskip :: "addr option"
  nHeight :: int
  nFile :: int
  nDataPos :: u32
  nUndoPos :: u32
  nStatus :: u32
  vStakeModifier :: bytes
  nFlags :: u32
  nSaplingValue :: int
  nChainSaplingValue :: "int option"
  nTime :: u32
  nBits :: u32
  nTimeMax :: u32
  hashFinalSaplingRoot :: bytes

type_synonym index = "addr \<Rightarrow> CBlockIndex option"

definition deref :: "index \<Rightarrow> addr option \<Rightarrow> CBlockIndex res" where
  "deref H p = (case p of None \<Rightarrow> Inl (UndefinedBehaviour ''null pointer'')
     | Some a \<Rightarrow> (case H a of None \<Rightarrow> Inl (UndefinedBehaviour ''dangling pointer'') | Some b \<Rightarrow> Inr b))"

definition GetBlockTime :: "CBlockIndex \<Rightarrow> int" where
  "GetBlockTime b = uint (nTime b)"

definition GetBlockTimeMax :: "CBlockIndex \<Rightarrow> int" where
  "GetBlockTimeMax b = uint (nTimeMax b)"

definition BLOCK_PROOF_OF_STAKE :: u32 where "BLOCK_PROOF_OF_STAKE = 1"
definition BLOCK_STAKE_ENTROPY :: u32 where "BLOCK_STAKE_ENTROPY = 2"
definition BLOCK_STAKE_MODIFIER :: u32 where "BLOCK_STAKE_MODIFIER = 4"

definition IsProofOfStake :: "CBlockIndex \<Rightarrow> bool" where
  "IsProofOfStake b \<longleftrightarrow> nFlags b AND BLOCK_PROOF_OF_STAKE \<noteq> 0"

definition IsProofOfWork :: "CBlockIndex \<Rightarrow> bool" where
  "IsProofOfWork b \<longleftrightarrow> \<not> IsProofOfStake b"

definition SetProofOfStake :: "CBlockIndex \<Rightarrow> CBlockIndex" where
  "SetProofOfStake b = b\<lparr>nFlags := nFlags b OR BLOCK_PROOF_OF_STAKE\<rparr>"

definition GeneratedStakeModifier :: "CBlockIndex \<Rightarrow> bool" where
  "GeneratedStakeModifier b \<longleftrightarrow> nFlags b AND BLOCK_STAKE_MODIFIER \<noteq> 0"

definition GetStakeEntropyBit :: "host_order \<Rightarrow> CBlockIndex \<Rightarrow> u32" where
  "GetStakeEntropyBit h b = ucast (GetCheapHash h (phashBlock b) AND 1)"

definition SetStakeEntropyBit :: "CBlockIndex \<Rightarrow> u32 \<Rightarrow> bool \<times> CBlockIndex" where
  "SetStakeEntropyBit b nEntropyBit =
     (if nEntropyBit > 1 then (False, b)
      else (True, b\<lparr>nFlags := nFlags b OR (if nEntropyBit \<noteq> 0 then BLOCK_STAKE_ENTROPY else 0)\<rparr>))"

definition SetStakeModifierV1 :: "host_order \<Rightarrow> CBlockIndex \<Rightarrow> u64 \<Rightarrow> bool \<Rightarrow> CBlockIndex" where
  "SetStakeModifierV1 h b nStakeModifier fGeneratedStakeModifier =
     (let b1 = b\<lparr>vStakeModifier := mem_of h nStakeModifier\<rparr>
      in if fGeneratedStakeModifier then b1\<lparr>nFlags := nFlags b1 OR BLOCK_STAKE_MODIFIER\<rparr> else b1)"

definition SetStakeModifierV2 :: "CBlockIndex \<Rightarrow> bytes \<Rightarrow> CBlockIndex" where
  "SetStakeModifierV2 b nStakeModifier = b\<lparr>vStakeModifier := nStakeModifier\<rparr>"

text \<open>
  The \<open>memcpy\<close> of the getters copies \<open>vStakeModifier.size()\<close> bytes into the object: more bytes
  than the object has overrun it, fewer leave part of it indeterminate.
\<close>

definition GetStakeModifierV1 :: "host_order \<Rightarrow> Params \<Rightarrow> CBlockIndex \<Rightarrow> u64 res" where
  "GetStakeModifierV1 h c b =
     (if vStakeModifier b = [] then Inr 0
      else bindE (NetworkUpgradeActive (nHeight b) c (upgrade_idx UPGRADE_V3_4)) (\<lambda>v34.
        if v34 then Inr 0
        else if length (vStakeModifier b) \<noteq> 8 then Inl (UndefinedBehaviour ''memcpy into nStakeModifier'')
        else Inr (of_mem h (vStakeModifier b))))"

definition GetStakeModifierV2 :: "Params \<Rightarrow> CBlockIndex \<Rightarrow> bytes res" where
  "GetStakeModifierV2 c b =
     (if vStakeModifier b = [] then Inr (base_blob_new 32)
      else bindE (NetworkUpgradeActive (nHeight b) c (upgrade_idx UPGRADE_V3_4)) (\<lambda>v34.
        if \<not> v34 then Inr (base_blob_new 32)
        else if length (vStakeModifier b) > 32 then Inl (UndefinedBehaviour ''memcpy into nStakeModifier'')
        else Inr (vStakeModifier b @ replicate (32 - length (vStakeModifier b)) 0)))"

text \<open>Generating a new modifier hashes the staked output and the previous modifier; the hash is a parameter.\<close>

definition SetNewStakeModifierV2 ::
  "(bytes \<Rightarrow> bytes) \<Rightarrow> Params \<Rightarrow> index \<Rightarrow> CBlockIndex \<Rightarrow> bytes \<Rightarrow> CBlockIndex res" where
  "SetNewStakeModifierV2 Hash c H b prevoutId =
     bindE (NetworkUpgradeActive (nHeight b) c (upgrade_idx UPGRADE_V3_4)) (\<lambda>v34.
       if \<not> v34 then Inr b
       else case pprev b of
           None \<Rightarrow> Inl (RuntimeError ''SetNewStakeModifier : ERROR: null pprev'')
         | Some p \<Rightarrow> bindE (deref H (Some p)) (\<lambda>prev.
             bindE (GetStakeModifierV2 c prev) (\<lambda>m.
               Inr (SetStakeModifierV2 b (Hash (prevoutId @ m))))))"

definition SetChainSaplingValue :: "index \<Rightarrow> CBlockIndex \<Rightarrow> CBlockIndex res" where
  "SetChainSaplingValue H b =
     (case pprev b of
        None \<Rightarrow> Inr (b\<lparr>nChainSaplingValue := Some (nSaplingValue b)\<rparr>)
      | Some p \<Rightarrow> bindE (deref H (Some p)) (\<lambda>prev.
          Inr (b\<lparr>nChainSaplingValue :=
            (case nChainSaplingValue prev of Some v \<Rightarrow> Some (v + nSaplingValue b) | None \<Rightarrow> None)\<rparr>)))"

section \<open>Validity levels\<close>

definition BLOCK_VALID_MASK :: u32 where "BLOCK_VALID_MASK = 1 OR 2 OR 3 OR 4 OR 5"
definition BLOCK_HAVE_DATA :: u32 where "BLOCK_HAVE_DATA = 8"
definition BLOCK_HAVE_UNDO :: u32 where "BLOCK_HAVE_UNDO = 16"
definition BLOCK_FAILED_MASK :: u32 where "BLOCK_FAILED_MASK = 32 OR 64"

definition BlockIndex_IsValid :: "CBlockIndex \<Rightarrow> u32 \<Rightarrow> bool res" where
  "BlockIndex_IsValid b nUpTo =
     (if nUpTo AND NOT BLOCK_VALID_MASK \<noteq> 0 then Inl (AssertFailed ''!(nUpTo & ~BLOCK_VALID_MASK)'')
      else if nStatus b AND BLOCK_FAILED_MASK \<noteq> 0 then Inr False
      else Inr (nStatus b AND BLOCK_VALID_MASK \<ge> nUpTo))"

definition RaiseValidity :: "CBlockIndex \<Rightarrow> u32 \<Rightarrow> (bool \<times> CBlockIndex) res" where
  "RaiseValidity b nUpTo =
     (if nUpTo AND NOT BLOCK_VALID_MASK \<noteq> 0 then Inl (AssertFailed ''!(nUpTo & ~BLOCK_VALID_MASK)'')
      else if nStatus b AND BLOCK_FAILED_MASK \<noteq> 0 then Inr (False, b)
      else if nStatus b AND BLOCK_VALID_MASK < nUpTo
        then Inr (True, b\<lparr>nStatus := (nStatus b AND NOT BLOCK_VALID_MASK) OR nUpTo\<rparr>)
      else Inr (False, b))"

text \<open>Where the block and its undo data are on disk.\<close>

record FlatFilePos =
  pos_nFile :: int
  pos_nPos :: u32

definition FlatFilePos_SetNull :: FlatFilePos where
  "FlatFilePos_SetNull = \<lparr>pos_nFile = - 1, pos_nPos = 0\<rparr>"

definition FlatFilePos_IsNull :: "FlatFilePos \<Rightarrow> bool" where
  "FlatFilePos_IsNull p \<longleftrightarrow> pos_nFile p = - 1"

definition GetBlockPos :: "CBlockIndex \<Rightarrow> FlatFilePos" where
  "GetBlockPos b =
     (if nStatus b AND BLOCK_HAVE_DATA \<noteq> 0 then \<lparr>pos_nFile = nFile b, pos_nPos = nDataPos b\<rparr>
      else FlatFilePos_SetNull)"

definition GetUndoPos :: "CBlockIndex \<Rightarrow> FlatFilePos" where
  "GetUndoPos b =
     (if nStatus b AND BLOCK_HAVE_UNDO \<noteq> 0 then \<lparr>pos_nFile = nFile b, pos_nPos = nUndoPos b\<rparr>
      else FlatFilePos_SetNull)"

section \<open>Ancestors\<close>

definition InvertLowestOne :: "nat \<Rightarrow> nat" where
  "InvertLowestOne n = n AND (n - 1)"

definition GetSkipHeight :: "nat \<Rightarrow> nat" where
  "GetSkipHeight height =
     (if height < 2 then 0
      else if height AND 1 \<noteq> 0 then InvertLowestOne (InvertLowestOne (height - 1)) + 1
      else InvertLowestOne height)"

lemma InvertLowestOne_less: "0 < n \<Longrightarrow> InvertLowestOne n < n"
proof -
  assume "0 < n"
  have "int (InvertLowestOne n) = int n AND int (n - 1)"
    by (simp add: InvertLowestOne_def of_nat_and_eq)
  also have "\<dots> \<le> int (n - 1)" by (rule AND_upper2) simp
  finally show ?thesis using \<open>0 < n\<close> by linarith
qed

lemma InvertLowestOne_0 [simp]: "InvertLowestOne 0 = 0"
  by (simp add: InvertLowestOne_def)

lemma GetSkipHeight_less: "0 < h \<Longrightarrow> GetSkipHeight h < h"
proof -
  assume "0 < h"
  have le: "InvertLowestOne n \<le> n" for n using InvertLowestOne_less [of n] by (cases "n = 0") auto
  have "InvertLowestOne (InvertLowestOne (h - 1)) + 1 < h" if "2 \<le> h"
    using InvertLowestOne_less [of "h - 1"] le [of "InvertLowestOne (h - 1)"] that by linarith
  with \<open>0 < h\<close> show ?thesis
    using InvertLowestOne_less [of h] by (auto simp: GetSkipHeight_def)
qed

function GetAncestor_loop :: "index \<Rightarrow> nat \<Rightarrow> addr option \<Rightarrow> nat \<Rightarrow> addr option res" where
  "GetAncestor_loop H height pindexWalk heightWalk =
     (if heightWalk > height then
        let heightSkip = GetSkipHeight heightWalk;
            heightSkipPrev = GetSkipHeight (heightWalk - 1)
        in if heightSkip = height \<or>
              (heightSkip > height \<and> \<not> (heightSkipPrev + 2 < heightSkip \<and> heightSkipPrev \<ge> height))
           then bindE (deref H pindexWalk) (\<lambda>b. GetAncestor_loop H height (pskip b) heightSkip)
           else bindE (deref H pindexWalk) (\<lambda>b.
                  if pprev b = None then Inl (AssertFailed ''pindexWalk->pprev'')
                  else GetAncestor_loop H height (pprev b) (heightWalk - 1))
      else Inr pindexWalk)"
  by pat_completeness auto
termination
  by (relation "measure (\<lambda>(H, height, p, hw). hw)") (auto simp: GetSkipHeight_less)

declare GetAncestor_loop.simps [simp del]

definition GetAncestor :: "index \<Rightarrow> addr \<Rightarrow> int \<Rightarrow> addr option res" where
  "GetAncestor H this height =
     bindE (deref H (Some this)) (\<lambda>b.
       if height > nHeight b \<or> height < 0 then Inr None
       else GetAncestor_loop H (nat height) (Some this) (nat (nHeight b)))"

definition BuildSkip :: "index \<Rightarrow> addr \<Rightarrow> index res" where
  "BuildSkip H this =
     bindE (deref H (Some this)) (\<lambda>b.
       case pprev b of
         None \<Rightarrow> Inr H
       | Some p \<Rightarrow> bindE (GetAncestor H p (int (GetSkipHeight (nat (nHeight b))))) (\<lambda>s.
           Inr (H(this \<mapsto> b\<lparr>pskip := s\<rparr>))))"

partial_function (option) LastCommonAncestor_loop :: "index \<Rightarrow> addr option \<Rightarrow> addr option \<Rightarrow> (addr option \<times> addr option) res option" where
  "LastCommonAncestor_loop H pa pb =
     (if pa \<noteq> pb \<and> pa \<noteq> None \<and> pb \<noteq> None
      then (case deref H pa of Inl e \<Rightarrow> Some (Inl e) | Inr a \<Rightarrow>
            (case deref H pb of Inl e \<Rightarrow> Some (Inl e) | Inr b \<Rightarrow>
              LastCommonAncestor_loop H (pprev a) (pprev b)))
      else Some (Inr (pa, pb)))"

definition LastCommonAncestor :: "index \<Rightarrow> addr \<Rightarrow> addr \<Rightarrow> addr option res option" where
  "LastCommonAncestor H pa pb =
     (case deref H (Some pa) of Inl e \<Rightarrow> Some (Inl e) | Inr a \<Rightarrow>
     (case deref H (Some pb) of Inl e \<Rightarrow> Some (Inl e) | Inr b \<Rightarrow>
       let start =
         (if nHeight a > nHeight b
            then bindE (GetAncestor H pa (nHeight b)) (\<lambda>pa. Inr (pa, Some pb))
          else if nHeight b > nHeight a
            then bindE (GetAncestor H pb (nHeight a)) (\<lambda>pb. Inr (Some pa, pb))
          else Inr (Some pa, Some pb))
       in case start of Inl e \<Rightarrow> Some (Inl e)
          | Inr (pa, pb) \<Rightarrow>
              map_option (\<lambda>r. bindE r (\<lambda>(pa, pb).
                if pa = pb then Inr pa else Inl (AssertFailed ''pa == pb'')))
                (LastCommonAncestor_loop H pa pb)))"

section \<open>Times\<close>

definition nMedianTimeSpan :: nat where "nMedianTimeSpan = 11"

fun median_times :: "index \<Rightarrow> nat \<Rightarrow> addr option \<Rightarrow> int list res" where
  "median_times H 0 pindex = Inr []"
| "median_times H (Suc i) pindex =
     (case pindex of None \<Rightarrow> Inr []
      | Some a \<Rightarrow> bindE (deref H (Some a)) (\<lambda>b.
          bindE (median_times H i (pprev b)) (\<lambda>ts. Inr (ts @ [GetBlockTime b]))))"

definition GetMedianTimePast :: "index \<Rightarrow> addr \<Rightarrow> int res" where
  "GetMedianTimePast H this =
     bindE (median_times H nMedianTimeSpan (Some this)) (\<lambda>ts.
       let s = sort ts in Inr (s ! (length s div 2)))"

definition MaxFutureBlockTime :: "int \<Rightarrow> Params \<Rightarrow> CBlockIndex \<Rightarrow> int res" where
  "MaxFutureBlockTime adjustedTime c b =
     bindE (FutureBlockTimeDrift c (nHeight b + 1)) (\<lambda>d. Inr (adjustedTime + d))"

definition MinPastBlockTime :: "Params \<Rightarrow> index \<Rightarrow> addr \<Rightarrow> int res" where
  "MinPastBlockTime c H this =
     bindE (deref H (Some this)) (\<lambda>b.
     bindE (IsTimeProtocolV2 c (nHeight b + 1)) (\<lambda>v2.
       if \<not> v2 then GetMedianTimePast H this
       else if nHeight b + 1 = nActivationHeight (vUpgrades c ! upgrade_idx UPGRADE_V4_0) then
         bindE (FutureBlockTimeDrift c (nHeight b)) (\<lambda>d1.
         bindE (FutureBlockTimeDrift c (nHeight b + 1)) (\<lambda>d2.
           Inr (GetBlockTime b - d1 + d2)))
       else Inr (GetBlockTime b)))"

section \<open>The active chain\<close>

type_synonym CChain = "addr option list"

definition CChain_Genesis :: "CChain \<Rightarrow> addr option" where
  "CChain_Genesis vChain = (if length vChain > 0 then vChain ! 0 else None)"

partial_function (option) CChain_Tip_loop :: "index \<Rightarrow> addr option \<Rightarrow> addr option res option" where
  "CChain_Tip_loop H pindex =
     (case pindex of None \<Rightarrow> Some (Inr None)
      | Some a \<Rightarrow> (case deref H (Some a) of Inl e \<Rightarrow> Some (Inl e)
          | Inr b \<Rightarrow> if pprev b \<noteq> None \<and> \<not> IsProofOfStake b then CChain_Tip_loop H (pprev b)
                     else Some (Inr (Some a))))"

definition CChain_Tip :: "index \<Rightarrow> CChain \<Rightarrow> bool \<Rightarrow> addr option res option" where
  "CChain_Tip H vChain fProofOfStake =
     (if length vChain < 1 then Some (Inr None)
      else let pindex = vChain ! (length vChain - 1)
           in if fProofOfStake then CChain_Tip_loop H pindex else Some (Inr pindex))"

definition CChain_at :: "CChain \<Rightarrow> int \<Rightarrow> addr option" where
  "CChain_at vChain h = (if h < 0 \<or> h \<ge> int (length vChain) then None else vChain ! nat h)"

definition CChain_Height :: "CChain \<Rightarrow> int" where
  "CChain_Height vChain = int (length vChain) - 1"

definition CChain_Contains :: "index \<Rightarrow> CChain \<Rightarrow> addr \<Rightarrow> bool res" where
  "CChain_Contains H vChain pindex =
     bindE (deref H (Some pindex)) (\<lambda>b. Inr (CChain_at vChain (nHeight b) = Some pindex))"

definition CChain_Next :: "index \<Rightarrow> CChain \<Rightarrow> addr \<Rightarrow> addr option res" where
  "CChain_Next H vChain pindex =
     bindE (CChain_Contains H vChain pindex) (\<lambda>c.
       if c then bindE (deref H (Some pindex)) (\<lambda>b. Inr (CChain_at vChain (nHeight b + 1)))
       else Inr None)"

partial_function (option) SetTip_loop :: "index \<Rightarrow> CChain \<Rightarrow> addr option \<Rightarrow> CChain res option" where
  "SetTip_loop H vChain pindex =
     (case pindex of None \<Rightarrow> Some (Inr vChain)
      | Some a \<Rightarrow> (case deref H (Some a) of Inl e \<Rightarrow> Some (Inl e)
          | Inr b \<Rightarrow>
              if \<not> (0 \<le> nHeight b \<and> nHeight b < int (length vChain))
                then Some (Inl (UndefinedBehaviour ''vChain index''))
              else if vChain ! nat (nHeight b) \<noteq> Some a
                then SetTip_loop H (vChain[nat (nHeight b) := Some a]) (pprev b)
              else Some (Inr vChain)))"

definition CChain_resize :: "CChain \<Rightarrow> nat \<Rightarrow> CChain" where
  "CChain_resize vChain n = take n vChain @ replicate (n - length vChain) None"

definition CChain_SetTip :: "index \<Rightarrow> CChain \<Rightarrow> addr option \<Rightarrow> CChain res option" where
  "CChain_SetTip H vChain pindex =
     (case pindex of None \<Rightarrow> Some (Inr [])
      | Some a \<Rightarrow> (case deref H (Some a) of Inl e \<Rightarrow> Some (Inl e)
          | Inr b \<Rightarrow> SetTip_loop H (CChain_resize vChain (nat (nHeight b + 1))) (Some a)))"

partial_function (option) FindFork_loop :: "index \<Rightarrow> CChain \<Rightarrow> addr option \<Rightarrow> addr option res option" where
  "FindFork_loop H vChain pindex =
     (case pindex of None \<Rightarrow> Some (Inr None)
      | Some a \<Rightarrow> (case CChain_Contains H vChain a of Inl e \<Rightarrow> Some (Inl e)
          | Inr c \<Rightarrow> if c then Some (Inr (Some a))
                     else (case deref H (Some a) of Inl e \<Rightarrow> Some (Inl e)
                           | Inr b \<Rightarrow> FindFork_loop H vChain (pprev b))))"

definition CChain_FindFork :: "index \<Rightarrow> CChain \<Rightarrow> addr option \<Rightarrow> addr option res option" where
  "CChain_FindFork H vChain pindex =
     (case pindex of None \<Rightarrow> Some (Inr None)
      | Some a \<Rightarrow> (case deref H (Some a) of Inl e \<Rightarrow> Some (Inl e)
          | Inr b \<Rightarrow>
              (case (if nHeight b > CChain_Height vChain then GetAncestor H a (CChain_Height vChain)
                     else Inr (Some a)) of
                 Inl e \<Rightarrow> Some (Inl e)
               | Inr p \<Rightarrow> FindFork_loop H vChain p)))"

text \<open>
  The locator: hashes of blocks going back with steps that double once ten hashes are in.  The
  state is \<open>vHave\<close>, \<open>nStep\<close> and the block pointer.
\<close>

partial_function (option) GetLocator_loop ::
  "index \<Rightarrow> CChain \<Rightarrow> bytes list \<Rightarrow> int \<Rightarrow> addr option \<Rightarrow> bytes list res option" where
  "GetLocator_loop H vChain vHave nStep pindex =
     (case pindex of None \<Rightarrow> Some (Inr vHave)
      | Some a \<Rightarrow> (case deref H (Some a) of Inl e \<Rightarrow> Some (Inl e)
          | Inr b \<Rightarrow>
              (let vHave = vHave @ [phashBlock b]
               in if nHeight b = 0 then Some (Inr vHave)
                  else
                    let h = max (nHeight b - nStep) 0;
                        nStep' = (if length vHave > 10 then nStep * 2 else nStep)
                    in case (if CChain_at vChain (nHeight b) = Some a then Inr (CChain_at vChain h)
                             else GetAncestor H a h) of
                         Inl e \<Rightarrow> Some (Inl e)
                       | Inr p \<Rightarrow> GetLocator_loop H vChain vHave nStep' p)))"

definition CChain_GetLocator :: "index \<Rightarrow> CChain \<Rightarrow> addr option \<Rightarrow> bytes list res option" where
  "CChain_GetLocator H vChain pindex =
     (case (case pindex of None \<Rightarrow> CChain_Tip H vChain False | Some a \<Rightarrow> Some (Inr (Some a))) of
        None \<Rightarrow> None
      | Some (Inl e) \<Rightarrow> Some (Inl e)
      | Some (Inr p) \<Rightarrow> GetLocator_loop H vChain [] 1 p)"

section \<open>Well-formed block indexes\<close>

fun anc :: "index \<Rightarrow> addr \<Rightarrow> nat \<Rightarrow> addr option" where
  "anc H a 0 = Some a"
| "anc H a (Suc k) =
     (case H a of None \<Rightarrow> None
      | Some b \<Rightarrow> (case pprev b of None \<Rightarrow> None | Some p \<Rightarrow> anc H p k))"

text \<open>
  Every entry is one above its predecessor, only blocks of height 0 have none, and \<open>pskip\<close> is the
  ancestor at the height the skip list prescribes.
\<close>

definition wf_index :: "index \<Rightarrow> bool" where
  "wf_index H \<longleftrightarrow> (\<forall>a b. H a = Some b \<longrightarrow>
     (case pprev b of
        None \<Rightarrow> nHeight b = 0
      | Some p \<Rightarrow> (\<exists>q. H p = Some q \<and> nHeight b = nHeight q + 1) \<and> 0 < nHeight b \<and>
          pskip b = anc H a (nat (nHeight b) - GetSkipHeight (nat (nHeight b)))))"

lemma wf_height: "wf_index H \<Longrightarrow> H a = Some b \<Longrightarrow> 0 \<le> nHeight b"
  by (fastforce simp: wf_index_def split: option.splits)

lemma wf_prev:
  assumes "wf_index H" "H a = Some b" "0 < nHeight b"
  obtains p q where "pprev b = Some p" "H p = Some q" "nHeight b = nHeight q + 1"
    "pskip b = anc H a (nat (nHeight b) - GetSkipHeight (nat (nHeight b)))"
  using assms by (fastforce simp: wf_index_def split: option.splits)

lemma wf_root: "wf_index H \<Longrightarrow> H a = Some b \<Longrightarrow> nHeight b = 0 \<longleftrightarrow> pprev b = None"
  by (force simp: wf_index_def split: option.splits)

lemma anc_add: "anc H a (j + k) = (case anc H a j of None \<Rightarrow> None | Some a' \<Rightarrow> anc H a' k)"
  by (induction j arbitrary: a) (auto split: option.splits)

lemma anc_exists:
  assumes "wf_index H"
  shows "H a = Some b \<Longrightarrow> int k \<le> nHeight b \<Longrightarrow>
    \<exists>a' b'. anc H a k = Some a' \<and> H a' = Some b' \<and> nHeight b' = nHeight b - int k"
proof (induction k arbitrary: a b)
  case (Suc k)
  then have "0 < nHeight b" by simp
  then obtain p q where p: "pprev b = Some p" "H p = Some q" "nHeight b = nHeight q + 1"
    by (rule wf_prev [OF assms Suc.prems(1)])
  with Suc.prems obtain a' b' where "anc H p k = Some a'" "H a' = Some b'" "nHeight b' = nHeight q - int k"
    using Suc.IH [of p q] by auto
  with p Suc.prems(1) show ?case by simp
qed simp

lemma GetAncestor_loop_anc:
  assumes wf: "wf_index H" and sub: "H \<subseteq>\<^sub>m H'"
  shows "H a = Some b \<Longrightarrow> nHeight b = int hw \<Longrightarrow> h \<le> hw \<Longrightarrow>
    GetAncestor_loop H' h (Some a) hw = Inr (anc H a (hw - h))"
proof (induction hw arbitrary: a b rule: less_induct)
  case (less hw)
  have H': "H' a = Some b" using sub less.prems(1) by (force simp: map_le_def dom_def)
  show ?case
  proof (cases "hw = h")
    case True
    then show ?thesis by (simp add: GetAncestor_loop.simps)
  next
    case False
    with less.prems have pos: "0 < hw" "h < hw" by auto
    have "0 < nHeight b" using less.prems pos by simp
    then obtain p q where p: "pprev b = Some p" "H p = Some q" "nHeight b = nHeight q + 1"
      and sk: "pskip b = anc H a (nat (nHeight b) - GetSkipHeight (nat (nHeight b)))"
      by (rule wf_prev [OF wf less.prems(1)])
    have sk: "pskip b = anc H a (hw - GetSkipHeight hw)" using sk less.prems(2) by simp
    let ?s = "GetSkipHeight hw"
    have s: "?s < hw" using pos by (intro GetSkipHeight_less)
    obtain a' b' where a': "anc H a (hw - ?s) = Some a'" "H a' = Some b'" "nHeight b' = int ?s"
      using anc_exists [OF wf less.prems(1), of "hw - ?s"] less.prems s by auto
    have skip: "GetAncestor_loop H' h (pskip b) ?s = Inr (anc H a (hw - h))" if "h \<le> ?s"
    proof -
      have "hw - h = (hw - ?s) + (?s - h)" using that s by simp
      then have "anc H a (hw - h) = anc H a' (?s - h)" using anc_add [of H a "hw - ?s" "?s - h"] a' by simp
      with less.IH [OF s a'(2,3) that] sk a'(1) show ?thesis by simp
    qed
    have prev: "GetAncestor_loop H' h (pprev b) (hw - 1) = Inr (anc H a (hw - h))"
    proof -
      have "hw - h = Suc (hw - 1 - h)" using pos by simp
      then have "anc H a (hw - h) = anc H p (hw - 1 - h)" using p less.prems(1) by simp
      then show ?thesis using less.IH [of "hw - 1" p q] p less.prems pos by simp
    qed
    show ?thesis
      using skip prev H' p pos by (subst GetAncestor_loop.simps) (auto simp: Let_def deref_def)
  qed
qed

lemma GetAncestor_anc:
  assumes "wf_index H" "H \<subseteq>\<^sub>m H'" "H a = Some b"
  shows "GetAncestor H' a h =
    Inr (if 0 \<le> h \<and> h \<le> nHeight b then anc H a (nat (nHeight b - h)) else None)"
proof -
  have H': "H' a = Some b" using assms(2,3) by (force simp: map_le_def dom_def)
  show ?thesis
  proof (cases "0 \<le> h \<and> h \<le> nHeight b")
    case True
    then have "nHeight b = int (nat (nHeight b))" "nat h \<le> nat (nHeight b)" by auto
    from GetAncestor_loop_anc [OF assms this] True H' show ?thesis
      by (simp add: GetAncestor_def deref_def nat_diff_distrib)
  next
    case False
    with H' show ?thesis by (auto simp: GetAncestor_def deref_def)
  qed
qed

lemma anc_sub:
  assumes "wf_index H" "H \<subseteq>\<^sub>m H'"
  shows "H a = Some b \<Longrightarrow> anc H' a k = anc H a k"
proof (induction k arbitrary: a b)
  case (Suc k)
  have H': "H' a = Some b" using assms(2) Suc.prems by (force simp: map_le_def dom_def)
  show ?case
  proof (cases "pprev b")
    case (Some p)
    then have "0 < nHeight b" using wf_root [OF assms(1) Suc.prems] wf_height [OF assms(1) Suc.prems] by auto
    then obtain p' q where "pprev b = Some p'" "H p' = Some q"
      by (rule wf_prev [OF assms(1) Suc.prems])
    with Suc H' show ?thesis by simp
  qed (simp add: H' Suc.prems)
qed simp

section \<open>Properties of the index\<close>

text \<open>
  Property C15.  The skip list is transparent: on every well-formed block index \<open>GetAncestor\<close>
  returns the block that walking \<open>pprev\<close> down to the height would, and a null pointer for a height
  that is negative or above the block; no null pointer is followed and no assert fails.
\<close>

theorem GetAncestor_correct:
  assumes "wf_index H" "H a = Some b"
  shows "GetAncestor H a h =
    Inr (if 0 \<le> h \<and> h \<le> nHeight b then anc H a (nat (nHeight b - h)) else None)"
  using GetAncestor_anc [OF assms(1) map_le_refl assms(2)] .

text \<open>
  Property C22.  Adding a block keeps the index well formed: a new entry one above an existing
  block, once \<open>BuildSkip\<close> has set its skip pointer, satisfies the invariant again, and no other
  entry changes.
\<close>

theorem BuildSkip_wf:
  assumes wf: "wf_index H" and new: "H a = None" and prev: "pprev b = Some p" "H p = Some q"
    and h: "nHeight b = nHeight q + 1"
  shows "\<exists>s. BuildSkip (H(a \<mapsto> b)) a = Inr (H(a \<mapsto> b\<lparr>pskip := s\<rparr>)) \<and> wf_index (H(a \<mapsto> b\<lparr>pskip := s\<rparr>))"
proof -
  let ?n = "nat (nHeight b)" and ?H = "\<lambda>s. H(a \<mapsto> b\<lparr>pskip := s\<rparr>)"
  let ?s = "anc H p (nat (nHeight q) - GetSkipHeight ?n)"
  have q0: "0 \<le> nHeight q" using wf_height [OF wf prev(2)] .
  have sub: "H \<subseteq>\<^sub>m H(a \<mapsto> x)" for x using new by (auto simp: map_le_def dom_def)
  have n: "0 < ?n" "?n = Suc (nat (nHeight q))" using h q0 by auto
  have sk: "GetSkipHeight ?n \<le> nat (nHeight q)" using GetSkipHeight_less [OF n(1)] n(2) by simp
  have "GetAncestor (H(a \<mapsto> b)) p (int (GetSkipHeight ?n)) = Inr ?s"
    using GetAncestor_anc [OF wf sub prev(2), of b "int (GetSkipHeight ?n)"] sk q0
    by (simp add: nat_diff_distrib' nat_le_iff)
  then have "BuildSkip (H(a \<mapsto> b)) a = Inr (?H ?s)"
    using prev(1) by (simp add: BuildSkip_def deref_def)
  moreover have "wf_index (?H ?s)"
  proof (unfold wf_index_def, intro allI impI)
    fix x y assume xy: "?H ?s x = Some y"
    have old: "anc (?H ?s) z k = anc H z k" if "H z = Some w" for z w k
      using anc_sub [OF wf sub that] .
    show "case pprev y of None \<Rightarrow> nHeight y = 0
        | Some p \<Rightarrow> (\<exists>q. ?H ?s p = Some q \<and> nHeight y = nHeight q + 1) \<and> 0 < nHeight y \<and>
            pskip y = anc (?H ?s) x (nat (nHeight y) - GetSkipHeight (nat (nHeight y)))"
    proof (cases "x = a")
      case True
      then have y: "y = b\<lparr>pskip := ?s\<rparr>" using xy by simp
      have "?n - GetSkipHeight ?n = Suc (nat (nHeight q) - GetSkipHeight ?n)"
        using sk n(2) by (simp add: Suc_diff_le)
      then have "anc (?H ?s) a (?n - GetSkipHeight ?n) = ?s"
        using prev old [OF prev(2)] by simp
      moreover have "p \<noteq> a" using new prev by auto
      ultimately show ?thesis using True y prev h q0 by auto
    next
      case False
      then have Hx: "H x = Some y" using xy by simp
      have y: "case pprev y of None \<Rightarrow> nHeight y = 0
        | Some p \<Rightarrow> (\<exists>q. H p = Some q \<and> nHeight y = nHeight q + 1) \<and> 0 < nHeight y \<and>
            pskip y = anc H x (nat (nHeight y) - GetSkipHeight (nat (nHeight y)))"
        using wf Hx unfolding wf_index_def by blast
      show ?thesis
      proof (cases "pprev y")
        case (Some p')
        with y obtain q' where "H p' = Some q'" "nHeight y = nHeight q' + 1" by auto
        with Some y new show ?thesis by (auto simp: old [OF Hx])
      qed (use y in simp)
    qed
  qed
  ultimately show ?thesis by blast
qed

lemma anc_SomeD:
  assumes "wf_index H"
  shows "H a = Some b \<Longrightarrow> anc H a k = Some c \<Longrightarrow>
    \<exists>z. H c = Some z \<and> nHeight z = nHeight b - int k \<and> int k \<le> nHeight b"
proof (induction k arbitrary: a b)
  case 0
  then show ?case using wf_height [OF assms] by simp
next
  case (Suc k)
  then obtain p where p: "pprev b = Some p" "anc H p k = Some c" by (auto split: option.splits)
  then have "0 < nHeight b"
    using wf_root [OF assms Suc.prems(1)] wf_height [OF assms Suc.prems(1)] by auto
  then obtain p' q where "pprev b = Some p'" "H p' = Some q" "nHeight b = nHeight q + 1"
    by (rule wf_prev [OF assms Suc.prems(1)])
  with Suc.IH [of p q] p show ?case by auto
qed

definition one_root :: "index \<Rightarrow> bool" where
  "one_root H \<longleftrightarrow> (\<forall>a b a' b'. H a = Some b \<and> H a' = Some b' \<and> pprev b = None \<and> pprev b' = None \<longrightarrow> a = a')"

lemma LastCommonAncestor_loop_meets:
  assumes wf: "wf_index H" and root: "one_root H"
  shows "H a = Some x \<Longrightarrow> H b = Some y \<Longrightarrow> nHeight x = int n \<Longrightarrow> nHeight y = int n \<Longrightarrow>
    \<exists>r i. LastCommonAncestor_loop H (Some a) (Some b) = Some (Inr (Some r, Some r)) \<and>
      anc H a i = Some r \<and> anc H b i = Some r \<and> (\<forall>j < i. anc H a j \<noteq> anc H b j)"
proof (induction n arbitrary: a b x y)
  case 0
  then have "pprev x = None" "pprev y = None"
    using wf_root [OF wf] by auto
  with root 0 have "a = b" unfolding one_root_def by blast
  then show ?case
    by (intro exI [of _ a] exI [of _ 0]) (simp add: LastCommonAncestor_loop.simps)
next
  case (Suc n)
  show ?case
  proof (cases "a = b")
    case True
    then show ?thesis
      by (intro exI [of _ a] exI [of _ 0]) (simp add: LastCommonAncestor_loop.simps)
  next
    case False
    have pos: "0 < nHeight x" "0 < nHeight y" using Suc.prems by auto
    obtain p q where p: "pprev x = Some p" "H p = Some q" "nHeight x = nHeight q + 1"
      by (rule wf_prev [OF wf Suc.prems(1) pos(1)])
    obtain p' q' where p': "pprev y = Some p'" "H p' = Some q'" "nHeight y = nHeight q' + 1"
      by (rule wf_prev [OF wf Suc.prems(2) pos(2)])
    obtain r i where r: "LastCommonAncestor_loop H (Some p) (Some p') = Some (Inr (Some r, Some r))"
      "anc H p i = Some r" "anc H p' i = Some r" "\<forall>j < i. anc H p j \<noteq> anc H p' j"
      using Suc.IH [OF p(2) p'(2)] p p' Suc.prems by auto
    have "LastCommonAncestor_loop H (Some a) (Some b) = LastCommonAncestor_loop H (Some p) (Some p')"
      using False Suc.prems p p' by (subst LastCommonAncestor_loop.simps) (simp add: deref_def)
    moreover have "anc H a j \<noteq> anc H b j" if "j < Suc i" for j
      using that r(4) False Suc.prems p p' by (cases j) auto
    ultimately show ?thesis
      using r Suc.prems p p' by (intro exI [of _ r] exI [of _ "Suc i"]) simp
  qed
qed

lemma common_ancestor_minimal:
  assumes wf: "wf_index H" and ab: "H a = Some x" "H b = Some y" "nHeight x = nHeight y + int d"
    and a': "anc H a d = Some a'" and r: "\<forall>j < i. anc H a' j \<noteq> anc H b j"
    and c: "anc H a i' = Some c" "anc H b j' = Some c"
  shows "d + i \<le> i' \<and> i \<le> j'"
proof -
  have i': "i' = d + j'"
    using anc_SomeD [OF wf ab(1) c(1)] anc_SomeD [OF wf ab(2) c(2)] ab(3) by auto
  then have "anc H a' j' = anc H b j'" using anc_add [of H a d j'] a' c by simp
  then have "i \<le> j'" using r by (meson not_le)
  with i' show ?thesis by simp
qed

text \<open>
  Property C19.  \<open>LastCommonAncestor\<close> returns, for any two blocks of a well-formed index with one
  genesis block, their last common ancestor: a block reached from both, and any other common
  ancestor is at least as far back from either.  The loop ends and the final assert holds.
\<close>

theorem LastCommonAncestor_correct:
  assumes wf: "wf_index H" and root: "one_root H" and ab: "H a = Some x" "H b = Some y"
  shows "\<exists>r i j. LastCommonAncestor H a b = Some (Inr (Some r)) \<and> anc H a i = Some r \<and> anc H b j = Some r \<and>
    (\<forall>i' j' c. anc H a i' = Some c \<and> anc H b j' = Some c \<longrightarrow> i \<le> i' \<and> j \<le> j')"
proof (cases "nHeight y \<le> nHeight x")
  case True
  define d where "d = nat (nHeight x - nHeight y)"
  have d: "nHeight x = nHeight y + int d" using True by (simp add: d_def)
  have y0: "0 \<le> nHeight y" using wf_height [OF wf ab(2)] .
  obtain a' x' where a': "anc H a d = Some a'" "H a' = Some x'" "nHeight x' = int (nat (nHeight y))"
    using anc_exists [OF wf ab(1), of d] d y0 by auto
  obtain r i where r: "LastCommonAncestor_loop H (Some a') (Some b) = Some (Inr (Some r, Some r))"
    "anc H a' i = Some r" "anc H b i = Some r" "\<forall>j < i. anc H a' j \<noteq> anc H b j"
    using LastCommonAncestor_loop_meets [OF wf root a'(2) ab(2) a'(3)] y0 by auto
  have "LastCommonAncestor H a b = Some (Inr (Some r))"
    using True y0 ab r(1) a'(1) GetAncestor_anc [OF wf map_le_refl ab(1), of "nHeight y"]
    by (auto simp: LastCommonAncestor_def deref_def d_def)
  moreover have "anc H a (d + i) = Some r" using anc_add [of H a d i] a'(1) r(2) by simp
  ultimately show ?thesis
    using r(3) common_ancestor_minimal [OF wf ab d a'(1) r(4)] by blast
next
  case False
  define d where "d = nat (nHeight y - nHeight x)"
  have d: "nHeight y = nHeight x + int d" using False by (simp add: d_def)
  have x0: "0 \<le> nHeight x" using wf_height [OF wf ab(1)] .
  obtain b' y' where b': "anc H b d = Some b'" "H b' = Some y'" "nHeight y' = int (nat (nHeight x))"
    using anc_exists [OF wf ab(2), of d] d x0 by auto
  obtain r i where r: "LastCommonAncestor_loop H (Some a) (Some b') = Some (Inr (Some r, Some r))"
    "anc H a i = Some r" "anc H b' i = Some r" "\<forall>j < i. anc H a j \<noteq> anc H b' j"
    using LastCommonAncestor_loop_meets [OF wf root ab(1) b'(2) _ b'(3)] x0 by auto
  have "LastCommonAncestor H a b = Some (Inr (Some r))"
    using False x0 ab r(1) b'(1) GetAncestor_anc [OF wf map_le_refl ab(2), of "nHeight x"]
    by (auto simp: LastCommonAncestor_def deref_def d_def)
  moreover have "anc H b (d + i) = Some r" using anc_add [of H b d i] b'(1) r(3) by simp
  moreover have "\<forall>j < i. anc H b' j \<noteq> anc H a j" using r(4) by metis
  ultimately show ?thesis
    using r(2) common_ancestor_minimal [OF wf ab(2,1) d b'(1)] by blast
qed

section \<open>Properties of the active chain\<close>

text \<open>The blocks from genesis to a tip of height \<open>n\<close>, by height.\<close>

definition path :: "index \<Rightarrow> addr \<Rightarrow> nat \<Rightarrow> CChain" where
  "path H t n = map (\<lambda>i. anc H t (n - i)) [0..<Suc n]"

lemma length_path [simp]: "length (path H t n) = Suc n"
  by (simp add: path_def)

lemma path_nth: "i \<le> n \<Longrightarrow> path H t n ! i = anc H t (n - i)"
  by (simp add: path_def del: upt_Suc)

definition back_linked :: "index \<Rightarrow> CChain \<Rightarrow> bool" where
  "back_linked H vc \<longleftrightarrow> (\<forall>j < length vc. \<forall>c. vc ! j = Some c \<longrightarrow> (\<forall>i \<le> j. vc ! i = anc H c (j - i)))"

lemma path_below:
  "k \<le> n \<Longrightarrow> anc H t (n - k) = Some a \<Longrightarrow> i \<le> k \<Longrightarrow> path H t n ! i = anc H a (k - i)"
  using anc_add [of H t "n - k" "k - i"] by (simp add: path_nth)

lemma back_linked_path: "back_linked H (path H t n)"
proof (unfold back_linked_def, intro allI impI)
  fix j c i assume "j < length (path H t n)" "path H t n ! j = Some c" "i \<le> j"
  then show "path H t n ! i = anc H c (j - i)"
    using path_nth [of j n H t] by (intro path_below) simp_all
qed

lemma back_linked_resize: "back_linked H vc \<Longrightarrow> back_linked H (CChain_resize vc n)"
  by (auto simp: back_linked_def CChain_resize_def nth_append)

lemma length_resize [simp]: "length (CChain_resize vc n) = n"
  by (simp add: CChain_resize_def)

lemma path_append_eqI:
  assumes "length vc = Suc n" "\<And>i. i \<le> n \<Longrightarrow> vc ! i = path H t n ! i"
  shows "vc = path H t n"
  using assms by (intro nth_equalityI) (auto simp: less_Suc_eq_le)

lemma SetTip_loop_path:
  assumes wf: "wf_index H"
  shows "H a = Some b \<Longrightarrow> nHeight b = int k \<Longrightarrow> k \<le> n \<Longrightarrow> anc H t (n - k) = Some a \<Longrightarrow> length vc = Suc n \<Longrightarrow>
    (\<And>i. k < i \<Longrightarrow> i \<le> n \<Longrightarrow> vc ! i = path H t n ! i) \<Longrightarrow> back_linked H (take (Suc k) vc) \<Longrightarrow>
    SetTip_loop H vc (Some a) = Some (Inr (path H t n))"
proof (induction k arbitrary: a b vc)
  case 0
  then have "pprev b = None" using wf_root [OF wf 0(1)] by simp
  moreover have "path H t n ! 0 = Some a" using 0 by (simp add: path_nth)
  then have nth: "vc' ! i = path H t n ! i" if "vc' ! 0 = Some a" "\<forall>i > 0. vc' ! i = vc ! i" "i \<le> n" for vc' i
    using that 0(6) [of i] by (cases "i = 0") auto
  have "vc[0 := Some a] = path H t n" "vc ! 0 = Some a \<Longrightarrow> vc = path H t n"
    using 0(5) by (intro path_append_eqI nth; simp)+
  ultimately show ?case
    using 0 by (subst SetTip_loop.simps) (simp add: deref_def SetTip_loop.simps [of H _ None])
next
  case (Suc k)
  have low: "path H t n ! i = anc H a (Suc k - i)" if "i \<le> Suc k" for i
    using that Suc.prems by (intro path_below) auto
  show ?case
  proof (cases "vc ! Suc k = Some a")
    case True
    have link: "vc ! i = anc H a (Suc k - i)" if "i \<le> Suc k" for i
    proof -
      have *: "Suc k < length (take (Suc (Suc k)) vc)" "take (Suc (Suc k)) vc ! Suc k = Some a"
        using Suc.prems True by simp_all
      have "take (Suc (Suc k)) vc ! i = anc H a (Suc k - i)"
        using Suc.prems(7) * that unfolding back_linked_def by blast
      then show ?thesis using that by simp
    qed
    have "vc = path H t n"
    proof (rule path_append_eqI [OF Suc.prems(5)])
      fix i assume "i \<le> n"
      then show "vc ! i = path H t n ! i"
        using link [of i] low [of i] Suc.prems(6) [of i] by (cases "i \<le> Suc k") auto
    qed
    with True Suc.prems show ?thesis
      by (subst SetTip_loop.simps) (simp add: deref_def nat_add_distrib)
  next
    case False
    have "0 < nHeight b" using Suc.prems by simp
    then obtain p q where p: "pprev b = Some p" "H p = Some q" "nHeight b = nHeight q + 1"
      by (rule wf_prev [OF wf Suc.prems(1)])
    have "anc H t (n - k) = Some p"
    proof -
      have "n - k = (n - Suc k) + 1" using Suc.prems by simp
      then show ?thesis using anc_add [of H t "n - Suc k" 1] Suc.prems p by simp
    qed
    moreover have "vc[Suc k := Some a] ! i = path H t n ! i" if "k < i" "i \<le> n" for i
      using that Suc.prems low [of "Suc k"] by (cases "i = Suc k") (auto simp: nth_list_update)
    moreover have "back_linked H (take (Suc k) (vc[Suc k := Some a]))"
      using Suc.prems(7) by (auto simp: back_linked_def)
    ultimately have "SetTip_loop H (vc[Suc k := Some a]) (Some p) = Some (Inr (path H t n))"
      using p Suc.prems by (intro Suc.IH) auto
    with False Suc.prems p show ?thesis
      by (subst SetTip_loop.simps) (simp add: deref_def nat_add_distrib)
  qed
qed

text \<open>
  Property C20.  \<open>SetTip\<close> makes the chain the path from genesis to the new tip, whatever tip of the
  index the chain had before (shorter, longer or on another branch): stopping at the first block
  that is already in place loses nothing, and the loop ends.
\<close>

theorem SetTip_correct:
  assumes wf: "wf_index H" and old: "vc = [] \<or> (\<exists>t0 n0. vc = path H t0 n0)"
    and t: "H t = Some b"
  shows "CChain_SetTip H vc (Some t) = Some (Inr (path H t (nat (nHeight b))))"
proof -
  have h: "nHeight b = int (nat (nHeight b))" using wf_height [OF wf t] by simp
  have "back_linked H vc" using old back_linked_path by (auto simp: back_linked_def [of H "[]"])
  then have "back_linked H (CChain_resize vc (Suc (nat (nHeight b))))" by (rule back_linked_resize)
  then have "SetTip_loop H (CChain_resize vc (Suc (nat (nHeight b)))) (Some t) =
      Some (Inr (path H t (nat (nHeight b))))"
    using t h by (intro SetTip_loop_path [OF wf t h]) simp_all
  moreover have "nat (nHeight b + 1) = Suc (nat (nHeight b))" using h by linarith
  ultimately show ?thesis using t by (simp add: CChain_SetTip_def deref_def)
qed

lemma Contains_path:
  assumes "wf_index H" "H a = Some x" "nHeight x = int k" "k \<le> n"
  shows "CChain_Contains H (path H t n) a = Inr (anc H t (n - k) = Some a)"
  using assms by (simp add: CChain_Contains_def deref_def CChain_at_def path_nth)

lemma FindFork_loop_meets:
  assumes wf: "wf_index H" and root: "one_root H" and t: "H t = Some y" "nHeight y = int n"
  shows "H a = Some x \<Longrightarrow> nHeight x = int k \<Longrightarrow> k \<le> n \<Longrightarrow>
    \<exists>r i. FindFork_loop H (path H t n) (Some a) = Some (Inr (Some r)) \<and>
      anc H a i = Some r \<and> anc H t (n - k + i) = Some r \<and> (\<forall>j < i. anc H t (n - k + j) \<noteq> anc H a j)"
proof (induction k arbitrary: a x)
  case 0
  obtain g z where g: "anc H t n = Some g" "H g = Some z" "nHeight z = 0"
    using anc_exists [OF wf t(1), of n] t by auto
  then have "g = a"
    using root 0 wf_root [OF wf g(2)] wf_root [OF wf 0(1)] unfolding one_root_def by auto
  with g 0 Contains_path [OF wf 0(1,2,3), of t] show ?case
    by (intro exI [of _ a] exI [of _ 0]) (subst FindFork_loop.simps, simp)
next
  case (Suc k)
  note c = Contains_path [OF wf Suc.prems, of t]
  show ?case
  proof (cases "anc H t (n - Suc k) = Some a")
    case True
    with c show ?thesis by (intro exI [of _ a] exI [of _ 0]) (subst FindFork_loop.simps, simp)
  next
    case False
    have "0 < nHeight x" using Suc.prems by simp
    then obtain p q where p: "pprev x = Some p" "H p = Some q" "nHeight x = nHeight q + 1"
      by (rule wf_prev [OF wf Suc.prems(1)])
    obtain r i where r: "FindFork_loop H (path H t n) (Some p) = Some (Inr (Some r))"
      "anc H p i = Some r" "anc H t (n - k + i) = Some r" "\<forall>j < i. anc H t (n - k + j) \<noteq> anc H p j"
      using Suc.IH [OF p(2)] p Suc.prems by auto
    have e: "n - k + j = n - Suc k + Suc j" for j using Suc.prems by simp
    have "FindFork_loop H (path H t n) (Some a) = FindFork_loop H (path H t n) (Some p)"
      using c False Suc.prems p by (subst FindFork_loop.simps) (simp add: deref_def)
    moreover have "anc H t (n - Suc k + j) \<noteq> anc H a j" if "j < Suc i" for j
    proof (cases j)
      case 0
      with False show ?thesis by simp
    next
      case (Suc j')
      with that r(4) have "anc H t (n - k + j') \<noteq> anc H p j'" by simp
      with Suc p Suc.prems show ?thesis by (simp only: e) (simp add: \<open>H a = Some x\<close>)
    qed
    ultimately show ?thesis
      using r p Suc.prems(1) by (intro exI [of _ r] exI [of _ "Suc i"]) (simp add: e)
  qed
qed

text \<open>
  Property C21.  \<open>FindFork\<close> on the chain of a tip returns the last block a given block of the index
  shares with that chain: it is an ancestor of both, and every other common ancestor is at least
  as far back from either.
\<close>

theorem FindFork_correct:
  assumes wf: "wf_index H" and root: "one_root H" and t: "H t = Some y" and a: "H a = Some x"
  shows "\<exists>r i j. CChain_FindFork H (path H t (nat (nHeight y))) (Some a) = Some (Inr (Some r)) \<and>
    anc H a i = Some r \<and> anc H t j = Some r \<and>
    (\<forall>i' j' c. anc H a i' = Some c \<and> anc H t j' = Some c \<longrightarrow> i \<le> i' \<and> j \<le> j')"
proof -
  define n where "n = nat (nHeight y)"
  have y: "nHeight y = int n" and x0: "0 \<le> nHeight x"
    using wf_height [OF wf t] wf_height [OF wf a] by (simp_all add: n_def)
  show ?thesis
  proof (cases "nHeight x \<le> nHeight y")
    case True
    then obtain k where k: "nHeight x = int k" "k \<le> n" using x0 y by (metis nonneg_int_cases zle_int)
    obtain r i where r: "FindFork_loop H (path H t n) (Some a) = Some (Inr (Some r))"
      "anc H a i = Some r" "anc H t (n - k + i) = Some r" "\<forall>j < i. anc H t (n - k + j) \<noteq> anc H a j"
      using FindFork_loop_meets [OF wf root t y a k] by blast
    have d: "nHeight y = nHeight x + int (n - k)" using k y by simp
    obtain t' where t': "anc H t (n - k) = Some t'" using anc_exists [OF wf t, of "n - k"] k y by auto
    have "\<forall>j < i. anc H t' j \<noteq> anc H a j" using r(4) anc_add [of H t "n - k"] t' by simp
    from common_ancestor_minimal [OF wf t a d t' this] r True a y show ?thesis
      by (intro exI [of _ r] exI [of _ i] exI [of _ "n - k + i"])
        (auto simp: CChain_FindFork_def deref_def CChain_Height_def n_def [symmetric])
  next
    case False
    define d where "d = nat (nHeight x - nHeight y)"
    have d: "nHeight x = nHeight y + int d" using False by (simp add: d_def)
    obtain a' x' where a': "anc H a d = Some a'" "H a' = Some x'" "nHeight x' = int n"
      using anc_exists [OF wf a, of d] d y by auto
    obtain r i where r: "FindFork_loop H (path H t n) (Some a') = Some (Inr (Some r))"
      "anc H a' i = Some r" "anc H t (n - n + i) = Some r" "\<forall>j < i. anc H t (n - n + j) \<noteq> anc H a' j"
      using FindFork_loop_meets [OF wf root t y a'(2,3) le_refl] by blast
    have "\<forall>j < i. anc H a' j \<noteq> anc H t j" using r(4) by (metis add_0 diff_self_eq_0)
    note m = common_ancestor_minimal [OF wf a t d a'(1) this]
    have "GetAncestor H a (nHeight y) = Inr (Some a')"
      using GetAncestor_anc [OF wf map_le_refl a, of "nHeight y"] False a'(1) y by (simp add: d_def)
    then have "CChain_FindFork H (path H t n) (Some a) = Some (Inr (Some r))"
      using False a r(1) y by (simp add: CChain_FindFork_def deref_def CChain_Height_def)
    moreover have "anc H a (d + i) = Some r" using anc_add [of H a d i] a'(1) r(2) by simp
    ultimately show ?thesis
      using r(3) m by (intro exI [of _ r] exI [of _ "d + i"] exI [of _ i]) (auto simp: n_def)
  qed
qed

section \<open>A small index\<close>

text \<open>Genesis, two blocks on top of it and a rival of the first one; used to instantiate the properties.\<close>

definition sample_block :: "int \<Rightarrow> addr option \<Rightarrow> addr option \<Rightarrow> CBlockIndex" where
  "sample_block h p s =
     \<lparr>phashBlock = replicate 32 (word_of_int h), pprev = p, pskip = s, nHeight = h, nFile = 0, nDataPos = 0,
      nUndoPos = 0, nStatus = 0, vStakeModifier = [], nFlags = 0, nSaplingValue = 0,
      nChainSaplingValue = None, nTime = word_of_int (1600000000 + 60 * h), nBits = 0x1e0ffff0,
      nTimeMax = word_of_int (1600000000 + 60 * h), hashFinalSaplingRoot = base_blob_new 32\<rparr>"

definition sample_index :: index where
  "sample_index =
     [0 \<mapsto> sample_block 0 None None, 1 \<mapsto> sample_block 1 (Some 0) (Some 0),
      2 \<mapsto> sample_block 2 (Some 1) (Some 0), 3 \<mapsto> sample_block 1 (Some 0) (Some 0)]"

lemma sample_index_simps:
  "sample_index 0 = Some (sample_block 0 None None)"
  "sample_index (Suc 0) = Some (sample_block 1 (Some 0) (Some 0))"
  "sample_index 2 = Some (sample_block 2 (Some 1) (Some 0))"
  "sample_index 3 = Some (sample_block 1 (Some 0) (Some 0))"
  "sample_index (Suc (Suc 0)) = Some (sample_block 2 (Some 1) (Some 0))"
  "sample_index (Suc (Suc (Suc 0))) = Some (sample_block 1 (Some 0) (Some 0))"
  by (simp_all add: sample_index_def)

lemma sample_block_simps [simp]:
  "pprev (sample_block h p s) = p" "pskip (sample_block h p s) = s" "nHeight (sample_block h p s) = h"
  by (simp_all add: sample_block_def)

lemma sample_index_cases:
  "sample_index a = Some b \<Longrightarrow> (a = 0 \<and> b = sample_block 0 None None) \<or>
     (a = 1 \<and> b = sample_block 1 (Some 0) (Some 0)) \<or> (a = 2 \<and> b = sample_block 2 (Some 1) (Some 0)) \<or>
     (a = 3 \<and> b = sample_block 1 (Some 0) (Some 0))"
  by (auto simp: sample_index_def split: if_splits)

lemma sample_wf: "wf_index sample_index"
  unfolding wf_index_def
  by (auto dest!: sample_index_cases simp: sample_index_simps GetSkipHeight_def InvertLowestOne_def eval_nat_numeral)

lemma sample_one_root: "one_root sample_index"
  unfolding one_root_def by (auto dest!: sample_index_cases)

theorem GetAncestor_correct_witness: "GetAncestor sample_index 2 0 = Inr (Some 0)"
  using GetAncestor_correct [OF sample_wf sample_index_simps(3), of 0]
  by (simp add: sample_index_simps eval_nat_numeral)

theorem BuildSkip_wf_witness:
  "\<exists>s. BuildSkip (sample_index(4 \<mapsto> sample_block 3 (Some 2) None)) 4 =
      Inr (sample_index(4 \<mapsto> (sample_block 3 (Some 2) None)\<lparr>pskip := s\<rparr>)) \<and>
    wf_index (sample_index(4 \<mapsto> (sample_block 3 (Some 2) None)\<lparr>pskip := s\<rparr>))"
  by (rule BuildSkip_wf [OF sample_wf _ _ sample_index_simps(3)]) (simp_all add: sample_index_def)

theorem LastCommonAncestor_correct_witness:
  "\<exists>r i j. LastCommonAncestor sample_index 2 3 = Some (Inr (Some r)) \<and>
    anc sample_index 2 i = Some r \<and> anc sample_index 3 j = Some r \<and>
    (\<forall>i' j' c. anc sample_index 2 i' = Some c \<and> anc sample_index 3 j' = Some c \<longrightarrow> i \<le> i' \<and> j \<le> j')"
  by (rule LastCommonAncestor_correct [OF sample_wf sample_one_root sample_index_simps(3,4)])

theorem SetTip_correct_witness:
  "CChain_SetTip sample_index (path sample_index 3 1) (Some 2) = Some (Inr (path sample_index 2 2))"
  using SetTip_correct [OF sample_wf _ sample_index_simps(3), of "path sample_index 3 1"] by auto

theorem FindFork_correct_witness:
  "\<exists>r i j. CChain_FindFork sample_index (path sample_index 2 (nat (nHeight (sample_block 2 (Some 1) (Some 0)))))
      (Some 3) = Some (Inr (Some r)) \<and>
    anc sample_index 3 i = Some r \<and> anc sample_index 2 j = Some r \<and>
    (\<forall>i' j' c. anc sample_index 3 i' = Some c \<and> anc sample_index 2 j' = Some c \<longrightarrow> i \<le> i' \<and> j \<le> j')"
  by (rule FindFork_correct [OF sample_wf sample_one_root sample_index_simps(3,4)])

end
