(* ===== verification/Pow.thy ===== *)
theory Pow
  imports Chain
begin

unbundle bit_operations_syntax

text \<open>
  Difficulty targets: \<open>pow.cpp\<close>.  Whether the network is the regression test network is a
  parameter.  64-bit signed quantities (times, spans and counters) are unbounded integers; where an
  operand of \<open>base_uint\<close> arithmetic is one of them the conversion C++ applies is written out:
  \<open>operator*=\<close> takes the \<open>uint32_t\<close> overload and cuts it to 32 bits, \<open>operator/=\<close> converts it to
  \<open>uint64_t\<close>.
\<close>

section \<open>Definitions\<close>

text \<open>Division of signed integers rounds towards zero.\<close>

definition cdiv :: "int \<Rightarrow> int \<Rightarrow> int" where
  "cdiv a b = (if (a < 0) = (b < 0) then \<bar>a\<bar> div \<bar>b\<bar> else - (\<bar>a\<bar> div \<bar>b\<bar>))"

definition mul_int64 :: "base_uint \<Rightarrow> int \<Rightarrow> base_uint" where
  "mul_int64 a x = base_uint_mul32 a (word_of_int x)"

definition div_int64 :: "base_uint \<Rightarrow> int \<Rightarrow> base_uint res" where
  "div_int64 a x = base_uint_div a (base_uint_of64 8 (word_of_int x))"

text \<open>Retargeting above height 3000: every block, towards the target spacing.\<close>

definition pos_actual_spacing :: "Params \<Rightarrow> bool \<Rightarrow> int \<Rightarrow> int" where
  "pos_actual_spacing c fTimeV2 nActualSpacing =
     (let nActualSpacing = (if nActualSpacing < 0 then 1 else nActualSpacing)
      in if fTimeV2 \<and> nActualSpacing > nTargetSpacing c * 10 then nTargetSpacing c * 10
         else nActualSpacing)"

definition pos_retarget :: "host_order \<Rightarrow> Params \<Rightarrow> bool \<Rightarrow> index \<Rightarrow> CBlockIndex \<Rightarrow> u32 res" where
  "pos_retarget h c fRegTest H pindexLast =
     bindE (if fRegTest then Inr False else IsTimeProtocolV2 c (nHeight pindexLast + 1)) (\<lambda>fTimeV2.
     let bnTargetLimit = UintToArith256 h (ProofOfStakeLimit c fTimeV2);
         nTimespan = TargetTimespan c fTimeV2
     in bindE (deref H (pprev pindexLast)) (\<lambda>prev.
        let nActualSpacing = pos_actual_spacing c fTimeV2 (GetBlockTime pindexLast - GetBlockTime prev);
            bnNew0 = fst (SetCompact (nBits pindexLast))
        in bindE (if fTimeV2 then bindE (IsTimeProtocolV2 c (nHeight pindexLast)) (\<lambda>v2. Inr (\<not> v2)) else Inr False)
             (\<lambda>first.
             let bnNew1 = (if first then base_uint_shl bnNew0 4 else bnNew0)
             in if nTargetSpacing c = 0 then Inl (UndefinedBehaviour ''division by zero'')
                else
                  let nInterval = cdiv nTimespan (nTargetSpacing c);
                      bnNew2 = mul_int64 bnNew1
                        ((nInterval - 1) * nTargetSpacing c + nActualSpacing + nActualSpacing)
                  in bindE (div_int64 bnNew2 ((nInterval + 1) * nTargetSpacing c)) (\<lambda>bnNew3.
                     let bnNew4 = (if base_uint_le bnNew3 (base_uint_of64 8 0) \<or> base_uint_gt bnNew3 bnTargetLimit
                                   then bnTargetLimit else bnNew3)
                     in GetCompact bnNew4 False))))"

text \<open>
  Dark Gravity Wave below that height: the average of the last targets, at most \<open>PastBlocksMax\<close> of
  them.  The counter of the loop is the number of blocks \<open>i\<close> may still count.
\<close>

record dgw_state =
  CountBlocks :: int
  PastDifficultyAverage :: base_uint
  PastDifficultyAveragePrev :: base_uint
  LastBlockTime :: int
  nActualTimespan :: int

definition PastBlocksMin :: int where "PastBlocksMin = 24"
definition PastBlocksMax :: nat where "PastBlocksMax = 24"

definition dgw_step :: "CBlockIndex \<Rightarrow> dgw_state \<Rightarrow> dgw_state res" where
  "dgw_step b s =
     (let n = CountBlocks s + 1;
          bits = fst (SetCompact (nBits b))
      in bindE (if n \<le> PastBlocksMin then
                  (if n = 1 then Inr (bits, bits)
                   else bindE (div_int64 (base_uint_add (mul_int64 (PastDifficultyAveragePrev s) n) bits) (n + 1))
                          (\<lambda>avg. Inr (avg, avg)))
                else Inr (PastDifficultyAverage s, PastDifficultyAveragePrev s))
           (\<lambda>(avg, prev).
             Inr \<lparr>CountBlocks = n, PastDifficultyAverage = avg, PastDifficultyAveragePrev = prev,
                  LastBlockTime = GetBlockTime b,
                  nActualTimespan = (if LastBlockTime s > 0
                    then nActualTimespan s + (LastBlockTime s - GetBlockTime b) else nActualTimespan s)\<rparr>))"

fun dgw_loop :: "index \<Rightarrow> nat \<Rightarrow> addr option \<Rightarrow> dgw_state \<Rightarrow> dgw_state res" where
  "dgw_loop H 0 BlockReading s = Inr s"
| "dgw_loop H (Suc left) BlockReading s =
     (case BlockReading of None \<Rightarrow> Inr s
      | Some a \<Rightarrow> bindE (deref H (Some a)) (\<lambda>b.
          if \<not> nHeight b > 0 then Inr s
          else bindE (dgw_step b s) (\<lambda>s.
            case pprev b of None \<Rightarrow> Inr s | Some p \<Rightarrow> dgw_loop H left (Some p) s)))"

definition dgw_init :: dgw_state where
  "dgw_init = \<lparr>CountBlocks = 0, PastDifficultyAverage = base_uint_new 8,
     PastDifficultyAveragePrev = base_uint_new 8, LastBlockTime = 0, nActualTimespan = 0\<rparr>"

definition dgw_clamp :: "int \<Rightarrow> int \<Rightarrow> int" where
  "dgw_clamp target actual =
     (let actual = (if actual < cdiv target 3 then cdiv target 3 else actual)
      in if actual > target * 3 then target * 3 else actual)"

definition dgw_retarget :: "host_order \<Rightarrow> Params \<Rightarrow> index \<Rightarrow> addr \<Rightarrow> u32 res" where
  "dgw_retarget h c H pindexLast =
     bindE (dgw_loop H PastBlocksMax (Some pindexLast) dgw_init) (\<lambda>s.
       let target = CountBlocks s * nTargetSpacing c;
           bnNew = mul_int64 (PastDifficultyAverage s) (dgw_clamp target (nActualTimespan s))
       in bindE (div_int64 bnNew target) (\<lambda>bnNew.
          GetCompact (if base_uint_gt bnNew (UintToArith256 h (powLimit c))
                      then UintToArith256 h (powLimit c) else bnNew) False))"

definition GetNextWorkRequired ::
  "host_order \<Rightarrow> Params \<Rightarrow> bool \<Rightarrow> index \<Rightarrow> addr option \<Rightarrow> u32 res" where
  "GetNextWorkRequired h c fRegTest H pindexLast =
     (if fPowNoRetargeting c then bindE (deref H pindexLast) (\<lambda>b. Inr (nBits b))
      else case pindexLast of
          None \<Rightarrow> GetCompact (UintToArith256 h (powLimit c)) False
        | Some a \<Rightarrow> bindE (deref H (Some a)) (\<lambda>b.
            if nHeight b = 0 \<or> nHeight b < PastBlocksMin
              then GetCompact (UintToArith256 h (powLimit c)) False
            else if nHeight b > 3000 then pos_retarget h c fRegTest H b
            else dgw_retarget h c H a))"

definition CheckProofOfWork :: "host_order \<Rightarrow> Params \<Rightarrow> bytes \<Rightarrow> u32 \<Rightarrow> bool" where
  "CheckProofOfWork h c hash bits =
     (let (bnTarget, fNegative, fOverflow) = SetCompact bits
      in if fNegative \<or> base_uint_IsNull bnTarget \<or> fOverflow \<or>
            base_uint_gt bnTarget (UintToArith256 h (powLimit c))
         then False else True)"

definition GetBlockProof :: "CBlockIndex \<Rightarrow> base_uint res" where
  "GetBlockProof block =
     (let (bnTarget, fNegative, fOverflow) = SetCompact (nBits block)
      in if fNegative \<or> fOverflow \<or> base_uint_IsNull bnTarget then Inr (base_uint_new 8)
         else bindE (base_uint_div (base_uint_not bnTarget) (base_uint_add bnTarget (base_uint_of64 8 1)))
                (\<lambda>q. Inr (base_uint_add q (base_uint_of64 8 1))))"

section \<open>Targets\<close>

lemma val_UintToArith256:
  assumes "length b = 32"
  shows "val_of (UintToArith256 h b) = val_of b"
proof -
  have "4 * n \<le> length b \<Longrightarrow>
      val_of (map (\<lambda>x. ReadLE32 h (drop (x * 4) b)) [0..<n]) = val_of (take (4 * n) b)" for n
  proof (induction n)
    case (Suc n)
    have "take (4 * Suc n) b = take (4 * n) b @ take 4 (drop (4 * n) b)"
      by (simp add: take_add [symmetric] add.commute)
    moreover have "unat (ReadLE32 h (drop (n * 4) b)) = val_of (take 4 (drop (4 * n) b))"
      using Suc.prems val_of_less [of "take 4 (drop (4 * n) b)"]
      by (simp add: ReadLE32_value mult.commute unat_of_nat)
    ultimately show ?case
      using Suc by (simp add: val_of_append min_absorb2)
  qed simp
  from this [of 8] show ?thesis using assms by (simp add: UintToArith256_def)
qed

lemma SetCompact_length: "length (fst (SetCompact c)) = 8"
  using SetCompact_number [of c] by auto

text \<open>A target that did not overflow is not the largest 256-bit number.\<close>

lemma SetCompact_not_max:
  assumes "SetCompact c = (t, neg, False)"
  shows "val_of t + 1 < 2 ^ 256"
proof -
  define e m where "e = unat (drop_bit 24 c)" and "m = unat (c AND 0x007fffff)"
  define N where "N = (if e \<le> 3 then m div 256 ^ (3 - e) else m * 256 ^ (e - 3))"
  have t: "val_of t = N mod 2 ^ 256" "N < 2 ^ 256"
    using SetCompact_number [of c] assms unfolding N_def e_def m_def by (auto simp: not_le)
  have "m < 2 ^ 23" unfolding m_def unat_mask23 by simp
  have "N + 1 \<noteq> 2 ^ 256"
  proof (cases "e \<le> 3")
    case True
    then have "N \<le> m" by (simp add: N_def)
    with \<open>m < 2 ^ 23\<close> have "N + 1 \<le> 2 ^ 23" by linarith
    also have "\<dots> < (2::nat) ^ 256" by simp
    finally show ?thesis by simp
  next
    case False
    then have "even N" by (simp add: N_def)
    then have "odd (N + 1)" by simp
    then show ?thesis by (metis even_numeral even_power zero_less_numeral)
  qed
  with t show ?thesis by simp
qed

lemma compact_result:
  assumes "length a = 8"
  shows "\<exists>bits t. GetCompact a False = Inr bits \<and> SetCompact bits = (t, False, False) \<and>
    val_of t \<le> val_of a \<and> (0 < val_of a \<longrightarrow> 0 < val_of t)"
proof -
  obtain c b where c: "GetCompact a False = Inr c" "SetCompact c = (b, False \<and> val_of a \<noteq> 0, False)"
    "val_of b = val_of a div 256 ^ (base_uint_bits a div 8 - 2) * 256 ^ (base_uint_bits a div 8 - 2)"
    "(val_of a - val_of b) * 2 ^ 15 \<le> val_of a"
    using GetCompact_decodes [OF assms, of False] by blast
  have "val_of b \<le> val_of a" unfolding c(3) by simp
  moreover have "0 < val_of b" if "0 < val_of a"
    using c(4) that by (cases "val_of b = 0") auto
  ultimately show ?thesis using c by auto
qed

lemma div_int64_val:
  assumes "length a = 8" "0 < x" "x < 2 ^ 64"
  shows "\<exists>q. div_int64 a x = Inr q \<and> length q = 8 \<and> val_of q = val_of a div nat x"
proof -
  obtain n where n: "x = int n" "n < 2 ^ 64" using assms by (cases x) auto
  then have "unat (word_of_int x :: u64) = nat x" by (simp add: unat_of_nat)
  then have "val_of (base_uint_of64 8 (word_of_int x)) = nat x" by simp
  moreover have "length (base_uint_of64 8 (word_of_int x)) = 8" by simp
  ultimately show ?thesis
    using val_div [OF assms(1), of "base_uint_of64 8 (word_of_int x)"] assms(2)
    by (auto simp: div_int64_def)
qed

text \<open>
  Property C31.  The work of a block is \<open>2 ^ 256 / (target + 1)\<close>, rounded down, although
  \<open>2 ^ 256\<close> itself does not fit: the complement trick of \<open>GetBlockProof\<close> is exact, never divides by
  zero, and a negative, overflowing or null target has no work.
\<close>

theorem GetBlockProof_exact:
  "\<exists>q. GetBlockProof b = Inr q \<and> length q = 8 \<and>
    val_of q = (let (t, neg, ovf) = SetCompact (nBits b)
                in if neg \<or> ovf \<or> val_of t = 0 then 0 else 2 ^ 256 div (val_of t + 1))"
proof -
  obtain t neg ovf where t: "SetCompact (nBits b) = (t, neg, ovf)" by (cases "SetCompact (nBits b)") auto
  show ?thesis
  proof (cases "neg \<or> ovf \<or> val_of t = 0")
    case True
    with t show ?thesis by (auto simp: GetBlockProof_def IsNull_val base_uint_new_def)
  next
    case False
    with t have "length t = 8" "0 < val_of t" "val_of t + 1 < 2 ^ 256"
      using SetCompact_not_max [of "nBits b" t neg] SetCompact_length [of "nBits b"] by auto
    from u256.complement_quotient [OF this] False t show ?thesis
      by (auto simp: GetBlockProof_def IsNull_val)
  qed
qed

text \<open>
  Property C32.  \<open>CheckProofOfWork\<close> checks the target and nothing else: it accepts exactly the
  compact targets that are positive, do not overflow and are at most \<open>powLimit\<close>, for every hash.
  The comparison of the hash with the target is commented out in the source, so a header needs no
  work at all.
\<close>

theorem CheckProofOfWork_ignores_hash:
  assumes "length (powLimit c) = 32"
  shows "CheckProofOfWork h c hash bits \<longleftrightarrow>
    (\<exists>t. SetCompact bits = (t, False, False) \<and> 0 < val_of t \<and> val_of t \<le> val_of (powLimit c))"
proof -
  obtain t neg ovf where t: "SetCompact bits = (t, neg, ovf)" by (cases "SetCompact bits") auto
  have "length t = 8" using SetCompact_length [of bits] t by simp
  then have "base_uint_gt t (UintToArith256 h (powLimit c)) \<longleftrightarrow> val_of t > val_of (powLimit c)"
    using assms by (simp add: compare_vals val_UintToArith256)
  with t show ?thesis by (auto simp: CheckProofOfWork_def IsNull_val)
qed

theorem CheckProofOfWork_ignores_hash_witness:
  "CheckProofOfWork LittleEndianHost main_consensus (replicate 32 0xff) 0x1e0ffff0 \<longleftrightarrow>
    (\<exists>t. SetCompact 0x1e0ffff0 = (t, False, False) \<and> 0 < val_of t \<and> val_of t \<le> val_of (powLimit main_consensus))"
  by (rule CheckProofOfWork_ignores_hash) (simp add: main_consensus_def)

section \<open>Retargeting\<close>

text \<open>Whether the block after \<open>b\<close> is under the second time protocol.\<close>

definition time_v2 :: "Params \<Rightarrow> bool \<Rightarrow> CBlockIndex \<Rightarrow> bool" where
  "time_v2 c r b \<longleftrightarrow> \<not> r \<and> upgrade_on c (upgrade_idx UPGRADE_V4_0) (nHeight b + 1)"

lemma pos_retarget_in_range:
  fixes c :: Params
  assumes h: "0 < nHeight b" and prev: "deref H (pprev b) = Inr q"
    and sp: "0 < nTargetSpacing c" and ts: "0 \<le> TargetTimespan c (time_v2 c r b)"
    and small: "TargetTimespan c (time_v2 c r b) + nTargetSpacing c < 2 ^ 64"
    and lim: "length (ProofOfStakeLimit c (time_v2 c r b)) = 32" "0 < val_of (ProofOfStakeLimit c (time_v2 c r b))"
  shows "\<exists>bits t. pos_retarget hh c r H b = Inr bits \<and> SetCompact bits = (t, False, False) \<and> 0 < val_of t \<and>
    val_of t \<le> val_of (ProofOfStakeLimit c (time_v2 c r b))"
proof -
  let ?v2 = "time_v2 c r b" and ?L = "UintToArith256 hh (ProofOfStakeLimit c (time_v2 c r b))"
  let ?sp = "nTargetSpacing c"
  have e1: "(if r then Inr False else IsTimeProtocolV2 c (nHeight b + 1)) = Inr ?v2"
    using h by (simp add: time_v2_def IsTimeProtocolV2_eq)
  have e2: "(if ?v2 then bindE (IsTimeProtocolV2 c (nHeight b)) (\<lambda>v2. Inr (\<not> v2)) else Inr False) =
      Inr (?v2 \<and> \<not> upgrade_on c (upgrade_idx UPGRADE_V4_0) (nHeight b))"
    using h by (simp add: IsTimeProtocolV2_eq)
  define A where "A = mul_int64 (if ?v2 \<and> \<not> upgrade_on c (upgrade_idx UPGRADE_V4_0) (nHeight b)
      then base_uint_shl (fst (SetCompact (nBits b))) 4 else fst (SetCompact (nBits b)))
      ((cdiv (TargetTimespan c ?v2) ?sp - 1) * ?sp + pos_actual_spacing c ?v2 (GetBlockTime b - GetBlockTime q) +
        pos_actual_spacing c ?v2 (GetBlockTime b - GetBlockTime q))"
  have A: "length A = 8" by (simp add: A_def mul_int64_def SetCompact_length)
  have iv: "cdiv (TargetTimespan c ?v2) ?sp = TargetTimespan c ?v2 div ?sp"
    using sp ts by (simp add: cdiv_def)
  have "0 \<le> TargetTimespan c ?v2 div ?sp" using sp ts by (intro pos_imp_zdiv_nonneg_iff [THEN iffD2])
  then have pos: "0 < (cdiv (TargetTimespan c ?v2) ?sp + 1) * ?sp"
    unfolding iv using sp by (intro mult_pos_pos) auto
  have "(cdiv (TargetTimespan c ?v2) ?sp + 1) * ?sp = TargetTimespan c ?v2 div ?sp * ?sp + ?sp"
    unfolding iv by (simp add: distrib_right)
  also have "\<dots> \<le> TargetTimespan c ?v2 + ?sp" 
    using sp pos_mod_sign [of ?sp "TargetTimespan c ?v2"] div_mult_mod_eq [of "TargetTimespan c ?v2" ?sp]
    by linarith
  also have "\<dots> < 2 ^ 64" by (rule small)
  finally have "(cdiv (TargetTimespan c ?v2) ?sp + 1) * ?sp < 2 ^ 64" .
  from div_int64_val [OF A pos this] obtain D where
    D: "div_int64 A ((cdiv (TargetTimespan c ?v2) ?sp + 1) * ?sp) = Inr D" "length D = 8" by blast
  define R where "R = (if base_uint_le D (base_uint_of64 8 0) \<or> base_uint_gt D ?L then ?L else D)"
  have R: "length R = 8" "0 < val_of R" "val_of R \<le> val_of (ProofOfStakeLimit c ?v2)"
    using D(2) lim by (auto simp: R_def compare_vals val_UintToArith256)
  have sp0: "(?sp = 0) = False" using sp by simp
  have "pos_retarget hh c r H b = GetCompact R False"
    by (simp only: pos_retarget_def e1 bindE_Inr Let_def prev e2 sp0 if_False A_def [symmetric] D(1) R_def)
  with compact_result [OF R(1)] R(2,3) show ?thesis by fastforce
qed

lemma dgw_step_ok:
  assumes "length (PastDifficultyAverage s) = 8" "length (PastDifficultyAveragePrev s) = 8"
    "0 \<le> CountBlocks s"
  shows "\<exists>s'. dgw_step b s = Inr s' \<and> length (PastDifficultyAverage s') = 8 \<and>
    length (PastDifficultyAveragePrev s') = 8 \<and> CountBlocks s' = CountBlocks s + 1"
proof -
  let ?n = "CountBlocks s + 1"
  have "length (base_uint_add (mul_int64 (PastDifficultyAveragePrev s) ?n) (fst (SetCompact (nBits b)))) = 8"
    using assms by (simp add: mul_int64_def SetCompact_length)
  then have "\<exists>q. div_int64 (base_uint_add (mul_int64 (PastDifficultyAveragePrev s) ?n) (fst (SetCompact (nBits b))))
      (?n + 1) = Inr q \<and> length q = 8" if "?n \<le> 24"
    using div_int64_val [of _ "?n + 1"] assms(3) that by fastforce
  then show ?thesis
    using assms SetCompact_length [of "nBits b"]
    by (cases "?n \<le> 24"; cases "?n = 1") (auto simp: dgw_step_def Let_def PastBlocksMin_def)
qed

lemma dgw_loop_ok:
  assumes wf: "wf_index H"
  shows "H a = Some b \<Longrightarrow> length (PastDifficultyAverage s) = 8 \<Longrightarrow> length (PastDifficultyAveragePrev s) = 8 \<Longrightarrow>
    0 \<le> CountBlocks s \<Longrightarrow>
    \<exists>s'. dgw_loop H k (Some a) s = Inr s' \<and> length (PastDifficultyAverage s') = 8 \<and>
      CountBlocks s' \<le> CountBlocks s + int k \<and>
      (if 0 < k \<and> 0 < nHeight b then CountBlocks s < CountBlocks s' else CountBlocks s \<le> CountBlocks s')"
proof (induction k arbitrary: a b s)
  case (Suc k)
  show ?case
  proof (cases "0 < nHeight b")
    case True
    then obtain p q where p: "pprev b = Some p" "H p = Some q" by (rule wf_prev [OF wf Suc.prems(1)])
    obtain s1 where s1: "dgw_step b s = Inr s1" "length (PastDifficultyAverage s1) = 8"
      "length (PastDifficultyAveragePrev s1) = 8" "CountBlocks s1 = CountBlocks s + 1"
      using dgw_step_ok [OF Suc.prems(2,3,4), of b] by blast
    from Suc.IH [OF p(2) s1(2,3)] s1(4) Suc.prems(4)
    obtain s' where "dgw_loop H k (Some p) s1 = Inr s'" "length (PastDifficultyAverage s') = 8"
      "CountBlocks s' \<le> CountBlocks s1 + int k" "CountBlocks s1 \<le> CountBlocks s'"
      by (auto split: if_splits)
    with True p s1 Suc.prems(1) show ?thesis by (simp add: deref_def)
  next
    case False
    with Suc.prems show ?thesis by (simp add: deref_def)
  qed
qed simp

lemma dgw_retarget_in_range:
  assumes wf: "wf_index H" and a: "H a = Some b" "0 < nHeight b"
    and sp: "0 < nTargetSpacing c" "nTargetSpacing c < 2 ^ 32" and lim: "length (powLimit c) = 32"
  shows "\<exists>bits t. dgw_retarget h c H a = Inr bits \<and> SetCompact bits = (t, False, False) \<and>
    val_of t \<le> val_of (powLimit c)"
proof -
  from dgw_loop_ok [OF wf a(1), of dgw_init PastBlocksMax]
  obtain s where s: "dgw_loop H PastBlocksMax (Some a) dgw_init = Inr s" "length (PastDifficultyAverage s) = 8"
    "CountBlocks s \<le> 24" "0 < CountBlocks s"
    using a(2) by (auto simp: dgw_init_def base_uint_new_def PastBlocksMax_def)
  let ?T = "CountBlocks s * nTargetSpacing c"
  let ?A = "mul_int64 (PastDifficultyAverage s) (dgw_clamp ?T (nActualTimespan s))"
  have "?T \<le> 24 * nTargetSpacing c" using s(3) sp(1) by (intro mult_right_mono) auto
  also have "24 * nTargetSpacing c < 2 ^ 64" using sp by simp
  finally have T: "0 < ?T" "?T < 2 ^ 64" using s(4) sp by (simp_all only: mult_pos_pos)
  from div_int64_val [of ?A, OF _ T] obtain D where D: "div_int64 ?A ?T = Inr D" "length D = 8"
    using s(2) by (auto simp: mul_int64_def)
  let ?L = "UintToArith256 h (powLimit c)"
  define R where "R = (if base_uint_gt D ?L then ?L else D)"
  have R: "length R = 8" "val_of R \<le> val_of (powLimit c)"
    using D(2) lim by (auto simp: R_def compare_vals val_UintToArith256)
  have "dgw_retarget h c H a = GetCompact R False"
    by (simp only: dgw_retarget_def s(1) bindE_Inr Let_def D(1) R_def)
  with compact_result [OF R(1)] R(2) show ?thesis by fastforce
qed

text \<open>
  Property C14.  Retargeting always produces a usable target: on a well-formed index, whatever the
  times and targets of the blocks, \<open>GetNextWorkRequired\<close> divides by no zero and returns compact bits
  that are neither negative nor overflowing and at most the limit of the branch taken
  (\<open>ProofOfStakeLimit\<close> above height 3000, \<open>powLimit\<close> up to it); above height 3000 the target is
  also positive.
\<close>

theorem GetNextWorkRequired_in_range:
  fixes c :: Params
  assumes "\<not> fPowNoRetargeting c" "wf_index H" "H a = Some b"
    "0 < nTargetSpacing c" "nTargetSpacing c < 2 ^ 32" "\<forall>v. 0 \<le> TargetTimespan c v \<and> TargetTimespan c v < 2 ^ 32"
    "length (powLimit c) = 32" "\<forall>v. length (ProofOfStakeLimit c v) = 32 \<and> 0 < val_of (ProofOfStakeLimit c v)"
  shows "\<exists>bits t. GetNextWorkRequired h c r H (Some a) = Inr bits \<and> SetCompact bits = (t, False, False) \<and>
    (if nHeight b > 3000 then 0 < val_of t \<and> val_of t \<le> val_of (ProofOfStakeLimit c (time_v2 c r b))
     else val_of t \<le> val_of (powLimit c))"
proof -
  have d: "deref H (Some a) = Inr b" using assms(3) by (simp add: deref_def)
  consider "nHeight b < 24" | "24 \<le> nHeight b" "nHeight b \<le> 3000" | "nHeight b > 3000" by linarith
  then show ?thesis
  proof cases
    case 1
    with compact_result [of "UintToArith256 h (powLimit c)"] show ?thesis
      using assms(1,7) d by (auto simp: GetNextWorkRequired_def PastBlocksMin_def val_UintToArith256)
  next
    case 2
    with dgw_retarget_in_range [OF assms(2,3) _ assms(4,5,7), of h] show ?thesis
      using assms(1) d by (auto simp: GetNextWorkRequired_def PastBlocksMin_def)
  next
    case 3
    then have pos: "0 < nHeight b" by simp
    then obtain p q where "pprev b = Some p" "H p = Some q" by (rule wf_prev [OF assms(2,3)])
    then have q: "deref H (pprev b) = Inr q" by (simp add: deref_def)
    have ts: "0 \<le> TargetTimespan c (time_v2 c r b)" "TargetTimespan c (time_v2 c r b) + nTargetSpacing c < 2 ^ 64"
      using assms(5,6) by (auto dest: spec [of _ "time_v2 c r b"])
    show ?thesis
      using pos_retarget_in_range [of b H q c r h, OF pos q assms(4) ts] assms(1,8) d 3
      by (auto simp: GetNextWorkRequired_def PastBlocksMin_def)
  qed
qed

theorem GetNextWorkRequired_in_range_witness:
  "\<exists>bits t. GetNextWorkRequired LittleEndianHost main_consensus False sample_index (Some 2) = Inr bits \<and>
    SetCompact bits = (t, False, False) \<and> val_of t \<le> val_of (powLimit main_consensus)"
proof -
  let ?d = "replicate 29 0xff @ [0, 0, 0] :: bytes"
  have "replicate 29 (0xff :: u8) = 0xff # replicate 28 0xff"
    using replicate_Suc [of 28 "0xff :: u8"] by simp
  then have d: "0 < val_of ?d" by simp
  have "''0x000000ffffffffffffffffffffffffffffffffffffffffffffffffffffffffff'' = ''0x'' @ base_blob_GetHex ?d"
    by (simp add: base_blob_GetHex_def HexStr_def hexmap_def) (simp add: eval_nat_numeral)
  then have "uint256S ''0x000000ffffffffffffffffffffffffffffffffffffffffffffffffffffffffff'' = ?d"
    using SetHex_of_GetHex [of ?d 32 "[]" "''0x''" "[]"] by (simp add: uint256S_def)
  then have "0 < val_of (uint256S ''0x000000ffffffffffffffffffffffffffffffffffffffffffffffffffffffffff'')"
    using d by (simp only:)
  then show ?thesis
    using GetNextWorkRequired_in_range [OF _ sample_wf sample_index_simps(3), of main_consensus LittleEndianHost False]
    by (simp add: main_consensus_def TargetTimespan_def ProofOfStakeLimit_def)
qed

end
