(* ===== verification/Script.thy ===== *)
theory Script
  imports Codecs "HOL-Library.Sublist"
begin

unbundle bit_operations_syntax

text \<open>
  Scripts: \<open>script/script.h\<close> and \<open>script/script.cpp\<close>.  A \<open>CScript\<close> is its bytes (the container
  \<open>prevector\<close> underneath is a sequence of bytes here), an opcode is its byte value, an iterator is
  an index.  The number in a \<open>CScriptNum\<close> is an integer in the range of \<open>int64_t\<close>.
\<close>

section \<open>Opcodes\<close>

text \<open>The enumeration \<open>opcodetype\<close>, in the order of the source, aliases included.\<close>

definition opcodetype :: "(string \<times> u8) list" where
  "opcodetype =
     [(''OP_0'', 0x00), (''OP_FALSE'', 0x00), (''OP_PUSHDATA1'', 0x4c), (''OP_PUSHDATA2'', 0x4d),
      (''OP_PUSHDATA4'', 0x4e), (''OP_1NEGATE'', 0x4f), (''OP_RESERVED'', 0x50),
      (''OP_1'', 0x51), (''OP_TRUE'', 0x51), (''OP_2'', 0x52), (''OP_3'', 0x53),
      (''OP_4'', 0x54), (''OP_5'', 0x55), (''OP_6'', 0x56), (''OP_7'', 0x57), (''OP_8'', 0x58),
      (''OP_9'', 0x59), (''OP_10'', 0x5a), (''OP_11'', 0x5b), (''OP_12'', 0x5c),
      (''OP_13'', 0x5d), (''OP_14'', 0x5e), (''OP_15'', 0x5f), (''OP_16'', 0x60),
      (''OP_NOP'', 0x61), (''OP_VER'', 0x62), (''OP_IF'', 0x63), (''OP_NOTIF'', 0x64),
      (''OP_VERIF'', 0x65), (''OP_VERNOTIF'', 0x66), (''OP_ELSE'', 0x67), (''OP_ENDIF'', 0x68),
      (''OP_VERIFY'', 0x69), (''OP_RETURN'', 0x6a), (''OP_TOALTSTACK'', 0x6b),
      (''OP_FROMALTSTACK'', 0x6c), (''OP_2DROP'', 0x6d), (''OP_2DUP'', 0x6e),
      (''OP_3DUP'', 0x6f), (''OP_2OVER'', 0x70), (''OP_2ROT'', 0x71), (''OP_2SWAP'', 0x72),
      (''OP_IFDUP'', 0x73), (''OP_DEPTH'', 0x74), (''OP_DROP'', 0x75), (''OP_DUP'', 0x76),
      (''OP_NIP'', 0x77), (''OP_OVER'', 0x78), (''OP_PICK'', 0x79), (''OP_ROLL'', 0x7a),
      (''OP_ROT'', 0x7b), (''OP_SWAP'', 0x7c), (''OP_TUCK'', 0x7d), (''OP_CAT'', 0x7e),
      (''OP_SUBSTR'', 0x7f), (''OP_LEFT'', 0x80), (''OP_RIGHT'', 0x81), (''OP_SIZE'', 0x82),
      (''OP_INVERT'', 0x83), (''OP_AND'', 0x84), (''OP_OR'', 0x85), (''OP_XOR'', 0x86),
      (''OP_EQUAL'', 0x87), (''OP_EQUALVERIFY'', 0x88), (''OP_RESERVED1'', 0x89),
      (''OP_RESERVED2'', 0x8a), (''OP_1ADD'', 0x8b), (''OP_1SUB'', 0x8c), (''OP_2MUL'', 0x8d),
      (''OP_2DIV'', 0x8e), (''OP_NEGATE'', 0x8f), (''OP_ABS'', 0x90), (''OP_NOT'', 0x91),
      (''OP_0NOTEQUAL'', 0x92), (''OP_ADD'', 0x93), (''OP_SUB'', 0x94), (''OP_MUL'', 0x95),
      (''OP_DIV'', 0x96), (''OP_MOD'', 0x97), (''OP_LSHIFT'', 0x98), (''OP_RSHIFT'', 0x99),
      (''OP_BOOLAND'', 0x9a), (''OP_BOOLOR'', 0x9b), (''OP_NUMEQUAL'', 0x9c),
      (''OP_NUMEQUALVERIFY'', 0x9d), (''OP_NUPNOTEQUAL'', 0x9e), (''OP_LESSTHAN'', 0x9f),
      (''OP_GREATERTHAN'', 0xa0), (''OP_LESSTHANOREQUAL'', 0xa1),
      (''OP_GREATERTHANOREQUAL'', 0xa2), (''OP_MIN'', 0xa3), (''OP_MAX'', 0xa4),
      (''OP_WITHIN'', 0xa5), (''OP_RIPEMD160'', 0xa6), (''OP_SHA1'', 0xa7),
      (''OP_SHA256'', 0xa8), (''OP_HASH160'', 0xa9), (''OP_HASH256'', 0xaa),
      (''OP_CODESEPARATOR'', 0xab), (''OP_CHECKSIG'', 0xac), (''OP_CHECKSIGVERIFY'', 0xad),
      (''OP_CHECKMULTISIG'', 0xae), (''OP_CHECKMULTISIGVERIFY'', 0xaf), (''OP_NOP1'', 0xb0),
      (''OP_NOP2'', 0xb1), (''OP_CHECKLOCKTIMEVERIFY'', 0xb1), (''OP_NOP3'', 0xb2),
      (''OP_NOP4'', 0xb3), (''OP_NOP5'', 0xb4), (''OP_NOP6'', 0xb5), (''OP_NOP7'', 0xb6),
      (''OP_NOP8'', 0xb7), (''OP_NOP9'', 0xb8), (''OP_NOP10'', 0xb9),
      (''OP_ZEROCOINMINT'', 0xc1), (''OP_ZEROCOINSPEND'', 0xc2),
      (''OP_ZEROCOINPUBLICSPEND'', 0xc3), (''OP_CHECKCOLDSTAKEVERIFY_LOF'', 0xd1),
      (''OP_CHECKCOLDSTAKEVERIFY'', 0xd2), (''OP_INVALIDOPCODE'', 0xff)]"

abbreviation (input) OP_0 :: u8 where "OP_0 \<equiv> 0x00"
abbreviation (input) OP_PUSHDATA1 :: u8 where "OP_PUSHDATA1 \<equiv> 0x4c"
abbreviation (input) OP_PUSHDATA2 :: u8 where "OP_PUSHDATA2 \<equiv> 0x4d"
abbreviation (input) OP_PUSHDATA4 :: u8 where "OP_PUSHDATA4 \<equiv> 0x4e"
abbreviation (input) OP_1NEGATE :: u8 where "OP_1NEGATE \<equiv> 0x4f"
abbreviation (input) OP_RESERVED :: u8 where "OP_RESERVED \<equiv> 0x50"
abbreviation (input) OP_1 :: u8 where "OP_1 \<equiv> 0x51"
abbreviation (input) OP_16 :: u8 where "OP_16 \<equiv> 0x60"
abbreviation (input) OP_IF :: u8 where "OP_IF \<equiv> 0x63"
abbreviation (input) OP_ELSE :: u8 where "OP_ELSE \<equiv> 0x67"
abbreviation (input) OP_ENDIF :: u8 where "OP_ENDIF \<equiv> 0x68"
abbreviation (input) OP_RETURN :: u8 where "OP_RETURN \<equiv> 0x6a"
abbreviation (input) OP_DUP :: u8 where "OP_DUP \<equiv> 0x76"
abbreviation (input) OP_ROT :: u8 where "OP_ROT \<equiv> 0x7b"
abbreviation (input) OP_EQUAL :: u8 where "OP_EQUAL \<equiv> 0x87"
abbreviation (input) OP_EQUALVERIFY :: u8 where "OP_EQUALVERIFY \<equiv> 0x88"
abbreviation (input) OP_HASH160 :: u8 where "OP_HASH160 \<equiv> 0xa9"
abbreviation (input) OP_CHECKSIG :: u8 where "OP_CHECKSIG \<equiv> 0xac"
abbreviation (input) OP_CHECKSIGVERIFY :: u8 where "OP_CHECKSIGVERIFY \<equiv> 0xad"
abbreviation (input) OP_CHECKMULTISIG :: u8 where "OP_CHECKMULTISIG \<equiv> 0xae"
abbreviation (input) OP_CHECKMULTISIGVERIFY :: u8 where "OP_CHECKMULTISIGVERIFY \<equiv> 0xaf"
abbreviation (input) OP_ZEROCOINMINT :: u8 where "OP_ZEROCOINMINT \<equiv> 0xc1"
abbreviation (input) OP_ZEROCOINSPEND :: u8 where "OP_ZEROCOINSPEND \<equiv> 0xc2"
abbreviation (input) OP_ZEROCOINPUBLICSPEND :: u8 where "OP_ZEROCOINPUBLICSPEND \<equiv> 0xc3"
abbreviation (input) OP_CHECKCOLDSTAKEVERIFY_LOF :: u8 where "OP_CHECKCOLDSTAKEVERIFY_LOF \<equiv> 0xd1"
abbreviation (input) OP_CHECKCOLDSTAKEVERIFY :: u8 where "OP_CHECKCOLDSTAKEVERIFY \<equiv> 0xd2"
abbreviation (input) OP_INVALIDOPCODE :: u8 where "OP_INVALIDOPCODE \<equiv> 0xff"

text \<open>The cases of \<open>GetOpName\<close>, in order.\<close>

definition opcode_names :: "(u8 \<times> string) list" where
  "opcode_names =
     [(0x00, ''0''), (0x4c, ''OP_PUSHDATA1''), (0x4d, ''OP_PUSHDATA2''),
      (0x4e, ''OP_PUSHDATA4''), (0x4f, ''-1''), (0x50, ''OP_RESERVED''), (0x51, ''1''),
      (0x52, ''2''), (0x53, ''3''), (0x54, ''4''), (0x55, ''5''), (0x56, ''6''), (0x57, ''7''),
      (0x58, ''8''), (0x59, ''9''), (0x5a, ''10''), (0x5b, ''11''), (0x5c, ''12''),
      (0x5d, ''13''), (0x5e, ''14''), (0x5f, ''15''), (0x60, ''16''), (0x61, ''OP_NOP''),
      (0x62, ''OP_VER''), (0x63, ''OP_IF''), (0x64, ''OP_NOTIF''), (0x65, ''OP_VERIF''),
      (0x66, ''OP_VERNOTIF''), (0x67, ''OP_ELSE''), (0x68, ''OP_ENDIF''), (0x69, ''OP_VERIFY''),
      (0x6a, ''OP_RETURN''), (0x6b, ''OP_TOALTSTACK''), (0x6c, ''OP_FROMALTSTACK''),
      (0x6d, ''OP_2DROP''), (0x6e, ''OP_2DUP''), (0x6f, ''OP_3DUP''), (0x70, ''OP_2OVER''),
      (0x71, ''OP_2ROT''), (0x72, ''OP_2SWAP''), (0x73, ''OP_IFDUP''), (0x74, ''OP_DEPTH''),
      (0x75, ''OP_DROP''), (0x76, ''OP_DUP''), (0x77, ''OP_NIP''), (0x78, ''OP_OVER''),
      (0x79, ''OP_PICK''), (0x7a, ''OP_ROLL''), (0x7b, ''OP_ROT''), (0x7c, ''OP_SWAP''),
      (0x7d, ''OP_TUCK''), (0x7e, ''OP_CAT''), (0x7f, ''OP_SUBSTR''), (0x80, ''OP_LEFT''),
      (0x81, ''OP_RIGHT''), (0x82, ''OP_SIZE''), (0x83, ''OP_INVERT''), (0x84, ''OP_AND''),
      (0x85, ''OP_OR''), (0x86, ''OP_XOR''), (0x87, ''OP_EQUAL''), (0x88, ''OP_EQUALVERIFY''),
      (0x89, ''OP_RESERVED1''), (0x8a, ''OP_RESERVED2''), (0x8b, ''OP_1ADD''),
      (0x8c, ''OP_1SUB''), (0x8d, ''OP_2MUL''), (0x8e, ''OP_2DIV''), (0x8f, ''OP_NEGATE''),
      (0x90, ''OP_ABS''), (0x91, ''OP_NOT''), (0x92, ''OP_0NOTEQUAL''), (0x93, ''OP_ADD''),
      (0x94, ''OP_SUB''), (0x95, ''OP_MUL''), (0x96, ''OP_DIV''), (0x97, ''OP_MOD''),
      (0x98, ''OP_LSHIFT''), (0x99, ''OP_RSHIFT''), (0x9a, ''OP_BOOLAND''),
      (0x9b, ''OP_BOOLOR''), (0x9c, ''OP_NUMEQUAL''), (0x9d, ''OP_NUMEQUALVERIFY''),
      (0x9e, ''OP_NUPNOTEQUAL''), (0x9f, ''OP_LESSTHAN''), (0xa0, ''OP_GREATERTHAN''),
      (0xa1, ''OP_LESSTHANOREQUAL''), (0xa2, ''OP_GREATERTHANOREQUAL''), (0xa3, ''OP_MIN''),
      (0xa4, ''OP_MAX''), (0xa5, ''OP_WITHIN''), (0xa6, ''OP_RIPEMD160''), (0xa7, ''OP_SHA1''),
      (0xa8, ''OP_SHA256''), (0xa9, ''OP_HASH160''), (0xaa, ''OP_HASH256''),
      (0xab, ''OP_CODESEPARATOR''), (0xac, ''OP_CHECKSIG''), (0xad, ''OP_CHECKSIGVERIFY''),
      (0xae, ''OP_CHECKMULTISIG''), (0xaf, ''OP_CHECKMULTISIGVERIFY''), (0xb0, ''OP_NOP1''),
      (0xb1, ''OP_CHECKLOCKTIMEVERIFY''), (0xb2, ''OP_NOP3''), (0xb3, ''OP_NOP4''),
      (0xb4, ''OP_NOP5''), (0xb5, ''OP_NOP6''), (0xb6, ''OP_NOP7''), (0xb7, ''OP_NOP8''),
      (0xb8, ''OP_NOP9''), (0xb9, ''OP_NOP10''), (0xc1, ''OP_ZEROCOINMINT''),
      (0xc2, ''OP_ZEROCOINSPEND''), (0xc3, ''OP_ZEROCOINPUBLICSPEND''),
      (0xd1, ''OP_CHECKCOLDSTAKEVERIFY_LOF''), (0xd2, ''OP_CHECKCOLDSTAKEVERIFY''),
      (0xff, ''OP_INVALIDOPCODE'')]"

definition GetOpName :: "u8 \<Rightarrow> string" where
  "GetOpName opcode = (case map_of opcode_names opcode of Some s \<Rightarrow> s | None \<Rightarrow> ''OP_UNKNOWN'')"

section \<open>Script numbers\<close>

definition int64_min :: int where "int64_min = - (2 ^ 63)"
definition int64_max :: int where "int64_max = 2 ^ 63 - 1"

function serialize_loop :: "u64 \<Rightarrow> bytes" where
  "serialize_loop absvalue =
     (if absvalue = 0 then [] else ucast (absvalue AND 0xff) # serialize_loop (drop_bit 8 absvalue))"
  by pat_completeness auto
termination
proof (relation "measure unat", goal_cases)
  case 1
  then show ?case by simp
next
  case (2 absvalue)
  then have "0 < unat absvalue" by (simp add: unat_gt_0)
  then show ?case by (simp only: in_measure unat_drop_bit) simp
qed

declare serialize_loop.simps [simp del]

definition ScriptNum_serialize :: "int \<Rightarrow> bytes" where
  "ScriptNum_serialize value =
     (if value = 0 then []
      else
        let neg = value < 0;
            absvalue = (if neg then NOT (word_of_int value) + 1 else word_of_int value) :: u64;
            result = serialize_loop absvalue
        in if last result AND 0x80 \<noteq> 0 then result @ [if neg then 0x80 else 0]
           else if neg then butlast result @ [last result OR 0x80]
           else result)"

text \<open>Shifting a byte by 64 bits or more is undefined.\<close>

definition ScriptNum_set_vch :: "bytes \<Rightarrow> int res" where
  "ScriptNum_set_vch vch =
     (if vch = [] then Inr 0
      else if length vch > 8 then Inl (UndefinedBehaviour ''shift'')
      else
        let result = fold (\<lambda>i r. r OR push_bit (8 * i) (ucast (vch ! i))) [0..<length vch] (0 :: u64)
        in if last vch AND 0x80 \<noteq> 0
           then Inr (- sint (result AND NOT (push_bit (8 * (length vch - 1)) 0x80)))
           else Inr (sint result))"

definition ScriptNum_new :: "bytes \<Rightarrow> bool \<Rightarrow> nat \<Rightarrow> int res" where
  "ScriptNum_new vch fRequireMinimal nMaxNumSize =
     (if length vch > nMaxNumSize then Inl (ScriptNumError ''script number overflow'')
      else if fRequireMinimal \<and> length vch > 0 \<and> last vch AND 0x7f = 0 \<and>
              (length vch \<le> 1 \<or> (vch ! (length vch - 2)) AND 0x80 = 0)
        then Inl (ScriptNumError ''non-minimally encoded script number'')
      else ScriptNum_set_vch vch)"

definition ScriptNum_add :: "int \<Rightarrow> int \<Rightarrow> int res" where
  "ScriptNum_add m_value rhs =
     (if rhs = 0 \<or> (rhs > 0 \<and> m_value \<le> int64_max - rhs) \<or> (rhs < 0 \<and> m_value \<ge> int64_min - rhs)
      then Inr (m_value + rhs) else Inl (AssertFailed ''operator+=''))"

definition ScriptNum_sub :: "int \<Rightarrow> int \<Rightarrow> int res" where
  "ScriptNum_sub m_value rhs =
     (if rhs = 0 \<or> (rhs > 0 \<and> m_value \<ge> int64_min + rhs) \<or> (rhs < 0 \<and> m_value \<le> int64_max + rhs)
      then Inr (m_value - rhs) else Inl (AssertFailed ''operator-=''))"

definition ScriptNum_neg :: "int \<Rightarrow> int res" where
  "ScriptNum_neg m_value =
     (if m_value \<noteq> int64_min then Inr (- m_value) else Inl (AssertFailed ''operator-''))"

definition ScriptNum_getint :: "int \<Rightarrow> int" where
  "ScriptNum_getint m_value =
     (if m_value > 2 ^ 31 - 1 then 2 ^ 31 - 1
      else if m_value < - (2 ^ 31) then - (2 ^ 31) else m_value)"

section \<open>Building scripts\<close>

definition Script_push_opcode :: "bytes \<Rightarrow> int \<Rightarrow> bytes res" where
  "Script_push_opcode this opcode =
     (if opcode < 0 \<or> opcode > 0xff then Inl (RuntimeError ''CScript::operator<<() : invalid opcode'')
      else Inr (this @ [word_of_int opcode]))"

definition Script_push_data :: "host_order \<Rightarrow> bytes \<Rightarrow> bytes \<Rightarrow> bytes" where
  "Script_push_data h this b =
     (if length b < unat OP_PUSHDATA1 then this @ [word_of_nat (length b)]
      else if length b \<le> 0xff then this @ [OP_PUSHDATA1] @ [word_of_nat (length b)]
      else if length b \<le> 0xffff then this @ [OP_PUSHDATA2] @ WriteLE16 h (word_of_nat (length b))
      else this @ [OP_PUSHDATA4] @ WriteLE32 h (word_of_nat (length b))) @ b"

definition Script_push_num :: "host_order \<Rightarrow> bytes \<Rightarrow> int \<Rightarrow> bytes" where
  "Script_push_num h this n = Script_push_data h this (ScriptNum_serialize n)"

definition Script_push_int64 :: "host_order \<Rightarrow> bytes \<Rightarrow> int \<Rightarrow> bytes" where
  "Script_push_int64 h this n =
     (if n = - 1 \<or> (n \<ge> 1 \<and> n \<le> 16) then this @ [word_of_int (n + (uint OP_1 - 1))]
      else if n = 0 then this @ [OP_0]
      else Script_push_data h this (ScriptNum_serialize n))"

section \<open>Reading scripts\<close>

text \<open>
  The size of the immediate operand: the iterator after the length bytes and the size, or where
  the iterator stood when the length bytes ran out.
\<close>

definition GetOp2_size :: "host_order \<Rightarrow> bytes \<Rightarrow> nat \<Rightarrow> u8 \<Rightarrow> nat + nat \<times> u32" where
  "GetOp2_size h this pc opcode =
     (if opcode < OP_PUSHDATA1 then Inr (pc, ucast opcode)
      else if opcode = OP_PUSHDATA1 then
        (if length this - pc < 1 then Inl pc else Inr (pc + 1, ucast (this ! pc)))
      else if opcode = OP_PUSHDATA2 then
        (if length this - pc < 2 then Inl pc else Inr (pc + 2, ucast (ReadLE16 h (drop pc this))))
      else
        (if length this - pc < 4 then Inl pc else Inr (pc + 4, ReadLE32 h (drop pc this))))"

definition GetOp2 :: "host_order \<Rightarrow> bytes \<Rightarrow> nat \<Rightarrow> bool \<times> nat \<times> u8 \<times> bytes" where
  "GetOp2 h this pc =
     (if pc \<ge> length this then (False, pc, OP_INVALIDOPCODE, [])
      else
        let opcode = this ! pc
        in if opcode \<le> OP_PUSHDATA4 then
             (case GetOp2_size h this (pc + 1) opcode of
                Inl pc \<Rightarrow> (False, pc, OP_INVALIDOPCODE, [])
              | Inr (pc, nSize) \<Rightarrow>
                  if (word_of_nat (length this - pc) :: u32) < nSize then (False, pc, OP_INVALIDOPCODE, [])
                  else (True, pc + unat nSize, opcode, take (unat nSize) (drop pc this)))
           else (True, pc + 1, opcode, []))"

definition DecodeOP_N :: "u8 \<Rightarrow> int res" where
  "DecodeOP_N opcode =
     (if opcode = OP_0 then Inr 0
      else if \<not> (opcode \<ge> OP_1 \<and> opcode \<le> OP_16) then Inl (AssertFailed ''opcode >= OP_1 && opcode <= OP_16'')
      else Inr (uint opcode - (uint OP_1 - 1)))"

definition EncodeOP_N :: "int \<Rightarrow> u8 res" where
  "EncodeOP_N n =
     (if \<not> (n \<ge> 0 \<and> n \<le> 16) then Inl (AssertFailed ''n >= 0 && n <= 16'')
      else if n = 0 then Inr OP_0
      else Inr (word_of_int (uint OP_1 + n - 1)))"

section \<open>Walking a script\<close>

lemma GetOp2_size_less: "GetOp2_size h this pc opcode = Inr (pc', n) \<Longrightarrow> pc \<le> pc'"
  by (auto simp: GetOp2_size_def split: if_splits)

lemma GetOp2_progress: "GetOp2 h this pc = (True, pc', opcode, data) \<Longrightarrow> pc < pc' \<and> pc < length this"
  by (auto simp: GetOp2_def Let_def split: if_splits sum.splits prod.splits dest!: GetOp2_size_less)

function Script_Find_loop :: "host_order \<Rightarrow> bytes \<Rightarrow> u8 \<Rightarrow> nat \<Rightarrow> nat \<Rightarrow> nat" where
  "Script_Find_loop h this op pc nFound =
     (if pc \<noteq> length this then
        (case GetOp2 h this pc of
           (fRet, pc', opcode, _) \<Rightarrow>
             if fRet then Script_Find_loop h this op pc' (if opcode = op then nFound + 1 else nFound)
             else nFound)
      else nFound)"
  by pat_completeness auto
termination
  by (relation "measure (\<lambda>(h, this, op, pc, n). length this - pc)")
    (auto dest!: GetOp2_progress [OF sym])

declare Script_Find_loop.simps [simp del]

definition Script_Find :: "host_order \<Rightarrow> bytes \<Rightarrow> u8 \<Rightarrow> nat" where
  "Script_Find h this op = Script_Find_loop h this op 0 0"

function FindAndDelete_skip :: "bytes \<Rightarrow> bytes \<Rightarrow> nat \<Rightarrow> nat \<Rightarrow> nat \<times> nat" where
  "FindAndDelete_skip this b pc nFound =
     (if b \<noteq> [] \<and> length this - pc \<ge> length b \<and> take (length b) (drop pc this) = b
      then FindAndDelete_skip this b (pc + length b) (nFound + 1)
      else (pc, nFound))"
  by pat_completeness auto
termination
proof (relation "measure (\<lambda>(this, b, pc, n). length this - pc)", goal_cases)
  case (2 this b pc nFound)
  then have "0 < length b" by simp
  with 2 show ?case by (simp only: in_measure prod.case) linarith
qed simp

declare FindAndDelete_skip.simps [simp del]

lemma FindAndDelete_skip_le: "FindAndDelete_skip this b pc n = (pc', n') \<Longrightarrow> pc \<le> pc'"
proof (induction this b pc n rule: FindAndDelete_skip.induct)
  case (1 this b pc n)
  then show ?case by (subst (asm) FindAndDelete_skip.simps) (force split: if_splits)
qed

function FindAndDelete_loop :: "host_order \<Rightarrow> bytes \<Rightarrow> bytes \<Rightarrow> bytes \<Rightarrow> nat \<Rightarrow> nat \<Rightarrow> nat \<Rightarrow> bytes \<times> nat \<times> nat" where
  "FindAndDelete_loop h this b result pc2 pc nFound =
     (let result = result @ take (pc - pc2) (drop pc2 this);
          (pc1, nFound) = FindAndDelete_skip this b pc nFound
      in case GetOp2 h this pc1 of
           (fRet, pc', _, _) \<Rightarrow>
             if fRet then FindAndDelete_loop h this b result pc1 pc' nFound
             else (result, pc1, nFound))"
  by pat_completeness auto
termination
  by (relation "measure (\<lambda>(h, this, b, result, pc2, pc, n). length this - pc)")
    (force dest!: FindAndDelete_skip_le [OF sym] GetOp2_progress [OF sym])+

declare FindAndDelete_loop.simps [simp del]

definition FindAndDelete :: "host_order \<Rightarrow> bytes \<Rightarrow> bytes \<Rightarrow> nat \<times> bytes" where
  "FindAndDelete h this b =
     (if b = [] then (0, this)
      else case FindAndDelete_loop h this b [] 0 0 0 of
          (result, pc2, nFound) \<Rightarrow>
            if nFound > 0 then (nFound, result @ drop pc2 this) else (nFound, this))"

definition MAX_PUBKEYS_PER_MULTISIG :: nat where "MAX_PUBKEYS_PER_MULTISIG = 20"
definition MAX_SCRIPT_SIZE :: nat where "MAX_SCRIPT_SIZE = 10000"

text \<open>\<open>DecodeOP_N\<close> is only called on \<open>OP_1\<close> to \<open>OP_16\<close> here.\<close>

function GetSigOpCount_loop :: "host_order \<Rightarrow> bytes \<Rightarrow> bool \<Rightarrow> nat \<Rightarrow> u8 \<Rightarrow> u32 \<Rightarrow> u32 res" where
  "GetSigOpCount_loop h this fAccurate pc lastOpcode n =
     (if pc < length this then
        (case GetOp2 h this pc of
           (fRet, pc', opcode, _) \<Rightarrow>
             if \<not> fRet then Inr n
             else bindE
               (if opcode = OP_CHECKSIG \<or> opcode = OP_CHECKSIGVERIFY then Inr (n + 1)
                else if opcode = OP_CHECKMULTISIG \<or> opcode = OP_CHECKMULTISIGVERIFY then
                  (if fAccurate \<and> lastOpcode \<ge> OP_1 \<and> lastOpcode \<le> OP_16
                   then bindE (DecodeOP_N lastOpcode) (\<lambda>k. Inr (n + word_of_int k))
                   else Inr (n + word_of_nat MAX_PUBKEYS_PER_MULTISIG))
                else Inr n)
               (\<lambda>n'. GetSigOpCount_loop h this fAccurate pc' opcode n'))
      else Inr n)"
  by pat_completeness auto
termination
  by (relation "measure (\<lambda>(h, this, f, pc, l, n). length this - pc)")
    (auto dest!: GetOp2_progress [OF sym])

declare GetSigOpCount_loop.simps [simp del]

definition GetSigOpCount :: "host_order \<Rightarrow> bytes \<Rightarrow> bool \<Rightarrow> u32 res" where
  "GetSigOpCount h this fAccurate = GetSigOpCount_loop h this fAccurate 0 OP_INVALIDOPCODE 0"

definition IsPayToPublicKeyHash :: "bytes \<Rightarrow> bool" where
  "IsPayToPublicKeyHash this \<longleftrightarrow>
     length this = 25 \<and> this ! 0 = OP_DUP \<and> this ! 1 = OP_HASH160 \<and> this ! 2 = 0x14 \<and>
     this ! 23 = OP_EQUALVERIFY \<and> this ! 24 = OP_CHECKSIG"

definition IsPayToScriptHash :: "bytes \<Rightarrow> bool" where
  "IsPayToScriptHash this \<longleftrightarrow>
     length this = 23 \<and> this ! 0 = OP_HASH160 \<and> this ! 1 = 0x14 \<and> this ! 22 = OP_EQUAL"

definition IsPayToColdStaking :: "bytes \<Rightarrow> bool" where
  "IsPayToColdStaking this \<longleftrightarrow>
     length this = 51 \<and> this ! 0 = OP_DUP \<and> this ! 1 = OP_HASH160 \<and> this ! 2 = OP_ROT \<and>
     this ! 3 = OP_IF \<and>
     (this ! 4 = OP_CHECKCOLDSTAKEVERIFY \<or> this ! 4 = OP_CHECKCOLDSTAKEVERIFY_LOF) \<and>
     this ! 5 = 0x14 \<and> this ! 26 = OP_ELSE \<and> this ! 27 = 0x14 \<and> this ! 48 = OP_ENDIF \<and>
     this ! 49 = OP_EQUALVERIFY \<and> this ! 50 = OP_CHECKSIG"

definition IsPayToColdStakingLOF :: "bytes \<Rightarrow> bool" where
  "IsPayToColdStakingLOF this \<longleftrightarrow> IsPayToColdStaking this \<and> this ! 4 = OP_CHECKCOLDSTAKEVERIFY_LOF"

definition StartsWithOpcode :: "bytes \<Rightarrow> u8 \<Rightarrow> bool" where
  "StartsWithOpcode this opcode \<longleftrightarrow> this \<noteq> [] \<and> this ! 0 = opcode"

definition IsZerocoinMint :: "bytes \<Rightarrow> bool" where
  "IsZerocoinMint this \<longleftrightarrow> StartsWithOpcode this OP_ZEROCOINMINT"

definition IsZerocoinSpend :: "bytes \<Rightarrow> bool" where
  "IsZerocoinSpend this \<longleftrightarrow> StartsWithOpcode this OP_ZEROCOINSPEND"

definition IsZerocoinPublicSpend :: "bytes \<Rightarrow> bool" where
  "IsZerocoinPublicSpend this \<longleftrightarrow> StartsWithOpcode this OP_ZEROCOINPUBLICSPEND"

function IsPushOnly_from :: "host_order \<Rightarrow> bytes \<Rightarrow> nat \<Rightarrow> bool" where
  "IsPushOnly_from h this pc =
     (if pc < length this then
        (case GetOp2 h this pc of
           (fRet, pc', opcode, _) \<Rightarrow>
             if \<not> fRet then False else if opcode > OP_16 then False else IsPushOnly_from h this pc')
      else True)"
  by pat_completeness auto
termination
  by (relation "measure (\<lambda>(h, this, pc). length this - pc)") (auto dest!: GetOp2_progress [OF sym])

declare IsPushOnly_from.simps [simp del]

definition IsPushOnly :: "host_order \<Rightarrow> bytes \<Rightarrow> bool" where
  "IsPushOnly h this = IsPushOnly_from h this 0"

text \<open>The last item a \<open>scriptSig\<close> pushes; \<open>None\<close> where the source returns 0.\<close>

function last_push :: "host_order \<Rightarrow> bytes \<Rightarrow> nat \<Rightarrow> bytes \<Rightarrow> bytes option" where
  "last_push h scriptSig pc data =
     (if pc < length scriptSig then
        (case GetOp2 h scriptSig pc of
           (fRet, pc', opcode, data') \<Rightarrow>
             if \<not> fRet then None else if opcode > OP_16 then None else last_push h scriptSig pc' data')
      else Some data)"
  by pat_completeness auto
termination
  by (relation "measure (\<lambda>(h, s, pc, d). length s - pc)") (auto dest!: GetOp2_progress [OF sym])

declare last_push.simps [simp del]

definition GetSigOpCount_P2SH :: "host_order \<Rightarrow> bytes \<Rightarrow> bytes \<Rightarrow> u32 res" where
  "GetSigOpCount_P2SH h this scriptSig =
     (if \<not> IsPayToScriptHash this then GetSigOpCount h this True
      else case last_push h scriptSig 0 [] of
          None \<Rightarrow> Inr 0
        | Some data \<Rightarrow> GetSigOpCount h data True)"

definition IsUnspendable :: "bytes \<Rightarrow> bool" where
  "IsUnspendable this \<longleftrightarrow>
     (length this > 0 \<and> this ! 0 = OP_RETURN) \<or> length this > MAX_SCRIPT_SIZE"

section \<open>Script numbers: sign and magnitude\<close>

lemma ScriptNum_fold:
  fixes vch :: bytes
  assumes "n \<le> length vch" "length vch \<le> 8"
  shows "fold (\<lambda>i r. r OR push_bit (8 * i) (ucast (vch ! i))) [0..<n] (0 :: u64)
       = word_of_nat (val_of (take n vch))"
  using assms(1)
proof (induction n)
  case 0
  then show ?case by simp
next
  case (Suc n)
  let ?v = "val_of (take n vch)"
  have l: "?v < 2 ^ (8 * n)" using val_of_less [of "take n vch"] Suc.prems by simp
  have "(2::nat) ^ (8 * n) \<le> 2 ^ 64" using Suc.prems assms(2) by (intro power_increasing) simp_all
  then have u: "unat (word_of_nat ?v :: u64) = ?v" using l by (simp only: unat_of_nat) simp
  have "fold (\<lambda>i r. r OR push_bit (8 * i) (ucast (vch ! i))) [0..<Suc n] (0 :: u64)
      = word_of_nat ?v OR push_bit (8 * n) (ucast (vch ! n))"
    using Suc by simp
  also have "\<dots> = word_of_nat ?v + push_bit (8 * n) (ucast (vch ! n))"
    using u l by (intro or_disjoint_add) simp
  also have "push_bit (8 * n) (ucast (vch ! n) :: u64) = word_of_nat (unat (vch ! n) * 2 ^ (8 * n))"
    by (simp add: push_bit_eq_mult unat_ucast_up word_unat_eq_iff unat_word_ariths unat_of_nat mod_mult_left_eq mod_mult_right_eq)
  also have "word_of_nat ?v + word_of_nat (unat (vch ! n) * 2 ^ (8 * n)) = (word_of_nat (val_of (take (Suc n) vch)) :: u64)"
    using Suc.prems by (simp add: take_Suc_conv_app_nth val_of_append)
  finally show ?case .
qed

lemma val_of_last_ge:
  assumes "xs \<noteq> ([] :: bytes)"
  shows "val_of xs = val_of (butlast xs) + 2 ^ (8 * (length xs - 1)) * unat (last xs)"
  using val_of_append [of "butlast xs" "[last xs]"] assms by simp

lemma byte_split: "unat c = unat c mod 128 + (if 128 \<le> unat c then 128 else 0)" for c :: u8
proof (cases "128 \<le> unat c")
  case True
  then have "unat c mod 128 = unat c - 128"
    using unat_less_256 [of c] by (simp only: le_mod_geq) (rule mod_less; linarith)
  then show ?thesis using True by simp
qed simp

text \<open>The bytes of a magnitude with the sign attached, as \<open>serialize\<close> does in its last step.\<close>

definition attach_sign :: "bool \<Rightarrow> bytes \<Rightarrow> bytes" where
  "attach_sign neg result =
     (if last result AND 0x80 \<noteq> 0 then result @ [if neg then 0x80 else 0]
      else if neg then butlast result @ [last result OR 0x80] else result)"

definition magnitude :: "bytes \<Rightarrow> bool" where
  "magnitude xs \<longleftrightarrow> xs \<noteq> [] \<and> last xs \<noteq> 0"

lemma serialize_loop_val: "val_of (serialize_loop w) = unat w"
proof (induction w rule: serialize_loop.induct)
  case (1 w)
  show ?case
  proof (cases "w = 0")
    case True
    then show ?thesis by (subst serialize_loop.simps) simp
  next
    case False
    have "unat (ucast (w AND 0xff) :: u8) = unat w mod 256"
    proof -
      have e: "w AND 0xff = take_bit 8 w" by (simp add: take_bit_eq_mask mask_eq_exp_minus_1)
      show ?thesis unfolding e unat_ucast_mod unsigned_take_bit_eq by (simp add: take_bit_eq_mod)
    qed
    then show ?thesis using 1 [OF False] False
      by (subst serialize_loop.simps) (simp add: unat_drop_bit)
  qed
qed

lemma serialize_loop_magnitude: "w \<noteq> 0 \<Longrightarrow> magnitude (serialize_loop w)"
proof (induction w rule: serialize_loop.induct)
  case (1 w)
  show ?case
  proof (cases "drop_bit 8 w = 0")
    case True
    then have e: "serialize_loop w = [ucast (w AND 0xff)]"
      using 1(2) by (subst serialize_loop.simps, subst serialize_loop.simps) simp
    have "unat w \<noteq> 0" using 1(2) by (simp add: unat_eq_zero)
    then show ?thesis using serialize_loop_val [of w] unfolding e magnitude_def by (auto simp: unat_eq_zero)
  next
    case False
    then have "magnitude (serialize_loop (drop_bit 8 w))" using 1 by simp
    then show ?thesis using 1(2) by (subst serialize_loop.simps) (simp add: magnitude_def)
  qed
qed

lemma magnitude_lower: "magnitude zs \<Longrightarrow> 2 ^ (8 * (length zs - 1)) \<le> val_of zs"
proof -
  assume m: "magnitude zs"
  then have "unat (last zs) \<noteq> 0" by (simp add: magnitude_def unat_eq_zero)
  then have "2 ^ (8 * (length zs - 1)) * 1 \<le> 2 ^ (8 * (length zs - 1)) * unat (last zs)"
    by (intro mult_le_mono2) simp
  moreover have "val_of zs = val_of (butlast zs) + 2 ^ (8 * (length zs - 1)) * unat (last zs)"
    using m by (intro val_of_last_ge) (simp add: magnitude_def)
  ultimately show ?thesis by linarith
qed

lemma magnitude_unique:
  assumes "magnitude xs" "magnitude ys" "val_of xs = val_of ys"
  shows "xs = ys"
proof -
  have bnd: "2 ^ (8 * (length zs - 1)) \<le> val_of zs \<and> val_of zs < 2 ^ (8 * length zs) \<and> 0 < length zs"
    if "magnitude zs" for zs
    using that magnitude_lower [OF that] val_of_less [of zs] by (auto simp: magnitude_def)
  have "\<not> length zs < length ws" if "magnitude zs" "magnitude ws" "val_of zs = val_of ws" for zs ws
  proof
    assume "length zs < length ws"
    then have "(2::nat) ^ (8 * length zs) \<le> 2 ^ (8 * (length ws - 1))" by (intro power_increasing) auto
    then show False using bnd [OF that(1)] bnd [OF that(2)] that(3) by linarith
  qed
  then have "length xs = length ys" using assms by (metis linorder_less_linear)
  then show ?thesis using assms(3) val_of_inject by blast
qed

lemma serialize_loop_canonical:
  assumes "magnitude xs" "val_of xs < 2 ^ 64"
  shows "serialize_loop (word_of_nat (val_of xs)) = xs"
proof (rule magnitude_unique [OF _ assms(1)])
  have u: "unat (word_of_nat (val_of xs) :: u64) = val_of xs"
    using assms(2) by (simp only: unat_of_nat) simp
  show "val_of (serialize_loop (word_of_nat (val_of xs))) = val_of xs"
    by (simp only: serialize_loop_val u)
  have "0 < val_of xs" using magnitude_lower [OF assms(1)] by (rule less_le_trans [rotated]) simp
  then have "word_of_nat (val_of xs) \<noteq> (0 :: u64)" using u by (metis less_irrefl unat_0)
  then show "magnitude (serialize_loop (word_of_nat (val_of xs)))" by (rule serialize_loop_magnitude)
qed

lemma ScriptNum_serialize_attach:
  assumes "magnitude xs" "val_of xs < 2 ^ 63" "v = (if neg then - int (val_of xs) else int (val_of xs))"
  shows "ScriptNum_serialize v = attach_sign neg xs"
proof -
  have pos: "0 < val_of xs" using magnitude_lower [OF assms(1)] by (rule less_le_trans [rotated]) simp
  have w: "(if v < 0 then NOT (word_of_int v) + 1 else word_of_int v :: u64) = word_of_nat (val_of xs)"
    using assms(3) pos by (cases neg) (simp_all add: not_eq_complement)
  have n: "(v < 0) = neg" using assms(3) pos by (cases neg) simp_all
  have "serialize_loop (if v < 0 then NOT (word_of_int v) + 1 else word_of_int v) = xs"
    unfolding w using assms(2) by (intro serialize_loop_canonical [OF assms(1)]) simp
  moreover have "v \<noteq> 0" using assms(3) pos by (cases neg) simp_all
  ultimately show ?thesis
    unfolding ScriptNum_serialize_def attach_sign_def Let_def by (simp only: n if_False)
qed

lemma magnitude_exists:
  assumes "v \<noteq> 0" "\<bar>v\<bar> < 2 ^ 63"
  obtains xs where "magnitude xs" "val_of xs = nat \<bar>v\<bar>"
proof
  let ?w = "word_of_nat (nat \<bar>v\<bar>) :: u64"
  have "nat \<bar>v\<bar> < 2 ^ 64" using assms(2) by simp
  then have u: "unat ?w = nat \<bar>v\<bar>" by (simp only: unat_of_nat) simp
  then have "?w \<noteq> 0" using assms(1) by (metis nat_0_iff unat_0 zero_less_abs_iff not_le)
  then show "magnitude (serialize_loop ?w)" by (rule serialize_loop_magnitude)
  show "val_of (serialize_loop ?w) = nat \<bar>v\<bar>" by (simp only: serialize_loop_val u)
qed

lemma magnitude_snoc:
  assumes "magnitude xs"
  obtains ys c where "xs = ys @ [c]" "c \<noteq> 0" "val_of xs = val_of ys + 2 ^ (8 * length ys) * unat c"
    "val_of ys < 2 ^ (8 * length ys)"
proof
  show "xs = butlast xs @ [last xs]" "last xs \<noteq> 0" using assms by (simp_all add: magnitude_def)
  show "val_of xs = val_of (butlast xs) + 2 ^ (8 * length (butlast xs)) * unat (last xs)"
    using assms val_of_last_ge by (simp add: magnitude_def)
  show "val_of (butlast xs) < 2 ^ (8 * length (butlast xs))" using val_of_less [of "butlast xs"] by simp
qed

lemma between_powers:
  assumes "(2::nat) ^ a \<le> v" "v < 2 ^ b" "P \<Longrightarrow> b \<le> m" "\<not> P \<Longrightarrow> m \<le> a"
  shows "P \<longleftrightarrow> v < 2 ^ m"
proof (cases P)
  case True
  then have "(2::nat) ^ b \<le> 2 ^ m" using assms(3) by (intro power_increasing) simp_all
  then show ?thesis using True less_le_trans [OF assms(2)] by blast
next
  case False
  then have "(2::nat) ^ m \<le> 2 ^ a" using assms(4) by (intro power_increasing) simp_all
  then show ?thesis using False assms(1) by (meson leD order_trans)
qed

lemma scaled_below:
  assumes "v < (B::nat)" "c < k"
  shows "v + B * c < B * k"
proof -
  have "B * c + B \<le> B * k" using assms(2) by (metis Suc_leI add.commute mult_Suc_right mult_le_mono2)
  then show ?thesis using assms(1) by linarith
qed

lemma attach_sign_length:
  assumes "magnitude xs" "0 < n"
  shows "length (attach_sign neg xs) \<le> n \<longleftrightarrow> val_of xs < 2 ^ (8 * n - 1)"
proof -
  obtain ys c where xs: "xs = ys @ [c]" "c \<noteq> 0" and v: "val_of xs = val_of ys + 2 ^ (8 * length ys) * unat c"
    and l: "val_of ys < 2 ^ (8 * length ys)"
    using magnitude_snoc [OF assms(1)] by metis
  show ?thesis
  proof (cases "128 \<le> unat c")
    case True
    have "2 ^ (8 * length ys) * 2 ^ 7 \<le> 2 ^ (8 * length ys) * unat c" using True by (intro mult_le_mono2) simp
    then have "2 ^ (8 * length ys + 7) \<le> val_of xs" unfolding v power_add by linarith
    moreover have "val_of xs < 2 ^ (8 * length ys + 8)"
      unfolding v power_add using l unat_less_256 [of c] by (intro scaled_below) simp_all
    moreover have "length (attach_sign neg xs) = length ys + 2"
      using True by (simp add: attach_sign_def xs byte_and_80)
    ultimately show ?thesis by (intro between_powers) auto
  next
    case False
    have "2 ^ (8 * length ys) \<le> val_of xs" using magnitude_lower [OF assms(1)] xs by simp
    moreover have "val_of xs < 2 ^ (8 * length ys + 7)"
      unfolding v power_add using l False by (intro scaled_below) simp_all
    moreover have "length (attach_sign neg xs) = length ys + 1"
      using False by (simp add: attach_sign_def xs byte_and_80)
    ultimately show ?thesis using assms(2) by (intro between_powers) auto
  qed
qed

lemma clear_bit_above:
  "unat w < 2 ^ n \<Longrightarrow> (w OR push_bit n 1) AND NOT (push_bit n 1) = w" for w :: "'a::len word"
proof (rule bit_word_eqI)
  fix i
  assume w: "unat w < 2 ^ n" and "i < LENGTH('a)"
  moreover have "\<not> bit w n" using w by (simp add: bit_odd_div)
  ultimately show "bit ((w OR push_bit n 1) AND NOT (push_bit n 1)) i = bit w i"
    by (cases "i = n") (simp_all add: bit_simps)
qed

lemma ScriptNum_set_vch_snoc:
  assumes "length zs \<le> 7"
  shows "ScriptNum_set_vch (zs @ [d]) =
    (let m = val_of zs + 2 ^ (8 * length zs) * (unat d mod 128)
     in Inr (if 128 \<le> unat d then - int m else int m))"
proof -
  let ?k = "8 * length zs" and ?n = "unat d mod 128"
  define m where "m = val_of zs + 2 ^ ?k * ?n"
  let ?w = "word_of_nat m :: u64"
  have "val_of zs < 2 ^ ?k" using val_of_less [of zs] by simp
  then have m: "m < 2 ^ (?k + 7)" unfolding m_def power_add by (intro scaled_below) simp_all
  have "(2::nat) ^ (?k + 7) \<le> 2 ^ 63" using assms by (intro power_increasing) simp_all
  then have m63: "m < 2 ^ 63" using m by linarith
  have u: "unat ?w = m" using m63 by (simp only: unat_of_nat) simp
  have "sint (word_of_int (int m) :: u64) = int m"
    unfolding sint_sbintrunc' using m63 by (intro signed_take_bit_int_eq_self) simp_all
  then have si: "sint ?w = int m" by simp
  have e: "val_of (zs @ [d]) = m + (if 128 \<le> unat d then 2 ^ (?k + 7) else 0)"
    using arg_cong [OF byte_split [of d], of "\<lambda>x. 2 ^ ?k * x"]
    by (simp add: m_def val_of_append power_add distrib_left)
  have f: "fold (\<lambda>i r. r OR push_bit (8 * i) (ucast ((zs @ [d]) ! i))) [0..<length (zs @ [d])] (0 :: u64)
      = word_of_nat (val_of (zs @ [d]))"
    using ScriptNum_fold [of "length (zs @ [d])" "zs @ [d]"] assms by simp
  show ?thesis
  proof (cases "128 \<le> unat d")
    case True
    have p: "push_bit ?k 0x80 = (push_bit (?k + 7) 1 :: u64)"
      unfolding push_bit_eq_mult power_add by simp
    have "(word_of_nat (val_of (zs @ [d])) :: u64) = ?w + push_bit (?k + 7) 1"
      unfolding e push_bit_eq_mult using True by simp
    also have "\<dots> = ?w OR push_bit (?k + 7) 1"
      using m u by (intro or_disjoint_add [symmetric]) simp
    finally have "word_of_nat (val_of (zs @ [d])) AND NOT (push_bit ?k 0x80) = ?w"
      unfolding p using clear_bit_above [of ?w "?k + 7"] m u by simp
    then show ?thesis
      using True assms si unfolding ScriptNum_set_vch_def Let_def f m_def [symmetric] by (simp add: byte_and_80)
  next
    case False
    then show ?thesis
      using assms si e unfolding ScriptNum_set_vch_def Let_def f m_def [symmetric] by (simp add: byte_and_80)
  qed
qed

lemma byte_or_sign: "unat c < 128 \<Longrightarrow> unat (c OR 0x80) = unat c + 128" for c :: u8
  using byte_or_80 [of "unat c"] by simp

lemma attach_sign_cases:
  assumes "magnitude xs"
  obtains (long) "128 \<le> unat (last xs)" "attach_sign neg xs = xs @ [if neg then 0x80 else 0]"
  | (short) ys c d where "xs = ys @ [c]" "0 < unat c" "unat c < 128" "attach_sign neg xs = ys @ [d]"
      "unat d = unat c + (if neg then 128 else 0)"
proof -
  obtain ys c where xs: "xs = ys @ [c]" "c \<noteq> 0" using magnitude_snoc [OF assms] by metis
  show thesis
  proof (cases "128 \<le> unat c")
    case True
    then show ?thesis using long xs by (simp add: attach_sign_def byte_and_80)
  next
    case False
    moreover have "attach_sign neg xs = ys @ [if neg then c OR 0x80 else c]"
      using False xs by (simp add: attach_sign_def byte_and_80)
    ultimately show ?thesis
      using short [of ys c "if neg then c OR 0x80 else c"] xs byte_or_sign [of c] by (simp add: unat_gt_0)
  qed
qed

lemma attach_sign_set_vch:
  assumes "magnitude xs" "val_of xs < 2 ^ 63"
  shows "ScriptNum_set_vch (attach_sign neg xs) = Inr (if neg then - int (val_of xs) else int (val_of xs))"
proof -
  have l: "length (attach_sign neg xs) \<le> 8" using attach_sign_length [OF assms(1), of 8] assms(2) by simp
  show ?thesis using assms(1)
  proof (cases rule: attach_sign_cases [where neg = neg])
    case long
    then show ?thesis using ScriptNum_set_vch_snoc [of xs "if neg then 0x80 else 0"] l by simp
  next
    case (short ys c d)
    then have "unat d mod 128 = unat c" by simp
    then show ?thesis
      using short l ScriptNum_set_vch_snoc [of ys d] by (simp add: val_of_append)
  qed
qed

lemma attach_sign_minimal:
  assumes "magnitude xs"
  shows "\<not> (last (attach_sign neg xs) AND 0x7f = 0 \<and>
     (length (attach_sign neg xs) \<le> 1 \<or> (attach_sign neg xs ! (length (attach_sign neg xs) - 2)) AND 0x80 = 0))"
  using assms
proof (cases rule: attach_sign_cases [where neg = neg])
  case long
  have "xs ! (length xs - 1) = last xs" using assms by (simp add: magnitude_def last_conv_nth)
  then show ?thesis using long assms by (simp add: magnitude_def nth_append byte_and_80)
next
  case (short ys c d)
  then have "unat (d AND 0x7f) = unat c" unfolding unat_byte_and_7f by simp
  then have "d AND 0x7f \<noteq> 0" using short(2) by (metis less_irrefl unat_0)
  then show ?thesis using short(4) by simp
qed

lemma minimal_attach_sign:
  assumes "vch \<noteq> []" "\<not> (last vch AND 0x7f = 0 \<and> (length vch \<le> 1 \<or> (vch ! (length vch - 2)) AND 0x80 = 0))"
  obtains neg xs where "magnitude xs" "vch = attach_sign neg xs"
proof -
  obtain ys d where vch: "vch = ys @ [d]" using assms(1) by (metis rev_exhaust)
  have low: "d AND 0x7f = 0 \<longleftrightarrow> unat d mod 128 = 0" by (simp add: unat_eq_zero flip: unat_byte_and_7f)
  show thesis
  proof (cases "unat d mod 128 = 0")
    case True
    then have ys: "ys \<noteq> []" "\<not> last ys AND 0x80 = 0"
      using assms(2) vch low by (auto simp: last_conv_nth nth_append)
    have "unat d = (if 128 \<le> unat d then 128 else 0)" using byte_split [of d] True by simp
    then have "d = (if 128 \<le> unat d then 0x80 else 0)" by (auto simp: unat_eq_iff)
    then have "vch = attach_sign (128 \<le> unat d) ys" using ys vch by (simp add: attach_sign_def)
    moreover have "magnitude ys" using ys by (auto simp: magnitude_def)
    ultimately show ?thesis using that by blast
  next
    case False
    let ?c = "word_of_nat (unat d mod 128) :: u8"
    have c: "unat ?c = unat d mod 128" using unat_less_256 [of d] by (simp only: unat_of_nat) (simp add: mod_less)
    have "magnitude (ys @ [?c])" using False c by (auto simp: magnitude_def)
    moreover have "vch = attach_sign (128 \<le> unat d) (ys @ [?c])"
      using c byte_high [of d] vch by (auto simp: attach_sign_def byte_and_80)
    ultimately show ?thesis using that by blast
  qed
qed

text \<open>
  Property C36.  A number of the range of \<open>int64_t\<close> (the least one apart) that is serialized reads
  back, with the minimality check on, exactly if it fits in the number of bytes allowed, and is the
  error ``script number overflow'' otherwise.
\<close>

theorem ScriptNum_roundtrip:
  assumes "\<bar>v\<bar> < 2 ^ 63" "0 < n" "n \<le> 8"
  shows "ScriptNum_new (ScriptNum_serialize v) True n =
    (if \<bar>v\<bar> < 2 ^ (8 * n - 1) then Inr v else Inl (ScriptNumError ''script number overflow''))"
proof (cases "v = 0")
  case True
  then show ?thesis by (simp add: ScriptNum_serialize_def ScriptNum_new_def ScriptNum_set_vch_def)
next
  case False
  then obtain xs where xs: "magnitude xs" "val_of xs = nat \<bar>v\<bar>"
    using assms(1) magnitude_exists by metis
  have v63: "val_of xs < 2 ^ 63" using xs(2) assms(1) by simp
  have v: "v = (if v < 0 then - int (val_of xs) else int (val_of xs))" using xs(2) by simp
  have "\<bar>v\<bar> < 2 ^ (8 * n - 1) \<longleftrightarrow> val_of xs < 2 ^ (8 * n - 1)"
    using xs(2) by (metis abs_ge_zero int_nat_eq of_nat_less_numeral_power_cancel_iff)
  then show ?thesis
    using attach_sign_length [OF xs(1) assms(2), of "v < 0"] attach_sign_minimal [OF xs(1), of "v < 0"]
      attach_sign_set_vch [OF xs(1) v63, of "v < 0"] v
    unfolding ScriptNum_serialize_attach [OF xs(1) v63 v] ScriptNum_new_def by auto
qed

theorem ScriptNum_roundtrip_witness:
  "ScriptNum_new (ScriptNum_serialize (- 255)) True 4 = Inr (- 255) \<and>
   ScriptNum_new (ScriptNum_serialize (2 ^ 31)) True 4 = Inl (ScriptNumError ''script number overflow'')"
  using ScriptNum_roundtrip [of "- 255" 4] ScriptNum_roundtrip [of "2 ^ 31" 4] by simp

text \<open>
  Property.  The minimality check leaves one encoding per number: what the checked constructor
  accepts is what \<open>serialize\<close> writes for the number it returns, and that number is in range.
\<close>

theorem ScriptNum_new_canonical:
  assumes "ScriptNum_new vch True n = Inr v" "0 < n" "n \<le> 8"
  shows "ScriptNum_serialize v = vch \<and> \<bar>v\<bar> < 2 ^ (8 * n - 1)"
proof (cases "vch = []")
  case True
  then show ?thesis using assms by (auto simp: ScriptNum_new_def ScriptNum_set_vch_def ScriptNum_serialize_def)
next
  case False
  have l: "length vch \<le> n" using assms(1) by (auto simp: ScriptNum_new_def split: if_splits)
  have s: "ScriptNum_set_vch vch = Inr v" using assms(1) by (auto simp: ScriptNum_new_def split: if_splits)
  have "\<not> (last vch AND 0x7f = 0 \<and> (length vch \<le> 1 \<or> (vch ! (length vch - 2)) AND 0x80 = 0))"
    using assms(1) False unfolding ScriptNum_new_def by (metis Inl_Inr_False length_greater_0_conv)
  then obtain neg xs where xs: "magnitude xs" "vch = attach_sign neg xs"
    by (rule minimal_attach_sign [OF False])
  have vn: "val_of xs < 2 ^ (8 * n - 1)" using attach_sign_length [OF xs(1) assms(2)] l xs(2) by simp
  have "(2::nat) ^ (8 * n - 1) \<le> 2 ^ 63" using assms(3) by (intro power_increasing) simp_all
  then have v63: "val_of xs < 2 ^ 63" using vn by linarith
  have v: "v = (if neg then - int (val_of xs) else int (val_of xs))"
    using s attach_sign_set_vch [OF xs(1) v63, of neg] xs(2) by simp
  have "int (val_of xs) < 2 ^ (8 * n - 1)" using vn by simp
  then show ?thesis using ScriptNum_serialize_attach [OF xs(1) v63 v] xs(2) v by (cases neg) simp_all
qed

theorem ScriptNum_new_canonical_witness:
  "ScriptNum_serialize (- 255) = [0xff, 0x80] \<and> \<bar>- 255\<bar> < (2::int) ^ (8 * 4 - 1)"
proof (rule ScriptNum_new_canonical)
  show "ScriptNum_new [0xff, 0x80] True 4 = Inr (- 255)" by code_simp
qed simp_all

section \<open>Pushing and reading back\<close>

lemma GetOp2_end: "GetOp2 h this pc = (True, pc', opcode, data) \<Longrightarrow> pc' \<le> length this"
proof -
  assume a: "GetOp2 h this pc = (True, pc', opcode, data)"
  have size_end: "q' \<le> length this" if "GetOp2_size h this q c = Inr (q', n)" "q \<le> length this" for q c q' n
    using that by (auto simp: GetOp2_size_def split: if_splits)
  have fits: "q + unat n \<le> length this"
    if "\<not> (word_of_nat (length this - q) :: u32) < n" "q \<le> length this" for q n
  proof -
    have "unat n \<le> unat (word_of_nat (length this - q) :: u32)" using that(1) by (simp add: word_le_nat_alt not_less)
    also have "\<dots> \<le> length this - q" by (simp only: unat_of_nat) (rule mod_less_eq_dividend)
    finally show ?thesis using that(2) by simp
  qed
  show ?thesis using a
    by (auto simp: GetOp2_def Let_def split: if_splits sum.splits prod.splits dest!: size_end fits)
qed

definition push_header :: "nat \<Rightarrow> bytes" where
  "push_header n =
     (if n < 0x4c then [word_of_nat n] else if n \<le> 0xff then [OP_PUSHDATA1, word_of_nat n]
      else if n \<le> 0xffff then OP_PUSHDATA2 # digits_of 2 n else OP_PUSHDATA4 # digits_of 4 n)"

lemma Script_push_data_eq:
  assumes "length b < 2 ^ 32"
  shows "Script_push_data h this b = this @ push_header (length b) @ b"
proof -
  have "length b \<le> 0xffff \<Longrightarrow> unat (word_of_nat (length b) :: u16) = length b"
    by (simp only: unat_of_nat) simp
  moreover have "unat (word_of_nat (length b) :: u32) = length b"
    using assms by (simp only: unat_of_nat) simp
  ultimately show ?thesis by (simp add: Script_push_data_def push_header_def)
qed

lemma ucast_of_nat:
  "n < 2 ^ LENGTH('a) \<Longrightarrow> LENGTH('a) \<le> LENGTH('b) \<Longrightarrow>
   ucast (word_of_nat n :: 'a::len word) = (word_of_nat n :: 'b::len word)"
proof -
  assume n: "n < 2 ^ LENGTH('a)" and l: "LENGTH('a) \<le> LENGTH('b)"
  have "(2::nat) ^ LENGTH('a) \<le> 2 ^ LENGTH('b)" using l by (intro power_increasing) simp_all
  then have "n < 2 ^ LENGTH('b)" using n by (rule less_le_trans [rotated])
  then show ?thesis using n l by (simp add: word_unat_eq_iff unat_ucast_up unat_of_nat)
qed

lemma push_header_cases:
  obtains (direct) "n < 0x4c" "push_header n = [word_of_nat n]" "(word_of_nat n :: u8) < OP_PUSHDATA1"
      "ucast (word_of_nat n :: u8) = (word_of_nat n :: u32)"
  | (one) "n \<le> 0xff" "push_header n = [OP_PUSHDATA1, word_of_nat n]"
      "ucast (word_of_nat n :: u8) = (word_of_nat n :: u32)"
  | (two) "n \<le> 0xffff" "push_header n = OP_PUSHDATA2 # digits_of 2 n"
  | (four) "push_header n = OP_PUSHDATA4 # digits_of 4 n"
proof -
  have u: "n \<le> 0xff \<Longrightarrow> unat (word_of_nat n :: u8) = n" by (simp only: unat_of_nat) simp
  then have c: "n \<le> 0xff \<Longrightarrow> ucast (word_of_nat n :: u8) = (word_of_nat n :: u32)"
    by (intro ucast_of_nat) simp_all
  have d: "n < 0x4c \<Longrightarrow> (word_of_nat n :: u8) < OP_PUSHDATA1" using u by (simp add: word_less_nat_alt)
  consider "n < 0x4c" | "0x4c \<le> n" "n \<le> 0xff" | "0xff < n" "n \<le> 0xffff" | "0xffff < n" by linarith
  then show thesis
    by cases (use direct one two four c d in \<open>auto simp: push_header_def\<close>)
qed

lemma val_of_digits [simp]: "n < 2 ^ (8 * k) \<Longrightarrow> val_of (digits_of k n :: bytes) = n"
  by (simp add: val_of_digits_of)

lemma GetOp2_header:
  assumes "n < 2 ^ 32"
  shows "hd (push_header n) \<le> OP_PUSHDATA4 \<and>
    GetOp2_size h (this @ push_header n @ b) (length this + 1) (hd (push_header n))
     = Inr (length this + length (push_header n), word_of_nat n)"
proof (cases rule: push_header_cases [of n])
  case direct
  have "(word_of_nat n :: u8) \<le> OP_PUSHDATA4" using direct(3) by (rule order_trans [OF less_imp_le]) simp
  then show ?thesis using direct by (simp add: GetOp2_size_def)
next
  case one
  then show ?thesis by (simp add: GetOp2_size_def nth_append)
next
  case two
  let ?s = "this @ push_header n @ b"
  have d: "drop (length this + 1) ?s = digits_of 2 n @ b" using two by simp
  have "ReadLE16 h (drop (length this + 1) ?s) = word_of_nat n"
    unfolding d using two(1) by (subst ReadLE16_value) simp_all
  moreover have "ucast (word_of_nat n :: u16) = (word_of_nat n :: u32)"
    using two(1) by (intro ucast_of_nat) simp_all
  ultimately show ?thesis using two by (simp add: GetOp2_size_def)
next
  case four
  let ?s = "this @ push_header n @ b"
  have d: "drop (length this + 1) ?s = digits_of 4 n @ b" using four by simp
  have "ReadLE32 h (drop (length this + 1) ?s) = word_of_nat n"
    unfolding d using assms by (subst ReadLE32_value) simp_all
  then show ?thesis using four by (simp add: GetOp2_size_def)
qed

lemma push_header_nonempty [simp]: "push_header n \<noteq> []"
  by (simp add: push_header_def)

lemma GetOp2_push:
  assumes "length (this @ push_header (length b) @ b @ rest) < 2 ^ 32"
  shows "GetOp2 h (this @ push_header (length b) @ b @ rest) (length this)
     = (True, length (this @ push_header (length b) @ b), hd (push_header (length b)), b)"
proof -
  let ?p = "push_header (length b)" and ?s = "this @ push_header (length b) @ b @ rest"
  have n: "length b < 2 ^ 32" using assms by simp
  note hdr = GetOp2_header [OF n, of h this "b @ rest"]
  have "?s ! length this = hd ?p" by (simp add: nth_append hd_conv_nth)
  moreover have "length this < length ?s" by (simp add: push_header_def)
  moreover have u: "unat (word_of_nat (length b) :: u32) = length b" using n by (simp only: unat_of_nat) simp
  moreover have "\<not> (word_of_nat (length ?s - (length this + length ?p)) :: u32) < word_of_nat (length b)"
  proof -
    have "length ?s - (length this + length ?p) = length b + length rest" by simp
    moreover have "unat (word_of_nat (length b + length rest) :: u32) = length b + length rest"
      using assms by (simp only: unat_of_nat) simp
    ultimately show ?thesis using u by (simp only: word_less_nat_alt)
  qed
  ultimately show ?thesis using hdr by (simp add: GetOp2_def Let_def)
qed

text \<open>
  Property C37.  What \<open>operator<<\<close> appends to a script for a byte vector is read back by one \<open>GetOp\<close>
  at the place where it was appended, whatever follows: the vector itself, an opcode no larger than
  \<open>OP_PUSHDATA4\<close>, and the iterator at the byte behind it.
\<close>

theorem push_data_GetOp:
  assumes "length (Script_push_data h this b @ rest) < 2 ^ 32"
  shows "\<exists>opcode. GetOp2 h (Script_push_data h this b @ rest) (length this)
    = (True, length (Script_push_data h this b), opcode, b) \<and> opcode \<le> OP_PUSHDATA4"
proof -
  have l: "length b < 2 ^ 32" using assms by (simp add: Script_push_data_def split: if_splits)
  then show ?thesis
    using assms GetOp2_push [of this b rest h] GetOp2_header [OF l, of h this] by (simp add: Script_push_data_eq)
qed

theorem push_data_GetOp_witness:
  "\<exists>opcode. GetOp2 LittleEndianHost (Script_push_data LittleEndianHost [OP_DUP] (replicate 300 7) @ [OP_CHECKSIG]) (length [OP_DUP])
    = (True, length (Script_push_data LittleEndianHost [OP_DUP] (replicate 300 7)), opcode, replicate 300 7) \<and> opcode \<le> OP_PUSHDATA4"
  by (rule push_data_GetOp) (simp add: Script_push_data_def)

section \<open>Removing a subscript\<close>

text \<open>
  What is left of a script, and how often \<open>b\<close> was removed, when one starts at the front and at every
  boundary between opcodes removes \<open>b\<close> as often as it stands there before keeping the next opcode.
  From the place on where no opcode can be read the script is kept as it is.
\<close>

inductive purged :: "host_order \<Rightarrow> bytes \<Rightarrow> bytes \<Rightarrow> bytes \<Rightarrow> nat \<Rightarrow> bool" for h b where
  purged_drop: "purged h b s r n \<Longrightarrow> purged h b (b @ s) r (Suc n)"
| purged_keep: "\<not> prefix b s \<Longrightarrow> GetOp2 h s 0 = (True, k, opcode, data) \<Longrightarrow> purged h b (drop k s) r n \<Longrightarrow>
    purged h b s (take k s @ r) n"
| purged_stop: "\<not> prefix b s \<Longrightarrow> \<not> fst (GetOp2 h s 0) \<Longrightarrow> purged h b s s 0"

lemma purged_length: "purged h b s r n \<Longrightarrow> length r + n * length b = length s"
proof (induction rule: purged.induct)
  case (purged_keep s k opcode data r n)
  then show ?case using GetOp2_end [OF purged_keep(2)] by simp
qed auto

lemma purged_subseq: "purged h b s r n \<Longrightarrow> subseq r s"
proof (induction rule: purged.induct)
  case (purged_keep s k opcode data r n)
  then show ?case using list_emb_append_mono [of "(=)" "take k s" "take k s" r "drop k s"] by simp
qed (auto intro: list_emb_append2)

lemma purged_0: "purged h b s r 0 \<Longrightarrow> r = s"
  by (induction s r "0 :: nat" rule: purged.induct) auto

lemma purged_unique: "purged h b s r n \<Longrightarrow> purged h b s r' n' \<Longrightarrow> r' = r \<and> n' = n"
proof (induction arbitrary: r' n' rule: purged.induct)
  case (purged_drop s r n)
  from purged_drop.prems show ?case by (cases rule: purged.cases) (use purged_drop.IH in auto)
next
  case (purged_keep s k opcode data r n)
  from purged_keep.prems show ?case
    by (cases rule: purged.cases) (use purged_keep.hyps(1,2) purged_keep.IH in auto)
next
  case (purged_stop s)
  from purged_stop.prems show ?case by (cases rule: purged.cases) (use purged_stop.hyps in auto)
qed

text \<open>Reading an opcode does not depend on what stands before it.\<close>

lemma GetOp2_size_drop:
  "pc \<le> length this \<Longrightarrow> GetOp2_size h this (pc + q) opcode =
     (case GetOp2_size h (drop pc this) q opcode of Inl q' \<Rightarrow> Inl (pc + q') | Inr (q', n) \<Rightarrow> Inr (pc + q', n))"
  by (simp add: GetOp2_size_def add.commute add.left_commute)

lemma GetOp2_drop:
  assumes "pc \<le> length this"
  shows "GetOp2 h this pc = (case GetOp2 h (drop pc this) 0 of (f, k, c, d) \<Rightarrow> (f, pc + k, c, d))"
proof (cases "pc = length this")
  case False
  then have "pc < length this" using assms by simp
  then show ?thesis using GetOp2_size_drop [OF assms, of h 1]
    by (auto simp: GetOp2_def Let_def add.commute add.left_commute split: sum.splits prod.splits)
qed (simp add: GetOp2_def)

lemma FindAndDelete_skip_purged:
  assumes "FindAndDelete_skip this b pc n = (pc', n')" "b \<noteq> []" "pc \<le> length this"
  shows "pc' \<le> length this \<and> \<not> prefix b (drop pc' this) \<and> n \<le> n' \<and>
    (\<forall>r m. purged h b (drop pc' this) r m \<longrightarrow> purged h b (drop pc this) r (n' - n + m))"
  using assms
proof (induction this b pc n rule: FindAndDelete_skip.induct)
  case (1 this b pc n)
  show ?case
  proof (cases "length this - pc \<ge> length b \<and> take (length b) (drop pc this) = b")
    case True
    then have d: "drop pc this = b @ drop (pc + length b) this"
      by (metis add.commute append_take_drop_id drop_drop)
    have "FindAndDelete_skip this b (pc + length b) (n + 1) = (pc', n')"
      using True "1.prems" by (subst (asm) FindAndDelete_skip.simps) simp
    moreover have "pc + length b \<le> length this" using True "1.prems"(3) by linarith
    ultimately have "pc' \<le> length this \<and> \<not> prefix b (drop pc' this) \<and> n + 1 \<le> n' \<and>
        (\<forall>r m. purged h b (drop pc' this) r m \<longrightarrow> purged h b (drop (pc + length b) this) r (n' - (n + 1) + m))"
      using "1.IH" True "1.prems"(2) by blast
    then show ?thesis unfolding d using purged_drop [of h b "drop (pc + length b) this"]
      by (metis Suc_diff_Suc Suc_eq_plus1 Suc_le_eq add_Suc less_imp_le)
  next
    case False
    then have "pc' = pc" "n' = n" using "1.prems" by (subst (asm) FindAndDelete_skip.simps; auto)+
    moreover have "\<not> prefix b (drop pc this)"
      using False by (auto simp: prefix_def) (metis add_diff_cancel_left' append_eq_conv_conj length_append length_drop le_add1)
    ultimately show ?thesis using "1.prems" by simp
  qed
qed

lemma FindAndDelete_loop_purged:
  assumes "FindAndDelete_loop h this b result pc2 pc n = (result', pc', n')" "b \<noteq> []" "pc \<le> length this"
  shows "\<exists>r m. purged h b (drop pc this) r m \<and> n' = n + m \<and>
    result' @ drop pc' this = result @ take (pc - pc2) (drop pc2 this) @ r"
  using assms
proof (induction h this b result pc2 pc n rule: FindAndDelete_loop.induct)
  case (1 h this b result pc2 pc n)
  let ?r = "result @ take (pc - pc2) (drop pc2 this)"
  obtain pc1 n1 where s: "FindAndDelete_skip this b pc n = (pc1, n1)" by fastforce
  note skip = FindAndDelete_skip_purged [OF s "1.prems"(2,3), of h]
  obtain f k c d where g0: "GetOp2 h (drop pc1 this) 0 = (f, k, c, d)" by (metis prod_cases4)
  then have g: "GetOp2 h this pc1 = (f, pc1 + k, c, d)" using GetOp2_drop [of pc1 this h] skip by simp
  show ?case
  proof (cases f)
    case True
    then have run: "FindAndDelete_loop h this b ?r pc1 (pc1 + k) n1 = (result', pc', n')"
      using "1.prems"(1) s g by (subst (asm) FindAndDelete_loop.simps) simp
    have "pc1 + k \<le> length this" using GetOp2_end [of h this pc1] g True by simp
    with 1(1) [OF refl s [symmetric] refl g [symmetric] refl refl] run True "1.prems"(2)
    obtain r m where r: "purged h b (drop (pc1 + k) this) r m" "n' = n1 + m"
      "result' @ drop pc' this = ?r @ take k (drop pc1 this) @ r" by auto
    have "purged h b (drop pc1 this) (take k (drop pc1 this) @ r) m"
      using purged_keep [of b "drop pc1 this" h k c d r m] skip g0 True r(1) by (simp add: add.commute)
    then have "purged h b (drop pc this) (take k (drop pc1 this) @ r) (n1 - n + m)" using skip by blast
    then show ?thesis using r skip by (intro exI conjI) auto
  next
    case False
    then have e: "result' = ?r" "pc' = pc1" "n' = n1"
      using "1.prems"(1) s g by (subst (asm) FindAndDelete_loop.simps; simp)+
    have "purged h b (drop pc1 this) (drop pc1 this) 0" using purged_stop [of b _ h] skip g0 False by simp
    then have "purged h b (drop pc this) (drop pc1 this) (n1 - n + 0)" using skip by blast
    then show ?thesis using e skip by (intro exI conjI) auto
  qed
qed

lemma FindAndDelete_purged:
  assumes "b \<noteq> []" "FindAndDelete h this b = (n, r)"
  shows "purged h b this r n"
proof -
  obtain result pc m where l: "FindAndDelete_loop h this b [] 0 0 0 = (result, pc, m)" by (metis prod_cases3)
  from FindAndDelete_loop_purged [OF l assms(1)] have p: "purged h b this (result @ drop pc this) m" by auto
  show ?thesis
  proof (cases "m = 0")
    case True
    then have "n = 0" "r = this" using assms l by (simp_all add: FindAndDelete_def)
    then show ?thesis using p True purged_0 [of h b this "result @ drop pc this"] by simp
  next
    case False
    then show ?thesis using p assms l by (auto simp: FindAndDelete_def)
  qed
qed

text \<open>A string that is one opcode with its operand, and nothing else.\<close>

definition is_op :: "host_order \<Rightarrow> bytes \<Rightarrow> bool" where
  "is_op h x = (case GetOp2 h x 0 of (f, k, opcode, data) \<Rightarrow> f \<and> k = length x)"

lemma GetOp2_append:
  assumes "GetOp2 h x 0 = (True, k, opcode, data)" "length (x @ rest) < 2 ^ 32"
  shows "GetOp2 h (x @ rest) 0 = (True, k, opcode, data)"
proof -
  let ?y = "x @ rest"
  have x: "0 < length x" using GetOp2_progress [OF assms(1)] by simp
  then have op: "?y ! 0 = x ! 0" by (simp add: nth_append)
  show ?thesis
  proof (cases "x ! 0 \<le> OP_PUSHDATA4")
    case True
    then obtain q n where q: "GetOp2_size h x 1 (x ! 0) = Inr (q, n)" "\<not> (word_of_nat (length x - q) :: u32) < n"
        "k = q + unat n" "opcode = x ! 0" "data = take (unat n) (drop q x)"
      using assms(1) x by (auto simp: GetOp2_def Let_def split: if_splits sum.splits)
    have ql: "q \<le> length x" using q(1) x by (auto simp: GetOp2_size_def Suc_le_eq split: if_splits)
    have s: "GetOp2_size h ?y 1 (x ! 0) = Inr (q, n)"
      using q(1) x by (auto simp: GetOp2_size_def ReadLE16_def ReadLE32_def nth_append split: if_splits)
    have kl: "q + unat n \<le> length x" using GetOp2_end [OF assms(1)] q(3) by simp
    have "unat (word_of_nat (length ?y - q) :: u32) = length ?y - q" using assms(2) by (simp add: unat_of_nat)
    then have "\<not> (word_of_nat (length ?y - q) :: u32) < n" using kl by (simp add: word_less_nat_alt)
    moreover have "take (unat n) (drop q ?y) = data" using q(5) kl ql by simp
    ultimately show ?thesis using x op True s q(3,4) by (simp add: GetOp2_def Let_def)
  next
    case False
    then show ?thesis using assms(1) x op by (auto simp: GetOp2_def Let_def)
  qed
qed

lemma is_op_append:
  assumes "is_op h x" "length (x @ rest) < 2 ^ 32"
  shows "\<exists>opcode data. GetOp2 h (x @ rest) 0 = (True, length x, opcode, data)"
proof -
  obtain opcode data where "GetOp2 h x 0 = (True, length x, opcode, data)" using assms(1) by (auto simp: is_op_def)
  from GetOp2_append [OF this assms(2)] show ?thesis by blast
qed

lemma is_op_prefix:
  assumes "is_op h x" "is_op h b" "length (x @ rest) < 2 ^ 32" "prefix b (x @ rest)"
  shows "x = b"
proof -
  obtain u where u: "x @ rest = b @ u" using assms(4) by (auto simp: prefix_def)
  obtain c d where 1: "GetOp2 h (x @ rest) 0 = (True, length x, c, d)" using is_op_append [OF assms(1,3)] by blast
  obtain c' d' where 2: "GetOp2 h (b @ u) 0 = (True, length b, c', d')" using is_op_append [OF assms(2)] assms(3) u by metis
  have "length x = length b" using 1 2 unfolding u by simp
  then show ?thesis using u by simp
qed

lemma is_op_nonempty: "is_op h x \<Longrightarrow> x \<noteq> []"
  by (auto simp: is_op_def GetOp2_def)

lemma purged_ops:
  assumes "is_op h b" "list_all (is_op h) ops" "length (concat ops) < 2 ^ 32"
  shows "purged h b (concat ops) (concat (filter (\<lambda>x. x \<noteq> b) ops)) (count_list ops b)"
  using assms(2,3)
proof (induction ops)
  case Nil
  show ?case using purged_stop [of b "[]" h] is_op_nonempty [OF assms(1)] by (simp add: GetOp2_def)
next
  case (Cons x ops)
  then have IH: "purged h b (concat ops) (concat (filter (\<lambda>x. x \<noteq> b) ops)) (count_list ops b)" by simp
  show ?case
  proof (cases "x = b")
    case True
    then show ?thesis using purged_drop [OF IH] by simp
  next
    case False
    then have "\<not> prefix b (x @ concat ops)" using is_op_prefix [of h x b "concat ops"] assms(1) Cons.prems by auto
    moreover obtain opcode data where "GetOp2 h (x @ concat ops) 0 = (True, length x, opcode, data)"
      using is_op_append [of h x "concat ops"] Cons.prems by auto
    ultimately show ?thesis using purged_keep [of b "x @ concat ops" h "length x"] IH False by simp
  qed
qed

text \<open>
  Property C25.  \<open>FindAndDelete\<close> of a subscript \<open>b\<close> that is not empty removes exactly what is to be removed: from
  the front on, at every boundary between opcodes, all the copies of \<open>b\<close> that stand there, up to the
  place where no opcode can be read; it returns their number.  In particular, for one opcode \<open>b\<close>
  and a script that is a sequence of opcodes below \<open>2 ^ 32\<close> bytes, those equal to \<open>b\<close> are removed, all others
  are kept, and the number is how often \<open>b\<close> is among them.
\<close>

theorem FindAndDelete_correct:
  assumes "b \<noteq> []"
  shows "(FindAndDelete h this b = (nFound, this') \<longleftrightarrow> purged h b this this' nFound) \<and>
    (\<forall>ops. list_all (is_op h) (b # ops) \<and> length (concat ops) < 2 ^ 32 \<longrightarrow>
       FindAndDelete h (concat ops) b = (count_list ops b, concat (filter (\<lambda>x. x \<noteq> b) ops)))"
proof -
  have iff: "FindAndDelete h s b = (n, r) \<longleftrightarrow> purged h b s r n" for s n r
    using FindAndDelete_purged [OF assms, of h s] purged_unique [of h b s] by (cases "FindAndDelete h s b") blast
  then show ?thesis using purged_ops [of h b] by simp
qed

text \<open>Two separators are removed, the byte of the same value inside a push is not.\<close>

theorem FindAndDelete_correct_witness:
  "FindAndDelete LittleEndianHost [0x51, 0xab, 0xab, 0x02, 0xab, 0x07, 0x52, 0xab] [0xab] =
     (3, [0x51, 0x02, 0xab, 0x07, 0x52]) \<and>
   purged LittleEndianHost [0xab] [0x51, 0xab, 0xab, 0x02, 0xab, 0x07, 0x52, 0xab] [0x51, 0x02, 0xab, 0x07, 0x52] 3"
proof -
  let ?ops = "[[0x51], [0xab], [0xab], [0x02, 0xab, 0x07], [0x52], [0xab]] :: bytes list"
  have ops: "list_all (is_op LittleEndianHost) ([0xab] # ?ops)" by code_simp
  then have "FindAndDelete LittleEndianHost (concat ?ops) [0xab] =
      (count_list ?ops [0xab], concat (filter (\<lambda>x. x \<noteq> [0xab]) ?ops))"
    by (intro FindAndDelete_correct [of "[0xab]" LittleEndianHost "[]" 0 "[]", THEN conjunct2, THEN spec, THEN mp]) simp_all
  then have "FindAndDelete LittleEndianHost [0x51, 0xab, 0xab, 0x02, 0xab, 0x07, 0x52, 0xab] [0xab] =
     (3, [0x51, 0x02, 0xab, 0x07, 0x52])" by simp
  then show ?thesis using FindAndDelete_correct [of "[0xab]" LittleEndianHost "[0x51, 0xab, 0xab, 0x02, 0xab, 0x07, 0x52, 0xab]"
      3 "[0x51, 0x02, 0xab, 0x07, 0x52]"] by simp
qed

section \<open>Counting signature operations\<close>

text \<open>A script that pushes the items of a list, one after the other.\<close>

definition push_all :: "host_order \<Rightarrow> bytes list \<Rightarrow> bytes" where
  "push_all h items = fold (\<lambda>b this. Script_push_data h this b) items []"

definition pushes :: "bytes list \<Rightarrow> bytes" where
  "pushes items = concat (map (\<lambda>b. push_header (length b) @ b) items)"

lemma push_all_eq:
  assumes "\<forall>b \<in> set items. length b < 2 ^ 32"
  shows "push_all h items = pushes items"
proof -
  have "fold (\<lambda>b this. Script_push_data h this b) items this = this @ pushes items" for this
    using assms by (induction items arbitrary: this) (simp_all add: pushes_def Script_push_data_eq)
  then show ?thesis by (simp add: push_all_def)
qed

lemma last_push_pushes:
  assumes "length (this @ pushes items) < 2 ^ 32"
  shows "last_push h (this @ pushes items) (length this) data =
    Some (if items = [] then data else last items)"
  using assms
proof (induction items arbitrary: this data)
  case Nil
  then show ?case by (subst last_push.simps) (simp add: pushes_def)
next
  case (Cons b items)
  let ?s = "this @ pushes (b # items)" and ?t = "this @ push_header (length b) @ b"
  have s: "?s = this @ push_header (length b) @ b @ pushes items" "?s = ?t @ pushes items"
    by (simp_all add: pushes_def)
  have g: "GetOp2 h ?s (length this) = (True, length ?t, hd (push_header (length b)), b)"
    unfolding s(1) using Cons.prems GetOp2_push [of this b "pushes items" h] s(1) by simp
  have "length b < 2 ^ 32" using Cons.prems s(1) by simp
  then have "hd (push_header (length b)) \<le> OP_PUSHDATA4" using GetOp2_header by blast
  then have "\<not> OP_16 < hd (push_header (length b))" by (simp add: word_le_nat_alt word_less_nat_alt)
  moreover have "length this < length ?s" unfolding s(1) by (simp add: push_header_def)
  ultimately have "last_push h ?s (length this) data = last_push h ?s (length ?t) b"
    using g by (subst last_push.simps) simp
  also have "\<dots> = Some (if items = [] then b else last items)"
    unfolding s(2) using Cons.prems s(2) by (intro Cons.IH) simp
  finally show ?case by simp
qed

text \<open>
  Property.  Signature operations behind a script hash: if the \<open>scriptSig\<close> is a sequence of
  pushes, the count is that of the last item pushed, read as a script.
\<close>

theorem GetSigOpCount_redeem_script:
  assumes "IsPayToScriptHash this" "items \<noteq> []" "length (push_all h items) < 2 ^ 32"
    "\<forall>b \<in> set items. length b < 2 ^ 32"
  shows "GetSigOpCount_P2SH h this (push_all h items) = GetSigOpCount h (last items) True"
proof -
  have "last_push h (push_all h items) 0 [] = Some (last items)"
    using assms last_push_pushes [of "[]" items h "[]"] by (simp add: push_all_eq)
  then show ?thesis using assms(1) by (simp add: GetSigOpCount_P2SH_def)
qed

theorem GetSigOpCount_redeem_script_witness:
  "GetSigOpCount_P2SH LittleEndianHost ([OP_HASH160, 0x14] @ replicate 20 0 @ [OP_EQUAL])
     (push_all LittleEndianHost [[1], [0x52, 0x53, OP_CHECKMULTISIG]])
   = GetSigOpCount LittleEndianHost (last [[1], [0x52, 0x53, OP_CHECKMULTISIG]]) True"
  by (rule GetSigOpCount_redeem_script)
    (simp_all add: IsPayToScriptHash_def nth_append push_all_def Script_push_data_def)

lemma DecodeOP_N_small:
  assumes "OP_1 \<le> c" "c \<le> OP_16"
  shows "DecodeOP_N c = Inr (int (unat c - 0x50))"
proof -
  have "81 \<le> unat c" using assms(1) by (simp add: word_le_nat_alt)
  moreover have "c \<noteq> 0" using assms(1) by auto
  ultimately show ?thesis using assms by (simp add: DecodeOP_N_def of_nat_diff)
qed

text \<open>What one opcode adds to the count.\<close>

definition sigop_step :: "bool \<Rightarrow> u8 \<Rightarrow> u8 \<Rightarrow> nat" where
  "sigop_step fAccurate lastOpcode opcode =
     (if opcode = OP_CHECKSIG \<or> opcode = OP_CHECKSIGVERIFY then 1
      else if opcode = OP_CHECKMULTISIG \<or> opcode = OP_CHECKMULTISIGVERIFY then
        (if fAccurate \<and> lastOpcode \<ge> OP_1 \<and> lastOpcode \<le> OP_16 then unat lastOpcode - 0x50 else 20)
      else 0)"

lemma sigop_step_le: "sigop_step f l c \<le> sigop_step False l c" "sigop_step False l c \<le> 20"
  by (auto simp: sigop_step_def word_le_nat_alt)

lemma GetSigOpCount_loop_step:
  "GetSigOpCount_loop h this f pc l n =
     (if pc < length this then
        (case GetOp2 h this pc of (fRet, pc', c, _) \<Rightarrow>
           if fRet then GetSigOpCount_loop h this f pc' c (n + word_of_nat (sigop_step f l c)) else Inr n)
      else Inr n)"
  by (subst GetSigOpCount_loop.simps)
    (auto simp: sigop_step_def DecodeOP_N_small MAX_PUBKEYS_PER_MULTISIG_def split: prod.splits)

lemma GetSigOpCount_loop_bounds:
  assumes "a \<le> q" "unat q + 20 * (length this - pc) < 2 ^ 32"
  shows "\<exists>a' q'. GetSigOpCount_loop h this True pc l a = Inr a' \<and>
    GetSigOpCount_loop h this False pc l q = Inr q' \<and> a' \<le> q' \<and> unat q' \<le> unat q + 20 * (length this - pc)"
  using assms
proof (induction "length this - pc" arbitrary: pc l a q rule: less_induct)
  case less
  obtain fRet pc' c d where g: "GetOp2 h this pc = (fRet, pc', c, d)" by (metis prod_cases4)
  show ?case
  proof (cases "pc < length this \<and> fRet")
    case False
    then show ?thesis using less.prems g
      by (subst GetSigOpCount_loop_step, subst (2) GetSigOpCount_loop_step) auto
  next
    case True
    then have pc: "pc < pc'" "pc' \<le> length this" 
      using GetOp2_progress [of h this pc pc' c d] GetOp2_end [of h this pc pc' c d] g by simp_all
    let ?sa = "sigop_step True l c" and ?sq = "sigop_step False l c"
    have le: "?sa \<le> ?sq" "?sq \<le> 20" by (rule sigop_step_le)+
    have "20 * (length this - pc') + 20 \<le> 20 * (length this - pc)" using pc True by linarith
    then have b: "unat q + ?sq + 20 * (length this - pc') \<le> unat q + 20 * (length this - pc)"
      using le by linarith
    then have q: "unat (q + word_of_nat ?sq) = unat q + ?sq"
      using less.prems(2) by (intro unat_add_of_nat) simp
    have a: "unat (a + word_of_nat ?sa) = unat a + ?sa"
      using less.prems b le by (intro unat_add_of_nat) (simp add: word_le_nat_alt)
    have "length this - pc' < length this - pc" using pc by linarith
    then obtain a' q' where "GetSigOpCount_loop h this True pc' c (a + word_of_nat ?sa) = Inr a'"
      "GetSigOpCount_loop h this False pc' c (q + word_of_nat ?sq) = Inr q'" "a' \<le> q'"
      "unat q' \<le> unat q + ?sq + 20 * (length this - pc')"
      using less.hyps [of pc' "a + word_of_nat ?sa" "q + word_of_nat ?sq" c] pc True q a le b less.prems
      by (auto simp: word_le_nat_alt)
    then show ?thesis using True g b
      by (subst GetSigOpCount_loop_step, subst (2) GetSigOpCount_loop_step) auto
  qed
qed

text \<open>
  Property.  Counting signature operations of any bytes returns (the assertion of \<open>DecodeOP_N\<close>
  never fails); the accurate count is at most the quick one, and that one at most twenty per byte.
\<close>

theorem GetSigOpCount_bounds:
  assumes "20 * length this < 2 ^ 32"
  shows "\<exists>a q. GetSigOpCount h this True = Inr a \<and> GetSigOpCount h this False = Inr q \<and> a \<le> q \<and>
    unat q \<le> 20 * length this"
  using GetSigOpCount_loop_bounds [of 0 0 this 0 h OP_INVALIDOPCODE] assms by (simp add: GetSigOpCount_def)

theorem GetSigOpCount_bounds_witness:
  "\<exists>a q. GetSigOpCount BigEndianHost [0x52, OP_CHECKMULTISIG, 0x4c] True = Inr a \<and>
    GetSigOpCount BigEndianHost [0x52, OP_CHECKMULTISIG, 0x4c] False = Inr q \<and> a \<le> q \<and>
    unat q \<le> 20 * length [0x52, OP_CHECKMULTISIG, 0x4c]"
  by (rule GetSigOpCount_bounds) simp

end
