(* ===== verification/Transaction.thy ===== *)
theory Transaction
  imports Containers Uint256 Script
begin

unbundle bit_operations_syntax

text \<open>
  Transactions: \<open>primitives/transaction.h\<close>, \<open>primitives/transaction.cpp\<close> and the shielded parts
  of \<open>sapling/sapling_transaction.h\<close>.  A hash is its 32 bytes, a script its bytes, \<open>CAmount\<close> an
  integer of the range of \<open>int64_t\<close>, the 16-bit version and type integers of that range.  A
  transaction's own hash (double SHA-256 of its serialisation) is not part of the record; the
  operations that need it take it as an argument.  \<open>isTransparent\<close> of an outpoint is fixed by its
  class and is left out: every outpoint here is a \<open>COutPoint\<close>.
\<close>

section \<open>Data\<close>

type_synonym CAmount = int

definition COIN :: CAmount where "COIN = 100000000"

record COutPoint =
  op_hash :: bytes
  op_n :: u32

definition COutPoint_SetNull :: COutPoint where
  "COutPoint_SetNull = \<lparr>op_hash = base_blob_new 32, op_n = - 1\<rparr>"

definition COutPoint_IsNull :: "COutPoint \<Rightarrow> bool" where
  "COutPoint_IsNull this \<longleftrightarrow> base_blob_IsNull (op_hash this) \<and> op_n this = - 1"

definition COutPoint_less :: "COutPoint \<Rightarrow> COutPoint \<Rightarrow> bool" where
  "COutPoint_less a b \<longleftrightarrow>
     base_blob_less (op_hash a) (op_hash b) \<or>
     (base_blob_eq (op_hash a) (op_hash b) \<and> op_n a < op_n b)"

record CTxIn =
  prevout :: COutPoint
  scriptSig :: bytes
  nSequence :: u32

definition SEQUENCE_FINAL :: u32 where "SEQUENCE_FINAL = 0xffffffff"

definition CTxIn_IsFinal :: "CTxIn \<Rightarrow> bool" where
  "CTxIn_IsFinal this \<longleftrightarrow> nSequence this = SEQUENCE_FINAL"

definition CTxIn_IsNull :: "CTxIn \<Rightarrow> bool" where
  "CTxIn_IsNull this \<longleftrightarrow> COutPoint_IsNull (prevout this) \<and> scriptSig this = [] \<and> CTxIn_IsFinal this"

definition CTxIn_IsZerocoinSpend :: "CTxIn \<Rightarrow> bool" where
  "CTxIn_IsZerocoinSpend this \<longleftrightarrow>
     base_blob_IsNull (op_hash (prevout this)) \<and> IsZerocoinSpend (scriptSig this)"

definition CTxIn_IsZerocoinPublicSpend :: "CTxIn \<Rightarrow> bool" where
  "CTxIn_IsZerocoinPublicSpend this \<longleftrightarrow> IsZerocoinPublicSpend (scriptSig this)"

record CTxOut =
  nValue :: CAmount
  scriptPubKey :: bytes
  nRounds :: int

definition CTxOut_SetNull :: CTxOut where
  "CTxOut_SetNull = \<lparr>nValue = - 1, scriptPubKey = [], nRounds = - 10\<rparr>"

definition CTxOut_new :: "CAmount \<Rightarrow> bytes \<Rightarrow> CTxOut" where
  "CTxOut_new nValueIn scriptPubKeyIn = \<lparr>nValue = nValueIn, scriptPubKey = scriptPubKeyIn, nRounds = - 10\<rparr>"

definition CTxOut_IsNull :: "CTxOut \<Rightarrow> bool" where
  "CTxOut_IsNull this \<longleftrightarrow> nValue this = - 1"

definition CTxOut_IsEmpty :: "CTxOut \<Rightarrow> bool" where
  "CTxOut_IsEmpty this \<longleftrightarrow> nValue this = 0 \<and> scriptPubKey this = []"

definition CTxOut_IsZerocoinMint :: "CTxOut \<Rightarrow> bool" where
  "CTxOut_IsZerocoinMint this \<longleftrightarrow> IsZerocoinMint (scriptPubKey this)"

record SpendDescription =
  sp_cv :: bytes
  sp_anchor :: bytes
  sp_nullifier :: bytes
  sp_rk :: bytes
  sp_zkproof :: bytes
  sp_spendAuthSig :: bytes

record OutputDescription =
  out_cv :: bytes
  out_cmu :: bytes
  out_ephemeralKey :: bytes
  out_encCiphertext :: bytes
  out_outCiphertext :: bytes
  out_zkproof :: bytes

record SaplingTxData =
  valueBalance :: CAmount
  vShieldedSpend :: "SpendDescription list"
  vShieldedOutput :: "OutputDescription list"
  bindingSig :: bytes

definition SaplingTxData_new :: SaplingTxData where
  "SaplingTxData_new =
     \<lparr>valueBalance = 0, vShieldedSpend = [], vShieldedOutput = [], bindingSig = replicate 64 0\<rparr>"

definition hasBindingSig :: "SaplingTxData \<Rightarrow> bool" where
  "hasBindingSig this = list_ex (\<lambda>c. c \<noteq> 0) (bindingSig this)"

record CTransaction =
  vin :: "CTxIn list"
  vout :: "CTxOut list"
  tx_nVersion :: int
  tx_nType :: int
  nLockTime :: u32
  sapData :: "SaplingTxData option"
  extraPayload :: "bytes option"

definition TxVersion_SAPLING :: int where "TxVersion_SAPLING = 3"
definition TxVersion_TOOHIGH :: int where "TxVersion_TOOHIGH = 4"
definition TxType_NORMAL :: int where "TxType_NORMAL = 0"
definition TxType_PROREG :: int where "TxType_PROREG = 1"

definition CMutableTransaction_new :: CTransaction where
  "CMutableTransaction_new =
     \<lparr>vin = [], vout = [], tx_nVersion = 1, tx_nType = TxType_NORMAL, nLockTime = 0,
      sapData = Some SaplingTxData_new, extraPayload = None\<rparr>"

section \<open>Predicates and values\<close>

definition hasSaplingData :: "CTransaction \<Rightarrow> bool" where
  "hasSaplingData tx =
     (case sapData tx of
        None \<Rightarrow> False
      | Some d \<Rightarrow> vShieldedOutput d \<noteq> [] \<or> vShieldedSpend d \<noteq> [] \<or> valueBalance d \<noteq> 0 \<or> hasBindingSig d)"

definition isSaplingVersion :: "CTransaction \<Rightarrow> bool" where
  "isSaplingVersion tx \<longleftrightarrow> tx_nVersion tx \<ge> TxVersion_SAPLING"

definition IsShieldedTx :: "CTransaction \<Rightarrow> bool" where
  "IsShieldedTx tx \<longleftrightarrow> isSaplingVersion tx \<and> hasSaplingData tx"

definition hasExtraPayload :: "CTransaction \<Rightarrow> bool" where
  "hasExtraPayload tx = (case extraPayload tx of None \<Rightarrow> False | Some p \<Rightarrow> p \<noteq> [])"

definition IsSpecialTx :: "CTransaction \<Rightarrow> bool" where
  "IsSpecialTx tx \<longleftrightarrow> isSaplingVersion tx \<and> tx_nType tx \<noteq> TxType_NORMAL \<and> hasExtraPayload tx"

definition IsNormalType :: "CTransaction \<Rightarrow> bool" where
  "IsNormalType tx \<longleftrightarrow> tx_nType tx = TxType_NORMAL"

definition IsProRegTx :: "CTransaction \<Rightarrow> bool" where
  "IsProRegTx tx \<longleftrightarrow> IsSpecialTx tx \<and> tx_nType tx = TxType_PROREG"

definition HasZerocoinSpendInputs :: "CTransaction \<Rightarrow> bool" where
  "HasZerocoinSpendInputs tx =
     list_ex (\<lambda>txin. CTxIn_IsZerocoinSpend txin \<or> CTxIn_IsZerocoinPublicSpend txin) (vin tx)"

definition HasZerocoinMintOutputs :: "CTransaction \<Rightarrow> bool" where
  "HasZerocoinMintOutputs tx = list_ex CTxOut_IsZerocoinMint (vout tx)"

definition HasZerocoinPublicSpendInputs :: "CTransaction \<Rightarrow> bool" where
  "HasZerocoinPublicSpendInputs tx = list_ex CTxIn_IsZerocoinPublicSpend (vin tx)"

definition ContainsZerocoins :: "CTransaction \<Rightarrow> bool" where
  "ContainsZerocoins tx \<longleftrightarrow> HasZerocoinSpendInputs tx \<or> HasZerocoinMintOutputs tx"

definition IsCoinBase :: "CTransaction \<Rightarrow> bool" where
  "IsCoinBase tx \<longleftrightarrow>
     length (vin tx) = 1 \<and> COutPoint_IsNull (prevout (vin tx ! 0)) \<and> \<not> IsZerocoinSpend (scriptSig (vin tx ! 0))"

definition IsCoinStake :: "CTransaction \<Rightarrow> bool" where
  "IsCoinStake tx =
     (if vin tx = [] then False
      else
        let fAllowNull = CTxIn_IsZerocoinSpend (vin tx ! 0)
        in if COutPoint_IsNull (prevout (vin tx ! 0)) \<and> \<not> fAllowNull then False
           else length (vout tx) \<ge> 2 \<and> CTxOut_IsEmpty (vout tx ! 0))"

definition HasP2CSOutputs :: "CTransaction \<Rightarrow> bool" where
  "HasP2CSOutputs tx = list_ex (\<lambda>txout. IsPayToColdStaking (scriptPubKey txout)) (vout tx)"

text \<open>
  Adding amounts: an \<open>int64_t\<close> sum that leaves the range is undefined behaviour, also where the
  source tests for the wrap-around afterwards.
\<close>

definition add_amount :: "CAmount \<Rightarrow> CAmount \<Rightarrow> CAmount res" where
  "add_amount a b =
     (if int64_min \<le> a + b \<and> a + b \<le> int64_max then Inr (a + b)
      else Inl (UndefinedBehaviour ''int64_t overflow''))"

definition neg_amount :: "CAmount \<Rightarrow> CAmount res" where
  "neg_amount a =
     (if a = int64_min then Inl (UndefinedBehaviour ''int64_t overflow'') else Inr (- a))"

fun GetValueOut_loop :: "CTxOut list \<Rightarrow> CAmount \<Rightarrow> CAmount res" where
  "GetValueOut_loop [] nValueOut = Inr nValueOut"
| "GetValueOut_loop (it # rest) nValueOut =
     (if nValue it < 0
      then Inl (RuntimeError ''CTransaction::GetValueOut() : value out of range : less than 0'')
      else bindE (add_amount nValueOut (nValue it)) (\<lambda>s.
        if s < nValueOut
        then Inl (RuntimeError ''CTransaction::GetValueOut() : value out of range : wraps the int64_t boundary'')
        else GetValueOut_loop rest s))"

definition GetValueOut :: "CTransaction \<Rightarrow> CAmount res" where
  "GetValueOut tx =
     bindE (GetValueOut_loop (vout tx) 0) (\<lambda>nValueOut.
       case sapData tx of
         None \<Rightarrow> Inr nValueOut
       | Some d \<Rightarrow>
           if hasSaplingData tx \<and> valueBalance d < 0 then
             bindE (neg_amount (valueBalance d)) (\<lambda>v.
             bindE (add_amount nValueOut v) (\<lambda>nValueOut.
               if \<not> isSaplingVersion tx then Inl (RuntimeError ''GetValueOut(): invalid tx version'')
               else Inr nValueOut))
           else Inr nValueOut)"

definition GetShieldedValueIn :: "CTransaction \<Rightarrow> CAmount res" where
  "GetShieldedValueIn tx =
     (case sapData tx of
        None \<Rightarrow> Inr 0
      | Some d \<Rightarrow>
          if hasSaplingData tx \<and> valueBalance d > 0 then
            (if \<not> isSaplingVersion tx then Inl (RuntimeError ''GetValueOut(): invalid tx version'')
             else Inr (valueBalance d))
          else Inr 0)"

section \<open>Serialisation\<close>

text \<open>
  \<open>sizeof\<close> gives the size of the element type of a vector, which the batched reader of vectors
  divides by.
\<close>

datatype vec_elem = VE_CTxIn | VE_CTxOut | VE_SpendDescription | VE_OutputDescription

definition Serialize_blob :: "'s sink_ops \<Rightarrow> 's \<Rightarrow> bytes \<Rightarrow> 's res" where
  "Serialize_blob W s m_data = sk_write W s m_data"

definition Unserialize_blob :: "nat \<Rightarrow> 's source_ops \<Rightarrow> 's \<Rightarrow> (bytes \<times> 's) res" where
  "Unserialize_blob WIDTH R s = sc_read R s WIDTH"

definition Serialize_prevector :: "'s sink_ops \<Rightarrow> 's \<Rightarrow> bytes \<Rightarrow> 's res" where
  "Serialize_prevector W os v = Serialize_bytevector W os v"

definition Unserialize_prevector :: "'s source_ops \<Rightarrow> 's \<Rightarrow> (bytes \<times> 's) res" where
  "Unserialize_prevector R is = Unserialize_bytevector R is"

definition Serialize_amount :: "'s sink_ops \<Rightarrow> 's \<Rightarrow> CAmount \<Rightarrow> 's res" where
  "Serialize_amount W s a = ser_writedata64 W s (word_of_int a)"

definition Unserialize_amount :: "'s source_ops \<Rightarrow> 's \<Rightarrow> (CAmount \<times> 's) res" where
  "Unserialize_amount R s = bindE (ser_readdata64 R s) (\<lambda>(w, s). Inr (sint w, s))"

definition Serialize_int16 :: "'s sink_ops \<Rightarrow> 's \<Rightarrow> int \<Rightarrow> 's res" where
  "Serialize_int16 W s a = ser_writedata16 W s (word_of_int a)"

definition Unserialize_int16 :: "'s source_ops \<Rightarrow> 's \<Rightarrow> (int \<times> 's) res" where
  "Unserialize_int16 R s = bindE (ser_readdata16 R s) (\<lambda>(w, s). Inr (sint w, s))"

definition COutPoint_Ser :: "'s sink_ops \<Rightarrow> 's \<Rightarrow> COutPoint \<Rightarrow> 's res" where
  "COutPoint_Ser W s obj = bindE (Serialize_blob W s (op_hash obj)) (\<lambda>s. ser_writedata32 W s (op_n obj))"

definition COutPoint_Unser :: "'s source_ops \<Rightarrow> 's \<Rightarrow> (COutPoint \<times> 's) res" where
  "COutPoint_Unser R s =
     bindE (Unserialize_blob 32 R s) (\<lambda>(hash, s).
     bindE (ser_readdata32 R s) (\<lambda>(n, s). Inr (\<lparr>op_hash = hash, op_n = n\<rparr>, s)))"

definition CTxIn_Ser :: "'s sink_ops \<Rightarrow> 's \<Rightarrow> CTxIn \<Rightarrow> 's res" where
  "CTxIn_Ser W s obj =
     bindE (COutPoint_Ser W s (prevout obj)) (\<lambda>s.
     bindE (Serialize_prevector W s (scriptSig obj)) (\<lambda>s. ser_writedata32 W s (nSequence obj)))"

definition CTxIn_Unser :: "'s source_ops \<Rightarrow> 's \<Rightarrow> (CTxIn \<times> 's) res" where
  "CTxIn_Unser R s =
     bindE (COutPoint_Unser R s) (\<lambda>(p, s).
     bindE (Unserialize_prevector R s) (\<lambda>(sig, s).
     bindE (ser_readdata32 R s) (\<lambda>(q, s). Inr (\<lparr>prevout = p, scriptSig = sig, nSequence = q\<rparr>, s))))"

definition CTxOut_Ser :: "'s sink_ops \<Rightarrow> 's \<Rightarrow> CTxOut \<Rightarrow> 's res" where
  "CTxOut_Ser W s obj =
     bindE (Serialize_amount W s (nValue obj)) (\<lambda>s. Serialize_prevector W s (scriptPubKey obj))"

definition CTxOut_Unser :: "'s source_ops \<Rightarrow> 's \<Rightarrow> (CTxOut \<times> 's) res" where
  "CTxOut_Unser R s =
     bindE (Unserialize_amount R s) (\<lambda>(v, s).
     bindE (Unserialize_prevector R s) (\<lambda>(k, s).
       Inr (CTxOut_SetNull\<lparr>nValue := v, scriptPubKey := k\<rparr>, s)))"

definition bytes_Ser :: "'s sink_ops \<Rightarrow> 's \<Rightarrow> bytes \<Rightarrow> 's res" where
  "bytes_Ser W s a = Serialize_array (ser_writedata8 W) s a"

definition bytes_Unser :: "nat \<Rightarrow> 's source_ops \<Rightarrow> 's \<Rightarrow> (bytes \<times> 's) res" where
  "bytes_Unser N R s = Unserialize_array N (ser_readdata8 R) s"

definition SpendDescription_Ser :: "'s sink_ops \<Rightarrow> 's \<Rightarrow> SpendDescription \<Rightarrow> 's res" where
  "SpendDescription_Ser W s obj =
     bindE (Serialize_blob W s (sp_cv obj)) (\<lambda>s.
     bindE (Serialize_blob W s (sp_anchor obj)) (\<lambda>s.
     bindE (Serialize_blob W s (sp_nullifier obj)) (\<lambda>s.
     bindE (Serialize_blob W s (sp_rk obj)) (\<lambda>s.
     bindE (bytes_Ser W s (sp_zkproof obj)) (\<lambda>s. bytes_Ser W s (sp_spendAuthSig obj))))))"

definition SpendDescription_Unser :: "'s source_ops \<Rightarrow> 's \<Rightarrow> (SpendDescription \<times> 's) res" where
  "SpendDescription_Unser R s =
     bindE (Unserialize_blob 32 R s) (\<lambda>(cv, s).
     bindE (Unserialize_blob 32 R s) (\<lambda>(anchor, s).
     bindE (Unserialize_blob 32 R s) (\<lambda>(nullifier, s).
     bindE (Unserialize_blob 32 R s) (\<lambda>(rk, s).
     bindE (bytes_Unser 192 R s) (\<lambda>(zkproof, s).
     bindE (bytes_Unser 64 R s) (\<lambda>(sig, s).
       Inr (\<lparr>sp_cv = cv, sp_anchor = anchor, sp_nullifier = nullifier, sp_rk = rk,
             sp_zkproof = zkproof, sp_spendAuthSig = sig\<rparr>, s)))))))"

definition OutputDescription_Ser :: "'s sink_ops \<Rightarrow> 's \<Rightarrow> OutputDescription \<Rightarrow> 's res" where
  "OutputDescription_Ser W s obj =
     bindE (Serialize_blob W s (out_cv obj)) (\<lambda>s.
     bindE (Serialize_blob W s (out_cmu obj)) (\<lambda>s.
     bindE (Serialize_blob W s (out_ephemeralKey obj)) (\<lambda>s.
     bindE (bytes_Ser W s (out_encCiphertext obj)) (\<lambda>s.
     bindE (bytes_Ser W s (out_outCiphertext obj)) (\<lambda>s. bytes_Ser W s (out_zkproof obj))))))"

definition OutputDescription_Unser :: "'s source_ops \<Rightarrow> 's \<Rightarrow> (OutputDescription \<times> 's) res" where
  "OutputDescription_Unser R s =
     bindE (Unserialize_blob 32 R s) (\<lambda>(cv, s).
     bindE (Unserialize_blob 32 R s) (\<lambda>(cmu, s).
     bindE (Unserialize_blob 32 R s) (\<lambda>(ephemeralKey, s).
     bindE (bytes_Unser 580 R s) (\<lambda>(enc, s).
     bindE (bytes_Unser 80 R s) (\<lambda>(oct, s).
     bindE (bytes_Unser 192 R s) (\<lambda>(zkproof, s).
       Inr (\<lparr>out_cv = cv, out_cmu = cmu, out_ephemeralKey = ephemeralKey, out_encCiphertext = enc,
             out_outCiphertext = oct, out_zkproof = zkproof\<rparr>, s)))))))"

definition SaplingTxData_Ser :: "'s sink_ops \<Rightarrow> 's \<Rightarrow> SaplingTxData \<Rightarrow> 's res" where
  "SaplingTxData_Ser W s obj =
     bindE (Serialize_amount W s (valueBalance obj)) (\<lambda>s.
     bindE (VectorFormatter_Ser (SpendDescription_Ser W) W s (vShieldedSpend obj)) (\<lambda>s.
     bindE (VectorFormatter_Ser (OutputDescription_Ser W) W s (vShieldedOutput obj)) (\<lambda>s.
       bytes_Ser W s (bindingSig obj))))"

definition SaplingTxData_Unser :: "(vec_elem \<Rightarrow> nat) \<Rightarrow> 's source_ops \<Rightarrow> 's \<Rightarrow> (SaplingTxData \<times> 's) res" where
  "SaplingTxData_Unser sizeof R s =
     bindE (Unserialize_amount R s) (\<lambda>(v, s).
     bindE (VectorFormatter_Unser (sizeof VE_SpendDescription) (SpendDescription_Unser R) R s) (\<lambda>(sp, s).
     bindE (VectorFormatter_Unser (sizeof VE_OutputDescription) (OutputDescription_Unser R) R s) (\<lambda>(ot, s).
     bindE (bytes_Unser 64 R s) (\<lambda>(sig, s).
       Inr (\<lparr>valueBalance = v, vShieldedSpend = sp, vShieldedOutput = ot, bindingSig = sig\<rparr>, s)))))"

definition SerializeTransaction :: "'s sink_ops \<Rightarrow> 's \<Rightarrow> CTransaction \<Rightarrow> 's res" where
  "SerializeTransaction W s tx =
     bindE (Serialize_int16 W s (tx_nVersion tx)) (\<lambda>s.
     bindE (Serialize_int16 W s (tx_nType tx)) (\<lambda>s.
     bindE (VectorFormatter_Ser (CTxIn_Ser W) W s (vin tx)) (\<lambda>s.
     bindE (VectorFormatter_Ser (CTxOut_Ser W) W s (vout tx)) (\<lambda>s.
     bindE (ser_writedata32 W s (nLockTime tx)) (\<lambda>s.
       if isSaplingVersion tx then
         bindE (Serialize_optional (SaplingTxData_Ser W) W s (sapData tx)) (\<lambda>s.
           if \<not> IsNormalType tx then Serialize_optional (Serialize_bytevector W) W s (extraPayload tx)
           else Inr s)
       else Inr s)))))"

definition UnserializeTransaction :: "(vec_elem \<Rightarrow> nat) \<Rightarrow> 's source_ops \<Rightarrow> 's \<Rightarrow> (CTransaction \<times> 's) res" where
  "UnserializeTransaction sizeof R s =
     bindE (Unserialize_int16 R s) (\<lambda>(ver, s).
     bindE (Unserialize_int16 R s) (\<lambda>(ty, s).
     bindE (VectorFormatter_Unser (sizeof VE_CTxIn) (CTxIn_Unser R) R s) (\<lambda>(ins, s).
     bindE (VectorFormatter_Unser (sizeof VE_CTxOut) (CTxOut_Unser R) R s) (\<lambda>(outs, s).
     bindE (ser_readdata32 R s) (\<lambda>(lock, s).
       let tx = CMutableTransaction_new\<lparr>tx_nVersion := ver, tx_nType := ty, vin := ins, vout := outs,
                  nLockTime := lock\<rparr>
       in if isSaplingVersion tx then
            bindE (Unserialize_optional (SaplingTxData_Unser sizeof R) R s) (\<lambda>(sap, s).
              let tx = tx\<lparr>sapData := sap\<rparr>
              in if \<not> IsNormalType tx then
                   bindE (Unserialize_optional (Unserialize_bytevector R) R s) (\<lambda>(p, s).
                     Inr (tx\<lparr>extraPayload := p\<rparr>, s))
                 else Inr (tx, s))
          else Inr (tx, s))))))"

section \<open>Encodings\<close>

text \<open>
  The bytes each operator writes, and the values for which reading gives them back.
\<close>

definition bytevec_enc :: "bytes \<Rightarrow> bytes" where
  "bytevec_enc v = compact_bytes (word_of_nat (length v)) @ v"

definition bytevec_ok :: "bytes \<Rightarrow> bool" where
  "bytevec_ok v \<longleftrightarrow> length v \<le> unat MAX_SIZE"

definition amount_ok :: "CAmount \<Rightarrow> bool" where
  "amount_ok a \<longleftrightarrow> int64_min \<le> a \<and> a \<le> int64_max"

definition amount_enc :: "CAmount \<Rightarrow> bytes" where
  "amount_enc a = digits_of 8 (unat (word_of_int a :: u64))"

definition int16_enc :: "int \<Rightarrow> bytes" where
  "int16_enc a = digits_of 2 (unat (word_of_int a :: u16))"

definition COutPoint_enc :: "COutPoint \<Rightarrow> bytes" where
  "COutPoint_enc p = op_hash p @ digits_of 4 (unat (op_n p))"

definition COutPoint_ok :: "COutPoint \<Rightarrow> bool" where
  "COutPoint_ok p \<longleftrightarrow> length (op_hash p) = 32"

definition CTxIn_enc :: "CTxIn \<Rightarrow> bytes" where
  "CTxIn_enc i = COutPoint_enc (prevout i) @ bytevec_enc (scriptSig i) @ digits_of 4 (unat (nSequence i))"

definition CTxIn_ok :: "CTxIn \<Rightarrow> bool" where
  "CTxIn_ok i \<longleftrightarrow> COutPoint_ok (prevout i) \<and> bytevec_ok (scriptSig i)"

definition CTxOut_enc :: "CTxOut \<Rightarrow> bytes" where
  "CTxOut_enc t = amount_enc (nValue t) @ bytevec_enc (scriptPubKey t)"

definition CTxOut_ok :: "CTxOut \<Rightarrow> bool" where
  "CTxOut_ok t \<longleftrightarrow> amount_ok (nValue t) \<and> bytevec_ok (scriptPubKey t) \<and> nRounds t = - 10"

definition Spend_enc :: "SpendDescription \<Rightarrow> bytes" where
  "Spend_enc d = sp_cv d @ sp_anchor d @ sp_nullifier d @ sp_rk d @ sp_zkproof d @ sp_spendAuthSig d"

definition Spend_ok :: "SpendDescription \<Rightarrow> bool" where
  "Spend_ok d \<longleftrightarrow> length (sp_cv d) = 32 \<and> length (sp_anchor d) = 32 \<and> length (sp_nullifier d) = 32 \<and>
     length (sp_rk d) = 32 \<and> length (sp_zkproof d) = 192 \<and> length (sp_spendAuthSig d) = 64"

definition Output_enc :: "OutputDescription \<Rightarrow> bytes" where
  "Output_enc d = out_cv d @ out_cmu d @ out_ephemeralKey d @ out_encCiphertext d @
     out_outCiphertext d @ out_zkproof d"

definition Output_ok :: "OutputDescription \<Rightarrow> bool" where
  "Output_ok d \<longleftrightarrow> length (out_cv d) = 32 \<and> length (out_cmu d) = 32 \<and> length (out_ephemeralKey d) = 32 \<and>
     length (out_encCiphertext d) = 580 \<and> length (out_outCiphertext d) = 80 \<and> length (out_zkproof d) = 192"

definition vec_enc :: "('a \<Rightarrow> bytes) \<Rightarrow> 'a list \<Rightarrow> bytes" where
  "vec_enc enc xs = compact_bytes (word_of_nat (length xs)) @ concat (map enc xs)"

definition vec_ok :: "('a \<Rightarrow> bool) \<Rightarrow> 'a list \<Rightarrow> bool" where
  "vec_ok ok xs \<longleftrightarrow> length xs \<le> unat MAX_SIZE \<and> list_all ok xs"

definition opt_enc :: "('a \<Rightarrow> bytes) \<Rightarrow> 'a option \<Rightarrow> bytes" where
  "opt_enc enc x = (case x of None \<Rightarrow> [0] | Some y \<Rightarrow> [1] @ enc y)"

definition Sapling_enc :: "SaplingTxData \<Rightarrow> bytes" where
  "Sapling_enc d = amount_enc (valueBalance d) @ vec_enc Spend_enc (vShieldedSpend d) @
     vec_enc Output_enc (vShieldedOutput d) @ bindingSig d"

definition Sapling_ok :: "SaplingTxData \<Rightarrow> bool" where
  "Sapling_ok d \<longleftrightarrow> amount_ok (valueBalance d) \<and> vec_ok Spend_ok (vShieldedSpend d) \<and>
     vec_ok Output_ok (vShieldedOutput d) \<and> length (bindingSig d) = 64"

definition tx_enc :: "CTransaction \<Rightarrow> bytes" where
  "tx_enc tx = int16_enc (tx_nVersion tx) @ int16_enc (tx_nType tx) @ vec_enc CTxIn_enc (vin tx) @
     vec_enc CTxOut_enc (vout tx) @ digits_of 4 (unat (nLockTime tx)) @
     (if isSaplingVersion tx then
        opt_enc Sapling_enc (sapData tx) @
        (if \<not> IsNormalType tx then opt_enc bytevec_enc (extraPayload tx) else [])
      else [])"

text \<open>
  A transaction that is not of the Sapling version holds the default shielded data, and only a
  special transaction of that version holds an extra payload.
\<close>

definition tx_ok :: "CTransaction \<Rightarrow> bool" where
  "tx_ok tx \<longleftrightarrow> - (2 ^ 15) \<le> tx_nVersion tx \<and> tx_nVersion tx < 2 ^ 15 \<and>
     - (2 ^ 15) \<le> tx_nType tx \<and> tx_nType tx < 2 ^ 15 \<and>
     vec_ok CTxIn_ok (vin tx) \<and> vec_ok CTxOut_ok (vout tx) \<and>
     (if isSaplingVersion tx then (\<forall>d. sapData tx = Some d \<longrightarrow> Sapling_ok d)
      else sapData tx = Some SaplingTxData_new) \<and>
     (if isSaplingVersion tx \<and> \<not> IsNormalType tx then (\<forall>p. extraPayload tx = Some p \<longrightarrow> bytevec_ok p)
      else extraPayload tx = None)"

lemma sint_word_of_int64: "amount_ok a \<Longrightarrow> sint (word_of_int a :: u64) = a"
  unfolding sint_sbintrunc'
  by (intro signed_take_bit_int_eq_self) (simp_all add: amount_ok_def int64_min_def int64_max_def)

lemma sint_word_of_int16: "- (2 ^ 15) \<le> a \<Longrightarrow> a < 2 ^ 15 \<Longrightarrow> sint (word_of_int a :: u16) = a"
  unfolding sint_sbintrunc' by (intro signed_take_bit_int_eq_self) simp_all

lemma concat_bytes [simp]: "concat (map (\<lambda>b. [b]) bs) = bs"
  by (induction bs) auto

locale tx_streams =
  sink: byte_sink W out winv + source: byte_source R inp rinv
  for W :: "'w sink_ops" and out :: "'w \<Rightarrow> bytes" and winv :: "'w \<Rightarrow> bool"
    and R :: "'r source_ops" and inp :: "'r \<Rightarrow> bytes" and rinv :: "'r \<Rightarrow> bool"
begin

lemma blob_codec:
  "codec W out winv R inp rinv (Serialize_blob W) (Unserialize_blob n R) (\<lambda>x. x) (\<lambda>x. length x = n)"
  by unfold_locales (simp_all add: Serialize_blob_def [abs_def] Unserialize_blob_def [abs_def]
      sink.write_emits source.read_parses)

lemma prevector_codec:
  "codec W out winv R inp rinv (Serialize_prevector W) (Unserialize_prevector R) bytevec_enc bytevec_ok"
  by unfold_locales (simp_all add: Serialize_prevector_def [abs_def] Unserialize_prevector_def [abs_def]
      bytevec_enc_def bytevec_ok_def sink.Serialize_bytevector_emits source.Unserialize_bytevector_parses)

lemma amount_codec:
  "codec W out winv R inp rinv (Serialize_amount W) (Unserialize_amount R) amount_enc amount_ok"
proof unfold_locales
  fix a assume a: "amount_ok a"
  show "emits out winv (\<lambda>s. Serialize_amount W s a) (amount_enc a)"
    unfolding Serialize_amount_def amount_enc_def by (rule sink.writedata_emits)
  show "parses inp rinv (Unserialize_amount R) a (amount_enc a)"
    unfolding Unserialize_amount_def amount_enc_def
    by (rule parses_map [OF source.readdata_parses(5)]) (rule sint_word_of_int64 [OF a])
qed

lemma int16_codec:
  "codec W out winv R inp rinv (Serialize_int16 W) (Unserialize_int16 R) int16_enc
     (\<lambda>a. - (2 ^ 15) \<le> a \<and> a < 2 ^ 15)"
proof unfold_locales
  fix a :: int assume a: "- (2 ^ 15) \<le> a \<and> a < 2 ^ 15"
  show "emits out winv (\<lambda>s. Serialize_int16 W s a) (int16_enc a)"
    unfolding Serialize_int16_def int16_enc_def by (rule sink.writedata_emits)
  show "parses inp rinv (Unserialize_int16 R) a (int16_enc a)"
    unfolding Unserialize_int16_def int16_enc_def
    by (rule parses_map [OF source.readdata_parses(2)]) (use a sint_word_of_int16 in blast)
qed

lemma u8_codec: "codec W out winv R inp rinv (ser_writedata8 W) (ser_readdata8 R) (\<lambda>b. [b]) (\<lambda>_. True)"
  by unfold_locales (simp_all add: sink.writedata_emits source.readdata_parses)

lemma u32_codec:
  "codec W out winv R inp rinv (ser_writedata32 W) (ser_readdata32 R) (\<lambda>x. digits_of 4 (unat x)) (\<lambda>_. True)"
  by unfold_locales (simp_all add: sink.writedata_emits source.readdata_parses)

lemma bytes_codec:
  "codec W out winv R inp rinv (bytes_Ser W) (bytes_Unser n R) (\<lambda>x. x) (\<lambda>x. length x = n)"
  using codec.array_codec [OF u8_codec, of n]
  by (simp add: bytes_Ser_def [abs_def] bytes_Unser_def [abs_def] list_all_iff)

lemma vec_codec:
  assumes "codec W out winv R inp rinv ser uns enc ok" "0 < n" "n \<le> MAX_VECTOR_ALLOCATE"
  shows "codec W out winv R inp rinv (\<lambda>s. VectorFormatter_Ser ser W s) (\<lambda>s. VectorFormatter_Unser n uns R s)
     (vec_enc enc) (vec_ok ok)"
  using codec.vector_codec [OF assms] by (simp add: vec_enc_def [abs_def] vec_ok_def [abs_def])

lemma opt_codec:
  assumes "codec W out winv R inp rinv ser uns enc ok"
  shows "codec W out winv R inp rinv (\<lambda>s. Serialize_optional ser W s) (\<lambda>s. Unserialize_optional uns R s)
     (opt_enc enc) (\<lambda>x. \<forall>y. x = Some y \<longrightarrow> ok y)"
  unfolding opt_enc_def [abs_def] by (rule codec.optional_codec [OF assms])

lemmas atom_emits =
  codec.ser_emits [OF blob_codec] codec.ser_emits [OF prevector_codec] codec.ser_emits [OF amount_codec]
  codec.ser_emits [OF int16_codec] codec.ser_emits [OF u32_codec] codec.ser_emits [OF bytes_codec]

lemmas atom_parses =
  codec.uns_parses [OF blob_codec] codec.uns_parses [OF prevector_codec] codec.uns_parses [OF amount_codec]
  codec.uns_parses [OF int16_codec] codec.uns_parses [OF u32_codec] codec.uns_parses [OF bytes_codec]

lemma outpoint_codec:
  "codec W out winv R inp rinv (COutPoint_Ser W) (COutPoint_Unser R) COutPoint_enc COutPoint_ok"
proof unfold_locales
  fix p assume p: "COutPoint_ok p"
  then show "emits out winv (\<lambda>s. COutPoint_Ser W s p) (COutPoint_enc p)"
    unfolding COutPoint_Ser_def COutPoint_enc_def
    by (intro emits_bind atom_emits) (simp_all add: COutPoint_ok_def)
  show "parses inp rinv (COutPoint_Unser R) p (COutPoint_enc p)"
    unfolding COutPoint_Unser_def COutPoint_enc_def
    using p by (intro parses_bind [OF atom_parses(1)] parses_map [OF atom_parses(5)])
      (simp_all add: COutPoint_ok_def)
qed

lemma txin_codec: "codec W out winv R inp rinv (CTxIn_Ser W) (CTxIn_Unser R) CTxIn_enc CTxIn_ok"
proof unfold_locales
  fix i assume i: "CTxIn_ok i"
  then show "emits out winv (\<lambda>s. CTxIn_Ser W s i) (CTxIn_enc i)"
    unfolding CTxIn_Ser_def CTxIn_enc_def
    by (intro emits_bind atom_emits codec.ser_emits [OF outpoint_codec]) (simp_all add: CTxIn_ok_def)
  show "parses inp rinv (CTxIn_Unser R) i (CTxIn_enc i)"
    unfolding CTxIn_Unser_def CTxIn_enc_def
    using i by (intro parses_bind [OF codec.uns_parses [OF outpoint_codec]] parses_bind [OF atom_parses(2)]
        parses_map [OF atom_parses(5)]) (simp_all add: CTxIn_ok_def)
qed

lemma txout_codec: "codec W out winv R inp rinv (CTxOut_Ser W) (CTxOut_Unser R) CTxOut_enc CTxOut_ok"
proof unfold_locales
  fix t assume t: "CTxOut_ok t"
  then show "emits out winv (\<lambda>s. CTxOut_Ser W s t) (CTxOut_enc t)"
    unfolding CTxOut_Ser_def CTxOut_enc_def
    by (intro emits_bind atom_emits) (simp_all add: CTxOut_ok_def)
  show "parses inp rinv (CTxOut_Unser R) t (CTxOut_enc t)"
    unfolding CTxOut_Unser_def CTxOut_enc_def
    using t by (intro parses_bind [OF atom_parses(3)] parses_map [OF atom_parses(2)])
      (simp_all add: CTxOut_ok_def CTxOut_SetNull_def)
qed

lemma spend_codec:
  "codec W out winv R inp rinv (SpendDescription_Ser W) (SpendDescription_Unser R) Spend_enc Spend_ok"
proof unfold_locales
  fix d assume d: "Spend_ok d"
  then show "emits out winv (\<lambda>s. SpendDescription_Ser W s d) (Spend_enc d)"
    unfolding SpendDescription_Ser_def Spend_enc_def
    by (intro emits_bind atom_emits(1,6)) (simp_all add: Spend_ok_def)
  show "parses inp rinv (SpendDescription_Unser R) d (Spend_enc d)"
    unfolding SpendDescription_Unser_def Spend_enc_def
    using d by (intro parses_bind [OF atom_parses(1)] parses_bind [OF atom_parses(6)]
        parses_map [OF atom_parses(6)]) (simp_all add: Spend_ok_def)
qed

lemma output_codec:
  "codec W out winv R inp rinv (OutputDescription_Ser W) (OutputDescription_Unser R) Output_enc Output_ok"
proof unfold_locales
  fix d assume d: "Output_ok d"
  then show "emits out winv (\<lambda>s. OutputDescription_Ser W s d) (Output_enc d)"
    unfolding OutputDescription_Ser_def Output_enc_def
    by (intro emits_bind atom_emits(1,6)) (simp_all add: Output_ok_def)
  show "parses inp rinv (OutputDescription_Unser R) d (Output_enc d)"
    unfolding OutputDescription_Unser_def Output_enc_def
    using d by (intro parses_bind [OF atom_parses(1)] parses_bind [OF atom_parses(6)]
        parses_map [OF atom_parses(6)]) (simp_all add: Output_ok_def)
qed

lemma sapling_codec:
  assumes "\<And>e. 0 < sizeof e \<and> sizeof e \<le> MAX_VECTOR_ALLOCATE"
  shows "codec W out winv R inp rinv (SaplingTxData_Ser W) (SaplingTxData_Unser sizeof R) Sapling_enc Sapling_ok"
proof unfold_locales
  note spends = vec_codec [OF spend_codec, of "sizeof VE_SpendDescription"]
    and outputs = vec_codec [OF output_codec, of "sizeof VE_OutputDescription"]
  fix d assume d: "Sapling_ok d"
  then show "emits out winv (\<lambda>s. SaplingTxData_Ser W s d) (Sapling_enc d)"
    unfolding SaplingTxData_Ser_def Sapling_enc_def
    by (intro emits_bind atom_emits(3,6) codec.ser_emits [OF spends] codec.ser_emits [OF outputs])
      (simp_all add: Sapling_ok_def assms)
  show "parses inp rinv (SaplingTxData_Unser sizeof R) d (Sapling_enc d)"
    unfolding SaplingTxData_Unser_def Sapling_enc_def
    using d by (intro parses_bind [OF atom_parses(3)] parses_bind [OF codec.uns_parses [OF spends]]
        parses_bind [OF codec.uns_parses [OF outputs]] parses_map [OF atom_parses(6)])
      (simp_all add: Sapling_ok_def assms)
qed

lemma payload_codec:
  "codec W out winv R inp rinv (\<lambda>s. Serialize_optional (Serialize_bytevector W) W s)
     (\<lambda>s. Unserialize_optional (Unserialize_bytevector R) R s)
     (opt_enc bytevec_enc) (\<lambda>x. \<forall>p. x = Some p \<longrightarrow> bytevec_ok p)"
  using opt_codec [OF prevector_codec]
  by (simp add: Serialize_prevector_def [abs_def] Unserialize_prevector_def [abs_def])

lemma transaction_emits:
  assumes tx: "tx_ok tx" and sz: "\<And>e :: vec_elem. 0 < sizeof e \<and> sizeof e \<le> MAX_VECTOR_ALLOCATE"
  shows "emits out winv (\<lambda>s. SerializeTransaction W s tx) (tx_enc tx)"
proof -
  note ins = vec_codec [OF txin_codec, of "sizeof VE_CTxIn"]
    and outs = vec_codec [OF txout_codec, of "sizeof VE_CTxOut"]
    and sap = opt_codec [OF sapling_codec [OF sz]]
  have "emits out winv (\<lambda>s. if isSaplingVersion tx then
         bindE (Serialize_optional (SaplingTxData_Ser W) W s (sapData tx)) (\<lambda>s.
           if \<not> IsNormalType tx then Serialize_optional (Serialize_bytevector W) W s (extraPayload tx)
           else Inr s) else Inr s)
      (if isSaplingVersion tx then opt_enc Sapling_enc (sapData tx) @
        (if \<not> IsNormalType tx then opt_enc bytevec_enc (extraPayload tx) else []) else [])"
  proof (cases "isSaplingVersion tx")
    case sv: True
    have 1: "emits out winv (\<lambda>s. Serialize_optional (SaplingTxData_Ser W) W s (sapData tx)) (opt_enc Sapling_enc (sapData tx))"
      using tx sv by (intro codec.ser_emits [OF sap]) (simp add: tx_ok_def)
    have 2: "emits out winv (\<lambda>s. if \<not> IsNormalType tx then Serialize_optional (Serialize_bytevector W) W s (extraPayload tx)
           else Inr s) (if \<not> IsNormalType tx then opt_enc bytevec_enc (extraPayload tx) else [])"
      using tx sv codec.ser_emits [OF payload_codec, of "extraPayload tx"]
      by (cases "IsNormalType tx") (simp_all add: tx_ok_def emits_Inr)
    show ?thesis using emits_bind [OF 1 2] sv by simp
  qed (simp add: emits_Inr)
  note tail = this
  show ?thesis
    unfolding SerializeTransaction_def tx_enc_def
    using tx by (intro emits_bind atom_emits(4,5) codec.ser_emits [OF ins] codec.ser_emits [OF outs] tail)
      (simp_all add: tx_ok_def sz)
qed

lemma transaction_parses:
  assumes tx: "tx_ok tx" and sz: "\<And>e. 0 < sizeof e \<and> sizeof e \<le> MAX_VECTOR_ALLOCATE"
  shows "parses inp rinv (UnserializeTransaction sizeof R) tx (tx_enc tx)"
proof -
  note ins = vec_codec [OF txin_codec, of "sizeof VE_CTxIn"]
    and outs = vec_codec [OF txout_codec, of "sizeof VE_CTxOut"]
    and sap = opt_codec [OF sapling_codec [OF sz]]
  define base where "base = CMutableTransaction_new\<lparr>tx_nVersion := tx_nVersion tx, tx_nType := tx_nType tx,
    vin := vin tx, vout := vout tx, nLockTime := nLockTime tx\<rparr>"
  have base: "isSaplingVersion base = isSaplingVersion tx"
      "IsNormalType (base\<lparr>sapData := d\<rparr>) = IsNormalType tx" for d
    by (simp_all add: base_def isSaplingVersion_def IsNormalType_def)
  have eq: "base\<lparr>sapData := sapData tx, extraPayload := extraPayload tx\<rparr> = tx"
    by (simp add: base_def)
  have "parses inp rinv (\<lambda>s. if isSaplingVersion base then
            bindE (Unserialize_optional (SaplingTxData_Unser sizeof R) R s) (\<lambda>(sap, s).
              let tx = base\<lparr>sapData := sap\<rparr>
              in if \<not> IsNormalType tx then
                   bindE (Unserialize_optional (Unserialize_bytevector R) R s) (\<lambda>(p, s).
                     Inr (tx\<lparr>extraPayload := p\<rparr>, s))
                 else Inr (tx, s))
          else Inr (base, s)) tx
      (if isSaplingVersion tx then opt_enc Sapling_enc (sapData tx) @
        (if \<not> IsNormalType tx then opt_enc bytevec_enc (extraPayload tx) else []) else [])"
  proof (cases "isSaplingVersion tx")
    case sv: True
    have 1: "parses inp rinv (\<lambda>s. Unserialize_optional (SaplingTxData_Unser sizeof R) R s) (sapData tx)
        (opt_enc Sapling_enc (sapData tx))"
      using tx sv by (intro codec.uns_parses [OF sap]) (simp add: tx_ok_def)
    have 2: "parses inp rinv (\<lambda>s. let tx = base\<lparr>sapData := sapData tx\<rparr>
              in if \<not> IsNormalType tx then
                   bindE (Unserialize_optional (Unserialize_bytevector R) R s) (\<lambda>(p, s).
                     Inr (tx\<lparr>extraPayload := p\<rparr>, s))
                 else Inr (tx, s)) tx (if \<not> IsNormalType tx then opt_enc bytevec_enc (extraPayload tx) else [])"
    proof (cases "IsNormalType tx")
      case True
      have "base\<lparr>sapData := sapData tx\<rparr> = tx"
        using tx True by (simp add: base_def tx_ok_def CMutableTransaction_new_def)
      with True show ?thesis using base(2) parses_Inr by simp
    next
      case False
      have "parses inp rinv (\<lambda>s. Unserialize_optional (Unserialize_bytevector R) R s) (extraPayload tx)
          (opt_enc bytevec_enc (extraPayload tx))"
        using tx sv False by (intro codec.uns_parses [OF payload_codec]) (simp add: tx_ok_def)
      from parses_map [OF this, of "\<lambda>p. base\<lparr>sapData := sapData tx, extraPayload := p\<rparr>", OF eq]
      show ?thesis using False base(2) by (simp add: Let_def)
    qed
    show ?thesis using sv base(1) by (simp only: if_True) (rule parses_bind [OF 1], rule 2)
  next
    case False
    then have "base = tx" using tx by (simp add: base_def tx_ok_def CMutableTransaction_new_def)
    with False show ?thesis by (simp add: parses_Inr)
  qed
  note tail = this [unfolded base_def]
  show ?thesis
    unfolding UnserializeTransaction_def tx_enc_def
    using tx
    by (intro parses_bind [OF atom_parses(4)] parses_bind [OF codec.uns_parses [OF ins]]
        parses_bind [OF codec.uns_parses [OF outs]] parses_bind [OF atom_parses(5)])
      (simp_all only: tx_ok_def sz Let_def tail [unfolded Let_def] simp_thms)
qed

lemma transaction_codec:
  assumes "\<And>e. 0 < sizeof e \<and> sizeof e \<le> MAX_VECTOR_ALLOCATE"
  shows "codec W out winv R inp rinv (SerializeTransaction W) (UnserializeTransaction sizeof R) tx_enc tx_ok"
proof unfold_locales
  fix tx assume tx: "tx_ok tx"
  show "emits out winv (\<lambda>s. SerializeTransaction W s tx) (tx_enc tx)"
    by (rule transaction_emits [OF tx assms])
  show "parses inp rinv (UnserializeTransaction sizeof R) tx (tx_enc tx)"
    by (rule transaction_parses [OF tx assms])
qed

end

interpretation tx_ds: tx_streams "DataStream_sink h" pending DataStream_ok
  "DataStream_source h'" pending DataStream_rok for h h' ..

interpretation tx_file: tx_streams "AutoFile_sink h" AutoFile_written AutoFile_ready
  "AutoFile_source h'" AutoFile_unread AutoFile_ready for h h' ..

section \<open>Properties\<close>

text \<open>
  Property C17.  A transaction written to a data stream is read back unchanged, field by field, with the
  reader stopping exactly at its end: also the shielded data and the extra payload of a special
  transaction, which are present only from the Sapling version on.  The host byte orders of writer
  and reader may differ.
\<close>

theorem Transaction_roundtrip:
  assumes "tx_ok tx" "\<And>e. 0 < sizeof e \<and> sizeof e \<le> MAX_VECTOR_ALLOCATE"
    and "length (tx_enc tx) + length rest < 2 ^ 31"
  shows "\<exists>s t. SerializeTransaction (DataStream_sink h) (DataStream_new ty v) tx = Inr s \<and>
    UnserializeTransaction sizeof (DataStream_source h') (DataStream_from (pending s @ rest) ty' v')
      = Inr (tx, t) \<and> pending t = rest"
proof -
  from codec.roundtrip [OF tx_ds.transaction_codec [of sizeof h h', OF assms(2)] assms(1) DataStream_new_ok(1) [of ty v]]
  obtain s where s: "SerializeTransaction (DataStream_sink h) (DataStream_new ty v) tx = Inr s"
      "pending s = tx_enc tx"
    and rd: "\<And>t rest. DataStream_rok t \<Longrightarrow> pending t = tx_enc tx @ rest \<Longrightarrow>
      \<exists>t'. UnserializeTransaction sizeof (DataStream_source h') t = Inr (tx, t') \<and> DataStream_rok t' \<and> pending t' = rest"
    by auto
  show ?thesis
    using rd [of "DataStream_from (tx_enc tx @ rest) ty' v'" rest] assms(3) s by auto
qed

theorem Transaction_roundtrip_witness:
  "\<exists>s t. SerializeTransaction (DataStream_sink LittleEndianHost) (DataStream_new 1 0)
      (CMutableTransaction_new\<lparr>tx_nVersion := 3, tx_nType := 1,
        vin := [\<lparr>prevout = COutPoint_SetNull, scriptSig = [1, 2], nSequence = 5\<rparr>],
        vout := [CTxOut_new (- 7) [0x6a]], extraPayload := Some [9]\<rparr>) = Inr s \<and>
    UnserializeTransaction (\<lambda>_. 64) (DataStream_source BigEndianHost) (DataStream_from (pending s @ [7]) 1 0)
      = Inr (CMutableTransaction_new\<lparr>tx_nVersion := 3, tx_nType := 1,
        vin := [\<lparr>prevout = COutPoint_SetNull, scriptSig = [1, 2], nSequence = 5\<rparr>],
        vout := [CTxOut_new (- 7) [0x6a]], extraPayload := Some [9]\<rparr>, t) \<and> pending t = [7]"
proof (rule Transaction_roundtrip)
  let ?tx = "CMutableTransaction_new\<lparr>tx_nVersion := 3, tx_nType := 1,
        vin := [\<lparr>prevout = COutPoint_SetNull, scriptSig = [1, 2], nSequence = 5\<rparr>],
        vout := [CTxOut_new (- 7) [0x6a]], extraPayload := Some [9]\<rparr>"
  show "tx_ok ?tx"
    by (simp add: tx_ok_def CMutableTransaction_new_def vec_ok_def CTxIn_ok_def COutPoint_ok_def
        COutPoint_SetNull_def base_blob_new_def bytevec_ok_def CTxOut_ok_def CTxOut_new_def amount_ok_def
        int64_min_def int64_max_def MAX_SIZE_def isSaplingVersion_def TxVersion_SAPLING_def IsNormalType_def
        TxType_NORMAL_def Sapling_ok_def SaplingTxData_new_def)
  show "0 < (64 :: nat) \<and> 64 \<le> MAX_VECTOR_ALLOCATE" by (simp add: MAX_VECTOR_ALLOCATE_def)
  have "length (tx_enc ?tx) = 141"
    by (simp add: tx_enc_def int16_enc_def vec_enc_def compact_bytes_def CTxIn_enc_def COutPoint_enc_def
        COutPoint_SetNull_def base_blob_new_def bytevec_enc_def CTxOut_enc_def CTxOut_new_def amount_enc_def
        CMutableTransaction_new_def isSaplingVersion_def TxVersion_SAPLING_def IsNormalType_def
        TxType_NORMAL_def opt_enc_def Sapling_enc_def SaplingTxData_new_def)
  then show "length (tx_enc ?tx) + length [7 :: 8 word] < 2 ^ 31" by simp
qed

end
