(* ===== verification/TxVerify.thy ===== *)
theory TxVerify
  imports Transaction
begin

text \<open>
  Context-free transaction checks: \<open>consensus/tx_verify.cpp\<close>, the part of
  \<open>sapling/sapling_validation.cpp\<close> it dispatches to, \<open>CValidationState\<close> of
  \<open>consensus/validation.h\<close> and \<open>Params::MoneyRange\<close>.  \<open>nMaxMoneyOut\<close> and the adjusted time are
  arguments; log messages are left out.  \<open>nDoS\<close> is an unbounded integer.
\<close>

section \<open>CValidationState\<close>

datatype mode_state = MODE_VALID | MODE_INVALID | MODE_ERROR

record CValidationState =
  vs_mode :: mode_state
  nDoS :: int
  strRejectReason :: string
  chRejectCode :: u32
  corruptionPossible :: bool
  strDebugMessage :: string

definition REJECT_INVALID :: u32 where "REJECT_INVALID = 0x10"

definition CValidationState_new :: CValidationState where
  "CValidationState_new =
     \<lparr>vs_mode = MODE_VALID, nDoS = 0, strRejectReason = '''', chRejectCode = 0,
      corruptionPossible = False, strDebugMessage = ''''\<rparr>"

definition DoS ::
  "CValidationState \<Rightarrow> int \<Rightarrow> bool \<Rightarrow> u32 \<Rightarrow> string \<Rightarrow> bool \<Rightarrow> string \<Rightarrow> bool \<times> CValidationState" where
  "DoS state level ret code reason corruptionIn debug =
     (let state = state\<lparr>chRejectCode := code, strRejectReason := reason,
                        corruptionPossible := corruptionIn, strDebugMessage := debug\<rparr>
      in if vs_mode state = MODE_ERROR then (ret, state)
         else (ret, state\<lparr>nDoS := nDoS state + level, vs_mode := MODE_INVALID\<rparr>))"

definition CValidationState_Invalid ::
  "CValidationState \<Rightarrow> bool \<Rightarrow> u32 \<Rightarrow> string \<Rightarrow> string \<Rightarrow> bool \<times> CValidationState" where
  "CValidationState_Invalid state ret code reason debug = DoS state 0 ret code reason False debug"

definition CValidationState_Error :: "CValidationState \<Rightarrow> string \<Rightarrow> bool \<times> CValidationState" where
  "CValidationState_Error state reason =
     (let state = (if vs_mode state = MODE_VALID then state\<lparr>strRejectReason := reason\<rparr> else state)
      in (False, state\<lparr>vs_mode := MODE_ERROR\<rparr>))"

definition CValidationState_IsValid :: "CValidationState \<Rightarrow> bool" where
  "CValidationState_IsValid state \<longleftrightarrow> vs_mode state = MODE_VALID"

definition CValidationState_IsInvalid :: "CValidationState \<Rightarrow> bool" where
  "CValidationState_IsInvalid state \<longleftrightarrow> vs_mode state = MODE_INVALID"

definition CValidationState_IsError :: "CValidationState \<Rightarrow> bool" where
  "CValidationState_IsError state \<longleftrightarrow> vs_mode state = MODE_ERROR"

definition CValidationState_IsInvalid_nDoS :: "CValidationState \<Rightarrow> int \<Rightarrow> bool \<times> int" where
  "CValidationState_IsInvalid_nDoS state nDoSOut =
     (if CValidationState_IsInvalid state then (True, nDoS state) else (False, nDoSOut))"

section \<open>MoneyRange\<close>

text \<open>
  \<open>MoneyRange\<close> compares in \<open>double\<close>: both operands are rounded to 53 significant bits, to nearest
  with ties to even, and so is their product with \<open>2.415\<close>, the \<open>double\<close>
  \<open>0x1351eb851eb852 * 2^-51\<close>.  All the values are far below the overflow threshold of \<open>double\<close>.
\<close>

fun bit_len :: "nat \<Rightarrow> nat" where
  "bit_len n = (if n = 0 then 0 else Suc (bit_len (n div 2)))"

declare bit_len.simps [simp del]

definition round_half_even :: "nat \<Rightarrow> nat \<Rightarrow> nat" where
  "round_half_even e x =
     (if x mod 2 ^ e * 2 > 2 ^ e \<or> (x mod 2 ^ e * 2 = 2 ^ e \<and> odd (x div 2 ^ e))
      then x div 2 ^ e + 1 else x div 2 ^ e)"

definition double_round :: "nat \<Rightarrow> nat" where
  "double_round x = (let e = bit_len x - 53 in round_half_even e x * 2 ^ e)"

definition MoneyRange :: "nat \<Rightarrow> CAmount \<Rightarrow> bool" where
  "MoneyRange nMaxMoneyOut v \<longleftrightarrow>
     v \<ge> 0 \<and>
     double_round (nat v) * 2 ^ 51 \<le> double_round (0x1351eb851eb852 * double_round nMaxMoneyOut)"

section \<open>Finality and signature operations\<close>

definition LOCKTIME_THRESHOLD :: int where "LOCKTIME_THRESHOLD = 500000000"

definition IsFinalTx :: "int \<Rightarrow> CTransaction \<Rightarrow> int \<Rightarrow> int \<Rightarrow> bool" where
  "IsFinalTx adjustedTime tx nBlockHeight nBlockTime =
     (if nLockTime tx = 0 then True
      else
        let nBlockTime = (if nBlockTime = 0 then adjustedTime else nBlockTime);
            lock = uint (nLockTime tx)
        in if lock < (if lock < LOCKTIME_THRESHOLD then nBlockHeight else nBlockTime) then True
           else list_all CTxIn_IsFinal (vin tx))"

fun sum_sigops :: "('a \<Rightarrow> u32 res) \<Rightarrow> 'a list \<Rightarrow> u32 \<Rightarrow> u32 res" where
  "sum_sigops f [] nSigOps = Inr nSigOps"
| "sum_sigops f (x # xs) nSigOps = bindE (f x) (\<lambda>n. sum_sigops f xs (nSigOps + n))"

definition GetLegacySigOpCount :: "host_order \<Rightarrow> CTransaction \<Rightarrow> u32 res" where
  "GetLegacySigOpCount h tx =
     bindE (sum_sigops (\<lambda>txin. GetSigOpCount h (scriptSig txin) False) (vin tx) 0) (\<lambda>nSigOps.
       sum_sigops (\<lambda>txout. GetSigOpCount h (scriptPubKey txout) False) (vout tx) nSigOps)"

text \<open>\<open>accessCoinOut\<close> is \<open>inputs.AccessCoin(prevout).out\<close>, the output the view holds for an outpoint.\<close>

definition GetP2SHSigOpCount :: "host_order \<Rightarrow> CTransaction \<Rightarrow> (COutPoint \<Rightarrow> CTxOut) \<Rightarrow> u32 res" where
  "GetP2SHSigOpCount h tx accessCoinOut =
     (if IsCoinBase tx \<or> HasZerocoinSpendInputs tx then Inr 0
      else sum_sigops (\<lambda>txin.
             let out = accessCoinOut (prevout txin)
             in if IsPayToScriptHash (scriptPubKey out)
                then GetSigOpCount_P2SH h (scriptPubKey out) (scriptSig txin) else Inr 0) (vin tx) 0)"

section \<open>CheckTransaction\<close>

definition PROTOCOL_VERSION :: int where "PROTOCOL_VERSION = 72000"
definition MAX_TX_SIZE_AFTER_SAPLING :: nat where "MAX_TX_SIZE_AFTER_SAPLING = 400000"
definition MAX_ZEROCOIN_TX_SIZE :: nat where "MAX_ZEROCOIN_TX_SIZE = 180000"
definition MIN_COLDSTAKING_AMOUNT :: CAmount where "MIN_COLDSTAKING_AMOUNT = 1 * COIN"

definition GetTotalSize :: "host_order \<Rightarrow> CTransaction \<Rightarrow> nat res" where
  "GetTotalSize h tx =
     bindE (GetSerializeSize SerializeTransaction h tx PROTOCOL_VERSION) (\<lambda>n. Inr (n mod 2 ^ 32))"

text \<open>
  Membership in a \<open>std::set\<close>: an element is found when neither is less than the other.  The list
  holds the elements inserted so far.
\<close>

definition set_count :: "('a \<Rightarrow> 'a \<Rightarrow> bool) \<Rightarrow> 'a list \<Rightarrow> 'a \<Rightarrow> bool" where
  "set_count lt s x = list_ex (\<lambda>y. \<not> lt x y \<and> \<not> lt y x) s"

definition reject :: "CValidationState \<Rightarrow> int \<Rightarrow> string \<Rightarrow> bool \<times> CValidationState" where
  "reject state level reason = DoS state level False REJECT_INVALID reason False ''''"

fun CheckNullifiers :: "SpendDescription list \<Rightarrow> bytes list \<Rightarrow> CValidationState \<Rightarrow> bool \<times> CValidationState" where
  "CheckNullifiers [] vSaplingNullifiers state = (True, state)"
| "CheckNullifiers (spend_desc # rest) vSaplingNullifiers state =
     (if set_count base_blob_less vSaplingNullifiers (sp_nullifier spend_desc)
      then reject state 100 ''bad-spend-description-nullifiers-duplicate''
      else CheckNullifiers rest (sp_nullifier spend_desc # vSaplingNullifiers) state)"

definition CheckTransactionWithoutProofVerification ::
  "nat \<Rightarrow> CTransaction \<Rightarrow> CValidationState \<Rightarrow> CAmount \<Rightarrow> ((bool \<times> CValidationState) \<times> CAmount) res" where
  "CheckTransactionWithoutProofVerification nMaxMoneyOut tx state nValueOut =
     (if \<not> isSaplingVersion tx then Inl (AssertFailed ''tx.isSaplingVersion()'')
      else case sapData tx of
        None \<Rightarrow> Inl (UndefinedBehaviour ''tx.sapData->'')
      | Some d \<Rightarrow>
          if vShieldedSpend d = [] \<and> vShieldedOutput d = [] \<and> valueBalance d \<noteq> 0
          then Inr (reject state 100 ''bad-txns-valuebalance-nonzero'', nValueOut)
          else
            bindE (if valueBalance d < 0
                   then bindE (neg_amount (valueBalance d)) (\<lambda>v. add_amount nValueOut v)
                   else Inr nValueOut) (\<lambda>nValueOut.
            if valueBalance d > 0 \<and> \<not> MoneyRange nMaxMoneyOut (valueBalance d)
            then Inr (reject state 100 ''bad-txns-txintotal-toolarge'', nValueOut)
            else Inr (CheckNullifiers (vShieldedSpend d) [] state, nValueOut)))"

definition SaplingValidation_CheckTransaction ::
  "nat \<Rightarrow> CTransaction \<Rightarrow> CValidationState \<Rightarrow> CAmount \<Rightarrow> ((bool \<times> CValidationState) \<times> CAmount) res" where
  "SaplingValidation_CheckTransaction nMaxMoneyOut tx state nValueOut =
     (let sap = hasSaplingData tx
      in if \<not> isSaplingVersion tx \<and> sap
         then Inr (reject state 100 ''bad-txns-form-not-sapling'', nValueOut)
         else if \<not> sap then Inr ((True, state), nValueOut)
         else if IsCoinStake tx \<or> IsCoinBase tx \<or> HasZerocoinSpendInputs tx \<or> HasZerocoinMintOutputs tx
         then Inr (reject state 100 ''bad-txns-invalid-sapling'', nValueOut)
         else CheckTransactionWithoutProofVerification nMaxMoneyOut tx state nValueOut)"

fun CheckOutputs ::
  "nat \<Rightarrow> CTransaction \<Rightarrow> bool \<Rightarrow> CTxOut list \<Rightarrow> CAmount \<Rightarrow> CValidationState \<Rightarrow> (bool \<times> CValidationState) res" where
  "CheckOutputs nMaxMoneyOut tx fColdStakingActive [] nValueOut state = Inr (True, state)"
| "CheckOutputs nMaxMoneyOut tx fColdStakingActive (txout # rest) nValueOut state =
     (if CTxOut_IsEmpty txout \<and> \<not> IsCoinBase tx \<and> \<not> IsCoinStake tx
      then Inr (reject state 100 ''bad-txns-vout-empty'')
      else if nValue txout < 0 then Inr (reject state 100 ''bad-txns-vout-negative'')
      else if nValue txout > int nMaxMoneyOut then Inr (reject state 100 ''bad-txns-vout-toolarge'')
      else
        bindE (add_amount nValueOut (nValue txout)) (\<lambda>nValueOut.
        if \<not> MoneyRange nMaxMoneyOut nValueOut
        then Inr (reject state 100 ''bad-txns-txouttotal-toolarge'')
        else if IsPayToColdStaking (scriptPubKey txout) \<and> \<not> fColdStakingActive
        then Inr (reject state 10 ''cold-stake-inactive'')
        else if IsPayToColdStaking (scriptPubKey txout) \<and> nValue txout < MIN_COLDSTAKING_AMOUNT
        then Inr (reject state 100 ''cold-stake-vout-toosmall'')
        else CheckOutputs nMaxMoneyOut tx fColdStakingActive rest nValueOut state))"

fun CheckDuplicateInputs :: "CTxIn list \<Rightarrow> COutPoint list \<Rightarrow> CValidationState \<Rightarrow> bool \<times> CValidationState" where
  "CheckDuplicateInputs [] vInOutPoints state = (True, state)"
| "CheckDuplicateInputs (txin # rest) vInOutPoints state =
     (if set_count COutPoint_less vInOutPoints (prevout txin)
      then reject state 100 ''bad-txns-inputs-duplicate''
      else CheckDuplicateInputs rest
             (if \<not> CTxIn_IsZerocoinSpend txin then prevout txin # vInOutPoints else vInOutPoints) state)"

fun CheckNullInputs :: "CTxIn list \<Rightarrow> CValidationState \<Rightarrow> bool \<times> CValidationState" where
  "CheckNullInputs [] state = (True, state)"
| "CheckNullInputs (txin # rest) state =
     (if COutPoint_IsNull (prevout txin) \<and> \<not> CTxIn_IsZerocoinSpend txin
      then reject state 10 ''bad-txns-prevout-null''
      else CheckNullInputs rest state)"

definition CheckTransaction ::
  "host_order \<Rightarrow> nat \<Rightarrow> CTransaction \<Rightarrow> CValidationState \<Rightarrow> bool \<Rightarrow> (bool \<times> CValidationState) res" where
  "CheckTransaction h nMaxMoneyOut tx state fColdStakingActive =
     (if vin tx = [] \<and> (case sapData tx of None \<Rightarrow> False | Some d \<Rightarrow> vShieldedSpend d = [])
      then Inr (reject state 10 ''bad-txns-vin-empty'')
      else if vout tx = [] \<and> (case sapData tx of None \<Rightarrow> False | Some d \<Rightarrow> vShieldedOutput d = [])
      then Inr (reject state 10 ''bad-txns-vout-empty'')
      else if tx_nVersion tx < 1 \<or> tx_nVersion tx \<ge> TxVersion_TOOHIGH
      then Inr (reject state 10 ''bad-tx-version-too-high'')
      else
        let nMaxSize = (if IsShieldedTx tx then MAX_TX_SIZE_AFTER_SAPLING else MAX_ZEROCOIN_TX_SIZE)
        in bindE (GetTotalSize h tx) (\<lambda>size.
           if size > nMaxSize then Inr (reject state 10 ''bad-txns-oversize'')
           else
             bindE (SaplingValidation_CheckTransaction nMaxMoneyOut tx state 0) (\<lambda>((ok, state), nValueOut).
             if \<not> ok then Inr (False, state)
             else
               bindE (CheckOutputs nMaxMoneyOut tx fColdStakingActive (vout tx) nValueOut state) (\<lambda>(ok, state).
               if \<not> ok then Inr (False, state)
               else
                 let (ok, state) = CheckDuplicateInputs (vin tx) [] state
                 in if \<not> ok then Inr (False, state)
                    else if IsCoinBase tx then
                      (if length (scriptSig (vin tx ! 0)) < 2 \<or> length (scriptSig (vin tx ! 0)) > 150
                       then Inr (reject state 100 ''bad-cb-length'') else Inr (True, state))
                    else Inr (CheckNullInputs (vin tx) state)))))"

section \<open>Sizes\<close>

text \<open>A transaction's size is the length of its encoding.\<close>

context count_sink
begin

lemma atom_counts:
  "counts cnt winv (\<lambda>s. Serialize_blob W s b) (length b)"
  "counts cnt winv (\<lambda>s. Serialize_prevector W s v) (length (bytevec_enc v))"
  "counts cnt winv (\<lambda>s. Serialize_bytevector W s v) (length (bytevec_enc v))"
  "counts cnt winv (\<lambda>s. Serialize_amount W s a) (length (amount_enc a))"
  "counts cnt winv (\<lambda>s. Serialize_int16 W s i) (length (int16_enc i))"
  "counts cnt winv (\<lambda>s. ser_writedata32 W s w) (length (digits_of 4 (unat w)))"
  "counts cnt winv (\<lambda>s. bytes_Ser W s b) (length b)"
  using write_counts [of b] Serialize_bytevector_counts [of v] writedata_counts(4) [of "word_of_int a"]
    writedata_counts(2) [of "word_of_int i"] writedata_counts(3) [of w]
    serialize_each_counts [of b "ser_writedata8 W" "\<lambda>_. 1", OF writedata_counts(1)]
  by (simp_all add: Serialize_blob_def Serialize_prevector_def Serialize_amount_def Serialize_int16_def
      bytevec_enc_def amount_enc_def int16_enc_def length_compact_bytes bytes_Ser_def Serialize_array_def
      sum_list_triv)

lemma vec_counts:
  "(\<And>x. counts cnt winv (\<lambda>s. ser s x) (length (enc x))) \<Longrightarrow>
   counts cnt winv (\<lambda>s. VectorFormatter_Ser ser W s xs) (length (vec_enc enc xs))"
  using VectorFormatter_Ser_counts [of xs ser "\<lambda>x. length (enc x)"]
  by (simp add: vec_enc_def length_compact_bytes length_concat o_def)

lemma opt_counts:
  assumes "\<And>x. counts cnt winv (\<lambda>s. ser s x) (length (enc x))"
  shows "counts cnt winv (\<lambda>s. Serialize_optional ser W s x) (length (opt_enc enc x))"
  using counts_bind [OF writedata_counts(1) assms] writedata_counts(1)
  by (cases x) (simp_all add: Serialize_optional_def opt_enc_def)

lemma part_counts:
  "counts cnt winv (\<lambda>s. COutPoint_Ser W s p) (length (COutPoint_enc p))"
  "counts cnt winv (\<lambda>s. CTxOut_Ser W s t) (length (CTxOut_enc t))"
  "counts cnt winv (\<lambda>s. SpendDescription_Ser W s d) (length (Spend_enc d))"
  "counts cnt winv (\<lambda>s. OutputDescription_Ser W s e) (length (Output_enc e))"
  unfolding COutPoint_Ser_def COutPoint_enc_def CTxOut_Ser_def CTxOut_enc_def SpendDescription_Ser_def
    Spend_enc_def OutputDescription_Ser_def Output_enc_def length_append
  by (intro counts_bind atom_counts)+

lemma txin_counts: "counts cnt winv (\<lambda>s. CTxIn_Ser W s i) (length (CTxIn_enc i))"
  unfolding CTxIn_Ser_def CTxIn_enc_def length_append
  by (intro counts_bind atom_counts part_counts)

lemma sapling_counts: "counts cnt winv (\<lambda>s. SaplingTxData_Ser W s d) (length (Sapling_enc d))"
  unfolding SaplingTxData_Ser_def Sapling_enc_def length_append
  by (intro counts_bind atom_counts vec_counts part_counts)

lemma transaction_counts: "counts cnt winv (\<lambda>s. SerializeTransaction W s tx) (length (tx_enc tx))"
proof -
  have "counts cnt winv (\<lambda>s. if isSaplingVersion tx then
         bindE (Serialize_optional (SaplingTxData_Ser W) W s (sapData tx)) (\<lambda>s.
           if \<not> IsNormalType tx then Serialize_optional (Serialize_bytevector W) W s (extraPayload tx)
           else Inr s) else Inr s)
      (length (if isSaplingVersion tx then opt_enc Sapling_enc (sapData tx) @
        (if \<not> IsNormalType tx then opt_enc bytevec_enc (extraPayload tx) else []) else []))"
    using counts_bind [OF opt_counts [OF sapling_counts] opt_counts [OF atom_counts(3)]]
      counts_bind [OF opt_counts [OF sapling_counts] counts_Inr]
    by (cases "isSaplingVersion tx"; cases "IsNormalType tx") (simp_all add: counts_Inr)
  then show ?thesis
    unfolding SerializeTransaction_def tx_enc_def length_append
    by (intro counts_bind atom_counts vec_counts txin_counts part_counts)
qed

end

lemma GetTotalSize_exact: "GetTotalSize h tx = Inr (length (tx_enc tx) mod 2 ^ 32)"
proof -
  obtain s where "SerializeTransaction (SizeComputer_sink h) (SizeComputer_new PROTOCOL_VERSION) tx = Inr s"
      "SizeComputer_size s = length (tx_enc tx)"
    using countsD [OF sz_cnt.transaction_counts [of h tx], of "SizeComputer_new PROTOCOL_VERSION"]
    by (auto simp: SizeComputer_new_def SizeComputer_size_def)
  then show ?thesis by (simp add: GetTotalSize_def GetSerializeSize_def)
qed

section \<open>Money\<close>

lemma bit_len_0 [simp]: "bit_len 0 = 0"
  by (simp add: bit_len.simps)

lemma bit_len_bounds: "x < 2 ^ bit_len x" "0 < x \<Longrightarrow> 2 ^ (bit_len x - 1) \<le> x"
proof (induction x rule: bit_len.induct)
  case (1 n)
  { case 1
    show ?case
    proof (cases "n = 0")
      case False
      then show ?thesis using "1.IH"(1) bit_len.simps [of n] by simp
    qed simp
  next
    case 2
    show ?case
    proof (cases "n div 2 = 0")
      case True
      then have "n = 1" using 2 by linarith
      then show ?thesis by (simp add: bit_len.simps [of "Suc 0"])
    next
      case False
      then have "bit_len (n div 2) = Suc (bit_len (n div 2) - 1)"
        using bit_len.simps [of "n div 2"] by simp
      then have "(2 :: nat) ^ bit_len (n div 2) = 2 * 2 ^ (bit_len (n div 2) - 1)"
        by (metis power_Suc)
      moreover have "2 ^ (bit_len (n div 2) - 1) \<le> n div 2"
        using "1.IH"(2) 2 False by simp
      ultimately show ?thesis using 2 bit_len.simps [of n] by simp
    qed }
qed

lemma bit_len_mono: "x \<le> y \<Longrightarrow> bit_len x \<le> bit_len y"
proof (rule ccontr)
  assume "x \<le> y" "\<not> bit_len x \<le> bit_len y"
  then have "(2 :: nat) ^ bit_len y \<le> 2 ^ (bit_len x - 1)" "bit_len x \<noteq> 0"
    by (auto intro!: power_increasing)
  moreover from this(2) have "0 < x" by (cases "x = 0") auto
  ultimately show False
    using bit_len_bounds(1) [of y] bit_len_bounds(2) [of x] \<open>x \<le> y\<close> by linarith
qed

lemma round_half_even_mono: "x \<le> y \<Longrightarrow> round_half_even e x \<le> round_half_even e y"
proof -
  assume "x \<le> y"
  then consider "x div 2 ^ e < y div 2 ^ e" | "x div 2 ^ e = y div 2 ^ e" "x mod 2 ^ e \<le> y mod 2 ^ e"
    by (metis div_le_mono le_neq_implies_less add_le_cancel_left div_mult_mod_eq)
  then show ?thesis by cases (auto simp: round_half_even_def)
qed

lemma double_round_small: assumes "x < 2 ^ 53" shows "double_round x = x"
proof -
  have "bit_len x \<le> 53"
  proof (rule ccontr)
    assume "\<not> bit_len x \<le> 53"
    then have "2 ^ 53 \<le> (2 :: nat) ^ (bit_len x - 1)"
      by (intro power_increasing) simp_all
    moreover have "0 < x" using \<open>\<not> bit_len x \<le> 53\<close> by (cases "x = 0") auto
    ultimately show False using bit_len_bounds(2) [of x] assms by linarith
  qed
  then show ?thesis by (simp add: double_round_def round_half_even_def)
qed

lemma double_round_le: "double_round x \<le> 2 ^ 53 * 2 ^ (bit_len x - 53)"
proof -
  define e where "e = bit_len x - 53"
  have "x < 2 ^ bit_len x" by (rule bit_len_bounds)
  also have "(2 :: nat) ^ bit_len x \<le> 2 ^ (53 + e)" by (rule power_increasing) (simp_all add: e_def)
  finally have "x div 2 ^ e < 2 ^ 53" by (simp only: power_add less_mult_imp_div_less)
  moreover have "e = 0 \<Longrightarrow> double_round x = x"
    by (simp add: double_round_def e_def [symmetric] round_half_even_def)
  ultimately have "round_half_even e x \<le> 2 ^ 53" by (auto simp: round_half_even_def)
  then show ?thesis unfolding double_round_def e_def [symmetric] Let_def by (rule mult_le_mono1)
qed

lemma double_round_ge: assumes "53 < bit_len x" shows "2 ^ 52 * 2 ^ (bit_len x - 53) \<le> double_round x"
proof -
  define e where "e = bit_len x - 53"
  have "bit_len x - 1 = 52 + e" "0 < x" using assms by (auto simp: e_def intro: gr0I)
  then have "2 ^ 52 * 2 ^ e \<le> x" using bit_len_bounds(2) [of x] by (simp only: power_add)
  then have "2 ^ 52 \<le> x div 2 ^ e" by (simp only: less_eq_div_iff_mult_less_eq zero_less_power zero_less_numeral)
  then have "2 ^ 52 \<le> round_half_even e x" by (simp add: round_half_even_def)
  then show ?thesis unfolding double_round_def e_def [symmetric] Let_def by (rule mult_le_mono1)
qed

lemma double_round_mono: assumes "x \<le> y" shows "double_round x \<le> double_round y"
proof (cases "bit_len x - 53 = bit_len y - 53")
  case True
  then show ?thesis using round_half_even_mono [OF assms] by (simp add: double_round_def Let_def)
next
  case False
  then have lt: "bit_len x - 53 < bit_len y - 53" using bit_len_mono [OF assms] by simp
  have "double_round x \<le> 2 ^ 53 * 2 ^ (bit_len x - 53)" by (rule double_round_le)
  also have "(2 :: nat) ^ 53 * 2 ^ (bit_len x - 53) = 2 ^ 52 * 2 ^ Suc (bit_len x - 53)" by simp
  also have "\<dots> \<le> 2 ^ 52 * 2 ^ (bit_len y - 53)"
    using lt by (intro mult_le_mono2 power_increasing) simp_all
  also have "\<dots> \<le> double_round y" using lt by (intro double_round_ge) simp
  finally show ?thesis .
qed

lemma MoneyRange_down: "MoneyRange m v \<Longrightarrow> 0 \<le> u \<Longrightarrow> u \<le> v \<Longrightarrow> MoneyRange m u"
  unfolding MoneyRange_def
  by (meson double_round_mono le_trans mult_le_mono1 nat_mono)


lemma bit_len_eq: assumes "2 ^ n \<le> x" "x < 2 ^ Suc n" shows "bit_len x = Suc n"
proof (rule ccontr)
  assume "bit_len x \<noteq> Suc n"
  then consider "bit_len x \<le> n" | "Suc n \<le> bit_len x - 1" by linarith
  then show False
  proof cases
    case 1
    then have "(2 :: nat) ^ bit_len x \<le> 2 ^ n" by (intro power_increasing) simp_all
    then show False using bit_len_bounds(1) [of x] assms(1) by linarith
  next
    case 2
    then have "(2 :: nat) ^ Suc n \<le> 2 ^ (bit_len x - 1)" by (intro power_increasing) simp_all
    moreover have "0 < x" using 2 by (cases "x = 0") auto
    ultimately show False using bit_len_bounds(2) [of x] assms(2) by linarith
  qed
qed

lemma double_round_values:
  "double_round (2 ^ 63) = 2 ^ 63" "double_round (2 ^ 61) = 2 ^ 61"  "double_round (2 ^ 53) = 2 ^ 53"
  "double_round (0x1351eb851eb852 * 2 ^ 61) = 0x1351eb851eb852 * 2 ^ 61"
  "double_round (0x1351eb851eb852 * 1800000000000000) = 4347000000000000 * 2 ^ 51"
  using bit_len_eq [of 63 "2 ^ 63"] bit_len_eq [of 61 "2 ^ 61"] bit_len_eq [of 53 "2 ^ 53"]
    bit_len_eq [of 113 "0x1351eb851eb852 * 2 ^ 61"] bit_len_eq [of 102 "0x1351eb851eb852 * 1800000000000000"]
  by (simp_all add: double_round_def Let_def round_half_even_def)

lemma MoneyRange_int64: assumes "MoneyRange m v" "m \<le> 2 ^ 61" shows "v \<le> int64_max"
proof (rule ccontr)
  assume "\<not> v \<le> int64_max"
  then have "double_round (2 ^ 63) \<le> double_round (nat v)"
    by (intro double_round_mono) (simp add: int64_max_def)
  moreover have "double_round (0x1351eb851eb852 * double_round m) \<le> double_round (0x1351eb851eb852 * 2 ^ 61)"
    using double_round_mono [OF assms(2)] double_round_values(2) by (intro double_round_mono mult_le_mono2) simp
  ultimately show False using assms(1) double_round_values(1,4) by (simp add: MoneyRange_def)
qed

lemma MoneyRange_main: "MoneyRange (18000000 * 100000000) v \<longleftrightarrow> 0 \<le> v \<and> v \<le> 4347000000000000"
proof -
  have "double_round (0x1351eb851eb852 * double_round (18000000 * 100000000)) = 4347000000000000 * 2 ^ 51"
    using double_round_values(5) double_round_small [of "18000000 * 100000000"] by simp
  then have "MoneyRange (18000000 * 100000000) v \<longleftrightarrow> 0 \<le> v \<and> double_round (nat v) \<le> 4347000000000000"
    by (simp add: MoneyRange_def)
  moreover have "double_round (nat v) \<le> 4347000000000000 \<longleftrightarrow> nat v \<le> 4347000000000000"
  proof (cases "nat v < 2 ^ 53")
    case False
    then have "double_round (2 ^ 53) \<le> double_round (nat v)" by (intro double_round_mono) simp
    then show ?thesis using False double_round_values(3) by simp
  qed (simp add: double_round_small)
  ultimately show ?thesis by auto
qed

section \<open>Sets of blobs\<close>

lemma memcmp_swap: "memcmp b a = - memcmp a b"
  by (induction a b rule: memcmp.induct) auto

lemma memcmp_0: "length a = length b \<Longrightarrow> memcmp a b = 0 \<longleftrightarrow> a = b"
  by (induction a b rule: memcmp.induct) auto

lemma set_count_blob:
  assumes "\<And>y. y \<in> set s \<Longrightarrow> length y = length x"
  shows "set_count base_blob_less s x \<longleftrightarrow> x \<in> set s"
proof -
  have "\<not> base_blob_less x y \<and> \<not> base_blob_less y x \<longleftrightarrow> x = y" if "y \<in> set s" for y
    using memcmp_0 [of x y] memcmp_swap [of x y] assms [OF that] by (auto simp: base_blob_less_def)
  then show ?thesis by (auto simp: set_count_def list_ex_iff)
qed

lemma COutPoint_less_total:
  assumes "length (op_hash p) = length (op_hash q)"
  shows "\<not> COutPoint_less p q \<and> \<not> COutPoint_less q p \<longleftrightarrow> p = q"
proof -
  have "p = q \<longleftrightarrow> op_hash p = op_hash q \<and> op_n p = op_n q" by (cases p; cases q) simp
  then show ?thesis
    using memcmp_0 [OF assms] memcmp_swap [of "op_hash q" "op_hash p"]
    by (auto simp: COutPoint_less_def base_blob_less_def base_blob_eq_def not_less)
qed

lemma set_count_outpoint:
  assumes "\<And>q. q \<in> set s \<Longrightarrow> COutPoint_ok q" "COutPoint_ok p"
  shows "set_count COutPoint_less s p \<longleftrightarrow> p \<in> set s"
  using assms COutPoint_less_total [of p] by (auto simp: set_count_def list_ex_iff COutPoint_ok_def)


section \<open>What a valid transaction is\<close>

text \<open>
  The rules \<open>CheckTransaction\<close> enforces, without the order and the loops in which it does.
\<close>

definition shielded_out :: "CTransaction \<Rightarrow> CAmount" where
  "shielded_out tx =
     (case sapData tx of
        None \<Rightarrow> 0
      | Some d \<Rightarrow> if hasSaplingData tx \<and> valueBalance d < 0 then - valueBalance d else 0)"

definition sapling_valid :: "nat \<Rightarrow> CTransaction \<Rightarrow> bool" where
  "sapling_valid m tx \<longleftrightarrow>
     (hasSaplingData tx \<longrightarrow>
        isSaplingVersion tx \<and> \<not> IsCoinStake tx \<and> \<not> IsCoinBase tx \<and> \<not> HasZerocoinSpendInputs tx \<and>
        \<not> HasZerocoinMintOutputs tx \<and>
        (\<forall>d. sapData tx = Some d \<longrightarrow>
           (vShieldedSpend d = [] \<and> vShieldedOutput d = [] \<longrightarrow> valueBalance d = 0) \<and>
           valueBalance d \<noteq> int64_min \<and>
           (valueBalance d > 0 \<longrightarrow> MoneyRange m (valueBalance d)) \<and>
           distinct (map sp_nullifier (vShieldedSpend d))))"

definition output_valid :: "nat \<Rightarrow> CTransaction \<Rightarrow> bool \<Rightarrow> CTxOut \<Rightarrow> bool" where
  "output_valid m tx cold txout \<longleftrightarrow>
     (CTxOut_IsEmpty txout \<longrightarrow> IsCoinBase tx \<or> IsCoinStake tx) \<and>
     0 \<le> nValue txout \<and> nValue txout \<le> int m \<and>
     (IsPayToColdStaking (scriptPubKey txout) \<longrightarrow> cold \<and> MIN_COLDSTAKING_AMOUNT \<le> nValue txout)"

definition inputs_distinct :: "CTxIn list \<Rightarrow> bool" where
  "inputs_distinct = sorted_wrt (\<lambda>a b. \<not> CTxIn_IsZerocoinSpend a \<longrightarrow> prevout a \<noteq> prevout b)"

definition tx_valid :: "nat \<Rightarrow> bool \<Rightarrow> CTransaction \<Rightarrow> bool" where
  "tx_valid m cold tx \<longleftrightarrow>
     (vin tx = [] \<longrightarrow> (\<forall>d. sapData tx = Some d \<longrightarrow> vShieldedSpend d \<noteq> [])) \<and>
     (vout tx = [] \<longrightarrow> (\<forall>d. sapData tx = Some d \<longrightarrow> vShieldedOutput d \<noteq> [])) \<and>
     1 \<le> tx_nVersion tx \<and> tx_nVersion tx < TxVersion_TOOHIGH \<and>
     length (tx_enc tx) \<le> (if IsShieldedTx tx then MAX_TX_SIZE_AFTER_SAPLING else MAX_ZEROCOIN_TX_SIZE) \<and>
     sapling_valid m tx \<and>
     (\<forall>txout \<in> set (vout tx). output_valid m tx cold txout) \<and>
     (vout tx \<noteq> [] \<longrightarrow> MoneyRange m (shielded_out tx + sum_list (map nValue (vout tx)))) \<and>
     inputs_distinct (vin tx) \<and>
     (if IsCoinBase tx
      then 2 \<le> length (scriptSig (vin tx ! 0)) \<and> length (scriptSig (vin tx ! 0)) \<le> 150
      else (\<forall>txin \<in> set (vin tx). COutPoint_IsNull (prevout txin) \<longrightarrow> CTxIn_IsZerocoinSpend txin))"

text \<open>
  The comments of the source ask more of a transaction without inputs or outputs than the code does.
  The rules split into that requirement, with its exemption for transactions that carry no shielded
  data at all, and the rest.
\<close>

definition ends_documented :: "CTransaction \<Rightarrow> bool" where
  "ends_documented tx \<longleftrightarrow>
     (vin tx = [] \<longrightarrow> (\<exists>d. sapData tx = Some d \<and> vShieldedSpend d \<noteq> [])) \<and>
     (vout tx = [] \<longrightarrow> (\<exists>d. sapData tx = Some d \<and> vShieldedOutput d \<noteq> []))"

definition tx_rules :: "nat \<Rightarrow> bool \<Rightarrow> CTransaction \<Rightarrow> bool" where
  "tx_rules m cold tx \<longleftrightarrow>
     1 \<le> tx_nVersion tx \<and> tx_nVersion tx < TxVersion_TOOHIGH \<and>
     length (tx_enc tx) \<le> (if IsShieldedTx tx then MAX_TX_SIZE_AFTER_SAPLING else MAX_ZEROCOIN_TX_SIZE) \<and>
     sapling_valid m tx \<and>
     (\<forall>txout \<in> set (vout tx). output_valid m tx cold txout) \<and>
     (vout tx \<noteq> [] \<longrightarrow> MoneyRange m (shielded_out tx + sum_list (map nValue (vout tx)))) \<and>
     inputs_distinct (vin tx) \<and>
     (if IsCoinBase tx
      then 2 \<le> length (scriptSig (vin tx ! 0)) \<and> length (scriptSig (vin tx ! 0)) \<le> 150
      else (\<forall>txin \<in> set (vin tx). COutPoint_IsNull (prevout txin) \<longrightarrow> CTxIn_IsZerocoinSpend txin))"

lemma tx_valid_split: "tx_valid m cold tx \<longleftrightarrow> tx_rules m cold tx \<and> (ends_documented tx \<or> sapData tx = None)"
proof -
  have "(vin tx = [] \<longrightarrow> (\<forall>d. sapData tx = Some d \<longrightarrow> vShieldedSpend d \<noteq> [])) \<and>
      (vout tx = [] \<longrightarrow> (\<forall>d. sapData tx = Some d \<longrightarrow> vShieldedOutput d \<noteq> [])) \<longleftrightarrow>
      ends_documented tx \<or> sapData tx = None"
    by (cases "sapData tx") (auto simp: ends_documented_def)
  then show ?thesis unfolding tx_valid_def tx_rules_def by argo
qed

section \<open>Each loop decides its rule\<close>

lemma fst_reject [simp]: "fst (reject state level reason) = False"
  by (simp add: reject_def DoS_def Let_def)

lemma reject_True [simp]: "reject state level reason = (True, st) \<longleftrightarrow> False"
  using fst_reject [of state level reason] by (metis fst_conv)

lemma CheckNullifiers_True:
  assumes "\<And>d. d \<in> set spends \<Longrightarrow> length (sp_nullifier d) = 32" "\<And>y. y \<in> set s \<Longrightarrow> length y = 32"
  shows "CheckNullifiers spends s state = (True, st) \<longleftrightarrow>
    st = state \<and> distinct (map sp_nullifier spends) \<and> set (map sp_nullifier spends) \<inter> set s = {}"
  using assms
proof (induction spends arbitrary: s)
  case (Cons d spends)
  have "CheckNullifiers spends (sp_nullifier d # s) state = (True, st) \<longleftrightarrow>
    st = state \<and> distinct (map sp_nullifier spends) \<and> set (map sp_nullifier spends) \<inter> set (sp_nullifier d # s) = {}"
    using Cons.prems by (intro Cons.IH) auto
  moreover have "set_count base_blob_less s (sp_nullifier d) \<longleftrightarrow> sp_nullifier d \<in> set s"
    using Cons.prems by (intro set_count_blob) simp
  ultimately show ?case by auto
qed auto

lemma CheckDuplicateInputs_True:
  assumes "\<And>i. i \<in> set ins \<Longrightarrow> CTxIn_ok i" "\<And>p. p \<in> set s \<Longrightarrow> COutPoint_ok p"
  shows "CheckDuplicateInputs ins s state = (True, st) \<longleftrightarrow>
    st = state \<and> inputs_distinct ins \<and> prevout ` set ins \<inter> set s = {}"
  using assms
proof (induction ins arbitrary: s)
  case (Cons i ins)
  let ?s = "if \<not> CTxIn_IsZerocoinSpend i then prevout i # s else s"
  have "CheckDuplicateInputs ins ?s state = (True, st) \<longleftrightarrow>
    st = state \<and> inputs_distinct ins \<and> prevout ` set ins \<inter> set ?s = {}"
    using Cons.prems by (intro Cons.IH) (auto simp: CTxIn_ok_def split: if_splits)
  moreover have "set_count COutPoint_less s (prevout i) \<longleftrightarrow> prevout i \<in> set s"
    using Cons.prems by (intro set_count_outpoint) (auto simp: CTxIn_ok_def)
  ultimately show ?case by (auto simp: inputs_distinct_def)
qed (auto simp: inputs_distinct_def)

lemma CheckNullInputs_True:
  "CheckNullInputs ins state = (True, st) \<longleftrightarrow>
     st = state \<and> (\<forall>txin \<in> set ins. COutPoint_IsNull (prevout txin) \<longrightarrow> CTxIn_IsZerocoinSpend txin)"
  by (induction ins) auto

lemma sum_nonneg: "(\<forall>t \<in> set outs. 0 \<le> nValue t) \<Longrightarrow> 0 \<le> sum_list (map nValue outs)"
  by (induction outs) auto

lemma CheckOutputs_True:
  assumes "0 \<le> acc" "m \<le> 2 ^ 61"
  shows "CheckOutputs m tx cold outs acc state = Inr (True, st) \<longleftrightarrow>
    st = state \<and> (\<forall>t \<in> set outs. output_valid m tx cold t) \<and>
    (outs \<noteq> [] \<longrightarrow> MoneyRange m (acc + sum_list (map nValue outs)))"
  using assms(1)
proof (induction outs arbitrary: acc)
  case (Cons t outs)
  show ?case
  proof (cases "output_valid m tx cold t")
    case False
    then show ?thesis
      using MoneyRange_int64 [OF _ assms(2)]
      by (auto simp: output_valid_def add_amount_def bindE_eq_Inr split: if_splits)
  next
    case True
    then have t: "0 \<le> nValue t" by (simp add: output_valid_def)
    note IH = Cons.IH [of "acc + nValue t"]
    let ?total = "acc + (nValue t + sum_list (map nValue outs))"
    show ?thesis
    proof (cases "MoneyRange m (acc + nValue t)")
      case mr: True
      then have "add_amount acc (nValue t) = Inr (acc + nValue t)"
        using MoneyRange_int64 [OF mr assms(2)] Cons.prems t by (simp add: add_amount_def int64_min_def)
      then have "CheckOutputs m tx cold (t # outs) acc state = CheckOutputs m tx cold outs (acc + nValue t) state"
        using True mr by (auto simp: output_valid_def)
      then show ?thesis using IH Cons.prems t mr True by (auto simp: add.assoc)
    next
      case False
      then have "\<not> (\<forall>u \<in> set outs. 0 \<le> nValue u) \<or> \<not> MoneyRange m ?total"
        using MoneyRange_down [of m ?total "acc + nValue t"] sum_nonneg [of outs] Cons.prems t by auto
      then show ?thesis
        using False True by (auto simp: output_valid_def add_amount_def)
    qed
  qed
qed auto

lemma Sapling_CheckTransaction_True:
  assumes tx: "tx_ok tx"
  shows "SaplingValidation_CheckTransaction m tx state 0 = Inr ((True, st), v) \<longleftrightarrow>
    st = state \<and> v = shielded_out tx \<and> sapling_valid m tx"
proof (cases "hasSaplingData tx \<and> isSaplingVersion tx \<and> \<not> IsCoinStake tx \<and> \<not> IsCoinBase tx \<and>
    \<not> HasZerocoinSpendInputs tx \<and> \<not> HasZerocoinMintOutputs tx")
  case True
  then obtain d where d: "sapData tx = Some d" by (auto simp: hasSaplingData_def split: option.splits)
  with tx True have "Sapling_ok d" by (simp add: tx_ok_def)
  then have spends: "CheckNullifiers (vShieldedSpend d) [] state = (True, st) \<longleftrightarrow>
      st = state \<and> distinct (map sp_nullifier (vShieldedSpend d))"
    and bal: "int64_min \<le> valueBalance d"
    using CheckNullifiers_True [of "vShieldedSpend d" "[]" state st]
    by (auto simp: Sapling_ok_def vec_ok_def list_all_iff Spend_ok_def amount_ok_def)
  show ?thesis
    using True d spends bal
    by (auto simp: SaplingValidation_CheckTransaction_def CheckTransactionWithoutProofVerification_def
        sapling_valid_def shielded_out_def neg_amount_def add_amount_def int64_min_def int64_max_def
        split: if_splits)
next
  case False
  then show ?thesis
    by (auto simp: SaplingValidation_CheckTransaction_def Let_def sapling_valid_def shielded_out_def
        split: option.splits if_splits)
qed

lemma check_then:
  "bindE x (\<lambda>((ok, s), v). if \<not> ok then Inr (False, s) else f s v) = Inr (True, st) \<longleftrightarrow>
     (\<exists>s v. x = Inr ((True, s), v) \<and> f s v = Inr (True, st))"
  "bindE y (\<lambda>(ok, s). if \<not> ok then Inr (False, s) else g s) = Inr (True, st) \<longleftrightarrow>
     (\<exists>s. y = Inr (True, s) \<and> g s = Inr (True, st))"
  "(case z of (ok, s) \<Rightarrow> if \<not> ok then Inr (False, s) else g s) = Inr (True, st) \<longleftrightarrow>
     (\<exists>s. z = (True, s) \<and> g s = Inr (True, st))"
  "(if c then Inr (reject state level reason) else r) = Inr (True, st) \<longleftrightarrow> \<not> c \<and> r = Inr (True, st)"
  by (auto simp: bindE_eq_Inr split: prod.splits if_splits)

lemma CheckTransaction_True:
  assumes tx: "tx_ok tx" and len: "length (tx_enc tx) < 2 ^ 32" and m: "m \<le> 2 ^ 61"
  shows "CheckTransaction h m tx state cold = Inr (True, st) \<longleftrightarrow> st = state \<and> tx_valid m cold tx"
proof -
  have out: "CheckOutputs m tx cold (vout tx) (shielded_out tx) state = Inr (True, st) \<longleftrightarrow>
      st = state \<and> (\<forall>t \<in> set (vout tx). output_valid m tx cold t) \<and>
      (vout tx \<noteq> [] \<longrightarrow> MoneyRange m (shielded_out tx + sum_list (map nValue (vout tx))))" for st
    by (rule CheckOutputs_True [OF _ m]) (auto simp: shielded_out_def split: option.splits)
  have dup: "CheckDuplicateInputs (vin tx) [] state = (True, st) \<longleftrightarrow> st = state \<and> inputs_distinct (vin tx)" for st
    using tx by (subst CheckDuplicateInputs_True) (auto simp: tx_ok_def vec_ok_def list_all_iff)
  have size: "length (tx_enc tx) mod 2 ^ 32 = length (tx_enc tx)" using len by simp
  have cb: "(if IsCoinBase tx then if c then Inr (reject s 100 r) else Inr (True, s) else Inr (CheckNullInputs (vin tx) s))
      = Inr (True, st) \<longleftrightarrow> st = s \<and> (if IsCoinBase tx then \<not> c
      else \<forall>txin \<in> set (vin tx). COutPoint_IsNull (prevout txin) \<longrightarrow> CTxIn_IsZerocoinSpend txin)" for c r s
    using CheckNullInputs_True by auto
  have guard: "\<not> (l = [] \<and> (case sapData tx of None \<Rightarrow> False | Some d \<Rightarrow> k d = [])) \<longleftrightarrow>
      (l = [] \<longrightarrow> (\<forall>d. sapData tx = Some d \<longrightarrow> k d \<noteq> []))" for l :: "'a list" and k :: "SaplingTxData \<Rightarrow> 'b list"
    by (cases "sapData tx") auto
  show ?thesis
    unfolding CheckTransaction_def GetTotalSize_exact bindE_Inr Let_def check_then size
      Sapling_CheckTransaction_True [OF tx] cb guard tx_valid_def not_less not_le de_Morgan_disj
    by (simp only: simp_thms ex_simps conj_assoc out dup) blast
qed


section \<open>What a rejection leaves in the state\<close>

definition reported :: "CValidationState \<Rightarrow> bool \<times> CValidationState \<Rightarrow> bool" where
  "reported state r \<longleftrightarrow>
     (if fst r then snd r = state
      else CValidationState_IsInvalid (snd r) \<and> nDoS state < nDoS (snd r) \<and>
        chRejectCode (snd r) = REJECT_INVALID \<and> strRejectReason (snd r) \<noteq> '''')"

lemma reported_True [simp]: "reported state (True, state)"
  by (simp add: reported_def)

lemma reported_reject [simp]:
  "vs_mode state = MODE_VALID \<Longrightarrow> 0 < level \<Longrightarrow> reason \<noteq> '''' \<Longrightarrow> reported state (reject state level reason)"
  by (simp add: reported_def reject_def DoS_def CValidationState_IsInvalid_def)

lemma CheckNullifiers_reported: "vs_mode state = MODE_VALID \<Longrightarrow> reported state (CheckNullifiers ds s state)"
  by (induction ds s state rule: CheckNullifiers.induct) simp_all

lemma CheckDuplicateInputs_reported:
  "vs_mode state = MODE_VALID \<Longrightarrow> reported state (CheckDuplicateInputs ins s state)"
  by (induction ins s state rule: CheckDuplicateInputs.induct) simp_all

lemma CheckNullInputs_reported: "vs_mode state = MODE_VALID \<Longrightarrow> reported state (CheckNullInputs ins state)"
  by (induction ins state rule: CheckNullInputs.induct) simp_all

lemma CheckOutputs_reported:
  "vs_mode state = MODE_VALID \<Longrightarrow> CheckOutputs m tx cold outs acc state = Inr r \<Longrightarrow> reported state r"
  by (induction m tx cold outs acc state rule: CheckOutputs.induct)
    (auto simp: bindE_eq_Inr split: if_splits)

lemma Sapling_CheckTransaction_reported:
  "vs_mode state = MODE_VALID \<Longrightarrow> SaplingValidation_CheckTransaction m tx state v = Inr (r, w) \<Longrightarrow> reported state r"
  by (auto simp: SaplingValidation_CheckTransaction_def CheckTransactionWithoutProofVerification_def Let_def
      bindE_eq_Inr CheckNullifiers_reported split: if_splits option.splits)

definition all_reported :: "CValidationState \<Rightarrow> (bool \<times> CValidationState) res \<Rightarrow> bool" where
  "all_reported state R \<longleftrightarrow> (\<forall>r. R = Inr r \<longrightarrow> reported state r)"

lemma all_reported_intros:
  "reported state r \<Longrightarrow> all_reported state (Inr r)"
  "(c \<Longrightarrow> all_reported state R) \<Longrightarrow> (\<not> c \<Longrightarrow> all_reported state S) \<Longrightarrow> all_reported state (if c then R else S)"
  by (simp_all add: all_reported_def)

lemma all_reported_then:
  "(\<And>r w. x = Inr (r, w) \<Longrightarrow> reported state r) \<Longrightarrow> (\<And>v. all_reported state (f state v)) \<Longrightarrow>
   all_reported state (bindE x (\<lambda>((ok, s), v). if \<not> ok then Inr (False, s) else f s v))"
  "(\<And>r. y = Inr r \<Longrightarrow> reported state r) \<Longrightarrow> all_reported state (g state) \<Longrightarrow>
   all_reported state (bindE y (\<lambda>(ok, s). if \<not> ok then Inr (False, s) else g s))"
  "reported state z \<Longrightarrow> all_reported state (g state) \<Longrightarrow>
   all_reported state (case z of (ok, s) \<Rightarrow> if \<not> ok then Inr (False, s) else g s)"
  by (fastforce simp: all_reported_def reported_def bindE_eq_Inr split: if_splits prod.splits)+

section \<open>Properties\<close>

text \<open>
  Property C9.  \<open>CheckTransaction\<close> accepts exactly the transactions that satisfy the rules the code
  enforces, for every transaction that can arrive over the wire; on acceptance the state is as it
  was.  The rules are those of \<open>tx_rules\<close>, and that a transaction without inputs has shielded spends and
  one without outputs has shielded outputs, as the comments of the source ask; but the code does not
  ask this of a transaction that carries no shielded data (\<open>sapData\<close> is null), which it accepts
  with \<open>vin\<close> or \<open>vout\<close> empty, contrary to those comments (\<open>CheckTransaction_accepts_hollow\<close>).
\<close>

theorem CheckTransaction_exact:
  assumes "tx_ok tx" "length (tx_enc tx) < 2 ^ 32" "nMaxMoneyOut \<le> 2 ^ 61"
  shows "CheckTransaction h nMaxMoneyOut tx state fColdStakingActive = Inr (True, state) \<longleftrightarrow>
    tx_rules nMaxMoneyOut fColdStakingActive tx \<and> (ends_documented tx \<or> sapData tx = None)"
  using CheckTransaction_True [OF assms] tx_valid_split by simp

text \<open>
  Property C34.  When \<open>CheckTransaction\<close> returns, it either accepts and leaves the state alone, or
  refuses with the state invalid, a larger ban score and a reject code and reason.
\<close>

theorem CheckTransaction_reports:
  assumes valid: "CValidationState_IsValid state"
    and run: "CheckTransaction h nMaxMoneyOut tx state fColdStakingActive = Inr (ok, st)"
  shows "if ok then st = state
    else CValidationState_IsInvalid st \<and> nDoS state < nDoS st \<and> chRejectCode st = REJECT_INVALID \<and>
      strRejectReason st \<noteq> ''''"
proof -
  have v: "vs_mode state = MODE_VALID" using valid by (simp add: CValidationState_IsValid_def)
  have "all_reported state (CheckTransaction h nMaxMoneyOut tx state fColdStakingActive)"
    unfolding CheckTransaction_def Let_def GetTotalSize_exact bindE_Inr
    by (intro all_reported_then all_reported_intros reported_reject reported_True v
        CheckNullInputs_reported CheckDuplicateInputs_reported)
      (auto intro: CheckOutputs_reported [OF v] Sapling_CheckTransaction_reported [OF v])
  with run have "reported state (ok, st)" by (simp add: all_reported_def)
  then show ?thesis unfolding reported_def fst_conv snd_conv .
qed

definition spending_tx :: CTransaction where
  "spending_tx = CMutableTransaction_new\<lparr>
     vin := [\<lparr>prevout = \<lparr>op_hash = replicate 32 1, op_n = 0\<rparr>, scriptSig = [], nSequence = 5\<rparr>], vout := [CTxOut_new 7 [0x6a]]\<rparr>"

theorem CheckTransaction_exact_witness:
  "CheckTransaction LittleEndianHost 1800000000000000 spending_tx CValidationState_new False = Inr (True, CValidationState_new)"
proof -
  note tx = spending_tx_def CMutableTransaction_new_def CTxOut_new_def isSaplingVersion_def TxVersion_SAPLING_def
    IsNormalType_def TxType_NORMAL_def SaplingTxData_new_def
  have ok: "tx_ok spending_tx"
    by (simp add: tx tx_ok_def vec_ok_def CTxIn_ok_def COutPoint_ok_def bytevec_ok_def CTxOut_ok_def amount_ok_def
        int64_min_def int64_max_def MAX_SIZE_def)
  have len: "length (tx_enc spending_tx) = 61"
    by (simp add: tx tx_enc_def int16_enc_def vec_enc_def compact_bytes_def CTxIn_enc_def COutPoint_enc_def
        bytevec_enc_def CTxOut_enc_def amount_enc_def)
  have sap: "\<not> hasSaplingData spending_tx" by (simp add: hasSaplingData_def tx hasBindingSig_def list_ex_iff)
  have "\<not> COutPoint_IsNull \<lparr>op_hash = replicate 32 1, op_n = 0\<rparr>" by (simp add: COutPoint_IsNull_def)
  then have "\<not> IsCoinBase spending_tx" "\<forall>txin \<in> set (vin spending_tx). \<not> COutPoint_IsNull (prevout txin)"
    by (simp_all add: IsCoinBase_def tx)
  moreover have "sapling_valid 1800000000000000 spending_tx" "shielded_out spending_tx = 0" "inputs_distinct (vin spending_tx)"
    using sap by (simp_all add: sapling_valid_def shielded_out_def inputs_distinct_def) (simp_all add: tx)
  moreover have "\<forall>t \<in> set (vout spending_tx). output_valid 1800000000000000 spending_tx False t"
    by (simp add: tx output_valid_def CTxOut_IsEmpty_def IsPayToColdStaking_def)
  moreover have "MoneyRange 1800000000000000 7" using MoneyRange_main [of 7] by simp
  ultimately have "tx_rules 1800000000000000 False spending_tx"
    unfolding tx_rules_def using len by (simp add: MAX_ZEROCOIN_TX_SIZE_def MAX_TX_SIZE_AFTER_SAPLING_def TxVersion_TOOHIGH_def) (simp add: tx)
  moreover have "ends_documented spending_tx" by (simp add: ends_documented_def tx)
  ultimately show ?thesis
    using CheckTransaction_exact [OF ok, of 1800000000000000 LittleEndianHost CValidationState_new False] len by simp
qed

theorem CheckTransaction_reports_witness:
  "CheckTransaction LittleEndianHost 1800000000000000 CMutableTransaction_new CValidationState_new False
      = Inr (reject CValidationState_new 10 ''bad-txns-vin-empty'') \<and>
    CValidationState_IsInvalid (snd (reject CValidationState_new 10 ''bad-txns-vin-empty'')) \<and>
    0 < nDoS (snd (reject CValidationState_new 10 ''bad-txns-vin-empty''))"
proof -
  have run: "CheckTransaction LittleEndianHost 1800000000000000 CMutableTransaction_new CValidationState_new False
      = Inr (False, snd (reject CValidationState_new 10 ''bad-txns-vin-empty''))"
    by (simp add: CheckTransaction_def CMutableTransaction_new_def SaplingTxData_new_def prod_eq_iff)
  moreover have "CValidationState_IsValid CValidationState_new"
    by (simp add: CValidationState_IsValid_def CValidationState_new_def)
  ultimately show ?thesis
    using CheckTransaction_reports [OF _ run]
    by (auto simp: prod_eq_iff) (simp add: CValidationState_new_def)
qed

text \<open>
  Property.  A Sapling transaction without shielded data and with neither inputs nor outputs is
  accepted: the two tests for empty vectors only apply when the shielded data is present, although
  an empty \<open>vin\<close> is meant to require shielded spends and an empty \<open>vout\<close> shielded outputs.
\<close>

theorem CheckTransaction_accepts_hollow:
  "CheckTransaction h nMaxMoneyOut (CMutableTransaction_new\<lparr>tx_nVersion := 3, sapData := None\<rparr>) state cold
    = Inr (True, state)"
proof -
  let ?tx = "CMutableTransaction_new\<lparr>tx_nVersion := 3, sapData := None\<rparr>"
  have "length (tx_enc ?tx) = 11"
    by (simp add: tx_enc_def int16_enc_def vec_enc_def compact_bytes_def opt_enc_def CMutableTransaction_new_def
        isSaplingVersion_def TxVersion_SAPLING_def IsNormalType_def TxType_NORMAL_def)
  then show ?thesis
    by (simp add: CheckTransaction_def GetTotalSize_exact CMutableTransaction_new_def TxVersion_TOOHIGH_def
        MAX_TX_SIZE_AFTER_SAPLING_def MAX_ZEROCOIN_TX_SIZE_def SaplingValidation_CheckTransaction_def
        hasSaplingData_def IsCoinBase_def)
qed

definition overflow_tx :: CTransaction where
  "overflow_tx =
     \<lparr>vin = [\<lparr>prevout = \<lparr>op_hash = replicate 32 1, op_n = 0\<rparr>, scriptSig = [], nSequence = 0\<rparr>],
      vout = [CTxOut_new 1 [0x6a]], tx_nVersion = 3, tx_nType = 0, nLockTime = 0,
      sapData = Some \<lparr>valueBalance = - (2 ^ 63 - 1), vShieldedSpend = [],
        vShieldedOutput = [\<lparr>out_cv = replicate 32 0, out_cmu = replicate 32 0, out_ephemeralKey = replicate 32 0,
          out_encCiphertext = replicate 580 0, out_outCiphertext = replicate 80 0, out_zkproof = replicate 192 0\<rparr>],
        bindingSig = replicate 64 0\<rparr>,
      extraPayload = None\<rparr>"

text \<open>
  Property C35.  Shielded value that leaves the transparent pool is not range checked: a transaction
  that can arrive over the wire, with one shielded output, one transparent output of one unit and a
  value balance of \<open>- (2^63 - 1)\<close>, makes \<open>CheckTransaction\<close> overflow its \<open>int64_t\<close> sum, which is
  undefined behaviour, before any check of that sum.
\<close>

theorem CheckTransaction_overflows:
  "tx_ok overflow_tx \<and> CheckTransaction h 1800000000000000 overflow_tx state cold
    = Inl (UndefinedBehaviour ''int64_t overflow'')"
proof
  show "tx_ok overflow_tx"
    by (simp add: overflow_tx_def tx_ok_def vec_ok_def CTxIn_ok_def COutPoint_ok_def
        bytevec_ok_def CTxOut_ok_def CTxOut_new_def amount_ok_def int64_min_def int64_max_def MAX_SIZE_def
        isSaplingVersion_def TxVersion_SAPLING_def IsNormalType_def TxType_NORMAL_def Sapling_ok_def Output_ok_def)
  have "length (tx_enc overflow_tx) = 1084"
    by (simp add: overflow_tx_def tx_enc_def int16_enc_def vec_enc_def compact_bytes_def CTxIn_enc_def COutPoint_enc_def
        bytevec_enc_def CTxOut_enc_def CTxOut_new_def amount_enc_def opt_enc_def Sapling_enc_def Output_enc_def
        isSaplingVersion_def TxVersion_SAPLING_def IsNormalType_def TxType_NORMAL_def)
  moreover have "hasSaplingData overflow_tx" "isSaplingVersion overflow_tx"
    by (simp_all add: overflow_tx_def hasSaplingData_def isSaplingVersion_def TxVersion_SAPLING_def)
  moreover have "\<not> IsCoinStake overflow_tx" "\<not> IsCoinBase overflow_tx"
      "\<not> HasZerocoinSpendInputs overflow_tx" "\<not> HasZerocoinMintOutputs overflow_tx"
    by (simp_all add: overflow_tx_def IsCoinStake_def IsCoinBase_def HasZerocoinSpendInputs_def
        HasZerocoinMintOutputs_def CTxIn_IsZerocoinSpend_def CTxIn_IsZerocoinPublicSpend_def
        CTxOut_IsZerocoinMint_def CTxOut_new_def COutPoint_IsNull_def IsZerocoinMint_def IsZerocoinSpend_def
        IsZerocoinPublicSpend_def StartsWithOpcode_def)
  ultimately show "CheckTransaction h 1800000000000000 overflow_tx state cold
    = Inl (UndefinedBehaviour ''int64_t overflow'')"
    by (simp add: CheckTransaction_def GetTotalSize_exact TxVersion_TOOHIGH_def IsShieldedTx_def
        MAX_TX_SIZE_AFTER_SAPLING_def SaplingValidation_CheckTransaction_def
        CheckTransactionWithoutProofVerification_def)
      (simp add: overflow_tx_def neg_amount_def add_amount_def int64_min_def int64_max_def CTxOut_new_def
        CTxOut_IsEmpty_def)
qed

end
