(* ===== verification/Coins.thy ===== *)
theory Coins
  imports TxVerify "HOL-Library.AList"
begin

text \<open>
  The set of unspent outputs and its caches: \<open>coins.h\<close>, \<open>coins.cpp\<close>, the coin database of
  \<open>txdb.cpp\<close> and its shielded part \<open>sapling/sapling_txdb.cpp\<close>.

  A view is a stack: the database (or the dummy \<open>CCoinsView\<close>) at the bottom and caches above it;
  a cache's \<open>base\<close> pointer is the rest of the stack.  Reading through a cache fills it and the caches
  below, so every operation returns the views it leaves.  An \<open>unordered_map\<close> is an association
  list in the order its iterator happens to visit it.  The two bits of a flag byte are two fields.
  The database is a key-value store that a batch of writes changes at once; the bytes of keys and
  values are not modelled here, except that \<open>nRounds\<close> of an output is not stored.

  The memory the allocator reports for a coin and for a tree, the size estimate of a batch entry,
  the commitment tree with its root, the list of invalid outpoints and the batch size are the
  parameters of \<open>coins_env\<close>.
\<close>

section \<open>Data\<close>

record Coin =
  fCoinBase :: bool
  fCoinStake :: bool
  coin_out :: CTxOut
  coin_nHeight :: u32

definition Coin_new :: Coin where
  "Coin_new = \<lparr>fCoinBase = False, fCoinStake = False, coin_out = CTxOut_SetNull, coin_nHeight = 0\<rparr>"

definition Coin_of :: "CTxOut \<Rightarrow> int \<Rightarrow> bool \<Rightarrow> bool \<Rightarrow> Coin" where
  "Coin_of outIn nHeightIn fCoinBaseIn fCoinStakeIn =
     \<lparr>fCoinBase = fCoinBaseIn, fCoinStake = fCoinStakeIn, coin_out = outIn, coin_nHeight = word_of_int nHeightIn\<rparr>"

definition Coin_Clear :: "Coin \<Rightarrow> Coin" where
  "Coin_Clear coin =
     coin\<lparr>coin_out := CTxOut_SetNull, fCoinBase := False, fCoinStake := False, coin_nHeight := 0\<rparr>"

definition Coin_IsSpent :: "Coin \<Rightarrow> bool" where
  "Coin_IsSpent coin \<longleftrightarrow> CTxOut_IsNull (coin_out coin)"

record CCoinsCacheEntry =
  ce_coin :: Coin
  ce_DIRTY :: bool
  ce_FRESH :: bool

definition CCoinsCacheEntry_new :: CCoinsCacheEntry where
  "CCoinsCacheEntry_new = \<lparr>ce_coin = Coin_new, ce_DIRTY = False, ce_FRESH = False\<rparr>"

record 't CAnchorsSaplingCacheEntry =
  ae_entered :: bool
  ae_tree :: 't
  ae_DIRTY :: bool

record CNullifiersCacheEntry =
  ne_entered :: bool
  ne_DIRTY :: bool

definition CNullifiersCacheEntry_new :: CNullifiersCacheEntry where
  "CNullifiersCacheEntry_new = \<lparr>ne_entered = False, ne_DIRTY = False\<rparr>"

type_synonym CCoinsMap = "(COutPoint \<times> CCoinsCacheEntry) list"
type_synonym 't CAnchorsSaplingMap = "(bytes \<times> 't CAnchorsSaplingCacheEntry) list"
type_synonym CNullifiersMap = "(bytes \<times> CNullifiersCacheEntry) list"

record 't CCoinsViewCache =
  hashBlock :: bytes
  cacheCoins :: CCoinsMap
  hashSaplingAnchor :: bytes
  cacheSaplingAnchors :: "'t CAnchorsSaplingMap"
  cacheSaplingNullifiers :: CNullifiersMap
  cachedCoinsUsage :: u64

definition CCoinsViewCache_new :: "'t CCoinsViewCache" where
  "CCoinsViewCache_new =
     \<lparr>hashBlock = base_blob_new 32, cacheCoins = [], hashSaplingAnchor = base_blob_new 32,
      cacheSaplingAnchors = [], cacheSaplingNullifiers = [], cachedCoinsUsage = 0\<rparr>"

datatype db_key =
    DB_COIN COutPoint | DB_BEST_BLOCK | DB_HEAD_BLOCKS
  | DB_SAPLING_ANCHOR bytes | DB_SAPLING_NULLIFIER bytes | DB_BEST_SAPLING_ANCHOR

datatype 't db_value = V_Coin Coin | V_Hash bytes | V_Hashes "bytes list" | V_Tree 't | V_Bool bool

type_synonym 't db = "db_key \<rightharpoonup> 't db_value"

datatype 't batch_op = Write db_key "'t db_value" | Erase db_key

datatype 't view = Dummy | DB "'t db" | Cache "'t CCoinsViewCache" "'t view"

record 't coins_env =
  env_usage :: "Coin \<Rightarrow> nat"
  env_tree_usage :: "'t \<Rightarrow> nat"
  env_root :: "'t \<Rightarrow> bytes"
  env_empty_tree :: 't
  env_empty_root :: bytes
  env_op_size :: "'t batch_op \<Rightarrow> nat"
  env_batch_size :: nat
  env_invalid :: "COutPoint list"

section \<open>The database\<close>

fun apply_op :: "'t db \<Rightarrow> 't batch_op \<Rightarrow> 't db" where
  "apply_op db (Write k v) = db(k \<mapsto> v)"
| "apply_op db (Erase k) = db(k := None)"

text \<open>
  A batch reaches the database as a whole.  A bad status of the database library, for which the
  source throws, ends the run and is not modelled: what a run that stops between two batches leaves
  behind is the state after the batches written so far.
\<close>

definition WriteBatch :: "'t db \<Rightarrow> 't batch_op list \<Rightarrow> 't db" where
  "WriteBatch db batch = foldl apply_op db batch"

definition db_GetCoin :: "'t db \<Rightarrow> COutPoint \<Rightarrow> Coin option" where
  "db_GetCoin db outpoint = (case db (DB_COIN outpoint) of Some (V_Coin c) \<Rightarrow> Some c | _ \<Rightarrow> None)"

definition db_HaveCoin :: "'t db \<Rightarrow> COutPoint \<Rightarrow> bool" where
  "db_HaveCoin db outpoint \<longleftrightarrow> db (DB_COIN outpoint) \<noteq> None"

definition db_GetBestBlock :: "'t db \<Rightarrow> bytes" where
  "db_GetBestBlock db = (case db DB_BEST_BLOCK of Some (V_Hash h) \<Rightarrow> h | _ \<Rightarrow> base_blob_new 32)"

definition db_GetHeadBlocks :: "'t db \<Rightarrow> bytes list" where
  "db_GetHeadBlocks db = (case db DB_HEAD_BLOCKS of Some (V_Hashes hs) \<Rightarrow> hs | _ \<Rightarrow> [])"

definition db_GetSaplingAnchorAt :: "'t coins_env \<Rightarrow> 't db \<Rightarrow> bytes \<Rightarrow> 't option" where
  "db_GetSaplingAnchorAt E db rt =
     (if rt = env_empty_root E then Some (env_empty_tree E)
      else case db (DB_SAPLING_ANCHOR rt) of Some (V_Tree t) \<Rightarrow> Some t | _ \<Rightarrow> None)"

definition db_GetNullifier :: "'t db \<Rightarrow> bytes \<Rightarrow> bool" where
  "db_GetNullifier db nf = (case db (DB_SAPLING_NULLIFIER nf) of Some (V_Bool _) \<Rightarrow> True | _ \<Rightarrow> False)"

definition db_GetBestAnchor :: "'t coins_env \<Rightarrow> 't db \<Rightarrow> bytes" where
  "db_GetBestAnchor E db =
     (case db DB_BEST_SAPLING_ANCHOR of Some (V_Hash h) \<Rightarrow> h | _ \<Rightarrow> env_empty_root E)"

definition SizeEstimate :: "'t coins_env \<Rightarrow> 't batch_op list \<Rightarrow> nat" where
  "SizeEstimate E batch = sum_list (map (env_op_size E) batch)"

text \<open>A coin as it comes back from the database.\<close>

definition stored_coin :: "Coin \<Rightarrow> Coin" where
  "stored_coin c = c\<lparr>coin_out := CTxOut_new (nValue (coin_out c)) (scriptPubKey (coin_out c))\<rparr>"

fun coin_op :: "COutPoint \<times> CCoinsCacheEntry \<Rightarrow> 't batch_op list" where
  "coin_op (outpoint, e) =
     (if ce_DIRTY e then
        (if Coin_IsSpent (ce_coin e) then [Erase (DB_COIN outpoint)]
         else [Write (DB_COIN outpoint) (V_Coin (stored_coin (ce_coin e)))])
      else [])"

text \<open>The loop over the coins: the batch so far and the batches written.\<close>

fun db_coins_loop ::
  "'t coins_env \<Rightarrow> CCoinsMap \<Rightarrow> 't batch_op list \<Rightarrow> 't batch_op list list \<Rightarrow> 't batch_op list \<times> 't batch_op list list" where
  "db_coins_loop E [] batch written = (batch, written)"
| "db_coins_loop E (it # rest) batch written =
     (let batch = batch @ coin_op it
      in if SizeEstimate E batch > env_batch_size E
         then db_coins_loop E rest [] (written @ [batch])
         else db_coins_loop E rest batch written)"

fun anchor_op :: "'t coins_env \<Rightarrow> bytes \<times> 't CAnchorsSaplingCacheEntry \<Rightarrow> 't batch_op list" where
  "anchor_op E (rt, e) =
     (if ae_DIRTY e then
        (if \<not> ae_entered e then [Erase (DB_SAPLING_ANCHOR rt)]
         else if rt \<noteq> env_empty_root E then [Write (DB_SAPLING_ANCHOR rt) (V_Tree (ae_tree e))] else [])
      else [])"

fun nullifier_op :: "bytes \<times> CNullifiersCacheEntry \<Rightarrow> 't batch_op list" where
  "nullifier_op (nf, e) =
     (if ne_DIRTY e then
        (if \<not> ne_entered e then [Erase (DB_SAPLING_NULLIFIER nf)]
         else [Write (DB_SAPLING_NULLIFIER nf) (V_Bool True)])
      else [])"

definition BatchWriteSapling ::
  "'t coins_env \<Rightarrow> bytes \<Rightarrow> 't CAnchorsSaplingMap \<Rightarrow> CNullifiersMap \<Rightarrow> 't batch_op list" where
  "BatchWriteSapling E hashAnchor mapSaplingAnchors mapSaplingNullifiers =
     concat (map (anchor_op E) mapSaplingAnchors) @ concat (map nullifier_op mapSaplingNullifiers) @
     (if \<not> base_blob_IsNull hashAnchor then [Write DB_BEST_SAPLING_ANCHOR (V_Hash hashAnchor)] else [])"

text \<open>The batches \<open>CCoinsViewDB::BatchWrite\<close> writes, one after the other.\<close>

definition db_BatchWrite_batches ::
  "'t coins_env \<Rightarrow> 't db \<Rightarrow> CCoinsMap \<Rightarrow> bytes \<Rightarrow> bytes \<Rightarrow> 't CAnchorsSaplingMap \<Rightarrow> CNullifiersMap
     \<Rightarrow> 't batch_op list list res" where
  "db_BatchWrite_batches E db mapCoins hash hashAnchor mapSaplingAnchors mapSaplingNullifiers =
     (if base_blob_IsNull hash then Inl (AssertFailed ''!hashBlock.IsNull()'')
      else
        let old_tip = db_GetBestBlock db;
            old_heads = db_GetHeadBlocks db
        in bindE
             (if base_blob_IsNull old_tip \<and> length old_heads = 2 then
                (if old_heads ! 0 = hash then Inr (old_heads ! 1)
                 else Inl (AssertFailed ''old_heads[0] == hashBlock''))
              else Inr old_tip) (\<lambda>old_tip.
             let batch = [Erase DB_BEST_BLOCK, Write DB_HEAD_BLOCKS (V_Hashes [hash, old_tip])];
                 (batch, written) = db_coins_loop E mapCoins batch []
             in Inr (written @ [batch @ BatchWriteSapling E hashAnchor mapSaplingAnchors mapSaplingNullifiers @
                                [Erase DB_HEAD_BLOCKS, Write DB_BEST_BLOCK (V_Hash hash)]])))"

definition db_BatchWrite ::
  "'t coins_env \<Rightarrow> 't db \<Rightarrow> CCoinsMap \<Rightarrow> bytes \<Rightarrow> bytes \<Rightarrow> 't CAnchorsSaplingMap \<Rightarrow> CNullifiersMap \<Rightarrow> 't db res" where
  "db_BatchWrite E db mapCoins hash hashAnchor mapSaplingAnchors mapSaplingNullifiers =
     bindE (db_BatchWrite_batches E db mapCoins hash hashAnchor mapSaplingAnchors mapSaplingNullifiers)
       (\<lambda>bs. Inr (foldl WriteBatch db bs))"

section \<open>Reading through the caches\<close>

fun GetCoin :: "'t coins_env \<Rightarrow> 't view \<Rightarrow> COutPoint \<Rightarrow> Coin option \<times> 't view"
and FetchCoin :: "'t coins_env \<Rightarrow> 't CCoinsViewCache \<Rightarrow> 't view \<Rightarrow> COutPoint
      \<Rightarrow> CCoinsCacheEntry option \<times> 't CCoinsViewCache \<times> 't view" where
  "GetCoin E Dummy outpoint = (None, Dummy)"
| "GetCoin E (DB db) outpoint = (db_GetCoin db outpoint, DB db)"
| "GetCoin E (Cache c b) outpoint =
     (case FetchCoin E c b outpoint of (it, c, b) \<Rightarrow> (map_option ce_coin it, Cache c b))"
| "FetchCoin E c b outpoint =
     (case map_of (cacheCoins c) outpoint of
        Some e \<Rightarrow> (Some e, c, b)
      | None \<Rightarrow>
          (case GetCoin E b outpoint of
             (None, b) \<Rightarrow> (None, c, b)
           | (Some tmp, b) \<Rightarrow>
               let ret = CCoinsCacheEntry_new\<lparr>ce_coin := tmp, ce_FRESH := Coin_IsSpent tmp\<rparr>
               in (Some ret,
                   c\<lparr>cacheCoins := AList.update outpoint ret (cacheCoins c),
                     cachedCoinsUsage := cachedCoinsUsage c + of_nat (env_usage E tmp)\<rparr>, b)))"

text \<open>The operations of a cache, on its own fields \<open>c\<close> and its base \<open>b\<close>, carry the prefix \<open>Cache\<close>.\<close>

definition CacheHaveCoin ::
  "'t coins_env \<Rightarrow> 't CCoinsViewCache \<Rightarrow> 't view \<Rightarrow> COutPoint \<Rightarrow> bool \<times> 't CCoinsViewCache \<times> 't view" where
  "CacheHaveCoin E c b outpoint =
     (case FetchCoin E c b outpoint of
        (it, c, b) \<Rightarrow> (case it of None \<Rightarrow> False | Some e \<Rightarrow> \<not> Coin_IsSpent (ce_coin e), c, b))"

fun HaveCoin :: "'t coins_env \<Rightarrow> 't view \<Rightarrow> COutPoint \<Rightarrow> bool \<times> 't view" where
  "HaveCoin E Dummy outpoint = (False, Dummy)"
| "HaveCoin E (DB db) outpoint = (db_HaveCoin db outpoint, DB db)"
| "HaveCoin E (Cache c b) outpoint = (case CacheHaveCoin E c b outpoint of (h, c, b) \<Rightarrow> (h, Cache c b))"

definition HaveCoinInCache :: "'t CCoinsViewCache \<Rightarrow> COutPoint \<Rightarrow> bool" where
  "HaveCoinInCache c outpoint \<longleftrightarrow> map_of (cacheCoins c) outpoint \<noteq> None"

definition coinEmpty :: Coin where "coinEmpty = Coin_new"

definition AccessCoin :: "'t coins_env \<Rightarrow> 't CCoinsViewCache \<Rightarrow> 't view \<Rightarrow> COutPoint
    \<Rightarrow> Coin \<times> 't CCoinsViewCache \<times> 't view" where
  "AccessCoin E c b outpoint =
     (case FetchCoin E c b outpoint of
        (None, c, b) \<Rightarrow> (coinEmpty, c, b)
      | (Some e, c, b) \<Rightarrow> (ce_coin e, c, b))"

fun GetBestBlock :: "'t view \<Rightarrow> bytes \<times> 't view" where
  "GetBestBlock Dummy = (base_blob_new 32, Dummy)"
| "GetBestBlock (DB db) = (db_GetBestBlock db, DB db)"
| "GetBestBlock (Cache c b) =
     (if base_blob_IsNull (hashBlock c)
      then case GetBestBlock b of (h, b) \<Rightarrow> (h, Cache (c\<lparr>hashBlock := h\<rparr>) b)
      else (hashBlock c, Cache c b))"

fun GetHeadBlocks :: "'t view \<Rightarrow> bytes list" where
  "GetHeadBlocks Dummy = []"
| "GetHeadBlocks (DB db) = db_GetHeadBlocks db"
| "GetHeadBlocks (Cache c b) = GetHeadBlocks b"

fun GetSaplingAnchorAt :: "'t coins_env \<Rightarrow> 't view \<Rightarrow> bytes \<Rightarrow> 't option \<times> 't view"
and CacheGetSaplingAnchorAt :: "'t coins_env \<Rightarrow> 't CCoinsViewCache \<Rightarrow> 't view \<Rightarrow> bytes
      \<Rightarrow> 't option \<times> 't CCoinsViewCache \<times> 't view" where
  "GetSaplingAnchorAt E Dummy rt = (None, Dummy)"
| "GetSaplingAnchorAt E (DB db) rt = (db_GetSaplingAnchorAt E db rt, DB db)"
| "GetSaplingAnchorAt E (Cache c b) rt =
     (case CacheGetSaplingAnchorAt E c b rt of (r, c, b) \<Rightarrow> (r, Cache c b))"
| "CacheGetSaplingAnchorAt E c b rt =
     (case map_of (cacheSaplingAnchors c) rt of
        Some e \<Rightarrow> (if ae_entered e then Some (ae_tree e) else None, c, b)
      | None \<Rightarrow>
          (case GetSaplingAnchorAt E b rt of
             (None, b) \<Rightarrow> (None, c, b)
           | (Some tree, b) \<Rightarrow>
               (Some tree,
                c\<lparr>cacheSaplingAnchors :=
                    AList.update rt \<lparr>ae_entered = True, ae_tree = tree, ae_DIRTY = False\<rparr> (cacheSaplingAnchors c),
                  cachedCoinsUsage := cachedCoinsUsage c + of_nat (env_tree_usage E tree)\<rparr>, b)))"

fun GetNullifier :: "'t view \<Rightarrow> bytes \<Rightarrow> bool \<times> 't view"
and CacheGetNullifier :: "'t CCoinsViewCache \<Rightarrow> 't view \<Rightarrow> bytes \<Rightarrow> bool \<times> 't CCoinsViewCache \<times> 't view" where
  "GetNullifier Dummy nullifier = (False, Dummy)"
| "GetNullifier (DB db) nullifier = (db_GetNullifier db nullifier, DB db)"
| "GetNullifier (Cache c b) nullifier =
     (case CacheGetNullifier c b nullifier of (r, c, b) \<Rightarrow> (r, Cache c b))"
| "CacheGetNullifier c b nullifier =
     (case map_of (cacheSaplingNullifiers c) nullifier of
        Some e \<Rightarrow> (ne_entered e, c, b)
      | None \<Rightarrow>
          (case GetNullifier b nullifier of
             (tmp, b) \<Rightarrow>
               (tmp, c\<lparr>cacheSaplingNullifiers :=
                   AList.update nullifier (CNullifiersCacheEntry_new\<lparr>ne_entered := tmp\<rparr>) (cacheSaplingNullifiers c)\<rparr>, b)))"

fun GetBestAnchor :: "'t coins_env \<Rightarrow> 't view \<Rightarrow> bytes \<times> 't view"
and CacheGetBestAnchor :: "'t coins_env \<Rightarrow> 't CCoinsViewCache \<Rightarrow> 't view \<Rightarrow> bytes \<times> 't CCoinsViewCache \<times> 't view" where
  "GetBestAnchor E Dummy = (base_blob_new 32, Dummy)"
| "GetBestAnchor E (DB db) = (db_GetBestAnchor E db, DB db)"
| "GetBestAnchor E (Cache c b) = (case CacheGetBestAnchor E c b of (h, c, b) \<Rightarrow> (h, Cache c b))"
| "CacheGetBestAnchor E c b =
     (if base_blob_IsNull (hashSaplingAnchor c)
      then case GetBestAnchor E b of (h, b) \<Rightarrow> (h, c\<lparr>hashSaplingAnchor := h\<rparr>, b)
      else (hashSaplingAnchor c, c, b))"

section \<open>Changing a cache\<close>

definition SetBestBlock :: "'t CCoinsViewCache \<Rightarrow> bytes \<Rightarrow> 't CCoinsViewCache" where
  "SetBestBlock c hashBlockIn = c\<lparr>hashBlock := hashBlockIn\<rparr>"

text \<open>
  \<open>AddCoin\<close> may throw after it has changed the cache; the result is what it throws, if anything,
  and the cache it leaves.
\<close>

definition AddCoin ::
  "'t coins_env \<Rightarrow> 't CCoinsViewCache \<Rightarrow> COutPoint \<Rightarrow> Coin \<Rightarrow> bool \<Rightarrow> exc option \<times> 't CCoinsViewCache" where
  "AddCoin E c outpoint coin possible_overwrite =
     (if Coin_IsSpent coin then (Some (AssertFailed ''!coin.IsSpent()''), c)
      else if IsUnspendable (scriptPubKey (coin_out coin)) then (None, c)
      else if CTxOut_IsZerocoinMint (coin_out coin) then (None, c)
      else
        let inserted = (map_of (cacheCoins c) outpoint = None);
            it = (case map_of (cacheCoins c) outpoint of None \<Rightarrow> CCoinsCacheEntry_new | Some e \<Rightarrow> e);
            c = c\<lparr>cacheCoins := AList.update outpoint it (cacheCoins c)\<rparr>;
            c = (if \<not> inserted
                 then c\<lparr>cachedCoinsUsage := cachedCoinsUsage c - of_nat (env_usage E (ce_coin it))\<rparr> else c)
        in if \<not> possible_overwrite \<and> \<not> Coin_IsSpent (ce_coin it)
           then (Some (LogicError ''Adding new coin that replaces non-pruned entry''), c)
           else
             let fresh = (\<not> possible_overwrite \<and> \<not> ce_DIRTY it);
                 it = \<lparr>ce_coin = coin, ce_DIRTY = True, ce_FRESH = (ce_FRESH it \<or> fresh)\<rparr>
             in (None, c\<lparr>cacheCoins := AList.update outpoint it (cacheCoins c),
                         cachedCoinsUsage := cachedCoinsUsage c + of_nat (env_usage E coin)\<rparr>))"

text \<open>The result is what \<open>moveout\<close> receives.\<close>

definition SpendCoin ::
  "'t coins_env \<Rightarrow> 't CCoinsViewCache \<Rightarrow> 't view \<Rightarrow> COutPoint
     \<Rightarrow> Coin option \<times> 't CCoinsViewCache \<times> 't view" where
  "SpendCoin E c b outpoint =
     (case FetchCoin E c b outpoint of
        (None, c, b) \<Rightarrow> (None, c, b)
      | (Some e, c, b) \<Rightarrow>
          let c = c\<lparr>cachedCoinsUsage := cachedCoinsUsage c - of_nat (env_usage E (ce_coin e))\<rparr>
          in (Some (ce_coin e),
              if ce_FRESH e then c\<lparr>cacheCoins := AList.delete outpoint (cacheCoins c)\<rparr>
              else c\<lparr>cacheCoins := AList.update outpoint
                       (e\<lparr>ce_DIRTY := True, ce_coin := Coin_Clear (ce_coin e)\<rparr>) (cacheCoins c)\<rparr>, b))"

definition Uncache :: "'t coins_env \<Rightarrow> 't CCoinsViewCache \<Rightarrow> COutPoint \<Rightarrow> 't CCoinsViewCache" where
  "Uncache E c outpoint =
     (case map_of (cacheCoins c) outpoint of
        Some e \<Rightarrow>
          (if \<not> ce_DIRTY e \<and> \<not> ce_FRESH e
           then c\<lparr>cachedCoinsUsage := cachedCoinsUsage c - of_nat (env_usage E (ce_coin e)),
                  cacheCoins := AList.delete outpoint (cacheCoins c)\<rparr>
           else c)
      | None \<Rightarrow> c)"

text \<open>The loop of \<open>AddCoins\<close> from output \<open>i\<close> on; \<open>txid\<close> is the transaction's hash.\<close>

fun AddCoins_loop ::
  "'t coins_env \<Rightarrow> bytes \<Rightarrow> bool \<Rightarrow> bool \<Rightarrow> int \<Rightarrow> bool \<Rightarrow> bool \<Rightarrow> CTxOut list \<Rightarrow> nat
     \<Rightarrow> 't CCoinsViewCache \<Rightarrow> 't view \<Rightarrow> exc option \<times> 't CCoinsViewCache \<times> 't view" where
  "AddCoins_loop E txid fCoinbase fCoinstake nHeight check fSkipInvalid [] i c b = (None, c, b)"
| "AddCoins_loop E txid fCoinbase fCoinstake nHeight check fSkipInvalid (txout # rest) i c b =
     (let out = \<lparr>op_hash = txid, op_n = of_nat i\<rparr>
      in if fSkipInvalid \<and> out \<in> set (env_invalid E)
         then case SpendCoin E c b out of
                (_, c, b) \<Rightarrow> AddCoins_loop E txid fCoinbase fCoinstake nHeight check fSkipInvalid rest (Suc i) c b
         else
           case (if check then CacheHaveCoin E c b out else (False, c, b)) of
             (overwrite, c, b) \<Rightarrow>
               (case AddCoin E c out (Coin_of txout nHeight fCoinbase fCoinstake) overwrite of
                  (None, c) \<Rightarrow> AddCoins_loop E txid fCoinbase fCoinstake nHeight check fSkipInvalid rest (Suc i) c b
                | (Some e, c) \<Rightarrow> (Some e, c, b)))"

definition AddCoins ::
  "'t coins_env \<Rightarrow> bytes \<Rightarrow> 't CCoinsViewCache \<Rightarrow> 't view \<Rightarrow> CTransaction \<Rightarrow> int \<Rightarrow> bool \<Rightarrow> bool
     \<Rightarrow> exc option \<times> 't CCoinsViewCache \<times> 't view" where
  "AddCoins E txid c b tx nHeight check fSkipInvalid =
     AddCoins_loop E txid (IsCoinBase tx) (IsCoinStake tx) nHeight check fSkipInvalid (vout tx) 0 c b"

text \<open>Anchors and nullifiers.\<close>

definition PushAnchor ::
  "'t coins_env \<Rightarrow> 't CCoinsViewCache \<Rightarrow> 't view \<Rightarrow> 't \<Rightarrow> 't CCoinsViewCache \<times> 't view" where
  "PushAnchor E c b tree =
     (let newrt = env_root E tree
      in case CacheGetBestAnchor E c b of
           (currentRoot, c, b) \<Rightarrow>
             if currentRoot \<noteq> newrt then
               let inserted = (map_of (cacheSaplingAnchors c) newrt = None);
                   c = c\<lparr>cacheSaplingAnchors :=
                           AList.update newrt \<lparr>ae_entered = True, ae_tree = tree, ae_DIRTY = True\<rparr> (cacheSaplingAnchors c)\<rparr>;
                   c = (if inserted then c\<lparr>cachedCoinsUsage := cachedCoinsUsage c + of_nat (env_tree_usage E tree)\<rparr> else c)
               in (c\<lparr>hashSaplingAnchor := newrt\<rparr>, b)
             else (c, b))"

definition PopAnchor ::
  "'t coins_env \<Rightarrow> 't CCoinsViewCache \<Rightarrow> 't view \<Rightarrow> bytes \<Rightarrow> ('t CCoinsViewCache \<times> 't view) res" where
  "PopAnchor E c b newrt =
     (case CacheGetBestAnchor E c b of
        (currentRoot, c, b) \<Rightarrow>
          if currentRoot \<noteq> newrt then
            (case CacheGetSaplingAnchorAt E c b currentRoot of
               (None, c, b) \<Rightarrow> Inl (AssertFailed ''GetSaplingAnchorAt(currentRoot, tree)'')
             | (Some tree, c, b) \<Rightarrow>
                 let entry = (case map_of (cacheSaplingAnchors c) currentRoot of
                                Some e \<Rightarrow> e
                              | None \<Rightarrow> \<lparr>ae_entered = False, ae_tree = env_empty_tree E, ae_DIRTY = False\<rparr>)
                 in Inr (c\<lparr>cacheSaplingAnchors :=
                             AList.update currentRoot (entry\<lparr>ae_entered := False, ae_DIRTY := True\<rparr>) (cacheSaplingAnchors c),
                           hashSaplingAnchor := newrt\<rparr>, b))
          else Inr (c, b))"

fun SetNullifiers_loop :: "SpendDescription list \<Rightarrow> bool \<Rightarrow> CNullifiersMap \<Rightarrow> CNullifiersMap" where
  "SetNullifiers_loop [] spent m = m"
| "SetNullifiers_loop (d # rest) spent m =
     SetNullifiers_loop rest spent
       (AList.update (sp_nullifier d) \<lparr>ne_entered = spent, ne_DIRTY = True\<rparr> m)"

definition SetNullifiers :: "'t CCoinsViewCache \<Rightarrow> CTransaction \<Rightarrow> bool \<Rightarrow> 't CCoinsViewCache" where
  "SetNullifiers c tx spent =
     (case sapData tx of
        None \<Rightarrow> c
      | Some d \<Rightarrow> c\<lparr>cacheSaplingNullifiers :=
                      SetNullifiers_loop (vShieldedSpend d) spent (cacheSaplingNullifiers c)\<rparr>)"

fun HaveShieldedRequirements_loop ::
  "'t coins_env \<Rightarrow> 't CCoinsViewCache \<Rightarrow> 't view \<Rightarrow> SpendDescription list \<Rightarrow> bool \<times> 't CCoinsViewCache \<times> 't view" where
  "HaveShieldedRequirements_loop E c b [] = (True, c, b)"
| "HaveShieldedRequirements_loop E c b (d # rest) =
     (case CacheGetNullifier c b (sp_nullifier d) of
        (spent, c, b) \<Rightarrow>
          if spent then (False, c, b)
          else case CacheGetSaplingAnchorAt E c b (sp_anchor d) of
                 (None, c, b) \<Rightarrow> (False, c, b)
               | (Some tree, c, b) \<Rightarrow> HaveShieldedRequirements_loop E c b rest)"

definition HaveShieldedRequirements ::
  "'t coins_env \<Rightarrow> 't CCoinsViewCache \<Rightarrow> 't view \<Rightarrow> CTransaction \<Rightarrow> bool \<times> 't CCoinsViewCache \<times> 't view" where
  "HaveShieldedRequirements E c b tx =
     (if IsShieldedTx tx then
        (case sapData tx of
           Some d \<Rightarrow> HaveShieldedRequirements_loop E c b (vShieldedSpend d)
         | None \<Rightarrow> (True, c, b))
      else (True, c, b))"

section \<open>Flushing\<close>

fun BatchWrite_coin ::
  "'t coins_env \<Rightarrow> 't CCoinsViewCache \<Rightarrow> COutPoint \<times> CCoinsCacheEntry \<Rightarrow> 't CCoinsViewCache res" where
  "BatchWrite_coin E c (outpoint, it) =
     (if \<not> ce_DIRTY it then Inr c
      else case map_of (cacheCoins c) outpoint of
        None \<Rightarrow>
          if \<not> (ce_FRESH it \<and> Coin_IsSpent (ce_coin it)) then
            Inr (c\<lparr>cacheCoins := AList.update outpoint
                     \<lparr>ce_coin = ce_coin it, ce_DIRTY = True, ce_FRESH = ce_FRESH it\<rparr> (cacheCoins c),
                   cachedCoinsUsage := cachedCoinsUsage c + of_nat (env_usage E (ce_coin it))\<rparr>)
          else Inr c
      | Some itUs \<Rightarrow>
          if ce_FRESH it \<and> \<not> Coin_IsSpent (ce_coin itUs) then
            Inl (LogicError ''FRESH flag misapplied to cache entry for base transaction with spendable outputs'')
          else if ce_FRESH itUs \<and> Coin_IsSpent (ce_coin it) then
            Inr (c\<lparr>cachedCoinsUsage := cachedCoinsUsage c - of_nat (env_usage E (ce_coin itUs)),
                   cacheCoins := AList.delete outpoint (cacheCoins c)\<rparr>)
          else
            Inr (c\<lparr>cachedCoinsUsage := cachedCoinsUsage c - of_nat (env_usage E (ce_coin itUs)) +
                     of_nat (env_usage E (ce_coin it)),
                   cacheCoins := AList.update outpoint
                     (itUs\<lparr>ce_coin := ce_coin it, ce_DIRTY := True\<rparr>) (cacheCoins c)\<rparr>))"

fun BatchWrite_coins :: "'t coins_env \<Rightarrow> 't CCoinsViewCache \<Rightarrow> CCoinsMap \<Rightarrow> 't CCoinsViewCache res" where
  "BatchWrite_coins E c [] = Inr c"
| "BatchWrite_coins E c (it # rest) = bindE (BatchWrite_coin E c it) (\<lambda>c. BatchWrite_coins E c rest)"

fun BatchWriteAnchors ::
  "'t coins_env \<Rightarrow> 't CAnchorsSaplingMap \<Rightarrow> 't CAnchorsSaplingMap \<Rightarrow> u64 \<Rightarrow> 't CAnchorsSaplingMap \<times> u64" where
  "BatchWriteAnchors E [] cacheAnchors usage = (cacheAnchors, usage)"
| "BatchWriteAnchors E ((rt, child) # rest) cacheAnchors usage =
     (if ae_DIRTY child then
        (case map_of cacheAnchors rt of
           None \<Rightarrow> BatchWriteAnchors E rest
                     (AList.update rt \<lparr>ae_entered = ae_entered child, ae_tree = ae_tree child, ae_DIRTY = True\<rparr> cacheAnchors)
                     (usage + of_nat (env_tree_usage E (ae_tree child)))
         | Some parent \<Rightarrow>
             if ae_entered parent \<noteq> ae_entered child
             then BatchWriteAnchors E rest
                    (AList.update rt (parent\<lparr>ae_entered := ae_entered child, ae_DIRTY := True\<rparr>) cacheAnchors) usage
             else BatchWriteAnchors E rest cacheAnchors usage)
      else BatchWriteAnchors E rest cacheAnchors usage)"

fun BatchWriteNullifiers :: "CNullifiersMap \<Rightarrow> CNullifiersMap \<Rightarrow> CNullifiersMap" where
  "BatchWriteNullifiers [] cacheNullifiers = cacheNullifiers"
| "BatchWriteNullifiers ((nf, child) # rest) cacheNullifiers =
     (if ne_DIRTY child then
        (case map_of cacheNullifiers nf of
           None \<Rightarrow> BatchWriteNullifiers rest
                     (AList.update nf \<lparr>ne_entered = ne_entered child, ne_DIRTY = True\<rparr> cacheNullifiers)
         | Some parent \<Rightarrow>
             if ne_entered parent \<noteq> ne_entered child
             then BatchWriteNullifiers rest
                    (AList.update nf (parent\<lparr>ne_entered := ne_entered child, ne_DIRTY := True\<rparr>) cacheNullifiers)
             else BatchWriteNullifiers rest cacheNullifiers)
      else BatchWriteNullifiers rest cacheNullifiers)"

fun BatchWrite ::
  "'t coins_env \<Rightarrow> 't view \<Rightarrow> CCoinsMap \<Rightarrow> bytes \<Rightarrow> bytes \<Rightarrow> 't CAnchorsSaplingMap \<Rightarrow> CNullifiersMap
     \<Rightarrow> (bool \<times> 't view) res" where
  "BatchWrite E Dummy mapCoins hash hashAnchor mapSaplingAnchors mapSaplingNullifiers = Inr (False, Dummy)"
| "BatchWrite E (DB db) mapCoins hash hashAnchor mapSaplingAnchors mapSaplingNullifiers =
     bindE (db_BatchWrite E db mapCoins hash hashAnchor mapSaplingAnchors mapSaplingNullifiers)
       (\<lambda>db. Inr (True, DB db))"
| "BatchWrite E (Cache c b) mapCoins hash hashAnchor mapSaplingAnchors mapSaplingNullifiers =
     bindE (BatchWrite_coins E c mapCoins) (\<lambda>c.
       let (anchors, usage) = BatchWriteAnchors E mapSaplingAnchors (cacheSaplingAnchors c) (cachedCoinsUsage c)
       in Inr (True, Cache (c\<lparr>cacheSaplingAnchors := anchors, cachedCoinsUsage := usage,
                  cacheSaplingNullifiers := BatchWriteNullifiers mapSaplingNullifiers (cacheSaplingNullifiers c),
                  hashSaplingAnchor := hashAnchor, hashBlock := hash\<rparr>) b))"

definition Flush ::
  "'t coins_env \<Rightarrow> 't CCoinsViewCache \<Rightarrow> 't view \<Rightarrow> (bool \<times> 't CCoinsViewCache \<times> 't view) res" where
  "Flush E c b =
     bindE (BatchWrite E b (cacheCoins c) (hashBlock c) (hashSaplingAnchor c) (cacheSaplingAnchors c)
              (cacheSaplingNullifiers c)) (\<lambda>(fOk, b).
       Inr (fOk, c\<lparr>cacheCoins := [], cacheSaplingAnchors := [], cacheSaplingNullifiers := [],
                    cachedCoinsUsage := 0\<rparr>, b))"

section \<open>Queries about transactions\<close>

fun GetValueIn_loop ::
  "'t coins_env \<Rightarrow> 't CCoinsViewCache \<Rightarrow> 't view \<Rightarrow> CTxIn list \<Rightarrow> CAmount \<Rightarrow> (CAmount \<times> 't CCoinsViewCache \<times> 't view) res" where
  "GetValueIn_loop E c b [] nResult = Inr (nResult, c, b)"
| "GetValueIn_loop E c b (txin # rest) nResult =
     (if CTxIn_IsZerocoinSpend txin \<or> CTxIn_IsZerocoinPublicSpend txin then
        bindE (add_amount nResult (uint (nSequence txin) * COIN)) (\<lambda>nResult. GetValueIn_loop E c b rest nResult)
      else
        case AccessCoin E c b (prevout txin) of
          (coin, c, b) \<Rightarrow>
            bindE (add_amount nResult (nValue (coin_out coin))) (\<lambda>nResult. GetValueIn_loop E c b rest nResult))"

definition GetValueIn ::
  "'t coins_env \<Rightarrow> 't CCoinsViewCache \<Rightarrow> 't view \<Rightarrow> CTransaction \<Rightarrow> (CAmount \<times> 't CCoinsViewCache \<times> 't view) res" where
  "GetValueIn E c b tx =
     (if IsCoinBase tx then Inr (0, c, b)
      else bindE (GetValueIn_loop E c b (vin tx) 0) (\<lambda>(nResult, c, b).
           bindE (GetShieldedValueIn tx) (\<lambda>v.
           bindE (add_amount nResult v) (\<lambda>nResult. Inr (nResult, c, b)))))"

fun HaveInputs_loop ::
  "'t coins_env \<Rightarrow> 't CCoinsViewCache \<Rightarrow> 't view \<Rightarrow> CTxIn list \<Rightarrow> bool \<times> 't CCoinsViewCache \<times> 't view" where
  "HaveInputs_loop E c b [] = (True, c, b)"
| "HaveInputs_loop E c b (txin # rest) =
     (case CacheHaveCoin E c b (prevout txin) of
        (h, c, b) \<Rightarrow> if \<not> h then (False, c, b) else HaveInputs_loop E c b rest)"

definition HaveInputs ::
  "'t coins_env \<Rightarrow> 't CCoinsViewCache \<Rightarrow> 't view \<Rightarrow> CTransaction \<Rightarrow> bool \<times> 't CCoinsViewCache \<times> 't view" where
  "HaveInputs E c b tx =
     (if \<not> IsCoinBase tx \<and> \<not> HasZerocoinSpendInputs tx then HaveInputs_loop E c b (vin tx) else (True, c, b))"

text \<open>The subtraction is in \<open>uint32_t\<close> and its result converted to \<open>int\<close>.\<close>

definition GetCoinDepthAtHeight ::
  "'t coins_env \<Rightarrow> 't CCoinsViewCache \<Rightarrow> 't view \<Rightarrow> COutPoint \<Rightarrow> int \<Rightarrow> int \<times> 't CCoinsViewCache \<times> 't view" where
  "GetCoinDepthAtHeight E c b outpoint nHeight =
     (case AccessCoin E c b outpoint of
        (coin, c, b) \<Rightarrow>
          (if \<not> Coin_IsSpent coin then sint (word_of_int nHeight - coin_nHeight coin + 1) else - 1, c, b))"

fun PruneInvalidEntries_loop ::
  "'t coins_env \<Rightarrow> 't CCoinsViewCache \<Rightarrow> 't view \<Rightarrow> COutPoint list \<Rightarrow> 't CCoinsViewCache \<times> 't view" where
  "PruneInvalidEntries_loop E c b [] = (c, b)"
| "PruneInvalidEntries_loop E c b (out # rest) =
     (case CacheHaveCoin E c b out of
        (h, c, b) \<Rightarrow>
          if h then (case SpendCoin E c b out of (_, c, b) \<Rightarrow> PruneInvalidEntries_loop E c b rest)
          else PruneInvalidEntries_loop E c b rest)"

definition PruneInvalidEntries ::
  "'t coins_env \<Rightarrow> 't CCoinsViewCache \<Rightarrow> 't view \<Rightarrow> (bool \<times> 't CCoinsViewCache \<times> 't view) res" where
  "PruneInvalidEntries E c b =
     (case PruneInvalidEntries_loop E c b (env_invalid E) of (c, b) \<Rightarrow> Flush E c b)"

definition MAX_BLOCK_SIZE_CURRENT :: nat where "MAX_BLOCK_SIZE_CURRENT = 2000000"

text \<open>An empty output serialises to an eight-byte amount and a one-byte length.\<close>

definition MAX_OUTPUTS_PER_BLOCK :: nat where
  "MAX_OUTPUTS_PER_BLOCK = MAX_BLOCK_SIZE_CURRENT div length (CTxOut_enc CTxOut_SetNull)"

fun AccessByTxid_loop ::
  "'t coins_env \<Rightarrow> 't CCoinsViewCache \<Rightarrow> 't view \<Rightarrow> bytes \<Rightarrow> nat \<Rightarrow> nat \<Rightarrow> Coin \<times> 't CCoinsViewCache \<times> 't view" where
  "AccessByTxid_loop E c b txid n 0 = (coinEmpty, c, b)"
| "AccessByTxid_loop E c b txid n (Suc k) =
     (case AccessCoin E c b \<lparr>op_hash = txid, op_n = of_nat n\<rparr> of
        (alternate, c, b) \<Rightarrow>
          if \<not> Coin_IsSpent alternate then (alternate, c, b) else AccessByTxid_loop E c b txid (Suc n) k)"

definition AccessByTxid ::
  "'t coins_env \<Rightarrow> 't CCoinsViewCache \<Rightarrow> 't view \<Rightarrow> bytes \<Rightarrow> Coin \<times> 't CCoinsViewCache \<times> 't view" where
  "AccessByTxid E c b txid = AccessByTxid_loop E c b txid 0 MAX_OUTPUTS_PER_BLOCK"

end
