(* ===== verification/CoinsInv.thy ===== *)
theory CoinsInv
  imports Coins
begin

text \<open>
  What the caches promise: the abstract chain state a stack of views stands for, the invariant that
  ties the flags of a cache to the view below it, and that every operation keeps the invariant and
  refines an operation on the chain state.
\<close>

section \<open>The chain state of a view\<close>

record chainstate =
  cs_utxo :: "COutPoint \<rightharpoonup> Coin"
  cs_nullifiers :: "bytes \<Rightarrow> bool"
  cs_anchors :: "bytes \<Rightarrow> bool"
  cs_block :: bytes
  cs_anchor :: bytes

definition live :: "Coin \<Rightarrow> Coin option" where
  "live coin = (if Coin_IsSpent coin then None else Some coin)"

text \<open>What one sees through a layer of entries: the entry where there is one, what lies below elsewhere.\<close>

definition through :: "('k \<rightharpoonup> 'e) \<Rightarrow> ('e \<Rightarrow> 'v) \<Rightarrow> ('k \<Rightarrow> 'v) \<Rightarrow> 'k \<Rightarrow> 'v" where
  "through m f below k = (case m k of Some e \<Rightarrow> f e | None \<Rightarrow> below k)"

fun utxo :: "'t view \<Rightarrow> COutPoint \<rightharpoonup> Coin" where
  "utxo Dummy = Map.empty"
| "utxo (DB db) = (\<lambda>p. Option.bind (db_GetCoin db p) live)"
| "utxo (Cache c b) = through (map_of (cacheCoins c)) (\<lambda>e. live (ce_coin e)) (utxo b)"

fun nullifiers :: "'t view \<Rightarrow> bytes \<Rightarrow> bool" where
  "nullifiers Dummy = (\<lambda>_. False)"
| "nullifiers (DB db) = db_GetNullifier db"
| "nullifiers (Cache c b) = through (map_of (cacheSaplingNullifiers c)) ne_entered (nullifiers b)"

fun anchors :: "'t coins_env \<Rightarrow> 't view \<Rightarrow> bytes \<Rightarrow> bool" where
  "anchors E Dummy = (\<lambda>_. False)"
| "anchors E (DB db) = (\<lambda>rt. db_GetSaplingAnchorAt E db rt \<noteq> None)"
| "anchors E (Cache c b) = through (map_of (cacheSaplingAnchors c)) ae_entered (anchors E b)"

fun best_block :: "'t view \<Rightarrow> bytes" where
  "best_block Dummy = base_blob_new 32"
| "best_block (DB db) = db_GetBestBlock db"
| "best_block (Cache c b) = (if base_blob_IsNull (hashBlock c) then best_block b else hashBlock c)"

fun best_anchor :: "'t coins_env \<Rightarrow> 't view \<Rightarrow> bytes" where
  "best_anchor E Dummy = base_blob_new 32"
| "best_anchor E (DB db) = db_GetBestAnchor E db"
| "best_anchor E (Cache c b) =
     (if base_blob_IsNull (hashSaplingAnchor c) then best_anchor E b else hashSaplingAnchor c)"

definition chain_of :: "'t coins_env \<Rightarrow> 't view \<Rightarrow> chainstate" where
  "chain_of E v =
     \<lparr>cs_utxo = utxo v, cs_nullifiers = nullifiers v, cs_anchors = anchors E v,
      cs_block = best_block v, cs_anchor = best_anchor E v\<rparr>"

lemma through_simps:
  "through (m(k \<mapsto> e)) f below = (through m f below)(k := f e)"
  "through (m(k := None)) f below = (through m f below)(k := below k)"
  "through Map.empty f below = below"
  "m k = Some e \<Longrightarrow> through m f below k = f e"
  "m k = None \<Longrightarrow> through m f below k = below k"
  by (auto simp: through_def fun_eq_iff)

lemma fun_upd_same: "g k = v \<Longrightarrow> g(k := v) = g"
  by auto

section \<open>The invariant\<close>

definition coin_ok :: "Coin \<Rightarrow> bool" where
  "coin_ok c \<longleftrightarrow> nRounds (coin_out c) = - 10"

definition coins_inv :: "CCoinsMap \<Rightarrow> (COutPoint \<rightharpoonup> Coin) \<Rightarrow> bool" where
  "coins_inv m below \<longleftrightarrow>
     distinct (map fst m) \<and>
     (\<forall>p e. map_of m p = Some e \<longrightarrow>
        (ce_FRESH e \<longrightarrow> below p = None) \<and> (\<not> ce_DIRTY e \<longrightarrow> live (ce_coin e) = below p) \<and> coin_ok (ce_coin e))"

definition anchors_inv :: "'t coins_env \<Rightarrow> 't CAnchorsSaplingMap \<Rightarrow> (bytes \<Rightarrow> bool) \<Rightarrow> bool" where
  "anchors_inv E m below \<longleftrightarrow>
     distinct (map fst m) \<and>
     (\<forall>rt e. map_of m rt = Some e \<longrightarrow>
        env_root E (ae_tree e) = rt \<and> (rt = env_empty_root E \<longrightarrow> ae_entered e) \<and>
        (\<not> ae_DIRTY e \<longrightarrow> ae_entered e = below rt))"

definition nullifiers_inv :: "CNullifiersMap \<Rightarrow> (bytes \<Rightarrow> bool) \<Rightarrow> bool" where
  "nullifiers_inv m below \<longleftrightarrow>
     distinct (map fst m) \<and> (\<forall>n e. map_of m n = Some e \<longrightarrow> \<not> ne_DIRTY e \<longrightarrow> ne_entered e = below n)"

definition db_inv :: "'t coins_env \<Rightarrow> 't db \<Rightarrow> bool" where
  "db_inv E db \<longleftrightarrow>
     (\<forall>p v. db (DB_COIN p) = Some v \<longrightarrow> (\<exists>c. v = V_Coin c \<and> \<not> Coin_IsSpent c \<and> coin_ok c)) \<and>
     (\<forall>rt t. db_GetSaplingAnchorAt E db rt = Some t \<longrightarrow> env_root E t = rt)"

fun view_inv :: "'t coins_env \<Rightarrow> 't view \<Rightarrow> bool" where
  "view_inv E Dummy = True"
| "view_inv E (DB db) = db_inv E db"
| "view_inv E (Cache c b) =
     (coins_inv (cacheCoins c) (utxo b) \<and> anchors_inv E (cacheSaplingAnchors c) (anchors E b) \<and>
      nullifiers_inv (cacheSaplingNullifiers c) (nullifiers b) \<and> view_inv E b)"

lemma chain_of_eq_iff:
  "chain_of E v = chain_of E w \<longleftrightarrow>
     utxo v = utxo w \<and> nullifiers v = nullifiers w \<and> anchors E v = anchors E w \<and>
     best_block v = best_block w \<and> best_anchor E v = best_anchor E w"
  by (simp add: chain_of_def)

lemmas map_simps = update_conv' delete_conv' distinct_update distinct_delete

lemma coins_inv_update:
  "coins_inv m below \<Longrightarrow> (ce_FRESH e \<longrightarrow> below p = None) \<Longrightarrow> (\<not> ce_DIRTY e \<longrightarrow> live (ce_coin e) = below p) \<Longrightarrow>
   coin_ok (ce_coin e) \<Longrightarrow> coins_inv (AList.update p e m) below"
  by (auto simp: coins_inv_def map_simps)

lemma coins_inv_delete: "coins_inv m below \<Longrightarrow> coins_inv (AList.delete p m) below"
  by (auto simp: coins_inv_def map_simps)

lemma live_None: "live c = None \<longleftrightarrow> Coin_IsSpent c"
  by (simp add: live_def)

text \<open>A read that leaves the base with the same chain state keeps the cache's invariant.\<close>

lemma cache_cong:
  assumes "chain_of E b' = chain_of E b" "view_inv E b'" "view_inv E (Cache c b)"
  shows "view_inv E (Cache c b')" and "chain_of E (Cache c b') = chain_of E (Cache c b)"
  using assms by (simp_all add: chain_of_eq_iff)

text \<open>Changing one of the three maps of a cache changes one component of its chain state.\<close>

lemma coins_change:
  assumes "view_inv E (Cache c b)" "coins_inv m (utxo b)"
  shows "view_inv E (Cache (c\<lparr>cacheCoins := m, cachedCoinsUsage := u\<rparr>) b)"
    and "chain_of E (Cache (c\<lparr>cacheCoins := m, cachedCoinsUsage := u\<rparr>) b) =
      (chain_of E (Cache c b))\<lparr>cs_utxo := through (map_of m) (\<lambda>e. live (ce_coin e)) (utxo b)\<rparr>"
  using assms by (simp_all add: chain_of_def)

lemma nullifiers_change:
  assumes "view_inv E (Cache c b)" "nullifiers_inv m (nullifiers b)"
  shows "view_inv E (Cache (c\<lparr>cacheSaplingNullifiers := m\<rparr>) b)"
    and "chain_of E (Cache (c\<lparr>cacheSaplingNullifiers := m\<rparr>) b) =
      (chain_of E (Cache c b))\<lparr>cs_nullifiers := through (map_of m) ne_entered (nullifiers b)\<rparr>"
  using assms by (simp_all add: chain_of_def)

lemma anchors_change:
  assumes "view_inv E (Cache c b)" "anchors_inv E m (anchors E b)"
  shows "view_inv E (Cache (c\<lparr>cacheSaplingAnchors := m, cachedCoinsUsage := u\<rparr>) b)"
    and "chain_of E (Cache (c\<lparr>cacheSaplingAnchors := m, cachedCoinsUsage := u\<rparr>) b) =
      (chain_of E (Cache c b))\<lparr>cs_anchors := through (map_of m) ae_entered (anchors E b)\<rparr>"
  using assms by (simp_all add: chain_of_def)

lemma same_components:
  "(chain_of E v)\<lparr>cs_utxo := utxo v\<rparr> = chain_of E v"
  "(chain_of E v)\<lparr>cs_nullifiers := nullifiers v\<rparr> = chain_of E v"
  "(chain_of E v)\<lparr>cs_anchors := anchors E v\<rparr> = chain_of E v"
  by (simp_all add: chain_of_def)

lemma chain_of_eqD:
  assumes "chain_of E v = chain_of E w"
  shows "utxo v = utxo w" "nullifiers v = nullifiers w" "anchors E v = anchors E w"
    "best_block v = best_block w" "best_anchor E v = best_anchor E w"
  using assms by (simp_all add: chain_of_eq_iff)

section \<open>Reading\<close>

text \<open>
  \<open>reads\<close>: what a read on a cache leaves.  The state of the cache and of its base is the same, and
  the invariant holds.
\<close>

definition reads :: "'t coins_env \<Rightarrow> 't CCoinsViewCache \<times> 't view \<Rightarrow> 't CCoinsViewCache \<times> 't view \<Rightarrow> bool" where
  "reads E s s' \<longleftrightarrow>
     view_inv E (Cache (fst s') (snd s')) \<and> chain_of E (Cache (fst s') (snd s')) = chain_of E (Cache (fst s) (snd s)) \<and>
     chain_of E (snd s') = chain_of E (snd s)"

lemma reads_refl: "view_inv E (Cache c b) \<Longrightarrow> reads E (c, b) (c, b)"
  by (simp add: reads_def)

lemma reads_trans: "reads E s s' \<Longrightarrow> reads E s' s'' \<Longrightarrow> reads E s s''"
  by (simp add: reads_def)

lemma reads_inv: "reads E s (c, b) \<Longrightarrow> view_inv E (Cache c b)"
  by (simp add: reads_def)

lemma GetCoin_FetchCoin:
  "view_inv E v \<Longrightarrow> GetCoin E v p = (r, v') \<Longrightarrow>
     view_inv E v' \<and> chain_of E v' = chain_of E v \<and> utxo v p = Option.bind r live \<and> (\<forall>x. r = Some x \<longrightarrow> coin_ok x)"
  "view_inv E (Cache c b) \<Longrightarrow> FetchCoin E c b p = (it, c', b') \<Longrightarrow>
     reads E (c, b) (c', b') \<and> map_of (cacheCoins c') p = it \<and>
     utxo (Cache c b) p = Option.bind it (\<lambda>e. live (ce_coin e))"
proof (induction E v p and E c b p arbitrary: r v' and it c' b' rule: GetCoin_FetchCoin.induct)
  case (1 E p)
  then show ?case by simp
next
  case (2 E db p)
  then show ?case by (auto simp: db_inv_def db_GetCoin_def split: option.splits db_value.splits)
next
  case (3 E c b p)
  obtain it c' b' where f: "FetchCoin E c b p = (it, c', b')" by (cases "FetchCoin E c b p")
  with "3.IH" [OF "3.prems"(1) f] "3.prems"(2) show ?case
    by (cases it) (auto simp: reads_def coins_inv_def)
next
  case (4 E c b p)
  show ?case
  proof (cases "map_of (cacheCoins c) p")
    case (Some e)
    then have "it = Some e" "c' = c" "b' = b" using "4.prems"(2) by simp_all
    then show ?thesis using "4.prems"(1) Some by (simp add: reads_refl through_simps del: view_inv.simps)
  next
    case None
    obtain r v where g: "GetCoin E b p = (r, v)" by (cases "GetCoin E b p")
    have b: "view_inv E v" "chain_of E v = chain_of E b" "utxo b p = Option.bind r live"
        "\<And>x. r = Some x \<Longrightarrow> coin_ok x"
      using "4.IH" [OF None _ g] "4.prems"(1) by auto
    note same = cache_cong [OF b(2,1) "4.prems"(1)]
    show ?thesis
    proof (cases r)
      case None2: None
      then show ?thesis
        using None g "4.prems" b same by (auto simp: reads_def through_simps)
    next
      case (Some tmp)
      let ?e = "CCoinsCacheEntry_new\<lparr>ce_coin := tmp, ce_FRESH := Coin_IsSpent tmp\<rparr>"
      have c': "c' = c\<lparr>cacheCoins := AList.update p ?e (cacheCoins c),
          cachedCoinsUsage := cachedCoinsUsage c + of_nat (env_usage E tmp)\<rparr>" "b' = v" "it = Some ?e"
        using "4.prems"(2) None g Some by (simp_all add: Let_def)
      have u: "utxo v p = live tmp" "utxo v = utxo b"
        using b Some by (simp_all add: chain_of_eq_iff)
      have "coins_inv (AList.update p ?e (cacheCoins c)) (utxo v)"
        using same(1) b(4) Some u
        by (intro coins_inv_update) (simp_all add: CCoinsCacheEntry_new_def live_None [symmetric])
      moreover have "utxo (Cache c' b') = utxo (Cache c b)"
        using u None by (simp add: c' map_simps through_simps CCoinsCacheEntry_new_def fun_upd_same)
      ultimately show ?thesis
        using same b None u by (simp add: reads_def c' map_simps chain_of_eq_iff through_simps CCoinsCacheEntry_new_def)
    qed
  qed
qed

lemma HaveCoin_reads:
  assumes "view_inv E (Cache c b)" "CacheHaveCoin E c b p = (h, c', b')"
  shows "reads E (c, b) (c', b')" "h \<longleftrightarrow> utxo (Cache c b) p \<noteq> None"
proof -
  obtain it where it: "FetchCoin E c b p = (it, c', b')"
    using assms(2) by (cases "FetchCoin E c b p") (simp add: CacheHaveCoin_def)
  note f = GetCoin_FetchCoin(2) [OF assms(1) it]
  show "reads E (c, b) (c', b')" using f by simp
  show "h \<longleftrightarrow> utxo (Cache c b) p \<noteq> None"
    using f assms(2) it by (auto simp: CacheHaveCoin_def live_def split: option.splits)
qed

lemma AccessCoin_reads:
  assumes "view_inv E (Cache c b)" "AccessCoin E c b p = (coin, c', b')"
  shows "reads E (c, b) (c', b')" "utxo (Cache c b) p = live coin"
proof -
  obtain it where it: "FetchCoin E c b p = (it, c', b')"
    using assms(2) by (cases "FetchCoin E c b p") (auto simp: AccessCoin_def split: option.splits)
  note f = GetCoin_FetchCoin(2) [OF assms(1) it]
  show "reads E (c, b) (c', b')" using f by simp
  have "live Coin_new = None" by (simp add: live_None Coin_IsSpent_def Coin_new_def CTxOut_IsNull_def CTxOut_SetNull_def)
  then show "utxo (Cache c b) p = live coin"
    using f assms(2) it by (cases it) (auto simp: AccessCoin_def coinEmpty_def)
qed

lemma GetBestBlock_reads:
  "view_inv E v \<Longrightarrow> GetBestBlock v = (h, v') \<Longrightarrow> view_inv E v' \<and> chain_of E v' = chain_of E v \<and> h = best_block v"
proof (induction v arbitrary: h v')
  case (Cache c b)
  obtain k w where g: "GetBestBlock b = (k, w)" by (cases "GetBestBlock b")
  then have w: "view_inv E w" "chain_of E w = chain_of E b" "k = best_block b"
    using Cache.IH Cache.prems(1) by auto
  show ?case
    using cache_cong [OF w(2,1) Cache.prems(1)] Cache.prems g w
    by (auto simp: chain_of_eq_iff split: if_splits)
qed auto

lemma GetBestAnchor_reads:
  "view_inv E v \<Longrightarrow> GetBestAnchor E v = (h, v') \<Longrightarrow>
     view_inv E v' \<and> chain_of E v' = chain_of E v \<and> h = best_anchor E v"
  "view_inv E (Cache c b) \<Longrightarrow> CacheGetBestAnchor E c b = (h, c', b') \<Longrightarrow>
     reads E (c, b) (c', b') \<and> h = best_anchor E (Cache c b)"
proof (induction E v and E c b arbitrary: h v' and h c' b' rule: GetBestAnchor_CacheGetBestAnchor.induct)
  case (3 E c b)
  obtain k c' b' where f: "CacheGetBestAnchor E c b = (k, c', b')" by (cases "CacheGetBestAnchor E c b")
  then have "v' = Cache c' b'" "h = k" using "3.prems"(2) by simp_all
  then show ?case using "3.IH" [OF "3.prems"(1) f] by (simp add: reads_def)
next
  case (4 E c b)
  obtain k w where g: "GetBestAnchor E b = (k, w)" by (cases "GetBestAnchor E b")
  show ?case
  proof (cases "base_blob_IsNull (hashSaplingAnchor c)")
    case True
    then have w: "view_inv E w" "chain_of E w = chain_of E b" "k = best_anchor E b"
      using "4.IH" [OF True _ g] "4.prems"(1) by auto
    show ?thesis
      using cache_cong [OF w(2,1) "4.prems"(1)] "4.prems"(2) True g w by (auto simp: reads_def chain_of_eq_iff)
  next
    case False
    then show ?thesis using "4.prems" by (auto simp: reads_refl)
  qed
qed auto

lemma GetNullifier_reads:
  "view_inv E v \<Longrightarrow> GetNullifier v n = (r, v') \<Longrightarrow>
     view_inv E v' \<and> chain_of E v' = chain_of E v \<and> r = nullifiers v n"
  "view_inv E (Cache c b) \<Longrightarrow> CacheGetNullifier c b n = (r, c', b') \<Longrightarrow>
     reads E (c, b) (c', b') \<and> r = nullifiers (Cache c b) n"
proof (induction v n and c b n arbitrary: r v' and r c' b' rule: GetNullifier_CacheGetNullifier.induct)
  case (3 c b n)
  obtain k c' b' where f: "CacheGetNullifier c b n = (k, c', b')" by (cases "CacheGetNullifier c b n")
  then have "v' = Cache c' b'" "r = k" using "3.prems"(2) by simp_all
  then show ?case using "3.IH" [OF "3.prems"(1) f] by (simp add: reads_def)
next
  case (4 c b n)
  obtain k w where g: "GetNullifier b n = (k, w)" by (cases "GetNullifier b n")
  show ?case
  proof (cases "map_of (cacheSaplingNullifiers c) n")
    case None
    then have w: "view_inv E w" "chain_of E w = chain_of E b" "k = nullifiers b n"
      using "4.IH" [OF None _ g] "4.prems"(1) by auto
    let ?m = "AList.update n (CNullifiersCacheEntry_new\<lparr>ne_entered := k\<rparr>) (cacheSaplingNullifiers c)"
    note same = cache_cong [OF w(2,1) "4.prems"(1)]
    have res: "r = k" "c' = c\<lparr>cacheSaplingNullifiers := ?m\<rparr>" "b' = w"
      using "4.prems"(2) None g by auto
    have inv: "nullifiers_inv ?m (nullifiers w)"
      using same(1) w(3) chain_of_eqD(2) [OF w(2)]
      by (auto simp: nullifiers_inv_def map_simps CNullifiersCacheEntry_new_def)
    have "through (map_of ?m) ne_entered (nullifiers w) = nullifiers (Cache c w)"
      using None w(3) chain_of_eqD(2) [OF w(2)]
      by (simp add: map_simps through_simps CNullifiersCacheEntry_new_def fun_upd_same)
    then have "chain_of E (Cache c' b') = chain_of E (Cache c w)"
      unfolding res nullifiers_change(2) [OF same(1) inv] by (simp only: same_components)
    then show ?thesis
      using nullifiers_change(1) [OF same(1) inv] same(2) w None
      by (simp add: reads_def res del: view_inv.simps nullifiers.simps) (simp add: through_simps)
  next
    case (Some e)
    then show ?thesis using "4.prems" by (auto simp: reads_refl through_simps)
  qed
qed auto

lemma GetSaplingAnchorAt_reads:
  "view_inv E v \<Longrightarrow> GetSaplingAnchorAt E v rt = (r, v') \<Longrightarrow>
     view_inv E v' \<and> chain_of E v' = chain_of E v \<and> anchors E v rt = (r \<noteq> None) \<and> (\<forall>t. r = Some t \<longrightarrow> env_root E t = rt)"
  "view_inv E (Cache c b) \<Longrightarrow> CacheGetSaplingAnchorAt E c b rt = (r, c', b') \<Longrightarrow>
     reads E (c, b) (c', b') \<and> anchors E (Cache c b) rt = (r \<noteq> None) \<and> (\<forall>t. r = Some t \<longrightarrow> env_root E t = rt) \<and>
     (\<forall>t. r = Some t \<longrightarrow> (\<exists>e. map_of (cacheSaplingAnchors c') rt = Some e))"
proof (induction E v rt and E c b rt arbitrary: r v' and r c' b' rule: GetSaplingAnchorAt_CacheGetSaplingAnchorAt.induct)
  case (3 E c b rt)
  obtain k c' b' where f: "CacheGetSaplingAnchorAt E c b rt = (k, c', b')"
    by (cases "CacheGetSaplingAnchorAt E c b rt")
  then have "v' = Cache c' b'" "r = k" using "3.prems"(2) by simp_all
  then show ?case using "3.IH" [OF "3.prems"(1) f] by (simp add: reads_def)
next
  case (4 E c b rt)
  obtain k w where g: "GetSaplingAnchorAt E b rt = (k, w)" by (cases "GetSaplingAnchorAt E b rt")
  show ?case
  proof (cases "map_of (cacheSaplingAnchors c) rt")
    case None
    then have w: "view_inv E w" "chain_of E w = chain_of E b" "anchors E b rt = (k \<noteq> None)"
        "\<forall>t. k = Some t \<longrightarrow> env_root E t = rt"
      using "4.IH" [OF None _ g] "4.prems"(1) by auto
    note same = cache_cong [OF w(2,1) "4.prems"(1)] and eq = chain_of_eqD(3) [OF w(2)]
    show ?thesis
    proof (cases k)
      case None2: None
      then have "r = None" "c' = c" "b' = w" using "4.prems"(2) None g by simp_all
      then show ?thesis
        using same w None None2 by (simp add: reads_def del: view_inv.simps anchors.simps) (simp add: through_simps)
    next
      case (Some tree)
      let ?m = "AList.update rt \<lparr>ae_entered = True, ae_tree = tree, ae_DIRTY = False\<rparr> (cacheSaplingAnchors c)"
      have res: "r = Some tree" "b' = w" "c' = c\<lparr>cacheSaplingAnchors := ?m,
          cachedCoinsUsage := cachedCoinsUsage c + of_nat (env_tree_usage E tree)\<rparr>"
        using "4.prems"(2) None g Some by simp_all
      have inv: "anchors_inv E ?m (anchors E w)"
        using same(1) w(3,4) eq Some by (auto simp: anchors_inv_def map_simps)
      have "through (map_of ?m) ae_entered (anchors E w) = anchors E (Cache c w)"
        using None w(3) eq Some by (simp add: map_simps through_simps fun_upd_same)
      then have "chain_of E (Cache c' b') = chain_of E (Cache c w)"
        unfolding res anchors_change(2) [OF same(1) inv] by (simp only: same_components)
      then show ?thesis
        using anchors_change(1) [OF same(1) inv] same(2) w None Some
        by (simp add: reads_def res map_simps del: view_inv.simps anchors.simps) (simp add: through_simps)
    qed
  next
    case (Some e)
    then show ?thesis
      using "4.prems" by (auto simp: reads_refl through_simps anchors_inv_def split: if_splits)
  qed
qed (auto simp: db_inv_def)

section \<open>Writing\<close>

text \<open>
  \<open>writes\<close>: the operation leaves the base's chain state alone and the cache with the chain state
  given.
\<close>

definition writes :: "'t coins_env \<Rightarrow> 't CCoinsViewCache \<times> 't view \<Rightarrow> 't CCoinsViewCache \<times> 't view \<Rightarrow> chainstate \<Rightarrow> bool" where
  "writes E s s' st \<longleftrightarrow>
     view_inv E (Cache (fst s') (snd s')) \<and> chain_of E (Cache (fst s') (snd s')) = st \<and>
     chain_of E (snd s') = chain_of E (snd s)"

lemma reads_writes: "reads E s s' \<longleftrightarrow> writes E s s' (chain_of E (Cache (fst s) (snd s)))"
  by (simp add: reads_def writes_def)

lemma spend_fresh: "coins_inv m below \<Longrightarrow> map_of m p = Some e \<Longrightarrow> ce_FRESH e \<Longrightarrow> below p = None"
  by (auto simp: coins_inv_def)

lemma Clear_spent [simp]: "live (Coin_Clear c) = None" "coin_ok (Coin_Clear c)"
  by (simp_all add: live_def Coin_IsSpent_def Coin_Clear_def CTxOut_IsNull_def CTxOut_SetNull_def coin_ok_def)

lemma SpendCoin_writes:
  assumes inv: "view_inv E (Cache c b)" and run: "SpendCoin E c b p = (r, c', b')"
  shows "writes E (c, b) (c', b') ((chain_of E (Cache c b))\<lparr>cs_utxo := (utxo (Cache c b))(p := None)\<rparr>)"
    and "utxo (Cache c b) p = Option.bind r live"
proof -
  obtain it d w where f: "FetchCoin E c b p = (it, d, w)" by (cases "FetchCoin E c b p")
  note fetch = GetCoin_FetchCoin(2) [OF inv f]
  then have d: "view_inv E (Cache d w)" "chain_of E (Cache d w) = chain_of E (Cache c b)"
      "chain_of E w = chain_of E b" by (simp_all add: reads_def)
  then have u: "utxo (Cache d w) = utxo (Cache c b)" by (simp only: chain_of_eq_iff)
  have "writes E (c, b) (c', b') ((chain_of E (Cache c b))\<lparr>cs_utxo := (utxo (Cache c b))(p := None)\<rparr>) \<and>
      utxo (Cache c b) p = Option.bind r live"
  proof (cases it)
    case None
    then have "c' = d" "b' = w" "r = None" using run f by (simp_all add: SpendCoin_def)
    then show ?thesis
      using d fetch None by (simp add: writes_def fun_upd_same chain_of_def del: view_inv.simps utxo.simps)
  next
    case (Some e)
    then have it: "map_of (cacheCoins d) p = Some e" using fetch by simp
    have r: "r = Some (ce_coin e)" "b' = w" using run f Some by (simp_all add: SpendCoin_def Let_def)
    have rest: "utxo (Cache c b) p = Option.bind r live" using fetch Some r by simp
    show ?thesis
    proof (cases "ce_FRESH e")
      case True
      let ?m = "AList.delete p (cacheCoins d)"
      have c': "c' = d\<lparr>cacheCoins := ?m, cachedCoinsUsage := cachedCoinsUsage d - of_nat (env_usage E (ce_coin e))\<rparr>"
        using run f Some True by (auto simp: SpendCoin_def Let_def simp del: FetchCoin.simps)
      have "utxo w p = None" using d(1) it True spend_fresh by auto
      then have "through (map_of ?m) (\<lambda>e. live (ce_coin e)) (utxo w) = (utxo (Cache c b))(p := None)"
        unfolding u [symmetric] by (simp add: map_simps through_simps)
      moreover have "coins_inv ?m (utxo w)" using d(1) by (simp add: coins_inv_delete)
      ultimately show ?thesis
        using coins_change [OF d(1)] d rest r(2) by (simp add: writes_def c' del: view_inv.simps utxo.simps)
    next
      case False
      let ?m = "AList.update p (e\<lparr>ce_DIRTY := True, ce_coin := Coin_Clear (ce_coin e)\<rparr>) (cacheCoins d)"
      have c': "c' = d\<lparr>cacheCoins := ?m, cachedCoinsUsage := cachedCoinsUsage d - of_nat (env_usage E (ce_coin e))\<rparr>"
        using run f Some False by (auto simp: SpendCoin_def Let_def simp del: FetchCoin.simps)
      have "through (map_of ?m) (\<lambda>e. live (ce_coin e)) (utxo w) = (utxo (Cache c b))(p := None)"
        unfolding u [symmetric] by (simp add: map_simps through_simps)
      moreover have "coins_inv ?m (utxo w)" using d(1) False by (simp add: coins_inv_update)
      ultimately show ?thesis
        using coins_change [OF d(1)] d rest r(2) by (simp add: writes_def c' del: view_inv.simps utxo.simps)
    qed
  qed
  then show "writes E (c, b) (c', b') ((chain_of E (Cache c b))\<lparr>cs_utxo := (utxo (Cache c b))(p := None)\<rparr>)"
    and "utxo (Cache c b) p = Option.bind r live" by simp_all
qed

text \<open>An output that \<open>AddCoin\<close> keeps.\<close>

definition kept :: "Coin \<Rightarrow> bool" where
  "kept coin \<longleftrightarrow> \<not> IsUnspendable (scriptPubKey (coin_out coin)) \<and> \<not> CTxOut_IsZerocoinMint (coin_out coin)"

definition with_coin :: "chainstate \<Rightarrow> COutPoint \<Rightarrow> Coin \<Rightarrow> chainstate" where
  "with_coin st p coin = (if kept coin then st\<lparr>cs_utxo := (cs_utxo st)(p \<mapsto> coin)\<rparr> else st)"

lemma AddCoin_writes:
  assumes inv: "view_inv E (Cache c b)" and coin: "\<not> Coin_IsSpent coin" "coin_ok coin"
    and new: "overwrite \<or> utxo (Cache c b) p = None"
  shows "\<exists>c'. AddCoin E c p coin overwrite = (None, c') \<and>
    writes E (c, b) (c', b) (with_coin (chain_of E (Cache c b)) p coin)"
proof (cases "kept coin")
  case False
  then show ?thesis
    using coin inv by (intro exI [of _ c]) (auto simp: AddCoin_def kept_def with_coin_def writes_def simp del: view_inv.simps utxo.simps)
next
  case True
  let ?e = "case map_of (cacheCoins c) p of None \<Rightarrow> CCoinsCacheEntry_new | Some e \<Rightarrow> e"
  let ?fresh = "\<not> overwrite \<and> \<not> ce_DIRTY ?e"
  let ?new = "\<lparr>ce_coin = coin, ce_DIRTY = True, ce_FRESH = (ce_FRESH ?e \<or> ?fresh)\<rparr>"
  have ok: "overwrite \<or> Coin_IsSpent (ce_coin ?e)"
    using new by (auto simp: through_def live_def Coin_IsSpent_def CCoinsCacheEntry_new_def Coin_new_def
        CTxOut_IsNull_def CTxOut_SetNull_def split: option.splits if_splits)
  define c' where "c' = snd (AddCoin E c p coin overwrite)"
  have run: "fst (AddCoin E c p coin overwrite) = None"
    using True coin ok by (auto simp: AddCoin_def kept_def Let_def)
  have c': "cacheCoins c' = AList.update p ?new (AList.update p ?e (cacheCoins c))" "hashBlock c' = hashBlock c"
      "hashSaplingAnchor c' = hashSaplingAnchor c" "cacheSaplingAnchors c' = cacheSaplingAnchors c"
      "cacheSaplingNullifiers c' = cacheSaplingNullifiers c"
    using True coin ok by (auto simp: c'_def AddCoin_def kept_def Let_def)
  have below: "utxo b p = None" if "ce_FRESH ?new"
  proof (cases "map_of (cacheCoins c) p")
    case None
    then show ?thesis using that new by (simp add: through_simps CCoinsCacheEntry_new_def)
  next
    case (Some e)
    then have "(ce_FRESH e \<longrightarrow> utxo b p = None) \<and> (\<not> ce_DIRTY e \<longrightarrow> live (ce_coin e) = utxo b p)"
      using inv by (simp add: coins_inv_def)
    then show ?thesis using that ok Some by (auto simp: live_def)
  qed
  have "coins_inv (AList.update p ?new (AList.update p ?e (cacheCoins c))) (utxo b)"
    using inv below coin by (auto simp: coins_inv_def map_simps split: if_splits)
  moreover have "utxo (Cache c' b) = (utxo (Cache c b))(p \<mapsto> coin)"
    using coin by (simp add: c' map_simps through_simps live_def)
  ultimately show ?thesis
    using inv True run by (intro exI [of _ c'])
      (simp add: c' writes_def with_coin_def chain_of_def prod_eq_iff flip: c'_def)
qed

lemma Uncache_writes:
  assumes "view_inv E (Cache c b)"
  shows "writes E (c, b) (Uncache E c p, b) (chain_of E (Cache c b))"
proof (cases "map_of (cacheCoins c) p")
  case None
  then show ?thesis using assms by (simp add: Uncache_def writes_def del: view_inv.simps utxo.simps)
next
  case (Some e)
  show ?thesis
  proof (cases "\<not> ce_DIRTY e \<and> \<not> ce_FRESH e")
    case True
    then have "utxo b p = live (ce_coin e)" using assms Some by (auto simp: coins_inv_def)
    then have "utxo (Cache (Uncache E c p) b) = utxo (Cache c b)"
      using True Some by (simp add: Uncache_def map_simps through_simps fun_upd_same)
    then show ?thesis
      using assms True Some by (simp add: writes_def chain_of_def Uncache_def coins_inv_delete)
  next
    case False
    then show ?thesis using assms Some by (auto simp: Uncache_def writes_def simp del: view_inv.simps utxo.simps)
  qed
qed

end
