(* ===== verification/CoinsFlush.thy ===== *)
theory CoinsFlush
  imports CoinsInv
begin

text \<open>
  Flushing: writing the best block, anchors and nullifiers of a cache, merging a cache into the cache
  below it, writing it to the database in batches, and what a crash between two batches leaves.
\<close>

section \<open>Best block, anchors and nullifiers\<close>

lemma SetBestBlock_writes:
  assumes "view_inv E (Cache c b)" "\<not> base_blob_IsNull h"
  shows "writes E (c, b) (SetBestBlock c h, b) ((chain_of E (Cache c b))\<lparr>cs_block := h\<rparr>)"
  using assms by (simp add: writes_def chain_of_def SetBestBlock_def)

lemma SetNullifiers_loop_effect:
  "distinct (map fst m) \<Longrightarrow>
   distinct (map fst (SetNullifiers_loop ds spent m)) \<and>
   map_of (SetNullifiers_loop ds spent m) =
     (\<lambda>n. if n \<in> sp_nullifier ` set ds then Some \<lparr>ne_entered = spent, ne_DIRTY = True\<rparr> else map_of m n)"
  by (induction ds arbitrary: m) (auto simp: map_simps fun_eq_iff)

definition nullifiers_set :: "chainstate \<Rightarrow> CTransaction \<Rightarrow> bool \<Rightarrow> chainstate" where
  "nullifiers_set st tx spent =
     (case sapData tx of
        None \<Rightarrow> st
      | Some d \<Rightarrow> st\<lparr>cs_nullifiers := (\<lambda>n. if n \<in> sp_nullifier ` set (vShieldedSpend d) then spent
                                          else cs_nullifiers st n)\<rparr>)"

lemma SetNullifiers_writes:
  assumes inv: "view_inv E (Cache c b)"
  shows "writes E (c, b) (SetNullifiers c tx spent, b) (nullifiers_set (chain_of E (Cache c b)) tx spent)"
proof (cases "sapData tx")
  case None
  then show ?thesis
    using inv by (simp add: SetNullifiers_def nullifiers_set_def writes_def del: view_inv.simps)
next
  case (Some d)
  let ?m = "SetNullifiers_loop (vShieldedSpend d) spent (cacheSaplingNullifiers c)"
  have m: "distinct (map fst ?m)" "map_of ?m = (\<lambda>n. if n \<in> sp_nullifier ` set (vShieldedSpend d)
      then Some \<lparr>ne_entered = spent, ne_DIRTY = True\<rparr> else map_of (cacheSaplingNullifiers c) n)"
    using SetNullifiers_loop_effect [of "cacheSaplingNullifiers c" "vShieldedSpend d" spent] inv
    by (auto simp: nullifiers_inv_def)
  then have ninv: "nullifiers_inv ?m (nullifiers b)"
    using inv by (auto simp: nullifiers_inv_def)
  have "through (map_of ?m) ne_entered (nullifiers b) =
      (\<lambda>n. if n \<in> sp_nullifier ` set (vShieldedSpend d) then spent else nullifiers (Cache c b) n)"
    by (auto simp: m(2) through_def fun_eq_iff)
  then show ?thesis
    using nullifiers_change [OF inv ninv] Some
    by (simp add: SetNullifiers_def nullifiers_set_def writes_def chain_of_def del: view_inv.simps nullifiers.simps)
qed

lemma anchor_move:
  assumes "view_inv E (Cache c b)" "anchors_inv E m (anchors E b)" "\<not> base_blob_IsNull rt"
  shows "view_inv E (Cache (c\<lparr>cacheSaplingAnchors := m, cachedCoinsUsage := u\<rparr>\<lparr>hashSaplingAnchor := rt\<rparr>) b)"
    and "chain_of E (Cache (c\<lparr>cacheSaplingAnchors := m, cachedCoinsUsage := u\<rparr>\<lparr>hashSaplingAnchor := rt\<rparr>) b) =
      (chain_of E (Cache c b))\<lparr>cs_anchors := through (map_of m) ae_entered (anchors E b), cs_anchor := rt\<rparr>"
  using assms by (simp_all add: chain_of_def)

lemma PushAnchor_writes:
  assumes inv: "view_inv E (Cache c b)" and root: "\<not> base_blob_IsNull (env_root E tree)"
    and run: "PushAnchor E c b tree = (c', b')"
  shows "writes E (c, b) (c', b')
    (if best_anchor E (Cache c b) = env_root E tree then chain_of E (Cache c b)
     else (chain_of E (Cache c b))\<lparr>cs_anchors := (anchors E (Cache c b))(env_root E tree := True),
            cs_anchor := env_root E tree\<rparr>)"
proof -
  obtain h d w where g: "CacheGetBestAnchor E c b = (h, d, w)" by (cases "CacheGetBestAnchor E c b")
  note G = GetBestAnchor_reads(2) [OF inv g]
  then have d: "view_inv E (Cache d w)" "chain_of E (Cache d w) = chain_of E (Cache c b)"
      "chain_of E w = chain_of E b" by (simp_all add: reads_def)
  show ?thesis
  proof (cases "h = env_root E tree")
    case True
    then show ?thesis
      using run g G d by (simp add: PushAnchor_def writes_def del: view_inv.simps best_anchor.simps CacheGetBestAnchor.simps)
  next
    case False
    let ?m = "AList.update (env_root E tree) \<lparr>ae_entered = True, ae_tree = tree, ae_DIRTY = True\<rparr> (cacheSaplingAnchors d)"
    define u where "u = cachedCoinsUsage c'"
    have c': "b' = w" "c' = d\<lparr>cacheSaplingAnchors := ?m, cachedCoinsUsage := u\<rparr>\<lparr>hashSaplingAnchor := env_root E tree\<rparr>"
      using run g False by (auto simp: PushAnchor_def Let_def u_def simp del: CacheGetBestAnchor.simps)
    have ainv: "anchors_inv E ?m (anchors E w)"
      using d(1) by (auto simp: anchors_inv_def map_simps)
    have "through (map_of ?m) ae_entered (anchors E w) = (anchors E (Cache c b))(env_root E tree := True)"
      unfolding chain_of_eqD(3) [OF d(2), symmetric] by (simp add: map_simps through_simps)
    then show ?thesis
      using anchor_move [OF d(1) ainv root, of u] d False G unfolding c'
      by (simp add: writes_def del: view_inv.simps anchors.simps best_anchor.simps)
  qed
qed

lemma PopAnchor_writes:
  assumes inv: "view_inv E (Cache c b)" and newrt: "\<not> base_blob_IsNull newrt"
    and current: "best_anchor E (Cache c b) \<noteq> env_empty_root E" "anchors E (Cache c b) (best_anchor E (Cache c b))"
  shows "\<exists>c' b'. PopAnchor E c b newrt = Inr (c', b') \<and> writes E (c, b) (c', b')
    (if best_anchor E (Cache c b) = newrt then chain_of E (Cache c b)
     else (chain_of E (Cache c b))\<lparr>cs_anchors := (anchors E (Cache c b))(best_anchor E (Cache c b) := False),
            cs_anchor := newrt\<rparr>)"
proof -
  obtain h d w where g: "CacheGetBestAnchor E c b = (h, d, w)" by (cases "CacheGetBestAnchor E c b")
  note G = GetBestAnchor_reads(2) [OF inv g]
  then have d: "view_inv E (Cache d w)" "chain_of E (Cache d w) = chain_of E (Cache c b)"
      "chain_of E w = chain_of E b" by (simp_all add: reads_def)
  show ?thesis
  proof (cases "h = newrt")
    case True
    then show ?thesis
      using g G d by (simp add: PopAnchor_def writes_def del: view_inv.simps best_anchor.simps CacheGetBestAnchor.simps)
  next
    case False
    obtain r d' w' where g': "CacheGetSaplingAnchorAt E d w h = (r, d', w')"
      by (cases "CacheGetSaplingAnchorAt E d w h")
    note G' = GetSaplingAnchorAt_reads(2) [OF d(1) g']
    then have d': "view_inv E (Cache d' w')" "chain_of E (Cache d' w') = chain_of E (Cache c b)"
        "chain_of E w' = chain_of E b" using d by (simp_all add: reads_def)
    have "anchors E (Cache d w) h" using current(2) G chain_of_eqD(3) [OF d(2)] by simp
    then obtain tree e where r: "r = Some tree" "map_of (cacheSaplingAnchors d') h = Some e"
      using G' by auto
    let ?m = "AList.update h (e\<lparr>ae_entered := False, ae_DIRTY := True\<rparr>) (cacheSaplingAnchors d')"
    let ?c = "d'\<lparr>cacheSaplingAnchors := ?m, cachedCoinsUsage := cachedCoinsUsage d'\<rparr>\<lparr>hashSaplingAnchor := newrt\<rparr>"
    have run: "PopAnchor E c b newrt = Inr (?c, w')"
      using g g' False r by (simp add: PopAnchor_def Let_def del: CacheGetBestAnchor.simps CacheGetSaplingAnchorAt.simps)
    have ainv: "anchors_inv E ?m (anchors E w')"
      using d'(1) r current(1) G by (auto simp: anchors_inv_def map_simps)
    have "through (map_of ?m) ae_entered (anchors E w') = (anchors E (Cache c b))(h := False)"
      unfolding chain_of_eqD(3) [OF d'(2), symmetric] by (simp add: map_simps through_simps)
    then show ?thesis
      using anchor_move [OF d'(1) ainv newrt, of "cachedCoinsUsage d'"] d' False G run
      by (intro exI [of _ ?c] exI [of _ w'])
        (simp add: writes_def del: view_inv.simps anchors.simps best_anchor.simps)
  qed
qed

section \<open>Flushing into a cache\<close>

text \<open>The three invariants are of one kind: a law for every entry and what lies below it.\<close>

definition layer_inv :: "('k \<Rightarrow> 'e \<Rightarrow> 'v \<Rightarrow> bool) \<Rightarrow> ('k \<times> 'e) list \<Rightarrow> ('k \<Rightarrow> 'v) \<Rightarrow> bool" where
  "layer_inv law m below \<longleftrightarrow>
     distinct (map fst m) \<and> (\<forall>k e. map_of m k = Some e \<longrightarrow> law k e (below k))"

lemma layers:
  "coins_inv m U = layer_inv (\<lambda>p e v. (ce_FRESH e \<longrightarrow> v = None) \<and> (\<not> ce_DIRTY e \<longrightarrow> live (ce_coin e) = v) \<and>
     coin_ok (ce_coin e)) m U"
  "anchors_inv E n A = layer_inv (\<lambda>rt e v. env_root E (ae_tree e) = rt \<and> (rt = env_empty_root E \<longrightarrow> ae_entered e) \<and>
     (\<not> ae_DIRTY e \<longrightarrow> ae_entered e = v)) n A"
  "nullifiers_inv k N = layer_inv (\<lambda>n e v. \<not> ne_DIRTY e \<longrightarrow> ne_entered e = v) k N"
  by (auto simp: coins_inv_def anchors_inv_def nullifiers_inv_def layer_inv_def)

lemma layer_Cons:
  "layer_inv law ((k, e) # m) below \<longleftrightarrow> k \<notin> fst ` set m \<and> law k e (below k) \<and> layer_inv law m below"
proof (cases "k \<in> fst ` set m")
  case True
  then show ?thesis by (simp add: layer_inv_def)
next
  case False
  then have "map_of m k = None" by (simp add: map_of_eq_None_iff)
  then have "(\<forall>j d. ((map_of m)(k \<mapsto> e)) j = Some d \<longrightarrow> law j d (below j)) \<longleftrightarrow>
      law k e (below k) \<and> (\<forall>j d. map_of m j = Some d \<longrightarrow> law j d (below j))"
    by (metis fun_upd_apply option.distinct(1) option.inject)
  then show ?thesis using False by (simp add: layer_inv_def del: fun_upd_apply) blast
qed

lemma layer_below:
  assumes "layer_inv law m below" "k \<notin> fst ` set m"
  shows "layer_inv law m (below(k := v))"
proof -
  have "map_of m k = None" using assms(2) by (simp add: map_of_eq_None_iff)
  then show ?thesis using assms(1) by (auto simp: layer_inv_def)
qed

lemma layer_update:
  "layer_inv law m below \<Longrightarrow> law k e (below k) \<Longrightarrow> layer_inv law (AList.update k e m) below"
  by (auto simp: layer_inv_def map_simps)

lemma layer_through:
  assumes "k \<notin> fst ` set m"
  shows "through (map_of m) f (below(k := f e)) = through (map_of ((k, e) # m)) f below"
proof -
  have "map_of m k = None" using assms by (simp add: map_of_eq_None_iff)
  then show ?thesis by (auto simp: through_def fun_eq_iff split: option.splits)
qed

lemma BatchWrite_coin_effect:
  assumes inv: "view_inv E (Cache c b)"
    and child: "ce_FRESH e \<longrightarrow> utxo (Cache c b) p = None" "\<not> ce_DIRTY e \<longrightarrow> live (ce_coin e) = utxo (Cache c b) p"
      "coin_ok (ce_coin e)"
  shows "\<exists>m u. BatchWrite_coin E c (p, e) = Inr (c\<lparr>cacheCoins := m, cachedCoinsUsage := u\<rparr>) \<and>
    coins_inv m (utxo b) \<and> through (map_of m) (\<lambda>e. live (ce_coin e)) (utxo b) =
      (utxo (Cache c b))(p := live (ce_coin e))"
proof -
  have cinv: "coins_inv (cacheCoins c) (utxo b)" using inv by simp
  have stay: "\<exists>m u. Inr c = (Inr (c\<lparr>cacheCoins := m, cachedCoinsUsage := u\<rparr>) :: 'a CCoinsViewCache res) \<and>
    coins_inv m (utxo b) \<and> through (map_of m) (\<lambda>e. live (ce_coin e)) (utxo b) =
      (utxo (Cache c b))(p := live (ce_coin e))" if "live (ce_coin e) = utxo (Cache c b) p"
    using that cinv by (intro exI [of _ "cacheCoins c"] exI [of _ "cachedCoinsUsage c"]) (simp add: fun_upd_same)
  show ?thesis
  proof (cases "ce_DIRTY e")
    case False
    then show ?thesis using stay child(2) by simp
  next
    case dirty: True
    show ?thesis
    proof (cases "map_of (cacheCoins c) p")
      case None
      then have u: "utxo (Cache c b) p = utxo b p" by (simp add: through_simps)
      show ?thesis
      proof (cases "ce_FRESH e \<and> Coin_IsSpent (ce_coin e)")
        case True
        then show ?thesis using stay child(1) dirty None by (simp add: live_def)
      next
        case False
        let ?e = "\<lparr>ce_coin = ce_coin e, ce_DIRTY = True, ce_FRESH = ce_FRESH e\<rparr>"
        have "coins_inv (AList.update p ?e (cacheCoins c)) (utxo b)"
          using cinv child u by (intro coins_inv_update) simp_all
        then show ?thesis
          using False dirty None
          by (intro exI [of _ "AList.update p ?e (cacheCoins c)"]
              exI [of _ "cachedCoinsUsage c + of_nat (env_usage E (ce_coin e))"])
            (simp add: map_simps through_simps)
      qed
    next
      case (Some us)
      then have u: "utxo (Cache c b) p = live (ce_coin us)" by (simp add: through_simps)
      then have guard: "\<not> (ce_FRESH e \<and> \<not> Coin_IsSpent (ce_coin us))"
        using child(1) live_None by metis
      show ?thesis
      proof (cases "ce_FRESH us \<and> Coin_IsSpent (ce_coin e)")
        case True
        then have "utxo b p = None" using cinv Some spend_fresh by blast
        then show ?thesis
          using True dirty Some guard cinv
          by (intro exI [of _ "AList.delete p (cacheCoins c)"]
              exI [of _ "cachedCoinsUsage c - of_nat (env_usage E (ce_coin us))"])
            (simp add: map_simps through_simps coins_inv_delete live_def)
      next
        case False
        let ?e = "us\<lparr>ce_coin := ce_coin e, ce_DIRTY := True\<rparr>"
        have "coins_inv (AList.update p ?e (cacheCoins c)) (utxo b)"
          using cinv child(3) Some by (intro coins_inv_update) (auto simp: coins_inv_def)
        then show ?thesis
          using False dirty Some guard
          by (intro exI [of _ "AList.update p ?e (cacheCoins c)"]
              exI [of _ "cachedCoinsUsage c - of_nat (env_usage E (ce_coin us)) + of_nat (env_usage E (ce_coin e))"])
            (auto simp: map_simps through_simps)
      qed
    qed
  qed
qed

lemma BatchWrite_coins_effect:
  assumes "view_inv E (Cache c b)" "coins_inv m (utxo (Cache c b))"
  shows "\<exists>c'. BatchWrite_coins E c m = Inr c' \<and> view_inv E (Cache c' b) \<and>
    chain_of E (Cache c' b) =
      (chain_of E (Cache c b))\<lparr>cs_utxo := through (map_of m) (\<lambda>e. live (ce_coin e)) (utxo (Cache c b))\<rparr> \<and>
    cacheSaplingAnchors c' = cacheSaplingAnchors c \<and> cacheSaplingNullifiers c' = cacheSaplingNullifiers c"
  using assms
proof (induction m arbitrary: c)
  case Nil
  then show ?case by (simp add: through_simps same_components del: view_inv.simps utxo.simps)
next
  case (Cons it m)
  obtain p e where it: "it = (p, e)" by (cases it)
  have child: "ce_FRESH e \<longrightarrow> utxo (Cache c b) p = None" "\<not> ce_DIRTY e \<longrightarrow> live (ce_coin e) = utxo (Cache c b) p"
      "coin_ok (ce_coin e)" and new: "p \<notin> fst ` set m"
    using Cons.prems(2) unfolding it layers layer_Cons by simp_all
  from BatchWrite_coin_effect [OF Cons.prems(1) child] obtain n u
    where run: "BatchWrite_coin E c (p, e) = Inr (c\<lparr>cacheCoins := n, cachedCoinsUsage := u\<rparr>)" (is "_ = Inr ?c")
      and n: "coins_inv n (utxo b)" "through (map_of n) (\<lambda>e. live (ce_coin e)) (utxo b) =
        (utxo (Cache c b))(p := live (ce_coin e))" by blast
  note ch = coins_change [OF Cons.prems(1) n(1), of u]
  have u: "utxo (Cache ?c b) = (utxo (Cache c b))(p := live (ce_coin e))" using n(2) by simp
  have "coins_inv m (utxo (Cache ?c b))"
    using Cons.prems(2) unfolding u it layers layer_Cons by (intro layer_below) simp_all
  from Cons.IH [OF ch(1) this] obtain c' where c': "BatchWrite_coins E ?c m = Inr c'" "view_inv E (Cache c' b)"
      "chain_of E (Cache c' b) = (chain_of E (Cache ?c b))
        \<lparr>cs_utxo := through (map_of m) (\<lambda>e. live (ce_coin e)) (utxo (Cache ?c b))\<rparr>"
      "cacheSaplingAnchors c' = cacheSaplingAnchors c" "cacheSaplingNullifiers c' = cacheSaplingNullifiers c"
    by auto
  have "through (map_of m) (\<lambda>e. live (ce_coin e)) (utxo (Cache ?c b)) =
      through (map_of (it # m)) (\<lambda>e. live (ce_coin e)) (utxo (Cache c b))"
    unfolding u it by (rule layer_through [OF new])
  note eq = this
  have "chain_of E (Cache c' b) = (chain_of E (Cache c b))
      \<lparr>cs_utxo := through (map_of (it # m)) (\<lambda>e. live (ce_coin e)) (utxo (Cache c b))\<rparr>"
    unfolding c'(3) ch(2) eq by simp
  then show ?case
    using c'(1,2,4,5) run unfolding it
    by (simp del: chainstate.simps view_inv.simps utxo.simps BatchWrite_coin.simps map_of.simps)
qed

lemma BatchWriteNullifiers_effect:
  assumes "nullifiers_inv cm below" "nullifiers_inv m (through (map_of cm) ne_entered below)"
  shows "nullifiers_inv (BatchWriteNullifiers m cm) below \<and>
    through (map_of (BatchWriteNullifiers m cm)) ne_entered below =
      through (map_of m) ne_entered (through (map_of cm) ne_entered below)"
  using assms
proof (induction m cm rule: BatchWriteNullifiers.induct)
  case (1 cm)
  then show ?case by (simp add: through_simps)
next
  case (2 nf child rest cm)
  let ?low = "through (map_of cm) ne_entered below"
  have child: "nf \<notin> fst ` set rest" "\<not> ne_DIRTY child \<longrightarrow> ne_entered child = ?low nf"
    using "2.prems"(2) unfolding layers layer_Cons by simp_all
  define cm' where "cm' = (if ne_DIRTY child then case map_of cm nf of
       None \<Rightarrow> AList.update nf \<lparr>ne_entered = ne_entered child, ne_DIRTY = True\<rparr> cm
     | Some parent \<Rightarrow> if ne_entered parent \<noteq> ne_entered child
         then AList.update nf (parent\<lparr>ne_entered := ne_entered child, ne_DIRTY := True\<rparr>) cm else cm
     else cm)"
  have run: "BatchWriteNullifiers ((nf, child) # rest) cm = BatchWriteNullifiers rest cm'"
    by (simp add: cm'_def split: option.splits)
  have inv: "nullifiers_inv cm' below"
    using "2.prems"(1) unfolding cm'_def layers by (auto intro: layer_update split: option.splits)
  have low: "through (map_of cm') ne_entered below = ?low(nf := ne_entered child)"
    using child(2) by (auto simp: cm'_def map_simps through_simps fun_upd_same split: option.splits)
  have rest: "nullifiers_inv rest (through (map_of cm') ne_entered below)"
    using "2.prems"(2) unfolding low layers layer_Cons by (intro layer_below) simp_all
  have "nullifiers_inv (BatchWriteNullifiers rest cm') below \<and>
    through (map_of (BatchWriteNullifiers rest cm')) ne_entered below =
      through (map_of rest) ne_entered (through (map_of cm') ne_entered below)"
    using "2.IH" inv rest unfolding cm'_def by (auto split: option.splits if_splits)
  then show ?case unfolding run low by (simp only: layer_through [OF child(1)])
qed

lemma BatchWriteAnchors_effect:
  assumes "anchors_inv E cm below" "anchors_inv E m (through (map_of cm) ae_entered below)"
  shows "anchors_inv E (fst (BatchWriteAnchors E m cm u)) below \<and>
    through (map_of (fst (BatchWriteAnchors E m cm u))) ae_entered below =
      through (map_of m) ae_entered (through (map_of cm) ae_entered below)"
  using assms
proof (induction E m cm u rule: BatchWriteAnchors.induct)
  case (1 E cm u)
  then show ?case by (simp add: through_simps)
next
  case (2 E rt child rest cm u)
  let ?low = "through (map_of cm) ae_entered below"
  have child: "rt \<notin> fst ` set rest" "\<not> ae_DIRTY child \<longrightarrow> ae_entered child = ?low rt"
      "env_root E (ae_tree child) = rt" "rt = env_empty_root E \<longrightarrow> ae_entered child"
    using "2.prems"(2) unfolding layers layer_Cons by simp_all
  define cm' where "cm' = (if ae_DIRTY child then case map_of cm rt of
       None \<Rightarrow> AList.update rt \<lparr>ae_entered = ae_entered child, ae_tree = ae_tree child, ae_DIRTY = True\<rparr> cm
     | Some parent \<Rightarrow> if ae_entered parent \<noteq> ae_entered child
         then AList.update rt (parent\<lparr>ae_entered := ae_entered child, ae_DIRTY := True\<rparr>) cm else cm
     else cm)"
  define u' where "u' = (if ae_DIRTY child \<and> map_of cm rt = None
     then u + of_nat (env_tree_usage E (ae_tree child)) else u)"
  have run: "BatchWriteAnchors E ((rt, child) # rest) cm u = BatchWriteAnchors E rest cm' u'"
    by (simp add: cm'_def u'_def split: option.splits)
  have inv: "anchors_inv E cm' below"
  proof (cases "map_of cm rt")
    case None
    then show ?thesis
      using "2.prems"(1) child(3,4) unfolding cm'_def layers by (simp add: layer_update)
  next
    case (Some parent)
    then have "env_root E (ae_tree parent) = rt" using "2.prems"(1) by (simp add: anchors_inv_def)
    then show ?thesis
      using "2.prems"(1) child(4) Some unfolding cm'_def layers by (simp add: layer_update)
  qed
  have low: "through (map_of cm') ae_entered below = ?low(rt := ae_entered child)"
    using child(2) by (auto simp: cm'_def map_simps through_simps fun_upd_same split: option.splits)
  have rest: "anchors_inv E rest (through (map_of cm') ae_entered below)"
    using "2.prems"(2) unfolding low layers layer_Cons by (intro layer_below) simp_all
  have "anchors_inv E (fst (BatchWriteAnchors E rest cm' u')) below \<and>
    through (map_of (fst (BatchWriteAnchors E rest cm' u'))) ae_entered below =
      through (map_of rest) ae_entered (through (map_of cm') ae_entered below)"
    using "2.IH" inv rest unfolding cm'_def u'_def by (auto split: option.splits if_splits)
  then show ?case unfolding run low by (simp only: layer_through [OF child(1)])
qed

section \<open>Flushing into the database\<close>

fun op_key :: "'t batch_op \<Rightarrow> db_key" where
  "op_key (Write k v) = k"
| "op_key (Erase k) = k"

fun op_value :: "'t batch_op \<Rightarrow> 't db_value option" where
  "op_value (Write k v) = Some v"
| "op_value (Erase k) = None"

text \<open>What a list of operations on one key leaves there.\<close>

definition last_value :: "'t batch_op list \<Rightarrow> 't db_value option \<Rightarrow> 't db_value option" where
  "last_value ops v = foldl (\<lambda>v op. op_value op) v ops"

lemma apply_op_eq: "apply_op db op = db(op_key op := op_value op)"
  by (cases op) auto

lemma apply_other: "k \<notin> op_key ` set ops \<Longrightarrow> foldl apply_op db ops k = db k"
  by (induction ops arbitrary: db) (auto simp: apply_op_eq)

lemma apply_one_key: "op_key ` set ops \<subseteq> {k} \<Longrightarrow> foldl apply_op db ops k = last_value ops (db k)"
  by (induction ops arbitrary: db) (auto simp: apply_op_eq last_value_def)

lemma apply_keyed:
  assumes "\<And>k e. op_key ` set (g (k, e)) \<subseteq> {K k}" "inj K" "distinct (map fst m)"
  shows "foldl apply_op db (concat (map g m)) (K k) =
    (case map_of m k of None \<Rightarrow> db (K k) | Some e \<Rightarrow> last_value (g (k, e)) (db (K k)))"
  using assms(3)
proof (induction m arbitrary: db)
  case (Cons it m)
  obtain j d where it: "it = (j, d)" by (cases it)
  show ?case
  proof (cases "j = k")
    case True
    then have "map_of m k = None" using Cons.prems it by (simp add: map_of_eq_None_iff)
    then show ?thesis
      using Cons.IH [of "foldl apply_op db (g it)"] Cons.prems True assms(1) [of k d]
      by (simp add: it apply_one_key)
  next
    case False
    then have "K k \<notin> op_key ` set (g (j, d))" using assms(1) [of j d] injD [OF assms(2), of k j] by blast
    then show ?thesis
      using Cons.IH [of "foldl apply_op db (g it)"] Cons.prems False
      by (auto simp: it apply_other split: option.split)
  qed
qed simp

lemma apply_keyed_other:
  assumes "\<And>k e. op_key ` set (g (k, e)) \<subseteq> {K k}" "j \<notin> range K"
  shows "foldl apply_op db (concat (map g m)) j = db j"
  using assms by (intro apply_other) fastforce

lemma coin_op_key: "op_key ` set (coin_op (p, e)) \<subseteq> {DB_COIN p}"
  by auto

lemma anchor_op_key: "op_key ` set (anchor_op E (rt, e)) \<subseteq> {DB_SAPLING_ANCHOR rt}"
  by auto

lemma nullifier_op_key: "op_key ` set (nullifier_op (nf, e)) \<subseteq> {DB_SAPLING_NULLIFIER nf}"
  by auto

lemma db_key_inj: "inj DB_COIN" "inj DB_SAPLING_ANCHOR" "inj DB_SAPLING_NULLIFIER"
  by (simp_all add: inj_def)

lemma db_coins_loop_ops:
  "db_coins_loop E m batch written = (batch', written') \<Longrightarrow>
   concat written' @ batch' = concat written @ batch @ concat (map coin_op m)"
  by (induction E m batch written rule: db_coins_loop.induct) (auto simp: Let_def split: if_splits)

lemma foldl_WriteBatch: "foldl WriteBatch db bs = foldl apply_op db (concat bs)"
  by (induction bs arbitrary: db) (simp_all add: WriteBatch_def)

text \<open>
  The database may be written: it is in no transition, or in one to the block that is flushed.
\<close>

definition db_ready :: "'t db \<Rightarrow> bytes \<Rightarrow> bool" where
  "db_ready db hash \<longleftrightarrow>
     base_blob_IsNull (db_GetBestBlock db) \<and> length (db_GetHeadBlocks db) = 2 \<longrightarrow> db_GetHeadBlocks db ! 0 = hash"

definition flush_ops ::
  "'t coins_env \<Rightarrow> CCoinsMap \<Rightarrow> bytes \<Rightarrow> bytes \<Rightarrow> 't CAnchorsSaplingMap \<Rightarrow> CNullifiersMap \<Rightarrow> bytes \<Rightarrow> 't batch_op list" where
  "flush_ops E m hash ha am nm old =
     [Erase DB_BEST_BLOCK, Write DB_HEAD_BLOCKS (V_Hashes [hash, old])] @ concat (map coin_op m) @
     BatchWriteSapling E ha am nm @ [Erase DB_HEAD_BLOCKS, Write DB_BEST_BLOCK (V_Hash hash)]"

lemma db_BatchWrite_ops:
  assumes "\<not> base_blob_IsNull hash" "db_ready db hash"
  shows "\<exists>old. db_BatchWrite E db m hash ha am nm = Inr (foldl apply_op db (flush_ops E m hash ha am nm old))"
proof -
  obtain old where old: "(if base_blob_IsNull (db_GetBestBlock db) \<and> length (db_GetHeadBlocks db) = 2
      then if db_GetHeadBlocks db ! 0 = hash then Inr (db_GetHeadBlocks db ! 1)
           else Inl (AssertFailed ''old_heads[0] == hashBlock'')
      else Inr (db_GetBestBlock db)) = (Inr old :: bytes res)"
    using assms(2) by (cases "base_blob_IsNull (db_GetBestBlock db) \<and> length (db_GetHeadBlocks db) = 2")
      (auto simp: db_ready_def)
  let ?b = "[Erase DB_BEST_BLOCK, Write DB_HEAD_BLOCKS (V_Hashes [hash, old])]"
  obtain b w where loop: "db_coins_loop E m ?b [] = (b, w)" by (cases "db_coins_loop E m ?b []")
  have "db_BatchWrite E db m hash ha am nm =
      Inr (foldl WriteBatch db (w @ [b @ BatchWriteSapling E ha am nm @ [Erase DB_HEAD_BLOCKS, Write DB_BEST_BLOCK (V_Hash hash)]]))"
    using assms(1) unfolding db_BatchWrite_def db_BatchWrite_batches_def Let_def old by (simp add: loop)
  then show ?thesis
    using db_coins_loop_ops [OF loop] unfolding foldl_WriteBatch flush_ops_def
    by (intro exI [of _ old]) (simp only: concat_append concat.simps append_Nil2 append_Nil append_assoc [symmetric])
qed

text \<open>What the database holds afterwards.\<close>

lemmas op_keys = coin_op_key anchor_op_key nullifier_op_key

lemma flush_ops_db:
  fixes db :: "'t db"
  assumes "distinct (map fst m)" "distinct (map fst am)" "distinct (map fst nm)"
    and db'_def: "db' = foldl apply_op db (flush_ops E m hash ha am nm old)"
  shows "db' (DB_COIN p) = (case map_of m p of None \<Rightarrow> db (DB_COIN p)
      | Some e \<Rightarrow> last_value (coin_op (p, e)) (db (DB_COIN p)))"
    and "db' (DB_SAPLING_ANCHOR rt) = (case map_of am rt of None \<Rightarrow> db (DB_SAPLING_ANCHOR rt)
      | Some e \<Rightarrow> last_value (anchor_op E (rt, e)) (db (DB_SAPLING_ANCHOR rt)))"
    and "db' (DB_SAPLING_NULLIFIER nf) = (case map_of nm nf of None \<Rightarrow> db (DB_SAPLING_NULLIFIER nf)
      | Some e \<Rightarrow> last_value (nullifier_op (nf, e)) (db (DB_SAPLING_NULLIFIER nf)))"
    and "db' DB_BEST_BLOCK = Some (V_Hash hash)" "db' DB_HEAD_BLOCKS = None"
    and "db' DB_BEST_SAPLING_ANCHOR = (if base_blob_IsNull ha then db DB_BEST_SAPLING_ANCHOR else Some (V_Hash ha))"
proof -
  note coin = apply_keyed [OF coin_op_key db_key_inj(1) assms(1)]
    and anchor = apply_keyed [OF anchor_op_key db_key_inj(2) assms(2)]
    and nullifier = apply_keyed [OF nullifier_op_key db_key_inj(3) assms(3)]
  have other: "j \<notin> range DB_COIN \<Longrightarrow> foldl apply_op d (concat (map coin_op m)) j = d j"
      "j \<notin> range DB_SAPLING_ANCHOR \<Longrightarrow> foldl apply_op d (concat (map (anchor_op E) am)) j = d j"
      "j \<notin> range DB_SAPLING_NULLIFIER \<Longrightarrow> foldl apply_op d (concat (map nullifier_op nm)) j = d j" for j and d :: "'t db"
    by (rule apply_keyed_other [where K = DB_COIN and g = coin_op, OF coin_op_key]
        apply_keyed_other [where K = DB_SAPLING_ANCHOR and g = "anchor_op E", OF anchor_op_key]
        apply_keyed_other [where K = DB_SAPLING_NULLIFIER and g = nullifier_op, OF nullifier_op_key], assumption)+
  show "db' (DB_COIN p) = (case map_of m p of None \<Rightarrow> db (DB_COIN p)
      | Some e \<Rightarrow> last_value (coin_op (p, e)) (db (DB_COIN p)))"
    unfolding db'_def flush_ops_def BatchWriteSapling_def
    by (simp add: other coin image_iff del: coin_op.simps split: option.split)
  show "db' (DB_SAPLING_ANCHOR rt) = (case map_of am rt of None \<Rightarrow> db (DB_SAPLING_ANCHOR rt)
      | Some e \<Rightarrow> last_value (anchor_op E (rt, e)) (db (DB_SAPLING_ANCHOR rt)))"
    unfolding db'_def flush_ops_def BatchWriteSapling_def
    by (simp add: other anchor image_iff del: anchor_op.simps split: option.split)
  show "db' (DB_SAPLING_NULLIFIER nf) = (case map_of nm nf of None \<Rightarrow> db (DB_SAPLING_NULLIFIER nf)
      | Some e \<Rightarrow> last_value (nullifier_op (nf, e)) (db (DB_SAPLING_NULLIFIER nf)))"
    unfolding db'_def flush_ops_def BatchWriteSapling_def
    by (simp add: other nullifier image_iff del: nullifier_op.simps split: option.split)
  show "db' DB_BEST_BLOCK = Some (V_Hash hash)" "db' DB_HEAD_BLOCKS = None"
    "db' DB_BEST_SAPLING_ANCHOR = (if base_blob_IsNull ha then db DB_BEST_SAPLING_ANCHOR else Some (V_Hash ha))"
    unfolding db'_def flush_ops_def BatchWriteSapling_def by (simp_all add: other image_iff)
qed

lemma stored_coin_same: "coin_ok c \<Longrightarrow> stored_coin c = c"
  by (simp add: stored_coin_def CTxOut_new_def coin_ok_def)

lemma utxo_live: "utxo v p = Some x \<Longrightarrow> \<not> Coin_IsSpent x"
proof (induction v)
  case (DB db)
  then show ?case by (auto simp: live_def bind_eq_Some_conv split: if_splits)
next
  case (Cache c b)
  then show ?case
    by (cases "map_of (cacheCoins c) p") (auto simp: through_simps live_def split: if_splits)
qed simp

lemma utxo_ok: "view_inv E v \<Longrightarrow> utxo v p = Some x \<Longrightarrow> coin_ok x"
proof (induction v)
  case (DB db)
  then show ?case
    by (auto simp: db_inv_def db_GetCoin_def live_def bind_eq_Some_conv split: if_splits option.splits db_value.splits)
next
  case (Cache c b)
  then show ?case
    by (cases "map_of (cacheCoins c) p") (auto simp: through_simps live_def coins_inv_def split: if_splits)
qed simp

lemma db_coin: assumes "db_inv E db" shows "db (DB_COIN p) = map_option V_Coin (utxo (DB db) p)"
proof (cases "db (DB_COIN p)")
  case (Some v)
  then obtain x where "v = V_Coin x" "\<not> Coin_IsSpent x" using assms unfolding db_inv_def by blast
  then show ?thesis using Some by (simp add: db_GetCoin_def live_def)
qed (simp add: db_GetCoin_def)

lemma db_coin_read:
  "db (DB_COIN p) = map_option V_Coin x \<Longrightarrow> (\<And>y. x = Some y \<Longrightarrow> \<not> Coin_IsSpent y) \<Longrightarrow> utxo (DB db) p = x"
  by (cases x) (simp_all add: db_GetCoin_def live_def)

lemma db_flush:
  assumes inv: "view_inv E (Cache c (DB db))" and hash: "\<not> base_blob_IsNull (hashBlock c)"
    and ready: "db_ready db (hashBlock c)"
  shows "\<exists>db'. db_BatchWrite E db (cacheCoins c) (hashBlock c) (hashSaplingAnchor c) (cacheSaplingAnchors c)
      (cacheSaplingNullifiers c) = Inr db' \<and> view_inv E (DB db') \<and>
    chain_of E (DB db') = chain_of E (Cache c (DB db))"
proof -
  obtain old where run: "db_BatchWrite E db (cacheCoins c) (hashBlock c) (hashSaplingAnchor c) (cacheSaplingAnchors c)
      (cacheSaplingNullifiers c) = Inr (foldl apply_op db (flush_ops E (cacheCoins c) (hashBlock c)
        (hashSaplingAnchor c) (cacheSaplingAnchors c) (cacheSaplingNullifiers c) old))" (is "_ = Inr ?db")
    using db_BatchWrite_ops [OF hash ready] by blast
  have cinv: "coins_inv (cacheCoins c) (utxo (DB db))" "anchors_inv E (cacheSaplingAnchors c) (anchors E (DB db))"
      "nullifiers_inv (cacheSaplingNullifiers c) (nullifiers (DB db))" "db_inv E db"
    using inv by simp_all
  then have "distinct (map fst (cacheCoins c))" "distinct (map fst (cacheSaplingAnchors c))"
      "distinct (map fst (cacheSaplingNullifiers c))"
    by (simp_all add: coins_inv_def anchors_inv_def nullifiers_inv_def)
  note look = flush_ops_db [OF this refl, of db E "hashBlock c" "hashSaplingAnchor c" old]
  have coin: "?db (DB_COIN p) = map_option V_Coin (utxo (Cache c (DB db)) p)" for p
  proof (cases "map_of (cacheCoins c) p")
    case None
    then show ?thesis using db_coin [OF cinv(4)] by (simp add: look through_simps)
  next
    case (Some e)
    then have e: "\<not> ce_DIRTY e \<longrightarrow> live (ce_coin e) = utxo (DB db) p" "coin_ok (ce_coin e)"
      using cinv(1) by (simp_all add: coins_inv_def)
    show ?thesis
    proof (cases "ce_DIRTY e")
      case True
      then show ?thesis using Some e by (simp add: look through_simps last_value_def live_def stored_coin_same)
    next
      case False
      then show ?thesis
        using Some e db_coin [OF cinv(4), of p] by (simp add: look through_simps last_value_def)
    qed
  qed
  have "utxo (DB ?db) = utxo (Cache c (DB db))"
    by (intro ext db_coin_read coin) (rule utxo_live)
  moreover have "nullifiers (DB ?db) = nullifiers (Cache c (DB db))"
  proof
    fix n
    show "nullifiers (DB ?db) n = nullifiers (Cache c (DB db)) n"
      using cinv(3) by (cases "map_of (cacheSaplingNullifiers c) n")
        (auto simp: look through_simps nullifiers_inv_def db_GetNullifier_def last_value_def)
  qed
  moreover have "anchors E (DB ?db) = anchors E (Cache c (DB db))"
  proof
    fix rt
    show "anchors E (DB ?db) rt = anchors E (Cache c (DB db)) rt"
      using cinv(2) by (cases "map_of (cacheSaplingAnchors c) rt")
        (auto simp: look through_simps anchors_inv_def db_GetSaplingAnchorAt_def last_value_def)
  qed
  moreover have "db_inv E ?db"
    unfolding db_inv_def
  proof (intro conjI allI impI)
    fix p v assume "?db (DB_COIN p) = Some v"
    then show "\<exists>x. v = V_Coin x \<and> \<not> Coin_IsSpent x \<and> coin_ok x"
      using coin [of p] utxo_live [of "Cache c (DB db)" p] utxo_ok [OF inv, of p]
      by (cases "utxo (Cache c (DB db)) p") auto
  next
    fix rt tr assume "db_GetSaplingAnchorAt E ?db rt = Some tr"
    then show "env_root E tr = rt"
      using cinv(2,4) by (cases "map_of (cacheSaplingAnchors c) rt")
        (auto simp: look db_inv_def anchors_inv_def db_GetSaplingAnchorAt_def last_value_def split: if_splits)
  qed
  ultimately show ?thesis
    using run hash by (intro exI [of _ ?db]) (simp add: chain_of_def look db_GetBestBlock_def db_GetBestAnchor_def)
qed

section \<open>Flush\<close>

text \<open>The view below takes the writes of a flush to block \<open>hash\<close>.\<close>

fun base_ready :: "'t view \<Rightarrow> bytes \<Rightarrow> bool" where
  "base_ready Dummy hash = False"
| "base_ready (DB db) hash = db_ready db hash"
| "base_ready (Cache c b) hash = True"

lemma BatchWrite_effect:
  assumes inv: "view_inv E (Cache c b)" and hash: "\<not> base_blob_IsNull (hashBlock c)"
    and anchor: "\<not> base_blob_IsNull (hashSaplingAnchor c)" and ready: "base_ready b (hashBlock c)"
  shows "\<exists>b'. BatchWrite E b (cacheCoins c) (hashBlock c) (hashSaplingAnchor c) (cacheSaplingAnchors c)
      (cacheSaplingNullifiers c) = Inr (True, b') \<and> view_inv E b' \<and> chain_of E b' = chain_of E (Cache c b)"
proof (cases b)
  case Dummy
  then show ?thesis using ready by simp
next
  case (DB db)
  then show ?thesis using db_flush [of E c db] inv hash ready by auto
next
  case (Cache d g)
  have d: "view_inv E (Cache d g)" and m: "coins_inv (cacheCoins c) (utxo (Cache d g))"
      "anchors_inv E (cacheSaplingAnchors c) (anchors E (Cache d g))"
      "nullifiers_inv (cacheSaplingNullifiers c) (nullifiers (Cache d g))"
    using inv Cache by simp_all
  obtain d' where coins: "BatchWrite_coins E d (cacheCoins c) = Inr d'" "view_inv E (Cache d' g)"
      "chain_of E (Cache d' g) = (chain_of E (Cache d g))
        \<lparr>cs_utxo := through (map_of (cacheCoins c)) (\<lambda>e. live (ce_coin e)) (utxo (Cache d g))\<rparr>"
      "cacheSaplingAnchors d' = cacheSaplingAnchors d" "cacheSaplingNullifiers d' = cacheSaplingNullifiers d"
    using BatchWrite_coins_effect [OF d m(1)] by blast
  obtain am u where am: "BatchWriteAnchors E (cacheSaplingAnchors c) (cacheSaplingAnchors d') (cachedCoinsUsage d') = (am, u)"
    by (cases "BatchWriteAnchors E (cacheSaplingAnchors c) (cacheSaplingAnchors d') (cachedCoinsUsage d')")
  have A: "anchors_inv E am (anchors E g)" "through (map_of am) ae_entered (anchors E g) =
      through (map_of (cacheSaplingAnchors c)) ae_entered (anchors E (Cache d g))"
    using BatchWriteAnchors_effect [of E "cacheSaplingAnchors d'" "anchors E g" "cacheSaplingAnchors c" "cachedCoinsUsage d'"]
      d m(2) coins(4) am by auto
  let ?nm = "BatchWriteNullifiers (cacheSaplingNullifiers c) (cacheSaplingNullifiers d')"
  have N: "nullifiers_inv ?nm (nullifiers g)" "through (map_of ?nm) ne_entered (nullifiers g) =
      through (map_of (cacheSaplingNullifiers c)) ne_entered (nullifiers (Cache d g))"
    using BatchWriteNullifiers_effect [of "cacheSaplingNullifiers d'" "nullifiers g" "cacheSaplingNullifiers c"]
      d m(3) coins(5) by auto
  let ?d = "d'\<lparr>cacheSaplingAnchors := am, cachedCoinsUsage := u, cacheSaplingNullifiers := ?nm,
    hashSaplingAnchor := hashSaplingAnchor c, hashBlock := hashBlock c\<rparr>"
  have "BatchWrite E b (cacheCoins c) (hashBlock c) (hashSaplingAnchor c) (cacheSaplingAnchors c)
      (cacheSaplingNullifiers c) = Inr (True, Cache ?d g)"
    using coins(1) am Cache by simp
  moreover have "view_inv E (Cache ?d g)" using coins(2) A(1) N(1) by simp
  moreover have "utxo (Cache d' g) = through (map_of (cacheCoins c)) (\<lambda>e. live (ce_coin e)) (utxo (Cache d g))"
    using arg_cong [OF coins(3), of cs_utxo] by (simp add: chain_of_def)
  then have "chain_of E (Cache ?d g) = chain_of E (Cache c b)"
    using A(2) N(2) hash anchor Cache by (simp add: chain_of_def)
  ultimately show ?thesis by blast
qed

lemma Flush_writes:
  assumes "view_inv E (Cache c b)" "\<not> base_blob_IsNull (hashBlock c)"
    "\<not> base_blob_IsNull (hashSaplingAnchor c)" "base_ready b (hashBlock c)"
  shows "\<exists>c' b'. Flush E c b = Inr (True, c', b') \<and> view_inv E (Cache c' b') \<and>
    chain_of E b' = chain_of E (Cache c b) \<and> chain_of E (Cache c' b') = chain_of E (Cache c b) \<and> cacheCoins c' = []"
proof -
  obtain b' where b': "BatchWrite E b (cacheCoins c) (hashBlock c) (hashSaplingAnchor c) (cacheSaplingAnchors c)
      (cacheSaplingNullifiers c) = Inr (True, b')" "view_inv E b'" "chain_of E b' = chain_of E (Cache c b)"
    using BatchWrite_effect [OF assms] by blast
  let ?c = "c\<lparr>cacheCoins := [], cacheSaplingAnchors := [], cacheSaplingNullifiers := [], cachedCoinsUsage := 0\<rparr>"
  have "Flush E c b = Inr (True, ?c, b')" using b'(1) by (simp add: Flush_def)
  moreover have "view_inv E (Cache ?c b')"
    using b'(2) by (simp add: coins_inv_def anchors_inv_def nullifiers_inv_def)
  moreover have "chain_of E (Cache ?c b') = chain_of E b'"
    using chain_of_eqD(4,5) [OF b'(3)] assms(2,3) by (simp add: chain_of_def through_simps)
  ultimately show ?thesis using b'(3) by (intro exI [of _ ?c] exI [of _ b']) simp
qed

section \<open>A crash in the middle of a flush\<close>

lemma db_coins_loop_extends:
  "db_coins_loop E m batch written = (batch', written') \<Longrightarrow> \<exists>ws. written' = written @ ws"
  by (induction E m batch written rule: db_coins_loop.induct) (auto simp: Let_def split: if_splits)

lemma db_coins_loop_prefix:
  assumes "db_coins_loop E m batch written = (batch', written')" "length written < k" "k \<le> length written'"
  shows "\<exists>j. concat (take k written') = concat written @ batch @ concat (map coin_op (take j m))"
  using assms
proof (induction E m batch written rule: db_coins_loop.induct)
  case (2 E it rest batch written)
  let ?b = "batch @ coin_op it"
  show ?case
  proof (cases "SizeEstimate E ?b > env_batch_size E")
    case True
    then have loop: "db_coins_loop E rest [] (written @ [?b]) = (batch', written')"
      using "2.prems"(1) by (simp add: Let_def)
    show ?thesis
    proof (cases "length (written @ [?b]) < k")
      case more: True
      then obtain j where "concat (take k written') = concat (written @ [?b]) @ [] @ concat (map coin_op (take j rest))"
        using "2.IH"(1) [OF refl True loop] "2.prems"(3) by blast
      then show ?thesis by (intro exI [of _ "Suc j"]) simp
    next
      case False
      then have k: "k = length (written @ [?b])" using "2.prems"(2) by simp
      then have "take k written' = written @ [?b]" using db_coins_loop_extends [OF loop] by auto
      then show ?thesis by (intro exI [of _ 1]) simp
    qed
  next
    case False
    then have loop: "db_coins_loop E rest ?b written = (batch', written')"
      using "2.prems"(1) by (simp add: Let_def)
    obtain j where "concat (take k written') = concat written @ ?b @ concat (map coin_op (take j rest))"
      using "2.IH"(2) [OF refl False loop "2.prems"(2,3)] by blast
    then show ?thesis by (intro exI [of _ "Suc j"]) simp
  qed
qed simp

lemma partial_coins:
  assumes "distinct (map fst m)"
  shows "foldl apply_op db (concat (map coin_op (take j m))) (DB_COIN p) \<in>
    {db (DB_COIN p), foldl apply_op db (concat (map coin_op m)) (DB_COIN p)}"
proof -
  have d: "distinct (map fst (take j m))" using assms by (metis distinct_take take_map)
  have "map_of (take j m) p = None \<or> map_of (take j m) p = map_of m p"
    by (metis (no_types, lifting) append_take_drop_id map_add_Some_iff map_of_append not_None_eq
        assms map_of_eq_Some_iff d in_set_takeD)
  then show ?thesis
    unfolding apply_keyed [OF coin_op_key db_key_inj(1) assms] apply_keyed [OF coin_op_key db_key_inj(1) d]
    by (auto split: option.splits)
qed

lemma flush_interrupted:
  assumes run: "db_BatchWrite_batches E db m hash ha am nm = Inr bs" and k: "0 < k" "k < length bs"
    and m: "distinct (map fst m)"
  defines "mid \<equiv> foldl WriteBatch db (take k bs)" and "new \<equiv> foldl WriteBatch db bs"
  shows "\<exists>old. mid DB_BEST_BLOCK = None \<and> mid DB_HEAD_BLOCKS = Some (V_Hashes [hash, old]) \<and>
    (\<not> base_blob_IsNull (db_GetBestBlock db) \<longrightarrow> old = db_GetBestBlock db) \<and>
    (\<forall>p. mid (DB_COIN p) \<in> {db (DB_COIN p), new (DB_COIN p)}) \<and>
    (\<forall>rt. mid (DB_SAPLING_ANCHOR rt) = db (DB_SAPLING_ANCHOR rt)) \<and>
    (\<forall>n. mid (DB_SAPLING_NULLIFIER n) = db (DB_SAPLING_NULLIFIER n)) \<and>
    mid DB_BEST_SAPLING_ANCHOR = db DB_BEST_SAPLING_ANCHOR"
proof -
  obtain old b w where loop: "db_coins_loop E m [Erase DB_BEST_BLOCK, Write DB_HEAD_BLOCKS (V_Hashes [hash, old])] [] = (b, w)"
    and bs: "bs = w @ [b @ BatchWriteSapling E ha am nm @ [Erase DB_HEAD_BLOCKS, Write DB_BEST_BLOCK (V_Hash hash)]]"
    and old: "\<not> base_blob_IsNull (db_GetBestBlock db) \<longrightarrow> old = db_GetBestBlock db"
    using run unfolding db_BatchWrite_batches_def Let_def
    by (auto simp: bindE_eq_Inr split: if_splits prod.splits)
  let ?start = "[Erase DB_BEST_BLOCK, Write DB_HEAD_BLOCKS (V_Hashes [hash, old])] :: 'a batch_op list"
  obtain j where j: "concat (take k w) = ?start @ concat (map coin_op (take j m))"
    using db_coins_loop_prefix [OF loop, of k] k bs by auto
  have mid: "mid = foldl apply_op (foldl apply_op db ?start) (concat (map coin_op (take j m)))"
    using j k bs by (simp add: mid_def foldl_WriteBatch)
  let ?tail = "BatchWriteSapling E ha am nm @ [Erase DB_HEAD_BLOCKS, Write DB_BEST_BLOCK (V_Hash hash)]"
  have "concat bs = ?start @ concat (map coin_op m) @ ?tail"
    using db_coins_loop_ops [OF loop] unfolding bs
    by (simp only: concat_append concat.simps append_Nil2 append_Nil append_assoc [symmetric])
  then have new: "new = foldl apply_op (foldl apply_op (foldl apply_op db ?start) (concat (map coin_op m))) ?tail"
    unfolding new_def foldl_WriteBatch by (simp only: foldl_append)
  have "DB_COIN p \<notin> op_key ` set ?tail" for p
    by (auto simp: BatchWriteSapling_def split: if_splits)
  then have new_coin: "new (DB_COIN p) = foldl apply_op (foldl apply_op db ?start) (concat (map coin_op m)) (DB_COIN p)" for p
    unfolding new by (rule apply_other)
  have other: "mid q = foldl apply_op db ?start q" if "q \<notin> range DB_COIN" for q
    unfolding mid by (rule apply_keyed_other [where K = DB_COIN and g = coin_op, OF coin_op_key that])
  show ?thesis
  proof (intro exI [of _ old] conjI allI)
    show "mid (DB_COIN p) \<in> {db (DB_COIN p), new (DB_COIN p)}" for p
      using partial_coins [OF m, of "foldl apply_op db ?start" j p] unfolding mid new_coin by simp
  qed (use old in \<open>simp_all add: other image_iff\<close>)
qed

end
