(* ===== verification/CoinsSpec.thy ===== *)
theory CoinsSpec
  imports CoinsFlush
begin

text \<open>
  The contract of the coin caches: readers as a locale, sequences of operations against the abstract
  chain state, flushing, crash safety, and two ways in which the code does less than it means to.
\<close>

section \<open>Readers\<close>

text \<open>
  A reader of a cached view answers what the view holds and leaves a view that holds the same.  A scan
  that asks one question after the other, and stops at the first answer it does not like, therefore
  decides whether all the answers are liked.
\<close>

fun scan :: "('k \<Rightarrow> 's \<Rightarrow> 'r \<times> 's) \<Rightarrow> ('r \<Rightarrow> bool) \<Rightarrow> 'k list \<Rightarrow> 's \<Rightarrow> bool \<times> 's" where
  "scan ask good [] s = (True, s)"
| "scan ask good (k # ks) s = (case ask k s of (r, s) \<Rightarrow> if \<not> good r then (False, s) else scan ask good ks s)"

locale cached_reader =
  fixes ask :: "'k \<Rightarrow> 's \<Rightarrow> 'r \<times> 's" and inv :: "'s \<Rightarrow> bool" and same :: "'s \<Rightarrow> 's \<Rightarrow> bool"
    and good :: "'r \<Rightarrow> bool" and holds :: "'s \<Rightarrow> 'k \<Rightarrow> bool"
  assumes ask_ok: "inv s \<Longrightarrow> ask k s = (r, s') \<Longrightarrow> inv s' \<and> same s s' \<and> (good r \<longleftrightarrow> holds s k)"
    and same_refl: "inv s \<Longrightarrow> same s s"
    and same_trans: "same s s' \<Longrightarrow> same s' s'' \<Longrightarrow> same s s''"
    and same_holds: "same s s' \<Longrightarrow> holds s' = holds s"
begin

lemma scan_decides:
  "inv s \<Longrightarrow> scan ask good ks s = (r, s') \<Longrightarrow> inv s' \<and> same s s' \<and> (r \<longleftrightarrow> (\<forall>k \<in> set ks. holds s k))"
proof (induction ks arbitrary: s)
  case Nil
  then show ?case by (auto intro: same_refl)
next
  case (Cons k ks)
  obtain a t where a: "ask k s = (a, t)" by (cases "ask k s")
  note t = ask_ok [OF Cons.prems(1) a]
  show ?case
  proof (cases "good a")
    case True
    then have "scan ask good ks t = (r, s')" using Cons.prems(2) a by simp
    with Cons.IH [of t] t True show ?thesis using same_trans [of s t s'] same_holds [of s t] by auto
  next
    case False
    then show ?thesis using Cons.prems(2) a t by auto
  qed
qed

end

abbreviation (input) cache_inv :: "'t coins_env \<Rightarrow> 't CCoinsViewCache \<times> 't view \<Rightarrow> bool" where
  "cache_inv E s \<equiv> view_inv E (Cache (fst s) (snd s))"

interpretation coin_reader: cached_reader "\<lambda>p (c, b). CacheHaveCoin E c b p" "cache_inv E" "reads E"
  "\<lambda>h. h" "\<lambda>s p. utxo (Cache (fst s) (snd s)) p \<noteq> None" for E :: "'t coins_env"
proof unfold_locales
  fix s :: "'t CCoinsViewCache \<times> 't view" and k r s'
  assume inv: "cache_inv E s" and run: "(\<lambda>(c, b). CacheHaveCoin E c b k) s = (r, s')"
  obtain c b c' b' where s: "s = (c, b)" "s' = (c', b')" by (cases s, cases s')
  from HaveCoin_reads [of E c b k r c' b'] inv run s
  have "reads E (c, b) (c', b')" "r \<longleftrightarrow> utxo (Cache c b) k \<noteq> None" by (simp_all del: view_inv.simps utxo.simps)
  then show "cache_inv E s' \<and> reads E s s' \<and> (r \<longleftrightarrow> utxo (Cache (fst s) (snd s)) k \<noteq> None)"
    by (simp add: s reads_def del: view_inv.simps utxo.simps)
qed (auto simp: reads_def chain_of_eq_iff simp del: view_inv.simps utxo.simps nullifiers.simps anchors.simps
    best_block.simps best_anchor.simps)

text \<open>The question of \<open>HaveShieldedRequirements\<close> about one shielded spend.\<close>

definition spend_requirement ::
  "'t coins_env \<Rightarrow> SpendDescription \<Rightarrow> 't CCoinsViewCache \<times> 't view \<Rightarrow> bool \<times> 't CCoinsViewCache \<times> 't view" where
  "spend_requirement E d s =
     (case CacheGetNullifier (fst s) (snd s) (sp_nullifier d) of
        (spent, c, b) \<Rightarrow>
          if spent then (False, c, b)
          else case CacheGetSaplingAnchorAt E c b (sp_anchor d) of
                 (None, c, b) \<Rightarrow> (False, c, b)
               | (Some tree, c, b) \<Rightarrow> (True, c, b))"

interpretation spend_reader: cached_reader "spend_requirement E" "cache_inv E" "reads E" "\<lambda>h. h"
  "\<lambda>s d. \<not> nullifiers (Cache (fst s) (snd s)) (sp_nullifier d) \<and> anchors E (Cache (fst s) (snd s)) (sp_anchor d)"
  for E :: "'t coins_env"
proof unfold_locales
  fix s :: "'t CCoinsViewCache \<times> 't view" and d r s'
  assume inv: "cache_inv E s" and run: "spend_requirement E d s = (r, s')"
  obtain c b where s: "s = (c, b)" by (cases s)
  obtain n c1 b1 where n: "CacheGetNullifier c b (sp_nullifier d) = (n, c1, b1)"
    by (cases "CacheGetNullifier c b (sp_nullifier d)")
  have N: "reads E (c, b) (c1, b1)" "n = nullifiers (Cache c b) (sp_nullifier d)"
    using GetNullifier_reads(2) [OF _ n, of E] inv s by (simp_all del: view_inv.simps nullifiers.simps)
  obtain t c2 b2 where t: "CacheGetSaplingAnchorAt E c1 b1 (sp_anchor d) = (t, c2, b2)"
    by (cases "CacheGetSaplingAnchorAt E c1 b1 (sp_anchor d)")
  have T: "reads E (c1, b1) (c2, b2)" "anchors E (Cache c1 b1) (sp_anchor d) = (t \<noteq> None)"
    using GetSaplingAnchorAt_reads(2) [OF reads_inv [OF N(1)] t] by simp_all
  have A: "anchors E (Cache c1 b1) = anchors E (Cache c b)"
    using N(1) by (simp add: reads_def chain_of_eq_iff del: view_inv.simps utxo.simps nullifiers.simps anchors.simps
        best_block.simps best_anchor.simps)
  have "s' = (if n then (c1, b1) else (c2, b2))" "r = (\<not> n \<and> t \<noteq> None)"
    using run n t s by (cases n; cases t; simp add: spend_requirement_def
        del: CacheGetNullifier.simps CacheGetSaplingAnchorAt.simps)+
  then show "cache_inv E s' \<and> reads E s s' \<and> (r \<longleftrightarrow> \<not> nullifiers (Cache (fst s) (snd s)) (sp_nullifier d) \<and>
      anchors E (Cache (fst s) (snd s)) (sp_anchor d))"
    using N T A reads_trans [OF N(1) T(1)] reads_inv [of E _ "fst s'" "snd s'"]
    by (auto simp: s reads_def simp del: view_inv.simps nullifiers.simps anchors.simps)
qed (auto simp: reads_def chain_of_eq_iff simp del: view_inv.simps utxo.simps nullifiers.simps anchors.simps
    best_block.simps best_anchor.simps)

lemma HaveInputs_loop_scan:
  "HaveInputs_loop E c b ins = scan (\<lambda>p (c, b). CacheHaveCoin E c b p) (\<lambda>h. h) (map prevout ins) (c, b)"
  by (induction ins arbitrary: c b) (auto split: prod.splits)

lemma HaveShieldedRequirements_loop_scan:
  "HaveShieldedRequirements_loop E c b ds = scan (spend_requirement E) (\<lambda>h. h) ds (c, b)"
  by (induction ds arbitrary: c b)
    (auto simp: spend_requirement_def split: prod.splits option.splits
      simp del: CacheGetNullifier.simps CacheGetSaplingAnchorAt.simps)

section \<open>Sequences of operations\<close>

text \<open>\<open>GetBestBlock\<close> of the cache on top of a view.\<close>

definition CacheGetBestBlock :: "'t CCoinsViewCache \<Rightarrow> 't view \<Rightarrow> bytes \<times> 't CCoinsViewCache \<times> 't view" where
  "CacheGetBestBlock c b = (case GetBestBlock (Cache c b) of (h, Cache c b) \<Rightarrow> (h, c, b) | (h, v) \<Rightarrow> (h, c, b))"

datatype 't coins_op =
    OpGetCoin COutPoint
  | OpAccessCoin COutPoint
  | OpHaveCoin COutPoint
  | OpAddCoin COutPoint Coin bool
  | OpSpendCoin COutPoint
  | OpUncache COutPoint
  | OpGetBestBlock
  | OpSetBestBlock bytes
  | OpSetNullifiers CTransaction bool
  | OpGetNullifier bytes
  | OpGetBestAnchor
  | OpGetSaplingAnchorAt bytes
  | OpPushAnchor 't
  | OpPopAnchor bytes

text \<open>
  What an operation answers, as the code hands it out: a coin found (or not), the coin
  \<open>AccessCoin\<close> refers to, the coin \<open>SpendCoin\<close> moves out, a truth value, a hash, a commitment tree.
\<close>

datatype 't coins_answer =
    NoAnswer
  | Found "Coin option"
  | Truth bool
  | Hash bytes
  | Tree "'t option"

text \<open>One operation on the cache on top of the stack, with its answer.\<close>

fun coins_step :: "'t coins_env \<Rightarrow> 't coins_op \<Rightarrow> 't CCoinsViewCache \<times> 't view
    \<Rightarrow> ('t coins_answer \<times> 't CCoinsViewCache \<times> 't view) res" where
  "coins_step E (OpGetCoin p) (c, b) =
     (case FetchCoin E c b p of (it, s) \<Rightarrow> Inr (Found (map_option ce_coin it), s))"
| "coins_step E (OpAccessCoin p) (c, b) = (case AccessCoin E c b p of (coin, s) \<Rightarrow> Inr (Found (Some coin), s))"
| "coins_step E (OpHaveCoin p) (c, b) = (case CacheHaveCoin E c b p of (h, s) \<Rightarrow> Inr (Truth h, s))"
| "coins_step E (OpAddCoin p coin ov) (c, b) =
     (case AddCoin E c p coin ov of (None, c) \<Rightarrow> Inr (NoAnswer, c, b) | (Some e, c) \<Rightarrow> Inl e)"
| "coins_step E (OpSpendCoin p) (c, b) = (case SpendCoin E c b p of (moveout, s) \<Rightarrow> Inr (Found moveout, s))"
| "coins_step E (OpUncache p) (c, b) = Inr (NoAnswer, Uncache E c p, b)"
| "coins_step E OpGetBestBlock (c, b) = (case CacheGetBestBlock c b of (h, s) \<Rightarrow> Inr (Hash h, s))"
| "coins_step E (OpSetBestBlock h) (c, b) = Inr (NoAnswer, SetBestBlock c h, b)"
| "coins_step E (OpSetNullifiers tx spent) (c, b) = Inr (NoAnswer, SetNullifiers c tx spent, b)"
| "coins_step E (OpGetNullifier n) (c, b) = (case CacheGetNullifier c b n of (h, s) \<Rightarrow> Inr (Truth h, s))"
| "coins_step E OpGetBestAnchor (c, b) = (case CacheGetBestAnchor E c b of (h, s) \<Rightarrow> Inr (Hash h, s))"
| "coins_step E (OpGetSaplingAnchorAt rt) (c, b) =
     (case CacheGetSaplingAnchorAt E c b rt of (tree, s) \<Rightarrow> Inr (Tree tree, s))"
| "coins_step E (OpPushAnchor t) (c, b) = Inr (NoAnswer, PushAnchor E c b t)"
| "coins_step E (OpPopAnchor rt) (c, b) = bindE (PopAnchor E c b rt) (\<lambda>s. Inr (NoAnswer, s))"

text \<open>
  How an answer is understood: a cleared coin, which \<open>GetCoin\<close>, \<open>AccessCoin\<close> and \<open>SpendCoin\<close> hand
  out for an output that is spent, says that there is no coin, and a commitment tree is known by its root.
\<close>

datatype seen_answer = SeenNothing | SeenCoin "Coin option" | SeenTruth bool | SeenHash bytes | SeenRoot "bytes option"

fun seen :: "'t coins_env \<Rightarrow> 't coins_answer \<Rightarrow> seen_answer" where
  "seen E NoAnswer = SeenNothing"
| "seen E (Found r) = SeenCoin (Option.bind r live)"
| "seen E (Truth h) = SeenTruth h"
| "seen E (Hash h) = SeenHash h"
| "seen E (Tree t) = SeenRoot (map_option (env_root E) t)"

text \<open>The same on the chain state, and when a caller may ask for it.\<close>

fun chain_step :: "'t coins_env \<Rightarrow> 't coins_op \<Rightarrow> chainstate \<Rightarrow> chainstate" where
  "chain_step E (OpAddCoin p coin ov) st = with_coin st p coin"
| "chain_step E (OpSpendCoin p) st = st\<lparr>cs_utxo := (cs_utxo st)(p := None)\<rparr>"
| "chain_step E (OpSetBestBlock h) st = st\<lparr>cs_block := h\<rparr>"
| "chain_step E (OpSetNullifiers tx spent) st = nullifiers_set st tx spent"
| "chain_step E (OpPushAnchor t) st =
     (if cs_anchor st = env_root E t then st
      else st\<lparr>cs_anchors := (cs_anchors st)(env_root E t := True), cs_anchor := env_root E t\<rparr>)"
| "chain_step E (OpPopAnchor rt) st =
     (if cs_anchor st = rt then st
      else st\<lparr>cs_anchors := (cs_anchors st)(cs_anchor st := False), cs_anchor := rt\<rparr>)"
| "chain_step E op st = st"

fun chain_answer :: "'t coins_env \<Rightarrow> 't coins_op \<Rightarrow> chainstate \<Rightarrow> seen_answer" where
  "chain_answer E (OpGetCoin p) st = SeenCoin (cs_utxo st p)"
| "chain_answer E (OpAccessCoin p) st = SeenCoin (cs_utxo st p)"
| "chain_answer E (OpHaveCoin p) st = SeenTruth (cs_utxo st p \<noteq> None)"
| "chain_answer E (OpSpendCoin p) st = SeenCoin (cs_utxo st p)"
| "chain_answer E OpGetBestBlock st = SeenHash (cs_block st)"
| "chain_answer E (OpGetNullifier n) st = SeenTruth (cs_nullifiers st n)"
| "chain_answer E OpGetBestAnchor st = SeenHash (cs_anchor st)"
| "chain_answer E (OpGetSaplingAnchorAt rt) st = SeenRoot (if cs_anchors st rt then Some rt else None)"
| "chain_answer E op st = SeenNothing"

fun allowed :: "'t coins_env \<Rightarrow> 't coins_op \<Rightarrow> chainstate \<Rightarrow> bool" where
  "allowed E (OpAddCoin p coin ov) st \<longleftrightarrow>
     \<not> Coin_IsSpent coin \<and> coin_ok coin \<and> (ov \<or> cs_utxo st p = None)"
| "allowed E (OpSetBestBlock h) st \<longleftrightarrow> \<not> base_blob_IsNull h"
| "allowed E (OpPushAnchor t) st \<longleftrightarrow> \<not> base_blob_IsNull (env_root E t)"
| "allowed E (OpPopAnchor rt) st \<longleftrightarrow>
     \<not> base_blob_IsNull rt \<and> cs_anchor st \<noteq> env_empty_root E \<and> cs_anchors st (cs_anchor st)"
| "allowed E op st \<longleftrightarrow> True"

fun coins_run :: "'t coins_env \<Rightarrow> 't coins_op list \<Rightarrow> 't CCoinsViewCache \<times> 't view
    \<Rightarrow> ('t coins_answer list \<times> 't CCoinsViewCache \<times> 't view) res" where
  "coins_run E [] s = Inr ([], s)"
| "coins_run E (op # ops) s =
     bindE (coins_step E op s) (\<lambda>(a, s). bindE (coins_run E ops s) (\<lambda>(as, s). Inr (a # as, s)))"

fun chain_run :: "'t coins_env \<Rightarrow> 't coins_op list \<Rightarrow> chainstate \<Rightarrow> seen_answer list \<times> chainstate" where
  "chain_run E [] st = ([], st)"
| "chain_run E (op # ops) st =
     (case chain_run E ops (chain_step E op st) of (as, st') \<Rightarrow> (chain_answer E op st # as, st'))"

fun all_allowed :: "'t coins_env \<Rightarrow> 't coins_op list \<Rightarrow> chainstate \<Rightarrow> bool" where
  "all_allowed E [] st = True"
| "all_allowed E (op # ops) st = (allowed E op st \<and> all_allowed E ops (chain_step E op st))"

lemma chain_of_sel [simp]:
  "cs_utxo (chain_of E v) = utxo v" "cs_nullifiers (chain_of E v) = nullifiers v"
  "cs_anchors (chain_of E v) = anchors E v" "cs_block (chain_of E v) = best_block v"
  "cs_anchor (chain_of E v) = best_anchor E v"
  by (simp_all add: chain_of_def)

lemmas folded_views = view_inv.simps utxo.simps nullifiers.simps anchors.simps best_block.simps best_anchor.simps

lemma CacheGetBestBlock_reads:
  assumes "view_inv E (Cache c b)" "CacheGetBestBlock c b = (h, c', b')"
  shows "reads E (c, b) (c', b')" "h = best_block (Cache c b)"
proof -
  obtain k w where g: "GetBestBlock b = (k, w)" by (cases "GetBestBlock b")
  have w: "view_inv E w" "chain_of E w = chain_of E b" "k = best_block b"
    using GetBestBlock_reads [OF _ g] assms(1) by auto
  show "reads E (c, b) (c', b')"
    using cache_cong [OF w(2,1) assms(1)] assms g w
    by (auto simp: CacheGetBestBlock_def reads_def chain_of_eq_iff split: if_splits)
  show "h = best_block (Cache c b)"
    using assms(2) g w by (auto simp: CacheGetBestBlock_def split: if_splits)
qed

text \<open>A step that answers as \<open>chain_answer\<close> says and writes what \<open>chain_step\<close> says.\<close>

definition steps_to ::
  "'t coins_env \<Rightarrow> 't coins_op \<Rightarrow> 't CCoinsViewCache \<times> 't view \<Rightarrow> 't coins_answer \<Rightarrow> 't CCoinsViewCache \<times> 't view \<Rightarrow> bool" where
  "steps_to E op s a s' \<longleftrightarrow> seen E a = chain_answer E op (chain_of E (Cache (fst s) (snd s))) \<and>
     writes E s s' (chain_step E op (chain_of E (Cache (fst s) (snd s))))"

lemma steps_to_reads:
  assumes "reads E (c, b) (fst s, snd s)" "chain_step E op (chain_of E (Cache c b)) = chain_of E (Cache c b)"
    "seen E a = chain_answer E op (chain_of E (Cache c b))"
  shows "steps_to E op (c, b) a s"
  using assms by (simp add: steps_to_def reads_writes del: folded_views)

lemma coins_step_reads:
  assumes inv: "view_inv E (Cache c b)"
  shows "FetchCoin E c b p = (it, s) \<Longrightarrow> steps_to E (OpGetCoin p) (c, b) (Found (map_option ce_coin it)) s"
    and "AccessCoin E c b p = (coin, s) \<Longrightarrow> steps_to E (OpAccessCoin p) (c, b) (Found (Some coin)) s"
    and "CacheHaveCoin E c b p = (h, s) \<Longrightarrow> steps_to E (OpHaveCoin p) (c, b) (Truth h) s"
    and "CacheGetBestBlock c b = (hash, s) \<Longrightarrow> steps_to E OpGetBestBlock (c, b) (Hash hash) s"
    and "CacheGetNullifier c b n = (h, s) \<Longrightarrow> steps_to E (OpGetNullifier n) (c, b) (Truth h) s"
    and "CacheGetBestAnchor E c b = (hash, s) \<Longrightarrow> steps_to E OpGetBestAnchor (c, b) (Hash hash) s"
    and "CacheGetSaplingAnchorAt E c b rt = (tree, s) \<Longrightarrow> steps_to E (OpGetSaplingAnchorAt rt) (c, b) (Tree tree) s"
proof -
  show "steps_to E (OpGetCoin p) (c, b) (Found (map_option ce_coin it)) s" if "FetchCoin E c b p = (it, s)"
    using GetCoin_FetchCoin(2) [OF inv, of p it "fst s" "snd s"] that
    by (intro steps_to_reads) (auto simp del: folded_views FetchCoin.simps intro: option.exhaust [of it])
  show "steps_to E (OpAccessCoin p) (c, b) (Found (Some coin)) s" if "AccessCoin E c b p = (coin, s)"
    using AccessCoin_reads [OF inv, of p coin "fst s" "snd s"] that
    by (intro steps_to_reads) (simp_all del: folded_views)
  show "steps_to E (OpHaveCoin p) (c, b) (Truth h) s" if "CacheHaveCoin E c b p = (h, s)"
    using HaveCoin_reads [OF inv, of p h "fst s" "snd s"] that
    by (intro steps_to_reads) (simp_all del: folded_views)
  show "steps_to E OpGetBestBlock (c, b) (Hash hash) s" if "CacheGetBestBlock c b = (hash, s)"
    using CacheGetBestBlock_reads [OF inv, of hash "fst s" "snd s"] that
    by (intro steps_to_reads) (simp_all del: folded_views)
  show "steps_to E (OpGetNullifier n) (c, b) (Truth h) s" if "CacheGetNullifier c b n = (h, s)"
    using GetNullifier_reads(2) [OF inv, of n h "fst s" "snd s"] that
    by (intro steps_to_reads) (simp_all del: folded_views CacheGetNullifier.simps)
  show "steps_to E OpGetBestAnchor (c, b) (Hash hash) s" if "CacheGetBestAnchor E c b = (hash, s)"
    using GetBestAnchor_reads(2) [OF inv, of hash "fst s" "snd s"] that
    by (intro steps_to_reads) (simp_all del: folded_views CacheGetBestAnchor.simps)
  show "steps_to E (OpGetSaplingAnchorAt rt) (c, b) (Tree tree) s" if "CacheGetSaplingAnchorAt E c b rt = (tree, s)"
    using GetSaplingAnchorAt_reads(2) [OF inv, of rt tree "fst s" "snd s"] that
    by (intro steps_to_reads; cases tree) (simp_all del: folded_views CacheGetSaplingAnchorAt.simps)
qed

lemma coins_step_refines:
  assumes inv: "view_inv E (Cache c b)" and allow: "allowed E op (chain_of E (Cache c b))"
  shows "\<exists>a s. coins_step E op (c, b) = Inr (a, s) \<and> steps_to E op (c, b) a s"
proof (cases op)
  case (OpGetCoin p)
  then show ?thesis using coins_step_reads(1) [OF inv] by (auto split: prod.split)
next
  case (OpAccessCoin p)
  then show ?thesis using coins_step_reads(2) [OF inv] by (auto split: prod.split)
next
  case (OpHaveCoin p)
  then show ?thesis using coins_step_reads(3) [OF inv] by (auto split: prod.split)
next
  case OpGetBestBlock
  then show ?thesis using coins_step_reads(4) [OF inv] by (auto split: prod.split)
next
  case (OpGetNullifier n)
  then show ?thesis using coins_step_reads(5) [OF inv] by (auto split: prod.split)
next
  case OpGetBestAnchor
  then show ?thesis using coins_step_reads(6) [OF inv] by (auto split: prod.split)
next
  case (OpGetSaplingAnchorAt rt)
  then show ?thesis using coins_step_reads(7) [OF inv] by (auto split: prod.split)
next
  case (OpAddCoin p coin ov)
  then show ?thesis using AddCoin_writes [OF inv, of coin ov p] allow by (auto simp: steps_to_def simp del: folded_views)
next
  case (OpSpendCoin p)
  obtain r c1 b1 where run: "SpendCoin E c b p = (r, c1, b1)" by (cases "SpendCoin E c b p")
  from SpendCoin_writes [OF inv run] show ?thesis
    unfolding OpSpendCoin steps_to_def by (simp add: run del: folded_views)
next
  case (OpUncache p)
  then show ?thesis using Uncache_writes [OF inv] by (simp add: steps_to_def del: folded_views)
next
  case (OpSetBestBlock h)
  then show ?thesis using SetBestBlock_writes [OF inv] allow by (simp add: steps_to_def del: folded_views)
next
  case (OpSetNullifiers tx spent)
  then show ?thesis using SetNullifiers_writes [OF inv] by (simp add: steps_to_def del: folded_views)
next
  case (OpPushAnchor t)
  obtain c1 b1 where run: "PushAnchor E c b t = (c1, b1)" by (cases "PushAnchor E c b t")
  have "\<not> base_blob_IsNull (env_root E t)" using allow OpPushAnchor by simp
  from PushAnchor_writes [OF inv this run] show ?thesis
    unfolding OpPushAnchor steps_to_def chain_step.simps coins_step.simps chain_of_sel fst_conv snd_conv run
    by (metis chain_answer.simps(13) seen.simps(1))
next
  case (OpPopAnchor rt)
  then have "\<not> base_blob_IsNull rt" "best_anchor E (Cache c b) \<noteq> env_empty_root E"
      "anchors E (Cache c b) (best_anchor E (Cache c b))"
    using allow by (simp_all del: folded_views)
  from PopAnchor_writes [OF inv this] show ?thesis
    unfolding OpPopAnchor steps_to_def by (auto simp del: folded_views)
qed

text \<open>The two questions about a transaction's inputs only read.\<close>

lemma HaveInputs_decides:
  assumes "view_inv E (Cache c b)" "HaveInputs E c b tx = (h, c1, b1)"
  shows "reads E (c, b) (c1, b1) \<and> (h \<longleftrightarrow> IsCoinBase tx \<or> HasZerocoinSpendInputs tx \<or>
    (\<forall>i \<in> set (vin tx). utxo (Cache c b) (prevout i) \<noteq> None))"
  using coin_reader.scan_decides [of E "(c, b)" "map prevout (vin tx)"] assms reads_refl [OF assms(1)]
  by (auto simp: HaveInputs_def HaveInputs_loop_scan simp del: folded_views split: if_splits)

lemma HaveShieldedRequirements_decides:
  assumes "view_inv E (Cache c b)" "HaveShieldedRequirements E c b tx = (q, c1, b1)"
  shows "reads E (c, b) (c1, b1) \<and> (q \<longleftrightarrow> (IsShieldedTx tx \<longrightarrow> (\<forall>d \<in> set_option (sapData tx). \<forall>x \<in> set (vShieldedSpend d).
    \<not> nullifiers (Cache c b) (sp_nullifier x) \<and> anchors E (Cache c b) (sp_anchor x))))"
  using spend_reader.scan_decides [of E "(c, b)"] assms reads_refl [OF assms(1)]
  by (fastforce simp: HaveShieldedRequirements_def HaveShieldedRequirements_loop_scan simp del: folded_views
      split: if_splits option.splits)

section \<open>Properties\<close>

text \<open>
  Property C2.  A stack of caches behaves like one map of unspent outputs: any sequence of
  operations on its top cache that a caller may ask for runs without an exception, gives the answers
  that the same operations on plain maps give (a cleared coin counting as none), ends in a stack
  that keeps the invariant of the flags, and changes the chain state the stack stands for as the
  operations on plain maps do; the view below goes on standing for what it stood for.
\<close>

theorem coins_run_refines:
  assumes "view_inv E (Cache c b)" "all_allowed E ops (chain_of E (Cache c b))"
  shows "\<exists>as c' b'. coins_run E ops (c, b) = Inr (as, c', b') \<and> view_inv E (Cache c' b') \<and>
    chain_run E ops (chain_of E (Cache c b)) = (map (seen E) as, chain_of E (Cache c' b')) \<and>
    chain_of E b' = chain_of E b"
  using assms
proof (induction ops arbitrary: c b)
  case Nil
  then show ?case by simp
next
  case (Cons op ops)
  obtain a c1 b1 where step: "coins_step E op (c, b) = Inr (a, c1, b1)" "steps_to E op (c, b) a (c1, b1)"
    using coins_step_refines [OF Cons.prems(1), of op] Cons.prems(2) by auto
  then have s: "view_inv E (Cache c1 b1)" "chain_of E (Cache c1 b1) = chain_step E op (chain_of E (Cache c b))"
      "chain_of E b1 = chain_of E b" "seen E a = chain_answer E op (chain_of E (Cache c b))"
    by (simp_all add: steps_to_def writes_def)
  have "all_allowed E ops (chain_of E (Cache c1 b1))" using Cons.prems(2) s(2) by simp
  from Cons.IH [OF s(1) this] step(1) s show ?case by (auto simp del: folded_views)
qed

text \<open>
  Property C7.  \<open>Flush\<close> of a cache that has set or read its best block and its best Sapling anchor,
  so that neither hash it keeps is null, pushes exactly the chain state of the cache into the view
  below and empties the cache, which goes on standing for the same chain state.  The view below is
  another cache or the database; a database that an interrupted flush left without a best block must
  have recorded the block of this flush as its new head (\<open>base_ready\<close>).  The exception for a
  misapplied \<open>FRESH\<close> flag is never thrown.  For a cache whose anchor is null the claim is false: see
  \<open>Flush_forgets_anchor\<close>.
\<close>

theorem Flush_correct:
  assumes "view_inv E (Cache c b)" "\<not> base_blob_IsNull (hashBlock c)"
    "\<not> base_blob_IsNull (hashSaplingAnchor c)" "base_ready b (hashBlock c)"
  shows "\<exists>c' b'. Flush E c b = Inr (True, c', b') \<and> view_inv E (Cache c' b') \<and>
    chain_of E b' = chain_of E (Cache c b) \<and> chain_of E (Cache c' b') = chain_of E (Cache c b) \<and> cacheCoins c' = []"
  by (rule Flush_writes [OF assms])

text \<open>
  Property C8.  A crash between two batches of a flush leaves a database that says so: no best block,
  the new and the old tip as head blocks, every coin either as before or as after the flush, and
  nothing of the shielded state written yet.
\<close>

theorem Flush_crash_safe:
  assumes "db_BatchWrite_batches E db m hash ha am nm = Inr bs" "0 < k" "k < length bs" "distinct (map fst m)"
    and "\<not> base_blob_IsNull (db_GetBestBlock db)"
  shows "db_GetBestBlock (foldl WriteBatch db (take k bs)) = base_blob_new 32 \<and>
    db_GetHeadBlocks (foldl WriteBatch db (take k bs)) = [hash, db_GetBestBlock db] \<and>
    (\<forall>p. db_GetCoin (foldl WriteBatch db (take k bs)) p \<in> {db_GetCoin db p, db_GetCoin (foldl WriteBatch db bs) p}) \<and>
    (\<forall>n. db_GetNullifier (foldl WriteBatch db (take k bs)) n = db_GetNullifier db n) \<and>
    (\<forall>rt. db_GetSaplingAnchorAt E (foldl WriteBatch db (take k bs)) rt = db_GetSaplingAnchorAt E db rt)"
  using flush_interrupted [OF assms(1-4)] assms(5)
  by (auto simp: db_GetBestBlock_def db_GetHeadBlocks_def db_GetNullifier_def db_GetSaplingAnchorAt_def)
    (metis db_GetCoin_def)

text \<open>
  Property.  \<open>HaveInputs\<close> and \<open>HaveShieldedRequirements\<close>, which fill the caches as they go, return
  whether every input is unspent, and whether no nullifier is spent and every anchor known; the
  chain state does not change.
\<close>

theorem transaction_requirements:
  assumes "view_inv E (Cache c b)" "HaveInputs E c b tx = (h, c1, b1)"
    and "HaveShieldedRequirements E c1 b1 tx = (q, c2, b2)"
  shows "(h \<longleftrightarrow> IsCoinBase tx \<or> HasZerocoinSpendInputs tx \<or>
        (\<forall>i \<in> set (vin tx). utxo (Cache c b) (prevout i) \<noteq> None)) \<and>
    (q \<longleftrightarrow> (IsShieldedTx tx \<longrightarrow> (\<forall>d \<in> set_option (sapData tx). \<forall>x \<in> set (vShieldedSpend d).
        \<not> nullifiers (Cache c b) (sp_nullifier x) \<and> anchors E (Cache c b) (sp_anchor x)))) \<and>
    view_inv E (Cache c2 b2) \<and> chain_of E (Cache c2 b2) = chain_of E (Cache c b)"
proof -
  note 1 = HaveInputs_decides [OF assms(1,2)]
  note 2 = HaveShieldedRequirements_decides [OF reads_inv [OF conjunct1 [OF 1]] assms(3)]
  have "nullifiers (Cache c1 b1) = nullifiers (Cache c b)" "anchors E (Cache c1 b1) = anchors E (Cache c b)"
    using 1 chain_of_eqD(2,3) [of E "Cache c1 b1" "Cache c b"] by (simp_all add: reads_def del: folded_views)
  then show ?thesis using 1 2 by (simp add: reads_def del: folded_views)
qed

text \<open>
  Property.  \<open>AddCoin\<close> refuses, with an exception, to replace an unspent cached coin unless told that it
  may; but it has by then already taken the old coin off the memory count, so a caller that catches
  the exception is left with a count that misses a coin the cache still holds.
\<close>

theorem AddCoin_refuses:
  assumes "map_of (cacheCoins c) p = Some e" "\<not> Coin_IsSpent (ce_coin e)" "\<not> Coin_IsSpent coin" "kept coin"
  shows "\<exists>c'. AddCoin E c p coin False =
      (Some (LogicError ''Adding new coin that replaces non-pruned entry''), c') \<and>
    map_of (cacheCoins c') = map_of (cacheCoins c) \<and>
    cachedCoinsUsage c' = cachedCoinsUsage c - of_nat (env_usage E (ce_coin e))"
  using assms by (auto simp: AddCoin_def kept_def Let_def map_simps fun_upd_same)

text \<open>
  Property C33.  A cache that never looked at the best anchor flushes a null anchor into the cache
  below, which overwrites the anchor that cache had: from then on it answers with the anchor of the
  view below it, although the flushed cache had changed nothing of the kind.
\<close>

theorem Flush_forgets_anchor:
  assumes "Flush E c (Cache d g) = Inr (True, c', b')" "base_blob_IsNull (hashSaplingAnchor c)"
  shows "best_anchor E b' = best_anchor E g"
  using assms by (auto simp: Flush_def bindE_eq_Inr Let_def case_prod_beta)

section \<open>Witnesses\<close>

text \<open>An environment in which a commitment tree is one byte, the first of its root.\<close>

definition sample_env :: "u8 coins_env" where
  "sample_env =
     \<lparr>env_usage = (\<lambda>coin. length (scriptPubKey (coin_out coin))), env_tree_usage = (\<lambda>_. 1),
      env_root = (\<lambda>t. t # replicate 31 1), env_empty_tree = 0, env_empty_root = 0 # replicate 31 1,
      env_op_size = (\<lambda>_. 1), env_batch_size = 1, env_invalid = []\<rparr>"

definition sample_coin :: Coin where
  "sample_coin = Coin_of (CTxOut_new 5 [0x51]) 7 False False"

definition sample_out :: COutPoint where
  "sample_out = \<lparr>op_hash = replicate 32 2, op_n = 0\<rparr>"

definition sample_hash :: bytes where
  "sample_hash = replicate 32 3"

lemma sample_inv: "view_inv sample_env (Cache CCoinsViewCache_new (DB Map.empty))"
  by (auto simp: CCoinsViewCache_new_def coins_inv_def anchors_inv_def nullifiers_inv_def db_inv_def
      db_GetSaplingAnchorAt_def sample_env_def split: if_splits)

lemma sample_coin_facts: "\<not> Coin_IsSpent sample_coin" "coin_ok sample_coin" "kept sample_coin"
  by (simp_all add: sample_coin_def Coin_of_def Coin_IsSpent_def CTxOut_IsNull_def CTxOut_new_def coin_ok_def
      kept_def IsUnspendable_def MAX_SCRIPT_SIZE_def CTxOut_IsZerocoinMint_def IsZerocoinMint_def StartsWithOpcode_def)

lemma blob_replicate: "base_blob_IsNull (replicate n x) \<longleftrightarrow> n = 0 \<or> x = 0"
  by (cases n) (auto simp: base_blob_IsNull_def list_all_iff)

lemma sample_root: "\<not> base_blob_IsNull (env_root sample_env t)" "\<not> base_blob_IsNull sample_hash"
proof -
  have "\<not> list_all (\<lambda>b. b = 0) (replicate 31 (1 :: u8))"
    using blob_replicate [of 31 "1 :: u8"] by (simp add: base_blob_IsNull_def)
  then show "\<not> base_blob_IsNull (env_root sample_env t)" by (simp add: sample_env_def base_blob_IsNull_def)
  show "\<not> base_blob_IsNull sample_hash" by (simp add: sample_hash_def blob_replicate)
qed

definition sample_ops :: "u8 coins_op list" where
  "sample_ops = [OpAddCoin sample_out sample_coin False, OpGetCoin sample_out, OpPushAnchor 9,
     OpSetBestBlock sample_hash, OpSpendCoin sample_out, OpHaveCoin sample_out]"

lemma sample_chain_run:
  "fst (chain_run sample_env sample_ops st) =
     [SeenNothing, SeenCoin (Some sample_coin), SeenNothing, SeenNothing, SeenCoin (Some sample_coin), SeenTruth False]"
  "cs_utxo (snd (chain_run sample_env sample_ops st)) sample_out = None"
  "cs_block (snd (chain_run sample_env sample_ops st)) = sample_hash"
  by (cases "cs_anchor st = env_root sample_env 9"; simp add: sample_ops_def with_coin_def sample_coin_facts)+

theorem coins_run_refines_witness:
  "\<exists>as c' b'. coins_run sample_env sample_ops (CCoinsViewCache_new, DB Map.empty) = Inr (as, c', b') \<and>
    view_inv sample_env (Cache c' b') \<and>
    map (seen sample_env) as = [SeenNothing, SeenCoin (Some sample_coin), SeenNothing, SeenNothing,
      SeenCoin (Some sample_coin), SeenTruth False] \<and>
    utxo (Cache c' b') sample_out = None \<and> best_block (Cache c' b') = sample_hash \<and>
    chain_of sample_env b' = chain_of sample_env (DB Map.empty)"
proof -
  let ?st = "chain_of sample_env (Cache CCoinsViewCache_new (DB Map.empty))"
  have "all_allowed sample_env sample_ops ?st"
    by (simp add: sample_ops_def sample_coin_facts sample_root CCoinsViewCache_new_def through_simps db_GetCoin_def)
  from coins_run_refines [OF sample_inv this] obtain as c' b' where
    r: "coins_run sample_env sample_ops (CCoinsViewCache_new, DB Map.empty) = Inr (as, c', b')"
      "view_inv sample_env (Cache c' b')" "chain_of sample_env b' = chain_of sample_env (DB Map.empty)"
      "chain_run sample_env sample_ops ?st = (map (seen sample_env) as, chain_of sample_env (Cache c' b'))" by blast
  from sample_chain_run [of ?st] r show ?thesis
    by (intro exI [of _ as] exI [of _ c'] exI [of _ b']) (simp add: r(4) del: folded_views)
qed

theorem Flush_correct_witness:
  "\<exists>c' b'. Flush sample_env (CCoinsViewCache_new\<lparr>hashBlock := sample_hash, hashSaplingAnchor := sample_hash\<rparr>)
      (Cache CCoinsViewCache_new (DB Map.empty)) = Inr (True, c', b') \<and> view_inv sample_env (Cache c' b') \<and>
    chain_of sample_env b' = chain_of sample_env (Cache (CCoinsViewCache_new\<lparr>hashBlock := sample_hash,
      hashSaplingAnchor := sample_hash\<rparr>) (Cache CCoinsViewCache_new (DB Map.empty))) \<and>
    chain_of sample_env (Cache c' b') = chain_of sample_env (Cache (CCoinsViewCache_new\<lparr>hashBlock := sample_hash,
      hashSaplingAnchor := sample_hash\<rparr>) (Cache CCoinsViewCache_new (DB Map.empty))) \<and> cacheCoins c' = []"
proof (rule Flush_correct)
  show "view_inv sample_env (Cache (CCoinsViewCache_new\<lparr>hashBlock := sample_hash, hashSaplingAnchor := sample_hash\<rparr>)
      (Cache CCoinsViewCache_new (DB Map.empty)))"
    using sample_inv by (simp add: CCoinsViewCache_new_def coins_inv_def anchors_inv_def nullifiers_inv_def)
qed (simp_all add: sample_root)

definition sample_dirty :: CCoinsMap where
  "sample_dirty = [(sample_out, \<lparr>ce_coin = sample_coin, ce_DIRTY = True, ce_FRESH = True\<rparr>)]"

theorem Flush_crash_safe_witness:
  "\<exists>bs. db_BatchWrite_batches sample_env [DB_BEST_BLOCK \<mapsto> V_Hash (replicate 32 4)] sample_dirty sample_hash
      sample_hash [] [] = Inr bs \<and> length bs = 2 \<and>
    db_GetBestBlock (foldl WriteBatch [DB_BEST_BLOCK \<mapsto> V_Hash (replicate 32 4)] (take 1 bs)) = base_blob_new 32 \<and>
    db_GetHeadBlocks (foldl WriteBatch [DB_BEST_BLOCK \<mapsto> V_Hash (replicate 32 4)] (take 1 bs)) =
      [sample_hash, replicate 32 4]"
proof -
  let ?db = "[DB_BEST_BLOCK \<mapsto> V_Hash (replicate 32 4)] :: u8 db"
  obtain bs where bs: "db_BatchWrite_batches sample_env ?db sample_dirty sample_hash sample_hash [] [] = Inr bs"
      and len: "length bs = 2"
    by (simp add: db_BatchWrite_batches_def sample_root sample_dirty_def db_GetBestBlock_def blob_replicate
        SizeEstimate_def sample_coin_facts) (simp add: sample_env_def)
  have "0 < (1 :: nat)" "1 < length bs" "distinct (map fst sample_dirty)" "\<not> base_blob_IsNull (db_GetBestBlock ?db)"
    by (simp_all add: len sample_dirty_def db_GetBestBlock_def blob_replicate)
  from Flush_crash_safe [OF bs this] bs len show ?thesis
    by (intro exI [of _ bs]) (simp add: db_GetBestBlock_def)
qed

theorem transaction_requirements_witness:
  "\<exists>h c1 b1 q c2 b2. HaveInputs sample_env CCoinsViewCache_new (DB Map.empty) CMutableTransaction_new = (h, c1, b1) \<and>
    HaveShieldedRequirements sample_env c1 b1 CMutableTransaction_new = (q, c2, b2) \<and> h \<and> q \<and>
    view_inv sample_env (Cache c2 b2)"
proof -
  obtain h c1 b1 where 1: "HaveInputs sample_env CCoinsViewCache_new (DB Map.empty) CMutableTransaction_new = (h, c1, b1)"
    by (cases "HaveInputs sample_env CCoinsViewCache_new (DB Map.empty) CMutableTransaction_new")
  obtain q c2 b2 where 2: "HaveShieldedRequirements sample_env c1 b1 CMutableTransaction_new = (q, c2, b2)"
    by (cases "HaveShieldedRequirements sample_env c1 b1 CMutableTransaction_new")
  from transaction_requirements [OF sample_inv 1 2] 1 2 show ?thesis
    by (intro exI conjI) (auto simp: CMutableTransaction_new_def SaplingTxData_new_def simp del: folded_views)
qed

theorem AddCoin_refuses_witness:
  "\<exists>c'. AddCoin sample_env (CCoinsViewCache_new\<lparr>cacheCoins := sample_dirty\<rparr>) sample_out sample_coin False =
      (Some (LogicError ''Adding new coin that replaces non-pruned entry''), c') \<and>
    map_of (cacheCoins c') = map_of sample_dirty \<and> cachedCoinsUsage c' = - 1"
  using AddCoin_refuses [of "CCoinsViewCache_new\<lparr>cacheCoins := sample_dirty\<rparr>" sample_out
      "\<lparr>ce_coin = sample_coin, ce_DIRTY = True, ce_FRESH = True\<rparr>" sample_coin sample_env] sample_coin_facts
  by (simp add: sample_dirty_def CCoinsViewCache_new_def sample_env_def)
    (simp add: sample_coin_def Coin_of_def CTxOut_new_def)

theorem Flush_forgets_anchor_witness:
  "\<exists>c' b'. Flush sample_env (CCoinsViewCache_new\<lparr>hashBlock := sample_hash\<rparr>)
      (Cache (CCoinsViewCache_new\<lparr>hashSaplingAnchor := sample_hash\<rparr>) (DB Map.empty)) = Inr (True, c', b') \<and>
    best_anchor sample_env (Cache (CCoinsViewCache_new\<lparr>hashSaplingAnchor := sample_hash\<rparr>) (DB Map.empty)) = sample_hash \<and>
    best_anchor sample_env b' = 0 # replicate 31 1"
proof -
  let ?c = "CCoinsViewCache_new\<lparr>hashBlock := sample_hash\<rparr> :: u8 CCoinsViewCache"
  let ?d = "CCoinsViewCache_new\<lparr>hashSaplingAnchor := sample_hash\<rparr> :: u8 CCoinsViewCache"
  obtain c' b' where run: "Flush sample_env ?c (Cache ?d (DB Map.empty)) = Inr (True, c', b')"
    by (simp add: Flush_def CCoinsViewCache_new_def)
  have "base_blob_IsNull (hashSaplingAnchor ?c)"
    by (simp add: CCoinsViewCache_new_def base_blob_new_def blob_replicate)
  from Flush_forgets_anchor [OF run this] run sample_root(2) show ?thesis
    by (intro exI [of _ c'] exI [of _ b']) (simp add: db_GetBestAnchor_def sample_env_def)
qed

end
