(* ===== verification/Compressor.thy ===== *)
theory Compressor
  imports Coins
begin

unbundle bit_operations_syntax

text \<open>
  The compact form in which coins are stored: \<open>compressor.h\<close>, \<open>compressor.cpp\<close> and the
  serialisation of \<open>Coin\<close> in \<open>coins.h\<close>.  Public keys are byte strings; the two operations of
  \<open>CPubKey\<close> that need the elliptic curve, \<open>IsFullyValid\<close> and \<open>Decompress\<close>, are arguments.
  The \<open>ignore\<close> of the stream that is read is an argument too.
\<close>

section \<open>Amounts\<close>

text \<open>Arithmetic is in \<open>uint64_t\<close>.  The loop divides by ten at most nine times.\<close>

function CompressAmount_loop :: "u64 \<Rightarrow> nat \<Rightarrow> u64 \<times> nat" where
  "CompressAmount_loop n e =
     (if n mod 10 = 0 \<and> e < 9 then CompressAmount_loop (n div 10) (e + 1) else (n, e))"
  by pat_completeness auto
termination by (relation "measure (\<lambda>(n, e). 9 - e)") auto

declare CompressAmount_loop.simps [simp del]

definition CompressAmount :: "u64 \<Rightarrow> u64 res" where
  "CompressAmount n =
     (if n = 0 then Inr 0
      else case CompressAmount_loop n 0 of
        (n, e) \<Rightarrow>
          if e < 9 then
            let d = n mod 10
            in if d < 1 \<or> d > 9 then Inl (AssertFailed ''d >= 1 && d <= 9'')
               else let n = n div 10 in Inr (1 + (n * 9 + d - 1) * 10 + of_nat e)
          else Inr (1 + (n - 1) * 10 + 9))"

fun times_ten :: "nat \<Rightarrow> u64 \<Rightarrow> u64" where
  "times_ten 0 n = n"
| "times_ten (Suc e) n = times_ten e (n * 10)"

definition DecompressAmount :: "u64 \<Rightarrow> u64" where
  "DecompressAmount x =
     (if x = 0 then 0
      else
        let x = x - 1;
            e = unat (x mod 10);
            x = x div 10;
            n = (if e < 9 then (let d = x mod 9 + 1; x = x div 9 in x * 10 + d) else x + 1)
        in times_ten e n)"

section \<open>Scripts\<close>

definition IsToKeyID :: "bytes \<Rightarrow> bytes option" where
  "IsToKeyID script =
     (if length script = 25 \<and> script ! 0 = OP_DUP \<and> script ! 1 = OP_HASH160 \<and> script ! 2 = 20 \<and>
         script ! 23 = OP_EQUALVERIFY \<and> script ! 24 = OP_CHECKSIG
      then Some (take 20 (drop 3 script)) else None)"

definition IsToScriptID :: "bytes \<Rightarrow> bytes option" where
  "IsToScriptID script =
     (if length script = 23 \<and> script ! 0 = OP_HASH160 \<and> script ! 1 = 20 \<and> script ! 22 = OP_EQUAL
      then Some (take 20 (drop 2 script)) else None)"

definition IsToPubKey :: "(bytes \<Rightarrow> bool) \<Rightarrow> bytes \<Rightarrow> bytes option" where
  "IsToPubKey isFullyValid script =
     (if length script = 35 \<and> script ! 0 = 33 \<and> script ! 34 = OP_CHECKSIG \<and>
         (script ! 1 = 0x02 \<or> script ! 1 = 0x03)
      then Some (take 33 (drop 1 script))
      else if length script = 67 \<and> script ! 0 = 65 \<and> script ! 66 = OP_CHECKSIG \<and> script ! 1 = 0x04
      then (let pubkey = take 65 (drop 1 script) in if isFullyValid pubkey then Some pubkey else None)
      else None)"

definition CompressScript :: "(bytes \<Rightarrow> bool) \<Rightarrow> bytes \<Rightarrow> bytes option" where
  "CompressScript isFullyValid script =
     (case IsToKeyID script of
        Some keyID \<Rightarrow> Some (0x00 # keyID)
      | None \<Rightarrow>
          (case IsToScriptID script of
             Some scriptID \<Rightarrow> Some (0x01 # scriptID)
           | None \<Rightarrow>
               (case IsToPubKey isFullyValid script of
                  Some pubkey \<Rightarrow>
                    (if pubkey ! 0 = 0x02 \<or> pubkey ! 0 = 0x03 then Some (pubkey ! 0 # take 32 (drop 1 pubkey))
                     else if pubkey ! 0 = 0x04
                     then Some ((0x04 OR (pubkey ! 64 AND 0x01)) # take 32 (drop 1 pubkey))
                     else None)
                | None \<Rightarrow> None)))"

definition GetSpecialScriptSize :: "nat \<Rightarrow> nat" where
  "GetSpecialScriptSize nSize =
     (if nSize = 0 \<or> nSize = 1 then 20
      else if nSize = 2 \<or> nSize = 3 \<or> nSize = 4 \<or> nSize = 5 then 32 else 0)"

text \<open>The result is whether a script was recognised, and the script.\<close>

definition DecompressScript :: "(bytes \<Rightarrow> bytes option) \<Rightarrow> bytes \<Rightarrow> nat \<Rightarrow> bytes \<Rightarrow> (bool \<times> bytes) res" where
  "DecompressScript decompress script nSize inp =
     (if nSize = 0 then Inr (True, [OP_DUP, OP_HASH160, 20] @ take 20 inp @ [OP_EQUALVERIFY, OP_CHECKSIG])
      else if nSize = 1 then Inr (True, [OP_HASH160, 20] @ take 20 inp @ [OP_EQUAL])
      else if nSize = 2 \<or> nSize = 3 then Inr (True, [33, of_nat nSize] @ take 32 inp @ [OP_CHECKSIG])
      else if nSize = 4 \<or> nSize = 5 then
        (case decompress (of_nat (nSize - 2) # take 32 inp) of
           None \<Rightarrow> Inr (False, script)
         | Some pubkey \<Rightarrow>
             if length pubkey \<noteq> 65 then Inl (AssertFailed ''pubkey.size() == 65'')
             else Inr (True, [65] @ pubkey @ [OP_CHECKSIG]))
      else Inr (False, script))"

definition nSpecialScripts :: nat where "nSpecialScripts = 6"

definition uint32_max :: nat where "uint32_max = 2 ^ 32 - 1"
definition uint64_max :: nat where "uint64_max = 2 ^ 64 - 1"

definition ScriptCompression_Ser :: "(bytes \<Rightarrow> bool) \<Rightarrow> 's sink_ops \<Rightarrow> 's \<Rightarrow> bytes \<Rightarrow> 's res" where
  "ScriptCompression_Ser isFullyValid W s script =
     (case CompressScript isFullyValid script of
        Some compr \<Rightarrow> sk_write W s compr
      | None \<Rightarrow>
          bindE (WriteVarInt 4 W s ((length script + nSpecialScripts) mod 2 ^ 32)) (\<lambda>s. sk_write W s script))"

definition ScriptCompression_Unser ::
  "(bytes \<Rightarrow> bytes option) \<Rightarrow> ('s \<Rightarrow> nat \<Rightarrow> 's res) \<Rightarrow> 's source_ops \<Rightarrow> 's \<Rightarrow> (bytes \<times> 's) res" where
  "ScriptCompression_Unser decompress ignore R s =
     bindE (ReadVarInt uint32_max R s) (\<lambda>(nSize, s).
       if nSize < nSpecialScripts then
         bindE (sc_read R s (GetSpecialScriptSize nSize)) (\<lambda>(vch, s).
         bindE (DecompressScript decompress [] nSize vch) (\<lambda>(ok, script). Inr (script, s)))
       else
         let nSize = nSize - nSpecialScripts
         in if nSize > MAX_SCRIPT_SIZE
            then bindE (Script_push_opcode [] (uint OP_RETURN)) (\<lambda>script.
                 bindE (ignore s nSize) (\<lambda>s. Inr (script, s)))
            else sc_read R s nSize)"

definition AmountCompression_Ser :: "'s sink_ops \<Rightarrow> 's \<Rightarrow> CAmount \<Rightarrow> 's res" where
  "AmountCompression_Ser W s val = bindE (CompressAmount (word_of_int val)) (\<lambda>x. WriteVarInt 8 W s (unat x))"

definition AmountCompression_Unser :: "'s source_ops \<Rightarrow> 's \<Rightarrow> (CAmount \<times> 's) res" where
  "AmountCompression_Unser R s =
     bindE (ReadVarInt uint64_max R s) (\<lambda>(v, s). Inr (sint (DecompressAmount (of_nat v)), s))"

section \<open>Outputs and coins\<close>

definition TxOutCompression_Ser :: "(bytes \<Rightarrow> bool) \<Rightarrow> 's sink_ops \<Rightarrow> 's \<Rightarrow> CTxOut \<Rightarrow> 's res" where
  "TxOutCompression_Ser isFullyValid W s obj =
     bindE (AmountCompression_Ser W s (nValue obj)) (\<lambda>s. ScriptCompression_Ser isFullyValid W s (scriptPubKey obj))"

definition TxOutCompression_Unser ::
  "(bytes \<Rightarrow> bytes option) \<Rightarrow> ('s \<Rightarrow> nat \<Rightarrow> 's res) \<Rightarrow> 's source_ops \<Rightarrow> 's \<Rightarrow> (CTxOut \<times> 's) res" where
  "TxOutCompression_Unser decompress ignore R s =
     bindE (AmountCompression_Unser R s) (\<lambda>(v, s).
     bindE (ScriptCompression_Unser decompress ignore R s) (\<lambda>(k, s).
       Inr (CTxOut_SetNull\<lparr>nValue := v, scriptPubKey := k\<rparr>, s)))"

definition Coin_code :: "Coin \<Rightarrow> u32" where
  "Coin_code coin = coin_nHeight coin * 4 + (if fCoinBase coin then 2 else 0) + (if fCoinStake coin then 1 else 0)"

definition Coin_Ser :: "(bytes \<Rightarrow> bool) \<Rightarrow> 's sink_ops \<Rightarrow> 's \<Rightarrow> Coin \<Rightarrow> 's res" where
  "Coin_Ser isFullyValid W s coin =
     (if Coin_IsSpent coin then Inl (AssertFailed ''!IsSpent()'')
      else bindE (WriteVarInt 4 W s (unat (Coin_code coin))) (\<lambda>s.
           TxOutCompression_Ser isFullyValid W s (coin_out coin)))"

definition Coin_Unser ::
  "(bytes \<Rightarrow> bytes option) \<Rightarrow> ('s \<Rightarrow> nat \<Rightarrow> 's res) \<Rightarrow> 's source_ops \<Rightarrow> 's \<Rightarrow> (Coin \<times> 's) res" where
  "Coin_Unser decompress ignore R s =
     bindE (ReadVarInt uint32_max R s) (\<lambda>(v, s).
       let code = of_nat v :: u32
       in bindE (TxOutCompression_Unser decompress ignore R s) (\<lambda>(txout, s).
            Inr (\<lparr>fCoinBase = (code AND 2 \<noteq> 0), fCoinStake = (code AND 1 \<noteq> 0), coin_out = txout,
                  coin_nHeight = drop_bit 2 code\<rparr>, s)))"

text \<open>\<open>s.ignore(nSize)\<close> on a data stream: the \<open>unsigned int\<close> becomes an \<open>int\<close>.\<close>

definition DataStream_ignore_unsigned :: "CBaseDataStream \<Rightarrow> nat \<Rightarrow> CBaseDataStream res" where
  "DataStream_ignore_unsigned s nSize = DataStream_ignore s (sint (word_of_nat nSize :: u32))"

section \<open>Amounts read back\<close>

lemma unat_div_10: "unat (n div 10) = unat n div 10" and unat_mod_10: "unat (n mod 10) = unat n mod 10"
  for n :: u64
  by (simp_all add: unat_div unat_mod)

lemma CompressAmount_loop_spec:
  assumes "CompressAmount_loop n e = (m, f)" "e \<le> 9"
  shows "unat n = unat m * 10 ^ (f - e) \<and> e \<le> f \<and> f \<le> 9 \<and> (f < 9 \<longrightarrow> unat m mod 10 \<noteq> 0)"
  using assms
proof (induction n e arbitrary: m f rule: CompressAmount_loop.induct)
  case (1 n e)
  show ?case
  proof (cases "n mod 10 = 0 \<and> e < 9")
    case True
    then have ih: "unat (n div 10) = unat m * 10 ^ (f - (e + 1)) \<and> e + 1 \<le> f \<and> f \<le> 9 \<and> (f < 9 \<longrightarrow> unat m mod 10 \<noteq> 0)"
      using "1.IH" "1.prems" by (simp add: CompressAmount_loop.simps [of n e])
    have "unat n mod 10 = 0" using True unat_mod_10 [of n] by simp
    then have "unat n = unat (n div 10) * 10" using div_mult_mod_eq [of "unat n" 10] by (simp only: unat_div_10)
    moreover have "f - e = Suc (f - (e + 1))" using ih by linarith
    ultimately show ?thesis using ih by simp
  next
    case False
    moreover have "n mod 10 = 0 \<longleftrightarrow> unat n mod 10 = 0" by (simp add: unat_mod_10 [symmetric] unat_eq_0)
    ultimately show ?thesis using "1.prems"
      by (auto simp: CompressAmount_loop.simps [of n e] split: if_splits)
  qed
qed

lemma times_ten_power: "times_ten e n = n * 10 ^ e"
  by (induction e n rule: times_ten.induct) (simp_all add: ac_simps)

text \<open>The number \<open>CompressAmount\<close> returns, without wrap-around.\<close>

definition amount_code :: "nat \<Rightarrow> nat \<Rightarrow> nat" where
  "amount_code m e =
     (if e < 9 then 1 + (m div 10 * 9 + m mod 10 - 1) * 10 + e else 1 + (m - 1) * 10 + 9)"

lemma amount_code_le:
  assumes "0 < m" "e \<le> 9" "e < 9 \<longrightarrow> m mod 10 \<noteq> 0"
  shows "amount_code m e \<le> 9 * (m * 10 ^ e)"
proof -
  have p: "m * (1 + e) \<le> m * 10 ^ e"
  proof -
    have "1 + e \<le> 10 ^ e" by (induction e) auto
    then show ?thesis by (rule mult_le_mono2)
  qed
  show ?thesis
  proof (cases "e < 9")
    case True
    have "m = m div 10 * 10 + m mod 10" by simp
    moreover have "0 < m mod 10" "m mod 10 < 10" using assms(3) True by auto
    ultimately have "1 + (m div 10 * 9 + m mod 10 - 1) * 10 + e \<le> 9 * m + e" by linarith
    also have "\<dots> \<le> 9 * (m * (1 + e))" using assms(1) by simp
    also have "\<dots> \<le> 9 * (m * 10 ^ e)" using p by simp
    finally show ?thesis using True by (simp add: amount_code_def)
  next
    case False
    then have e: "e = 9" using assms(2) by simp
    have "1 + (m - 1) * 10 + 9 = 10 * m" using assms(1) by (cases m) auto
    then show ?thesis by (simp add: amount_code_def e)
  qed
qed

definition amount_word :: "u64 \<Rightarrow> u64" where
  "amount_word n =
     (if n = 0 then 0 else case CompressAmount_loop n 0 of (m, e) \<Rightarrow> of_nat (amount_code (unat m) e))"

text \<open>The assert of \<open>CompressAmount\<close> holds for every amount.\<close>

lemma CompressAmount_total: "CompressAmount n = Inr (amount_word n)"
proof (cases "n = 0")
  case True
  then show ?thesis by (simp add: CompressAmount_def amount_word_def)
next
  case False
  obtain m e where l: "CompressAmount_loop n 0 = (m, e)" by (cases "CompressAmount_loop n 0")
  from CompressAmount_loop_spec [OF l]
  have n: "unat n = unat m * 10 ^ e" and e: "e < 9 \<longrightarrow> unat m mod 10 \<noteq> 0" by auto
  have m: "0 < unat m" using n False by (cases "unat m") (auto simp: unat_eq_0)
  show ?thesis
  proof (cases "e < 9")
    case True
    have "unat m div 10 * 9 + unat m mod 10 \<ge> 1" using e True by simp
    moreover have "\<not> m mod 10 < 1" "\<not> m mod 10 > 9"
      using e True by (simp_all add: word_less_nat_alt unat_mod_10)
    ultimately show ?thesis using False True l
      by (simp add: CompressAmount_def amount_word_def amount_code_def Let_def of_nat_diff
          unat_div_10 [symmetric] unat_mod_10 [symmetric])
  next
    case nine: False
    then show ?thesis using m False l
      by (simp add: CompressAmount_def amount_word_def amount_code_def of_nat_diff)
  qed
qed

lemma unat_amount_word:
  assumes "n \<noteq> 0" "CompressAmount_loop n 0 = (m, e)" "9 * unat n < 2 ^ 64"
  shows "unat (amount_word n) = amount_code (unat m) e"
proof -
  from CompressAmount_loop_spec [OF assms(2)]
  have n: "unat n = unat m * 10 ^ e" and e: "e \<le> 9" "e < 9 \<longrightarrow> unat m mod 10 \<noteq> 0" by auto
  have m: "0 < unat m" using n assms(1) by (cases "unat m") (auto simp: unat_eq_0)
  have "amount_code (unat m) e < 2 ^ 64"
    using amount_code_le [OF m e] n assms(3) by simp
  then show ?thesis using assms(1,2) by (simp add: amount_word_def unat_of_nat take_bit_nat_eq_self)
qed

lemma word_div_nat: "x div y = of_nat (unat x div unat y)" and word_mod_nat: "x mod y = of_nat (unat x mod unat y)"
  for x y :: u64
  by (simp_all add: unat_div [symmetric] unat_mod [symmetric])

lemma DecompressAmount_nat:
  assumes "x \<noteq> 0" "unat x = Suc y"
  shows "DecompressAmount x =
    of_nat ((if y mod 10 < 9 then y div 10 div 9 * 10 + (y div 10 mod 9 + 1) else y div 10 + 1) * 10 ^ (y mod 10))"
proof -
  have y: "unat (x - 1) = y" using assms by (simp add: unat_minus_one)
  have m: "unat ((x - 1) mod 10) = y mod 10" "unat ((x - 1) div 10) = y div 10"
    by (simp_all add: unat_mod_10 unat_div_10 y)
  have w: "unat z = k \<Longrightarrow> z mod 9 = of_nat (k mod 9) \<and> z div 9 = of_nat (k div 9) \<and> z = of_nat k" for z :: u64 and k
    by (auto simp: word_mod_nat [of z] word_div_nat [of z])
  note v = w [OF m(2)]
  show ?thesis using assms(1)
    by (simp only: DecompressAmount_def Let_def times_ten_power m v [THEN conjunct1] v [THEN conjunct2, THEN conjunct1]) (simp add: v [THEN conjunct2, THEN conjunct2] ac_simps)
qed

lemma DecompressAmount_code:
  assumes "0 < m" "e \<le> 9" "e < 9 \<longrightarrow> m mod 10 \<noteq> 0" "amount_code m e < 2 ^ 64"
  shows "DecompressAmount (of_nat (amount_code m e)) = of_nat (m * 10 ^ e)"
proof -
  define x where "x = (if e < 9 then m div 10 * 9 + (m mod 10 - 1) else m - 1)"
  have d: "e < 9 \<Longrightarrow> 0 < m mod 10" "m mod 10 - 1 < 9" using assms(3) by auto
  have c: "amount_code m e = Suc (x * 10 + e)" using d(1) assms(1,2)
    by (auto simp: amount_code_def x_def)
  have u: "unat (of_nat (amount_code m e) :: u64) = Suc (x * 10 + e)"
    unfolding c [symmetric] using assms(4) by (simp add: unat_of_nat take_bit_nat_eq_self)
  have q: "(x * 10 + e) div 10 = x" "(x * 10 + e) mod 10 = e" using assms(2) by simp_all
  have "e < 9 \<Longrightarrow> x div 9 * 10 + (x mod 9 + 1) = m"
  proof -
    assume e: "e < 9"
    have "x div 9 = m div 10" "x mod 9 = m mod 10 - 1" using e d(2) by (simp_all add: x_def del: One_nat_def)
    then show ?thesis using d(1) [OF e] by simp
  qed
  then have "(if e < 9 then x div 9 * 10 + (x mod 9 + 1) else x + 1) = m"
    using assms(1) by (simp add: x_def)
  moreover have "(of_nat (amount_code m e) :: u64) \<noteq> 0" using u by (metis nat.distinct(1) unat_0)
  ultimately show ?thesis
    using DecompressAmount_nat [OF _ u] unfolding q by simp
qed

lemma DecompressAmount_amount_word:
  assumes "9 * unat n < 2 ^ 64"
  shows "DecompressAmount (amount_word n) = n"
proof (cases "n = 0")
  case True
  then show ?thesis by (simp add: amount_word_def DecompressAmount_def)
next
  case False
  obtain m e where l: "CompressAmount_loop n 0 = (m, e)" by (cases "CompressAmount_loop n 0")
  from CompressAmount_loop_spec [OF l]
  have n: "unat n = unat m * 10 ^ e" and e: "e \<le> 9" "e < 9 \<longrightarrow> unat m mod 10 \<noteq> 0" by auto
  have m: "0 < unat m" using n False by (cases "unat m") (auto simp: unat_eq_0)
  have u: "unat (amount_word n) = amount_code (unat m) e" by (rule unat_amount_word [OF False l assms])
  have "amount_code (unat m) e < 2 ^ 64" using unat_lt2p [of "amount_word n"] u by simp
  from DecompressAmount_code [OF m e this] show ?thesis
    unfolding u [symmetric] n [symmetric] by simp
qed

section \<open>Scripts read back\<close>

lemma split_around:
  assumes "length s = a + n + b" "take a s = p" "drop (a + n) s = q"
  shows "s = p @ take n (drop a s) @ q"
  using assms by (metis append_take_drop_id drop_drop add.commute)

lemma take_nth:
  "1 \<le> length s \<Longrightarrow> take 1 s = [s ! 0]"
  "2 \<le> length s \<Longrightarrow> take 2 s = [s ! 0, s ! 1]"
  "3 \<le> length s \<Longrightarrow> take 3 s = [s ! 0, s ! 1, s ! 2]"
  by (auto simp: list_eq_iff_nth_eq less_Suc_eq numeral_2_eq_2 numeral_3_eq_3)

lemma drop_nth:
  "length s = n + 1 \<Longrightarrow> drop n s = [s ! n]"
  "length s = n + 2 \<Longrightarrow> drop n s = [s ! n, s ! (n + 1)]"
  by (auto simp: list_eq_iff_nth_eq less_Suc_eq numeral_2_eq_2)

lemma IsToKeyID_script:
  assumes "IsToKeyID s = Some k"
  shows "length k = 20" "s = [OP_DUP, OP_HASH160, 20] @ k @ [OP_EQUALVERIFY, OP_CHECKSIG]"
  using assms split_around [of s 3 20 2, OF _ take_nth(3) drop_nth(2)]
  by (auto simp: IsToKeyID_def split: if_splits)

lemma IsToScriptID_script:
  assumes "IsToScriptID s = Some k"
  shows "length k = 20" "s = [OP_HASH160, 20] @ k @ [OP_EQUAL]"
  using assms split_around [of s 2 20 1, OF _ take_nth(2) drop_nth(1)]
  by (auto simp: IsToScriptID_def split: if_splits)

text \<open>What a public key script holds: a compressed key, or a fully valid uncompressed one.\<close>

lemma IsToPubKey_script:
  assumes "IsToPubKey fv s = Some k"
  shows "s = [of_nat (length k)] @ k @ [OP_CHECKSIG]"
    "length k = 33 \<and> (k ! 0 = 2 \<or> k ! 0 = 3) \<or> length k = 65 \<and> k ! 0 = 4 \<and> fv k"
  using assms split_around [of s 1 33 1, OF _ take_nth(1) drop_nth(1)]
    split_around [of s 1 65 1, OF _ take_nth(1) drop_nth(1)]
  by (auto simp: IsToPubKey_def Let_def nth_append split: if_splits)

text \<open>
  Decompressing undoes compressing, provided that \<open>Decompress\<close> of the compressed form of a fully
  valid uncompressed key is that key.
\<close>

definition decompresses :: "(bytes \<Rightarrow> bool) \<Rightarrow> (bytes \<Rightarrow> bytes option) \<Rightarrow> bool" where
  "decompresses fv decompress \<longleftrightarrow>
     (\<forall>k. length k = 65 \<longrightarrow> k ! 0 = 4 \<longrightarrow> fv k \<longrightarrow>
        decompress ((2 + (k ! 64 AND 1)) # take 32 (drop 1 k)) = Some k)"

lemma low_bit: "b AND 1 = 0 \<or> b AND 1 = 1" for b :: u8
  by (simp add: and_one_eq mod_2_eq_odd)

lemma CompressScript_inverse:
  assumes "CompressScript fv s = Some c" "decompresses fv decompress"
  shows "\<exists>k body. c = k # body \<and> unat k < nSpecialScripts \<and> length body = GetSpecialScriptSize (unat k) \<and>
    DecompressScript decompress script (unat k) body = Inr (True, s)"
proof -
  consider (key) h where "IsToKeyID s = Some h" "c = 0 # h"
    | (script) h where "IsToScriptID s = Some h" "c = 1 # h"
    | (compressed) h where "IsToPubKey fv s = Some h" "length h = 33" "h ! 0 = 2 \<or> h ! 0 = 3"
        "c = h ! 0 # take 32 (drop 1 h)"
    | (uncompressed) h where "IsToPubKey fv s = Some h" "length h = 65" "h ! 0 = 4" "fv h"
        "c = (4 OR (h ! 64 AND 1)) # take 32 (drop 1 h)"
    using assms(1) IsToPubKey_script(2) [of fv s]
    by (fastforce simp: CompressScript_def split: option.splits if_splits)
  then show ?thesis
  proof cases
    case key
    then show ?thesis using IsToKeyID_script [OF key(1)]
      by (simp add: DecompressScript_def nSpecialScripts_def GetSpecialScriptSize_def)
  next
    case script
    then show ?thesis using IsToScriptID_script [OF script(1)]
      by (simp add: DecompressScript_def nSpecialScripts_def GetSpecialScriptSize_def)
  next
    case compressed
    have "h = h ! 0 # drop 1 h" using compressed(2) by (cases h) auto
    then have "s = [33, h ! 0] @ drop 1 h @ [OP_CHECKSIG]"
      using IsToPubKey_script(1) [OF compressed(1)] compressed(2) by (metis append_Cons append_Nil of_nat_numeral)
    then show ?thesis using compressed
      by (auto simp: DecompressScript_def nSpecialScripts_def GetSpecialScriptSize_def)
  next
    case uncompressed
    have "decompress ((2 + (h ! 64 AND 1)) # take 32 (drop 1 h)) = Some h"
      using assms(2) uncompressed by (simp add: decompresses_def)
    then show ?thesis
      using uncompressed low_bit [of "h ! 64"] IsToPubKey_script(1) [OF uncompressed(1)]
      by (auto simp: DecompressScript_def nSpecialScripts_def GetSpecialScriptSize_def)
  qed
qed

section \<open>Coins read back\<close>

definition script_enc :: "(bytes \<Rightarrow> bool) \<Rightarrow> bytes \<Rightarrow> bytes" where
  "script_enc fv script =
     (case CompressScript fv script of Some c \<Rightarrow> c | None \<Rightarrow> varint_bytes (length script + nSpecialScripts) @ script)"

definition compressed_amount_enc :: "CAmount \<Rightarrow> bytes" where
  "compressed_amount_enc v = varint_bytes (unat (amount_word (word_of_int v)))"

definition coin_enc :: "(bytes \<Rightarrow> bool) \<Rightarrow> Coin \<Rightarrow> bytes" where
  "coin_enc fv coin =
     varint_bytes (unat (Coin_code coin)) @ compressed_amount_enc (nValue (coin_out coin)) @
     script_enc fv (scriptPubKey (coin_out coin))"

text \<open>The amounts, heights and scripts a coin can be stored with.\<close>

definition coin_storable :: "Coin \<Rightarrow> bool" where
  "coin_storable coin \<longleftrightarrow>
     0 \<le> nValue (coin_out coin) \<and> 9 * nValue (coin_out coin) < 2 ^ 64 \<and>
     length (scriptPubKey (coin_out coin)) \<le> MAX_SCRIPT_SIZE \<and> unat (coin_nHeight coin) < 2 ^ 30"

lemma varint_bytes_small: "n \<le> 0x7f \<Longrightarrow> varint_bytes n = [of_nat n]"
  by (simp add: varint_bytes_rec [of n])

lemma amount_reads_back:
  assumes "0 \<le> v" "9 * v < 2 ^ 64"
  shows "sint (DecompressAmount (amount_word (word_of_int v))) = v"
proof -
  have u: "uint (word_of_int v :: u64) = v" using assms by (simp add: uint_word_of_int)
  have "9 * unat (word_of_int v :: u64) < 2 ^ 64"
    using assms(2) u by (simp add: unat_eq_nat_uint)
  moreover have "sint (word_of_int v :: u64) = v" using assms
    by (intro sint_word_of_int64) (simp add: amount_ok_def int64_min_def int64_max_def)
  ultimately show ?thesis by (simp add: DecompressAmount_amount_word)
qed

lemma Coin_code_fields:
  assumes "unat (coin_nHeight coin) < 2 ^ 30"
  shows "drop_bit 2 (Coin_code coin) = coin_nHeight coin" "Coin_code coin AND 2 \<noteq> 0 \<longleftrightarrow> fCoinBase coin"
    "Coin_code coin AND 1 \<noteq> 0 \<longleftrightarrow> fCoinStake coin"
proof -
  let ?c = "Coin_code coin"
  let ?b = "if fCoinBase coin then 2 else 0 :: nat" and ?k = "if fCoinStake coin then 1 else 0 :: nat"
  have "?c = of_nat (unat (coin_nHeight coin) * 4 + ?b + ?k)" by (simp add: Coin_code_def)
  then have c: "unat ?c = unat (coin_nHeight coin) * 4 + ?b + ?k"
    using assms by (simp add: unat_of_nat take_bit_nat_eq_self del: of_nat_add of_nat_mult)
  have "unat (drop_bit 2 ?c) = unat (coin_nHeight coin)"
    unfolding unat_drop_bit_eq c by (simp add: drop_bit_eq_div) presburger
  then show "drop_bit 2 ?c = coin_nHeight coin" by (simp only: word_unat_eq_iff)
  have bit: "bit ?c n \<longleftrightarrow> bit (unat ?c) n" if "n < 32" for n
    using that by (simp add: bit_unsigned_iff)
  have "bit ?c 0 \<longleftrightarrow> fCoinStake coin" using bit [of 0] by (simp only: c) (auto simp: bit_iff_odd)
  moreover have "bit ?c 1 \<longleftrightarrow> fCoinBase coin" using bit [of 1]
    by (simp only: c) (auto simp: bit_iff_odd)
  ultimately show "?c AND 2 \<noteq> 0 \<longleftrightarrow> fCoinBase coin" "?c AND 1 \<noteq> 0 \<longleftrightarrow> fCoinStake coin"
    using and_exp_eq_0_iff_not_bit [of ?c 1] and_exp_eq_0_iff_not_bit [of ?c 0] by simp_all
qed

context tx_streams
begin

lemma ScriptCompression_emits:
  assumes "length script \<le> MAX_SCRIPT_SIZE"
  shows "emits out winv (\<lambda>s. ScriptCompression_Ser fv W s script) (script_enc fv script)"
proof (cases "CompressScript fv script")
  case None
  have "length script + nSpecialScripts < 2 ^ (8 * 4)"
    using assms by (simp add: MAX_SCRIPT_SIZE_def nSpecialScripts_def)
  then show ?thesis
    using None emits_bind [OF sink.WriteVarInt_emits [of "length script + nSpecialScripts" 4] sink.write_emits [of script]]
    by (simp add: ScriptCompression_Ser_def script_enc_def)
next
  case (Some c)
  then show ?thesis by (simp add: ScriptCompression_Ser_def script_enc_def sink.write_emits)
qed

lemma ScriptCompression_parses:
  assumes "length script \<le> MAX_SCRIPT_SIZE" "decompresses fv decompress"
  shows "parses inp rinv (\<lambda>s. ScriptCompression_Unser decompress ignore R s) script (script_enc fv script)"
proof (cases "CompressScript fv script")
  case None
  have n: "length script + nSpecialScripts \<le> uint32_max"
    using assms by (simp add: MAX_SCRIPT_SIZE_def nSpecialScripts_def uint32_max_def)
  show ?thesis unfolding ScriptCompression_Unser_def script_enc_def None option.case
    by (rule parses_bind [OF source.ReadVarInt_parses [OF n]])
      (use assms(1) source.read_parses [of script] in \<open>simp add: Let_def\<close>)
next
  case (Some c)
  from CompressScript_inverse [OF this assms(2)] obtain k body where
    c: "c = k # body" "unat k < nSpecialScripts" "length body = GetSpecialScriptSize (unat k)"
    "DecompressScript decompress [] (unat k) body = Inr (True, script)" by blast
  have k: "varint_bytes (unat k) = [k]" using c(2) by (simp add: varint_bytes_small nSpecialScripts_def)
  have m: "unat k \<le> uint32_max" using c(2) by (simp add: nSpecialScripts_def uint32_max_def)
  have "parses inp rinv (\<lambda>s. bindE (sc_read R s (GetSpecialScriptSize (unat k))) (\<lambda>(vch, s).
      bindE (DecompressScript decompress [] (unat k) vch) (\<lambda>(ok, script). Inr (script, s)))) script body"
    by (rule parses_guard [OF source.read_parses [OF c(3)]]) (simp add: c(4))
  then show ?thesis
    using parses_bind [OF source.ReadVarInt_parses [OF m],
      of "\<lambda>nSize s. if nSize < nSpecialScripts then
         bindE (sc_read R s (GetSpecialScriptSize nSize)) (\<lambda>(vch, s).
         bindE (DecompressScript decompress [] nSize vch) (\<lambda>(ok, script). Inr (script, s)))
       else
         let nSize = nSize - nSpecialScripts
         in if nSize > MAX_SCRIPT_SIZE
            then bindE (Script_push_opcode [] (uint OP_RETURN)) (\<lambda>script.
                 bindE (ignore s nSize) (\<lambda>s. Inr (script, s)))
            else sc_read R s nSize" script body]
    by (simp add: ScriptCompression_Unser_def script_enc_def Some c(1,2) k)
qed

lemma AmountCompression_emits:
  "emits out winv (\<lambda>s. AmountCompression_Ser W s v) (compressed_amount_enc v)"
  using sink.WriteVarInt_emits [of "unat (amount_word (word_of_int v))" 8] unat_lt2p [of "amount_word (word_of_int v)"]
  by (simp add: AmountCompression_Ser_def compressed_amount_enc_def CompressAmount_total)

lemma AmountCompression_parses:
  assumes "0 \<le> v" "9 * v < 2 ^ 64"
  shows "parses inp rinv (\<lambda>s. AmountCompression_Unser R s) v (compressed_amount_enc v)"
proof -
  have n: "unat (amount_word (word_of_int v)) \<le> uint64_max"
    using unat_lt2p [of "amount_word (word_of_int v)"] by (simp add: uint64_max_def)
  show ?thesis unfolding AmountCompression_Unser_def compressed_amount_enc_def
    by (rule parses_map [OF source.ReadVarInt_parses [OF n]]) (simp add: amount_reads_back [OF assms])
qed

lemma TxOutCompression_parses:
  assumes "0 \<le> nValue txout" "9 * nValue txout < 2 ^ 64" "length (scriptPubKey txout) \<le> MAX_SCRIPT_SIZE"
    "decompresses fv decompress"
  shows "parses inp rinv (\<lambda>s. TxOutCompression_Unser decompress ignore R s)
    (CTxOut_new (nValue txout) (scriptPubKey txout))
    (compressed_amount_enc (nValue txout) @ script_enc fv (scriptPubKey txout))"
  unfolding TxOutCompression_Unser_def
  by (rule parses_bind [OF AmountCompression_parses [OF assms(1,2)]],
      rule parses_map [OF ScriptCompression_parses [OF assms(3,4)]])
    (simp add: CTxOut_new_def CTxOut_SetNull_def)

lemma coin_emits:
  assumes "coin_storable coin" "\<not> Coin_IsSpent coin"
  shows "emits out winv (\<lambda>s. Coin_Ser fv W s coin) (coin_enc fv coin)"
proof -
  have "unat (Coin_code coin) < 2 ^ (8 * 4)" using unat_lt2p [of "Coin_code coin"] by simp
  from emits_bind [OF sink.WriteVarInt_emits [OF this]
      emits_bind [OF AmountCompression_emits ScriptCompression_emits [of "scriptPubKey (coin_out coin)" fv]]] assms
  show ?thesis by (simp add: Coin_Ser_def TxOutCompression_Ser_def coin_enc_def coin_storable_def)
qed

lemma coin_parses:
  assumes "coin_storable coin" "decompresses fv decompress"
  shows "parses inp rinv (\<lambda>s. Coin_Unser decompress ignore R s) (stored_coin coin) (coin_enc fv coin)"
proof -
  have n: "unat (Coin_code coin) \<le> uint32_max"
    using unat_lt2p [of "Coin_code coin"] by (simp add: uint32_max_def)
  show ?thesis unfolding Coin_Unser_def coin_enc_def Let_def
    by (rule parses_bind [OF source.ReadVarInt_parses [OF n]],
        rule parses_map [OF TxOutCompression_parses])
      (use assms Coin_code_fields [of coin] in \<open>simp_all add: coin_storable_def stored_coin_def\<close>)
qed

end

section \<open>Properties\<close>

lemma varint_length: "n < 2 ^ 70 \<Longrightarrow> length (varint_bytes n) \<le> 10"
  using GetSizeOfVarInt_le [of n 10] by (simp add: varint_bytes_def length_VarInt_tmp)

lemma coin_enc_length:
  assumes "coin_storable coin"
  shows "length (coin_enc fv coin) \<le> 10100"
proof -
  let ?s = "scriptPubKey (coin_out coin)"
  let ?a = "nValue (coin_out coin)"
  have "length (varint_bytes (unat (Coin_code coin))) \<le> 10" "length (compressed_amount_enc ?a) \<le> 10"
    using unat_lt2p [of "Coin_code coin"] unat_lt2p [of "amount_word (word_of_int ?a)"]
    by (auto intro!: varint_length simp: compressed_amount_enc_def)
  moreover have "length (script_enc fv ?s) \<le> 10010"
    using assms varint_length [of "length ?s + nSpecialScripts"]
    by (auto simp: script_enc_def coin_storable_def MAX_SCRIPT_SIZE_def nSpecialScripts_def CompressScript_def
        split: option.splits if_splits dest: IsToKeyID_script(1) IsToScriptID_script(1))
  ultimately show ?thesis by (simp add: coin_enc_def)
qed

text \<open>
  Property C38.  A coin written to a data stream in its compact form reads back, on any host, as the
  coin the database model stores (the output's transient round counter is reset), with the reader
  stopping exactly at its end.  This covers every kind of script the format knows: pay to key hash,
  pay to script hash, pay to a compressed or a fully valid uncompressed key, and every other script up
  to the size limit; amounts up to a ninth of the 64-bit range; heights below \<open>2 ^ 30\<close>.
\<close>

theorem Coin_roundtrip:
  assumes "coin_storable coin" "\<not> Coin_IsSpent coin" "decompresses fv decompress" "length rest < 2 ^ 30"
  shows "\<exists>s t. Coin_Ser fv (DataStream_sink h) (DataStream_new ty v) coin = Inr s \<and>
    Coin_Unser decompress DataStream_ignore_unsigned (DataStream_source h')
      (DataStream_from (pending s @ rest) ty' v') = Inr (stored_coin coin, t) \<and> pending t = rest"
proof -
  from emitsD [OF tx_ds.coin_emits [OF assms(1,2)] DataStream_new_ok(1), of fv h ty v]
  obtain s where s: "Coin_Ser fv (DataStream_sink h) (DataStream_new ty v) coin = Inr s"
    "pending s = coin_enc fv coin" by auto
  have "DataStream_rok (DataStream_from (coin_enc fv coin @ rest) ty' v')"
    using coin_enc_length [OF assms(1), of fv] assms(4) by (intro DataStream_from_ok(1)) simp
  from parsesD [OF tx_ds.coin_parses [OF assms(1,3)] this, of rest DataStream_ignore_unsigned h'] s
  show ?thesis by auto
qed

definition sample_key :: bytes where "sample_key = 4 # replicate 64 7"

definition compact_coin :: Coin where
  "compact_coin = \<lparr>fCoinBase = True, fCoinStake = False,
     coin_out = CTxOut_new 1230000 (65 # sample_key @ [OP_CHECKSIG]), coin_nHeight = 77\<rparr>"

theorem Coin_roundtrip_witness:
  "\<exists>s t. Coin_Ser (\<lambda>k. k = sample_key) (DataStream_sink LittleEndianHost) (DataStream_new 1 0) compact_coin = Inr s \<and>
    Coin_Unser (\<lambda>_. Some sample_key) DataStream_ignore_unsigned (DataStream_source BigEndianHost)
      (DataStream_from (pending s @ [9]) 1 0) = Inr (stored_coin compact_coin, t) \<and> pending t = [9]"
  by (rule Coin_roundtrip)
    (simp_all add: coin_storable_def compact_coin_def sample_key_def CTxOut_new_def MAX_SCRIPT_SIZE_def
      Coin_IsSpent_def CTxOut_IsNull_def decompresses_def)

end
