(* ===== verification/Merkle.thy ===== *)
theory Merkle
  imports Uint256
begin

unbundle bit_operations_syntax

text \<open>
  Merkle roots and branches: \<open>consensus/merkle.cpp\<close>.  The argument \<open>H\<close> is double SHA-256 of the
  concatenation of two hashes.  A shift by 32 or more is undefined behaviour.

  The constant-space computation, which keeps one pending subtree hash per level like the digits of
  a binary counter, is shown to compute the tree that halves the list level by level.
\<close>

section \<open>Definitions\<close>

type_synonym combine = "bytes \<Rightarrow> bytes \<Rightarrow> bytes"

text \<open>What the two inner loops do to the branch, given the pending hash of the level and \<open>h\<close>.\<close>

definition branch_step :: "bool \<Rightarrow> int \<Rightarrow> nat \<Rightarrow> bytes \<Rightarrow> bytes \<Rightarrow> bool \<times> bytes list \<Rightarrow> bool \<times> bytes list" where
  "branch_step pbranch matchlevel level inner_level h = (\<lambda>(matchh, branch).
     if pbranch then
       (if matchh then (matchh, branch @ [inner_level])
        else if matchlevel = int level then (True, branch @ [h]) else (matchh, branch))
     else (matchh, branch))"

function leaf_levels ::
  "combine \<Rightarrow> bool \<Rightarrow> bytes list \<Rightarrow> int \<Rightarrow> u32 \<Rightarrow> nat \<Rightarrow> bytes \<Rightarrow> bool \<Rightarrow> bool \<times> bytes list
     \<Rightarrow> (nat \<times> bytes \<times> bool \<times> bool \<times> bytes list) res" where
  "leaf_levels H pbranch inner matchlevel count level h mutated mb =
     (if level \<ge> 32 then Inl (UndefinedBehaviour ''1 << level'')
      else if count AND push_bit level 1 \<noteq> 0 then Inr (level, h, mutated, mb)
      else leaf_levels H pbranch inner matchlevel count (level + 1) (H (inner ! level) h)
             (mutated \<or> inner ! level = h) (branch_step pbranch matchlevel level (inner ! level) h mb))"
  by pat_completeness auto
termination by (relation "measure (\<lambda>(H, p, inner, m, count, level, h, mut, mb). 32 - level)") auto

declare leaf_levels.simps [simp del]

record merkle_state =
  mk_inner :: "bytes list"
  mk_matchlevel :: int
  mk_mutated :: bool
  mk_branch :: "bytes list"

fun merkle_leaves ::
  "combine \<Rightarrow> bool \<Rightarrow> u32 \<Rightarrow> bytes list \<Rightarrow> u32 \<Rightarrow> merkle_state \<Rightarrow> (u32 \<times> merkle_state) res" where
  "merkle_leaves H pbranch branchpos [] count st = Inr (count, st)"
| "merkle_leaves H pbranch branchpos (leaf # leaves) count st =
     (let matchh = (count = branchpos); count = count + 1
      in bindE (leaf_levels H pbranch (mk_inner st) (mk_matchlevel st) count 0 leaf (mk_mutated st)
                  (matchh, mk_branch st)) (\<lambda>(level, h, mutated, matchh, branch).
           merkle_leaves H pbranch branchpos leaves count
             \<lparr>mk_inner = (mk_inner st)[level := h],
              mk_matchlevel = (if matchh then int level else mk_matchlevel st),
              mk_mutated = mutated, mk_branch = branch\<rparr>))"

function lowest_level :: "u32 \<Rightarrow> nat \<Rightarrow> nat res" where
  "lowest_level count level =
     (if level \<ge> 32 then Inl (UndefinedBehaviour ''1 << level'')
      else if count AND push_bit level 1 \<noteq> 0 then Inr level else lowest_level count (level + 1))"
  by pat_completeness auto
termination by (relation "measure (\<lambda>(count, level). 32 - level)") auto

declare lowest_level.simps [simp del]

function propagate ::
  "combine \<Rightarrow> bool \<Rightarrow> bytes list \<Rightarrow> int \<Rightarrow> u32 \<Rightarrow> nat \<Rightarrow> bytes \<Rightarrow> bool \<times> bytes list
     \<Rightarrow> (nat \<times> bytes \<times> bool \<times> bytes list) res" where
  "propagate H pbranch inner matchlevel count level h mb =
     (if level \<ge> 32 then Inl (UndefinedBehaviour ''1 << level'')
      else if count AND push_bit level 1 \<noteq> 0 then Inr (level, h, mb)
      else propagate H pbranch inner matchlevel count (level + 1) (H (inner ! level) h)
             (branch_step pbranch matchlevel level (inner ! level) h mb))"
  by pat_completeness auto
termination by (relation "measure (\<lambda>(H, p, inner, m, count, level, h, mb). 32 - level)") auto

declare propagate.simps [simp del]

lemma propagate_level:
  "propagate H pbranch inner matchlevel count level h mb = Inr (level', r) \<Longrightarrow> level \<le> level' \<and> level' < 32"
proof (induction H pbranch inner matchlevel count level h mb rule: propagate.induct)
  case (1 H pbranch inner matchlevel count level h mb)
  then show ?case
    by (subst (asm) propagate.simps) (force split: if_splits)
qed

function sweep ::
  "combine \<Rightarrow> bool \<Rightarrow> bytes list \<Rightarrow> int \<Rightarrow> u32 \<Rightarrow> nat \<Rightarrow> bytes \<Rightarrow> bool \<Rightarrow> bytes list
     \<Rightarrow> (bytes \<times> bytes list) res" where
  "sweep H pbranch inner matchlevel count level h matchh branch =
     (if level \<ge> 32 then Inl (UndefinedBehaviour ''1 << level'')
      else if count = push_bit level 1 then Inr (h, branch)
      else
        let branch = (if pbranch \<and> matchh then branch @ [h] else branch);
            count = count + push_bit level 1
        in case propagate H pbranch inner matchlevel count (level + 1) (H h h) (matchh, branch) of
             Inl e \<Rightarrow> Inl e
           | Inr (level, h, matchh, branch) \<Rightarrow> sweep H pbranch inner matchlevel count level h matchh branch)"
  by pat_completeness auto
termination
  by (relation "measure (\<lambda>(H, p, inner, m, count, level, h, mh, b). 32 - level)")
    (auto dest: propagate_level)

declare sweep.simps [simp del]

definition MerkleComputation ::
  "combine \<Rightarrow> bytes list \<Rightarrow> u32 \<Rightarrow> bool \<Rightarrow> (bytes \<times> bool \<times> bytes list) res" where
  "MerkleComputation H leaves branchpos pbranch =
     (if leaves = [] then Inr (base_blob_new 32, False, [])
      else
        bindE (merkle_leaves H pbranch branchpos leaves 0
                 \<lparr>mk_inner = replicate 32 (base_blob_new 32), mk_matchlevel = - 1, mk_mutated = False, mk_branch = []\<rparr>)
          (\<lambda>(count, st).
        bindE (lowest_level count 0) (\<lambda>level.
        bindE (sweep H pbranch (mk_inner st) (mk_matchlevel st) count level (mk_inner st ! level)
                 (mk_matchlevel st = int level) (mk_branch st)) (\<lambda>(h, branch).
          Inr (h, mk_mutated st, branch)))))"

definition ComputeMerkleRoot :: "combine \<Rightarrow> bytes list \<Rightarrow> (bytes \<times> bool) res" where
  "ComputeMerkleRoot H leaves =
     bindE (MerkleComputation H leaves (- 1) False) (\<lambda>(hash, mutated, _). Inr (hash, mutated))"

definition ComputeMerkleBranch :: "combine \<Rightarrow> bytes list \<Rightarrow> u32 \<Rightarrow> bytes list res" where
  "ComputeMerkleBranch H leaves position =
     bindE (MerkleComputation H leaves position True) (\<lambda>(_, _, branch). Inr branch)"

fun ComputeMerkleRootFromBranch :: "combine \<Rightarrow> bytes \<Rightarrow> bytes list \<Rightarrow> u32 \<Rightarrow> bytes" where
  "ComputeMerkleRootFromBranch H hash [] nIndex = hash"
| "ComputeMerkleRootFromBranch H hash (it # rest) nIndex =
     ComputeMerkleRootFromBranch H (if nIndex AND 1 \<noteq> 0 then H it hash else H hash it) rest (drop_bit 1 nIndex)"

definition BlockMerkleRoot :: "combine \<Rightarrow> ('tx \<Rightarrow> bytes) \<Rightarrow> 'tx list \<Rightarrow> (bytes \<times> bool) res" where
  "BlockMerkleRoot H GetHash vtx = ComputeMerkleRoot H (map GetHash vtx)"

definition BlockMerkleBranch :: "combine \<Rightarrow> ('tx \<Rightarrow> bytes) \<Rightarrow> 'tx list \<Rightarrow> u32 \<Rightarrow> bytes list res" where
  "BlockMerkleBranch H GetHash vtx position = ComputeMerkleBranch H (map GetHash vtx) position"

section \<open>The tree level by level\<close>

text \<open>
  At level \<open>k\<close> the tree over \<open>n\<close> leaves has \<open>width n k\<close> nodes; \<open>tnode k i\<close> is the hash of
  node \<open>i\<close>.  A node without a right neighbour is combined with itself.
\<close>

definition width :: "nat \<Rightarrow> nat \<Rightarrow> nat" where
  "width n k = n div 2 ^ k + (if 2 ^ k dvd n then 0 else 1)"

fun tnode :: "combine \<Rightarrow> bytes list \<Rightarrow> nat \<Rightarrow> nat \<Rightarrow> bytes" where
  "tnode H xs 0 i = xs ! i"
| "tnode H xs (Suc k) i =
     H (tnode H xs k (2 * i)) (tnode H xs k (min (2 * i + 1) (width (length xs) k - 1)))"

declare tnode.simps(2) [simp del]

text \<open>The sibling of the node above position \<open>pos\<close>.\<close>

definition sib :: "combine \<Rightarrow> bytes list \<Rightarrow> nat \<Rightarrow> nat \<Rightarrow> bytes" where
  "sib H xs pos k =
     (let p = pos div 2 ^ k
      in tnode H xs k (if odd p then p - 1 else min (p + 1) (width (length xs) k - 1)))"

lemma div_pow_Suc: "n div 2 ^ Suc k = n div 2 ^ k div 2" for n :: nat
  by (metis div_mult2_eq mult.commute power_Suc)

lemma dvd_pow_Suc: "2 ^ Suc k dvd n \<longleftrightarrow> 2 ^ k dvd n \<and> even (n div 2 ^ k)" for n :: nat
  by (metis dvd_div_iff_mult dvd_triv_left dvd_trans mult.commute power_Suc power_not_zero zero_neq_numeral)

lemma width_0 [simp]: "width n 0 = n"
  by (simp add: width_def)

lemma width_Suc: "width n (Suc k) = (width n k + 1) div 2"
  unfolding width_def dvd_pow_Suc div_pow_Suc by (auto elim!: evenE oddE)

lemma width_pos: "0 < n \<Longrightarrow> 0 < width n k"
  by (induction k) (auto simp: width_Suc)

lemma div_le_width: "c \<le> n \<Longrightarrow> c div 2 ^ k \<le> width n k"
  unfolding width_def by (meson div_le_mono trans_le_add1)

lemma test_bit_nat:
  "level < 32 \<Longrightarrow> (of_nat c :: u32) AND push_bit level 1 \<noteq> 0 \<longleftrightarrow> odd (c div 2 ^ level)"
  using and_exp_eq_0_iff_not_bit [of "of_nat c :: u32" level]
  by (simp add: push_bit_eq_mult bit_of_nat_iff) (simp add: bit_iff_odd)

text \<open>Adding one to a number whose lowest \<open>l\<close> bits are set.\<close>

lemma pred_div:
  assumes "0 < c" "2 ^ l dvd c"
  shows "(c - 1) div 2 ^ l = c div 2 ^ l - (1::nat)"
proof -
  from assms(2) obtain q where c: "c = 2 ^ l * q" by (auto elim: dvdE)
  with assms(1) obtain r where q: "q = Suc r" by (cases q) auto
  have "c - 1 = 2 ^ l * r + (2 ^ l - 1)" by (simp add: c q)
  moreover have "(2 ^ l * r + (2 ^ l - 1)) div 2 ^ l = r" 
    using zero_less_power [of "2::nat" l] by (intro div_nat_eqI; simp; linarith)
  ultimately have "(c - 1) div 2 ^ l = r" by simp
  then show ?thesis by (simp add: c q)
qed

lemma pred_div_above:
  assumes "2 ^ l dvd c" "odd (c div 2 ^ l)" "l < m"
  shows "(c - 1) div 2 ^ m = (c div 2 ^ m :: nat)"
proof -
  have c0: "0 < c" using assms(2) by (cases c) auto
  from assms(3) obtain d where m: "m = Suc l + d" by (metis add_Suc less_iff_Suc_add add.commute)
  have "(c - 1) div 2 ^ Suc l = c div 2 ^ Suc l"
    unfolding div_pow_Suc pred_div [OF c0 assms(1)] using assms(2) by (auto elim!: oddE)
  then show ?thesis unfolding m power_add div_mult2_eq by simp
qed

lemma level_bound: "2 ^ l dvd c \<Longrightarrow> 0 < c \<Longrightarrow> c < 2 ^ 32 \<Longrightarrow> l < 32" for c :: nat
  by (metis dvd_imp_le leD le_less_trans linorder_le_less_linear one_le_numeral power_increasing)

section \<open>Processing the leaves\<close>

text \<open>
  After \<open>c\<close> leaves, \<open>inner\<close> holds at each set bit of \<open>c\<close> the hash of the last complete subtree of
  that size, and the branch is complete up to the subtree that contains the position.
\<close>

definition inner_ok :: "combine \<Rightarrow> bytes list \<Rightarrow> nat \<Rightarrow> bytes list \<Rightarrow> bool" where
  "inner_ok H xs c inner \<longleftrightarrow>
     length inner = 32 \<and> (\<forall>l < 32. odd (c div 2 ^ l) \<longrightarrow> inner ! l = tnode H xs l (c div 2 ^ l - 1))"

definition match_ok :: "combine \<Rightarrow> bytes list \<Rightarrow> nat \<Rightarrow> nat \<Rightarrow> nat \<Rightarrow> int \<Rightarrow> bytes list \<Rightarrow> bool" where
  "match_ok H xs pos c l matchlevel branch \<longleftrightarrow>
     (c \<le> pos \<and> matchlevel = - 1 \<and> branch = []) \<or>
     (\<exists>m \<ge> l. matchlevel = int m \<and> odd (c div 2 ^ m) \<and> pos div 2 ^ m = c div 2 ^ m - 1 \<and>
        branch = map (sib H xs pos) [0..<m])"

fun walk_ok :: "combine \<Rightarrow> bytes list \<Rightarrow> nat \<Rightarrow> nat \<Rightarrow> nat \<Rightarrow> nat \<Rightarrow> int \<Rightarrow> bool \<times> bytes list \<Rightarrow> bool" where
  "walk_ok H xs pos c i l matchlevel (matchh, branch) \<longleftrightarrow>
     (if matchh then pos div 2 ^ l = i \<and> branch = map (sib H xs pos) [0..<l]
      else match_ok H xs pos c l matchlevel branch \<and> pos \<noteq> c)"

text \<open>The node that a step of either inner loop combines with its left neighbour.\<close>

lemma tnode_join:
  assumes "0 < q" "even q" "q \<le> width (length xs) l"
  shows "H (tnode H xs l (q - 2)) (tnode H xs l (q - 1)) = tnode H xs (Suc l) (q div 2 - 1)"
proof -
  from assms(1,2) obtain r where q: "q = 2 * Suc r" by (metis evenE gr0_implies_Suc mult_0_right not_gr_zero)
  then show ?thesis using assms(3) by (simp add: tnode.simps)
qed

lemma walk_ok_step:
  assumes "walk_ok H xs pos c (q - 1) l ml mb" "0 < q" "even q" "q \<le> width (length xs) l" "c div 2 ^ l = q - 1"
  shows "walk_ok H xs pos c (q div 2 - 1) (Suc l) ml
    (branch_step True ml l (tnode H xs l (q - 2)) (tnode H xs l (q - 1)) mb)"
proof -
  obtain matchh branch where mb: "mb = (matchh, branch)" by (cases mb)
  from assms(2,3) obtain r where q: "q = 2 * Suc r" by (metis evenE gr0_implies_Suc mult_0_right not_gr_zero)
  show ?thesis
  proof (cases matchh)
    case True
    then have p: "pos div 2 ^ l = 2 * r + 1" "branch = map (sib H xs pos) [0..<l]" using assms(1) mb q by auto
    then have "pos div 2 ^ Suc l = r" "sib H xs pos l = tnode H xs l (q - 2)"
      unfolding div_pow_Suc by (simp_all add: sib_def Let_def q)
    then show ?thesis using True mb p q by (simp add: branch_step_def)
  next
    case False
    then have ok: "match_ok H xs pos c l ml branch" "pos \<noteq> c" using assms(1) mb by auto
    show ?thesis
    proof (cases "ml = int l")
      case True
      then have p: "pos div 2 ^ l = 2 * r" "branch = map (sib H xs pos) [0..<l]"
        using ok(1) assms(5) q by (auto simp: match_ok_def)
      then have "pos div 2 ^ Suc l = r" "sib H xs pos l = tnode H xs l (q - 1)"
        using assms(4) unfolding div_pow_Suc by (simp_all add: sib_def Let_def q)
      then show ?thesis using True False mb p q by (simp add: branch_step_def)
    next
      case l: False
      then have "match_ok H xs pos c (Suc l) ml branch"
        using ok(1) unfolding match_ok_def by (metis Suc_leI le_neq_implies_less)
      then show ?thesis using l False mb ok(2) by (simp add: branch_step_def)
    qed
  qed
qed

lemma leaf_levels_spec:
  assumes "inner_ok H xs (c - 1) inner" "0 < c" "c \<le> length xs" "c < 2 ^ 32"
    and "2 ^ l dvd c" "h = tnode H xs l (c div 2 ^ l - 1)"
    and "pb \<longrightarrow> walk_ok H xs pos (c - 1) (c div 2 ^ l - 1) l ml mb"
  shows "\<exists>L mb'. l \<le> L \<and> L < 32 \<and> 2 ^ L dvd c \<and> odd (c div 2 ^ L) \<and>
    leaf_levels H pb inner ml (of_nat c) l h mut mb =
      Inr (L, tnode H xs L (c div 2 ^ L - 1),
           mut \<or> (\<exists>k. l \<le> k \<and> k < L \<and> tnode H xs k (c div 2 ^ k - 2) = tnode H xs k (c div 2 ^ k - 1)), mb') \<and>
    (pb \<longrightarrow> walk_ok H xs pos (c - 1) (c div 2 ^ L - 1) L ml mb')"
  using assms(5-7)
proof (induction "32 - l" arbitrary: l h mut mb rule: less_induct)
  case less
  have l: "l < 32" by (rule level_bound [OF less.prems(1) assms(2,4)])
  note bit = test_bit_nat [OF l, of c]
  let ?q = "c div 2 ^ l"
  show ?case
  proof (cases "odd ?q")
    case True
    then have "leaf_levels H pb inner ml (of_nat c) l h mut mb = Inr (l, h, mut, mb)"
      using l bit by (subst leaf_levels.simps) simp
    then show ?thesis using True l less.prems by (intro exI [of _ l]) auto
  next
    case False
    have q: "0 < ?q" using less.prems(1) assms(2) by (auto elim!: dvdE)
    have w: "?q \<le> width (length xs) l" by (rule div_le_width [OF assms(3)])
    have p: "(c - 1) div 2 ^ l = ?q - 1" by (rule pred_div [OF assms(2) less.prems(1)])
    have "odd ((c - 1) div 2 ^ l) \<Longrightarrow> inner ! l = tnode H xs l ((c - 1) div 2 ^ l - 1)"
      using assms(1) l by (simp add: inner_ok_def)
    moreover have "?q - 1 - 1 = ?q - 2" by simp
    ultimately have inner: "inner ! l = tnode H xs l (?q - 2)" unfolding p using q False by simp
    have dvd: "2 ^ Suc l dvd c" unfolding dvd_pow_Suc using less.prems(1) False by simp
    have h: "H (inner ! l) h = tnode H xs (Suc l) (c div 2 ^ Suc l - 1)"
      using tnode_join [OF q _ w, of H] False by (simp only: inner less.prems(2) div_pow_Suc) simp
    let ?mb = "branch_step pb ml l (inner ! l) h mb"
    have "pb \<longrightarrow> walk_ok H xs pos (c - 1) (c div 2 ^ Suc l - 1) (Suc l) ml ?mb"
      using walk_ok_step [OF _ q _ w p, of H pos ml mb] False less.prems(3)
      by (auto simp: inner less.prems(2) div_pow_Suc simp del: power_Suc)
    moreover have "32 - Suc l < 32 - l" using l by simp
    ultimately have "\<exists>L mb'. Suc l \<le> L \<and> L < 32 \<and> 2 ^ L dvd c \<and> odd (c div 2 ^ L) \<and>
      leaf_levels H pb inner ml (of_nat c) (Suc l) (H (inner ! l) h) (mut \<or> inner ! l = h) ?mb =
      Inr (L, tnode H xs L (c div 2 ^ L - 1),
        (mut \<or> inner ! l = h) \<or> (\<exists>k. Suc l \<le> k \<and> k < L \<and> tnode H xs k (c div 2 ^ k - 2) = tnode H xs k (c div 2 ^ k - 1)), mb') \<and>
      (pb \<longrightarrow> walk_ok H xs pos (c - 1) (c div 2 ^ L - 1) L ml mb')"
      using less.hyps [OF _ dvd h] by blast
    then
    obtain L mb' where L: "Suc l \<le> L" "L < 32" "2 ^ L dvd c" "odd (c div 2 ^ L)"
      "leaf_levels H pb inner ml (of_nat c) (Suc l) (H (inner ! l) h) (mut \<or> inner ! l = h) ?mb =
      Inr (L, tnode H xs L (c div 2 ^ L - 1),
        (mut \<or> inner ! l = h) \<or> (\<exists>k. Suc l \<le> k \<and> k < L \<and> tnode H xs k (c div 2 ^ k - 2) = tnode H xs k (c div 2 ^ k - 1)), mb')"
      "pb \<longrightarrow> walk_ok H xs pos (c - 1) (c div 2 ^ L - 1) L ml mb'"
      by blast
    have ex: "(\<exists>k. l \<le> k \<and> k < L \<and> P k) \<longleftrightarrow> P l \<or> (\<exists>k. Suc l \<le> k \<and> k < L \<and> P k)" for P
    proof -
      have "l \<le> k \<longleftrightarrow> k = l \<or> Suc l \<le> k" for k by auto
      then show ?thesis using L(1) by auto
    qed
    have step: "leaf_levels H pb inner ml (of_nat c) l h mut mb =
      leaf_levels H pb inner ml (of_nat c) (Suc l) (H (inner ! l) h) (mut \<or> inner ! l = h) ?mb"
      using l bit False by (subst leaf_levels.simps) simp
    have same: "tnode H xs l (?q - 2) = tnode H xs l (?q - 1) \<longleftrightarrow> inner ! l = h"
      by (simp add: inner less.prems(2))
    have "leaf_levels H pb inner ml (of_nat c) l h mut mb =
      Inr (L, tnode H xs L (c div 2 ^ L - 1),
        mut \<or> (\<exists>k. l \<le> k \<and> k < L \<and> tnode H xs k (c div 2 ^ k - 2) = tnode H xs k (c div 2 ^ k - 1)), mb')"
      unfolding ex same step L(5) disj_assoc by (rule refl)
    then show ?thesis using L(1-4,6) Suc_leD by blast
  qed
qed

text \<open>The duplicates the leaf loop has seen after \<open>c\<close> leaves.\<close>

definition duplicate :: "combine \<Rightarrow> bytes list \<Rightarrow> nat \<Rightarrow> bool" where
  "duplicate H xs c \<longleftrightarrow> (\<exists>k i. (2 * i + 2) * 2 ^ k \<le> c \<and> tnode H xs k (2 * i) = tnode H xs k (2 * i + 1))"

lemma duplicate_step:
  assumes "2 ^ L dvd c" "odd (c div 2 ^ L)"
  shows "duplicate H xs c \<longleftrightarrow> duplicate H xs (c - 1) \<or>
    (\<exists>k < L. tnode H xs k (c div 2 ^ k - 2) = tnode H xs k (c div 2 ^ k - 1))"
proof
  assume "duplicate H xs c"
  then obtain k i where ki: "(2 * i + 2) * 2 ^ k \<le> c" "tnode H xs k (2 * i) = tnode H xs k (2 * i + 1)"
    by (auto simp: duplicate_def)
  show "duplicate H xs (c - 1) \<or> (\<exists>k < L. tnode H xs k (c div 2 ^ k - 2) = tnode H xs k (c div 2 ^ k - 1))"
  proof (cases "(2 * i + 2) * 2 ^ k = c")
    case True
    then have q: "c div 2 ^ k = 2 * i + 2" by (metis nonzero_mult_div_cancel_right power_not_zero zero_neq_numeral)
    have "2 ^ Suc k dvd c" unfolding True [symmetric] by (simp add: algebra_simps)
    moreover have "\<not> 2 ^ Suc L dvd c" unfolding dvd_pow_Suc using assms(2) by simp
    ultimately have "k < L" by (meson dvd_trans le_imp_power_dvd not_le Suc_le_mono)
    then show ?thesis using ki(2) q by auto
  next
    case False
    then have "(2 * i + 2) * 2 ^ k \<le> c - 1" using ki(1) by linarith
    then show ?thesis using ki(2) unfolding duplicate_def by blast
  qed
next
  assume "duplicate H xs (c - 1) \<or> (\<exists>k < L. tnode H xs k (c div 2 ^ k - 2) = tnode H xs k (c div 2 ^ k - 1))"
  then show "duplicate H xs c"
  proof
    assume "duplicate H xs (c - 1)"
    then show ?thesis unfolding duplicate_def by (meson diff_le_self le_trans)
  next
    assume "\<exists>k < L. tnode H xs k (c div 2 ^ k - 2) = tnode H xs k (c div 2 ^ k - 1)"
    then obtain k where k: "k < L" "tnode H xs k (c div 2 ^ k - 2) = tnode H xs k (c div 2 ^ k - 1)" by blast
    have "2 ^ Suc k dvd c" using k(1) assms(1) by (meson Suc_leI dvd_trans le_imp_power_dvd)
    then have d: "2 ^ k dvd c" "even (c div 2 ^ k)" unfolding dvd_pow_Suc by auto
    have "0 < c" using assms(2) by (cases c) auto
    with d(1) have "0 < c div 2 ^ k" by (auto elim!: dvdE)
    with d(2) obtain i where i: "c div 2 ^ k = 2 * Suc i" by (metis evenE gr0_implies_Suc mult_0_right not_gr_zero)
    have "(2 * i + 2) * 2 ^ k = c" using d(1) i by (metis dvd_div_mult_self mult_Suc_right add.commute)
    moreover have "tnode H xs k (2 * i) = tnode H xs k (2 * i + 1)" using k(2) i by simp
    ultimately show ?thesis unfolding duplicate_def by blast
  qed
qed

lemma match_ok_step:
  assumes "walk_ok H xs pos (c - 1) (c div 2 ^ L - 1) L ml (matchh, branch)"
    and "2 ^ L dvd c" "odd (c div 2 ^ L)"
  shows "match_ok H xs pos c 0 (if matchh then int L else ml) branch"
proof (cases matchh)
  case True
  then show ?thesis using assms by (auto simp: match_ok_def)
next
  case False
  have c: "0 < c" using assms(3) by (cases c) auto
  from False assms(1) have ok: "match_ok H xs pos (c - 1) L ml branch" "pos \<noteq> c - 1" by auto
  have "m \<noteq> L" if "odd ((c - 1) div 2 ^ m)" for m
    using that assms(3) pred_div [OF c assms(2)] by auto
  then show ?thesis using ok c False pred_div_above [OF assms(2,3)]
    unfolding match_ok_def by (auto simp: le_less)
qed

lemma inner_ok_step:
  assumes "inner_ok H xs (c - 1) inner" "2 ^ L dvd c" "odd (c div 2 ^ L)" "L < 32"
  shows "inner_ok H xs c (inner[L := tnode H xs L (c div 2 ^ L - 1)])"
  unfolding inner_ok_def
proof (intro conjI allI impI)
  show "length (inner[L := tnode H xs L (c div 2 ^ L - 1)]) = 32" using assms(1) by (simp add: inner_ok_def)
  fix l :: nat assume l: "l < 32" "odd (c div 2 ^ l)"
  have "l \<noteq> L \<Longrightarrow> L < l"
  proof (rule ccontr)
    assume "l \<noteq> L" "\<not> L < l"
    then have "2 ^ Suc l dvd c" using assms(2) by (meson dvd_trans le_imp_power_dvd not_less_eq_eq nat_neq_iff not_less Suc_leI)
    then show False unfolding dvd_pow_Suc using l(2) by simp
  qed
  then show "inner[L := tnode H xs L (c div 2 ^ L - 1)] ! l = tnode H xs l (c div 2 ^ l - 1)"
    using assms l pred_div_above [OF assms(2,3)] by (cases "l = L") (auto simp: inner_ok_def)
qed

definition leaves_ok :: "combine \<Rightarrow> bytes list \<Rightarrow> bool \<Rightarrow> nat \<Rightarrow> nat \<Rightarrow> merkle_state \<Rightarrow> bool" where
  "leaves_ok H xs pb pos c st \<longleftrightarrow>
     inner_ok H xs c (mk_inner st) \<and> mk_mutated st = duplicate H xs c \<and>
     (pb \<longrightarrow> match_ok H xs pos c 0 (mk_matchlevel st) (mk_branch st))"

lemma merkle_leaves_spec:
  assumes "leaves_ok H xs pb pos c st" "c \<le> length xs" "length xs < 2 ^ 32" "pos < 2 ^ 32"
  shows "\<exists>st'. merkle_leaves H pb (of_nat pos) (drop c xs) (of_nat c) st = Inr (of_nat (length xs), st') \<and>
    leaves_ok H xs pb pos (length xs) st'"
  using assms(1,2)
proof (induction "length xs - c" arbitrary: c st)
  case 0
  then show ?case by auto
next
  case (Suc d)
  let ?c = "Suc c"
  have c: "c < length xs" using Suc.hyps(2) by simp
  then have drop: "drop c xs = xs ! c # drop ?c xs" by (simp add: Cons_nth_drop_Suc)
  have eq: "(of_nat c :: u32) = of_nat pos \<longleftrightarrow> c = pos"
    using c assms(3,4) by (simp add: of_nat_eq_iff word_of_nat_eq_iff take_bit_nat_eq_self)
  have walk: "pb \<longrightarrow> walk_ok H xs pos (?c - 1) (?c div 2 ^ 0 - 1) 0 (mk_matchlevel st) (of_nat c = (of_nat pos :: u32), mk_branch st)"
    using Suc.prems(1) unfolding eq by (auto simp: leaves_ok_def match_ok_def dest!: odd_pos)
  have "inner_ok H xs (?c - 1) (mk_inner st)" using Suc.prems(1) by (simp add: leaves_ok_def)
  from leaf_levels_spec [OF this _ _ _ _ _ walk, of "xs ! c" "mk_mutated st"] c assms(3)
  obtain L matchh branch where L: "L < 32" "2 ^ L dvd ?c" "odd (?c div 2 ^ L)"
    "leaf_levels H pb (mk_inner st) (mk_matchlevel st) (of_nat ?c) 0 (xs ! c) (mk_mutated st)
       (of_nat c = (of_nat pos :: u32), mk_branch st) =
      Inr (L, tnode H xs L (?c div 2 ^ L - 1),
        mk_mutated st \<or> (\<exists>k < L. tnode H xs k (?c div 2 ^ k - 2) = tnode H xs k (?c div 2 ^ k - 1)), matchh, branch)"
    "pb \<longrightarrow> walk_ok H xs pos c (?c div 2 ^ L - 1) L (mk_matchlevel st) (matchh, branch)"
    by auto
  define st' where "st' = \<lparr>mk_inner = (mk_inner st)[L := tnode H xs L (?c div 2 ^ L - 1)],
    mk_matchlevel = (if matchh then int L else mk_matchlevel st),
    mk_mutated = (mk_mutated st \<or> (\<exists>k < L. tnode H xs k (?c div 2 ^ k - 2) = tnode H xs k (?c div 2 ^ k - 1))),
    mk_branch = branch\<rparr>"
  have "merkle_leaves H pb (of_nat pos) (drop c xs) (of_nat c) st =
      merkle_leaves H pb (of_nat pos) (drop ?c xs) (of_nat ?c) st'"
    using L(4) unfolding drop merkle_leaves.simps Let_def by (simp add: st'_def add.commute)
  moreover have "leaves_ok H xs pb pos ?c st'"
    using Suc.prems(1) inner_ok_step [of H xs ?c "mk_inner st" L] duplicate_step [OF L(2,3), of H xs]
      match_ok_step [of H xs pos ?c L "mk_matchlevel st" matchh branch] L
    by (simp add: leaves_ok_def st'_def)
  ultimately show ?case using Suc.hyps(1) [of ?c st'] Suc.hyps(2) c by simp
qed

section \<open>The final sweep\<close>

lemma lowest_level_spec:
  assumes "0 < c" "c < 2 ^ 32" "2 ^ l dvd c"
  shows "\<exists>L. lowest_level (of_nat c) l = Inr L \<and> L < 32 \<and> 2 ^ L dvd c \<and> odd (c div 2 ^ L)"
  using assms(3)
proof (induction "32 - l" arbitrary: l rule: less_induct)
  case less
  have l: "l < 32" by (rule level_bound [OF less.prems assms(1,2)])
  show ?case
  proof (cases "odd (c div 2 ^ l)")
    case True
    then show ?thesis using l less.prems test_bit_nat [OF l, of c] by (subst lowest_level.simps) auto
  next
    case False
    then have "2 ^ Suc l dvd c" unfolding dvd_pow_Suc using less.prems by simp
    then show ?thesis using less.hyps [of "Suc l"] l False test_bit_nat [OF l, of c]
      by (subst lowest_level.simps) simp
  qed
qed

lemma width_mult_le:
  assumes "n \<le> 2 ^ 31" "l \<le> 31"
  shows "width n l * 2 ^ l \<le> 2 ^ 31"
proof -
  have "n div 2 ^ l \<le> 2 ^ 31 div 2 ^ l" using assms(1) by (rule div_le_mono)
  moreover have e: "(2::nat) ^ 31 div 2 ^ l = 2 ^ (31 - l)" using assms(2) by (simp add: power_diff)
  moreover have "2 ^ l dvd n" if "n div 2 ^ l = 2 ^ (31 - l)"
  proof -
    have "2 ^ (31 - l) * 2 ^ l \<le> n" using div_times_less_eq_dividend [of n "2 ^ l"] that by simp
    then have "n = 2 ^ 31" using assms by (simp add: power_add [symmetric])
    then show ?thesis using assms(2) by (simp only: le_imp_power_dvd)
  qed
  ultimately have "width n l \<le> 2 ^ (31 - l)" unfolding width_def by (cases "n div 2 ^ l = 2 ^ (31 - l)") auto
  then have "width n l * 2 ^ l \<le> 2 ^ (31 - l) * 2 ^ l" by (rule mult_le_mono1)
  also have "\<dots> = 2 ^ 31" using assms(2) by (simp add: power_add [symmetric])
  finally show ?thesis .
qed

text \<open>
  The state at level \<open>l\<close>: \<open>count\<close> is the number of leaves rounded up to the level, and \<open>h\<close> is the
  last node of the level.
\<close>

lemma propagate_spec:
  assumes "inner_ok H xs (length xs) inner" "length xs \<le> 2 ^ 31" "0 < length xs"
    and "\<not> 2 ^ l dvd length xs" "l \<le> 31" "c = width (length xs) l * 2 ^ l"
    and "h = tnode H xs l (width (length xs) l - 1)"
    and "pb \<longrightarrow> walk_ok H xs pos (length xs) (width (length xs) l - 1) l ml mb"
  shows "\<exists>L mb'. l \<le> L \<and> L \<le> 31 \<and> odd (width (length xs) L) \<and> \<not> 2 ^ L dvd length xs \<and>
    c = width (length xs) L * 2 ^ L \<and> (\<forall>k. l \<le> k \<longrightarrow> k < L \<longrightarrow> width (length xs) k \<noteq> 1) \<and>
    propagate H pb inner ml (of_nat c) l h mb = Inr (L, tnode H xs L (width (length xs) L - 1), mb') \<and>
    (pb \<longrightarrow> walk_ok H xs pos (length xs) (width (length xs) L - 1) L ml mb')"
  using assms(4-8)
proof (induction "32 - l" arbitrary: l h mb rule: less_induct)
  case less
  have l: "l < 32" using less.prems(2) by simp
  let ?n = "length xs" and ?q = "width (length xs) l"
  have q: "0 < ?q" by (rule width_pos [OF assms(3)])
  have cq: "c div 2 ^ l = ?q" by (simp add: less.prems(3))
  note bit = test_bit_nat [OF l, of c, unfolded cq]
  have p: "?n div 2 ^ l = ?q - 1" using less.prems(1) by (simp add: width_def)
  show ?case
  proof (cases "odd ?q")
    case True
    then have "propagate H pb inner ml (of_nat c) l h mb = Inr (l, h, mb)"
      using l bit by (subst propagate.simps) simp
    then show ?thesis using True l less.prems by (intro exI [of _ l]) auto
  next
    case False
    then have "?q - 1 - 1 = ?q - 2" "odd (?n div 2 ^ l)" using q p by auto
    then have inner: "inner ! l = tnode H xs l (?q - 2)"
      using assms(1) l p unfolding inner_ok_def by metis
    have w: "width ?n (Suc l) = ?q div 2" using False by (auto simp: width_Suc)
    have c: "c = width ?n (Suc l) * 2 ^ Suc l" using False less.prems(3) w by auto
    have nd: "\<not> 2 ^ Suc l dvd ?n" unfolding dvd_pow_Suc using less.prems(1) by simp
    have h: "H (inner ! l) h = tnode H xs (Suc l) (width ?n (Suc l) - 1)"
      using tnode_join [OF q _ order_refl, of H] False by (simp only: inner less.prems(4) w) simp
    let ?mb = "branch_step pb ml l (inner ! l) h mb"
    have wk: "pb \<longrightarrow> walk_ok H xs pos ?n (width ?n (Suc l) - 1) (Suc l) ml ?mb"
      using walk_ok_step [OF _ q _ order_refl p, of H pos ml mb] False less.prems(5)
      by (auto simp: inner less.prems(4) w)
    have l31: "Suc l \<le> 31"
    proof (rule ccontr)
      assume "\<not> Suc l \<le> 31"
      then have "l = 31" using less.prems(2) by simp
      then have "?q * 2 ^ 31 \<le> 2 ^ 31" using width_mult_le [OF assms(2), of 31] by simp
      then have "?q \<le> 1" by simp
      then show False using q False by (cases "?q") auto
    qed
    have "32 - Suc l < 32 - l" using l by simp
    from less.hyps [OF this nd l31 c h wk] obtain L mb' where L: "Suc l \<le> L" "L \<le> 31"
      "odd (width ?n L)" "\<not> 2 ^ L dvd ?n" "c = width ?n L * 2 ^ L"
      "\<forall>k. Suc l \<le> k \<longrightarrow> k < L \<longrightarrow> width ?n k \<noteq> 1"
      "propagate H pb inner ml (of_nat c) (Suc l) (H (inner ! l) h) ?mb = Inr (L, tnode H xs L (width ?n L - 1), mb')"
      "pb \<longrightarrow> walk_ok H xs pos ?n (width ?n L - 1) L ml mb'" by blast
    have "propagate H pb inner ml (of_nat c) l h mb = propagate H pb inner ml (of_nat c) (Suc l) (H (inner ! l) h) ?mb"
      using l bit False by (subst propagate.simps) simp
    moreover have "\<forall>k. l \<le> k \<longrightarrow> k < L \<longrightarrow> width ?n k \<noteq> 1"
      using L(6) False by (metis Suc_leI le_neq_implies_less odd_one)
    ultimately show ?thesis using L by (intro exI [of _ L] exI [of _ mb']) auto
  qed
qed

definition head_ok :: "combine \<Rightarrow> bytes list \<Rightarrow> nat \<Rightarrow> nat \<Rightarrow> int \<Rightarrow> bool \<Rightarrow> bytes list \<Rightarrow> bool" where
  "head_ok H xs pos l matchlevel matchh branch \<longleftrightarrow>
     (if matchh then pos div 2 ^ l = width (length xs) l - 1 \<and> branch = map (sib H xs pos) [0..<l]
      else match_ok H xs pos (length xs) (Suc l) matchlevel branch)"

lemma head_ok_top:
  assumes "head_ok H xs pos l ml matchh branch" "width (length xs) l = 1" "pos < length xs"
  shows "branch = map (sib H xs pos) [0..<l]"
proof (cases matchh)
  case True
  then show ?thesis using assms(1) by (simp add: head_ok_def)
next
  case False
  then obtain m where m: "Suc l \<le> m" "odd (length xs div 2 ^ m)"
    using assms(1,3) by (auto simp: head_ok_def match_ok_def)
  have "length xs \<le> 2 ^ l"
    using assms(2) dvd_mult_div_cancel [of "2 ^ l" "length xs"]
    by (auto simp: width_def div_eq_0_iff less_imp_le split: if_splits)
  also have "(2::nat) ^ l < 2 ^ m" using m(1) by simp
  finally show ?thesis using m(2) by simp
qed

lemma head_ok_double:
  assumes "head_ok H xs pos l ml matchh branch" "width (length xs) l = 2 * r + 1" "pos < length xs"
  shows "walk_ok H xs pos (length xs) r (Suc l) ml
    (matchh, if matchh then branch @ [tnode H xs l (2 * r)] else branch)"
proof (cases matchh)
  case True
  then have "pos div 2 ^ l = 2 * r" using assms(1,2) by (simp add: head_ok_def)
  then have "pos div 2 ^ Suc l = r" "sib H xs pos l = tnode H xs l (2 * r)"
    using assms(2) unfolding div_pow_Suc by (simp_all add: sib_def)
  then show ?thesis using True assms(1) by (simp add: head_ok_def)
next
  case False
  then show ?thesis using assms(1,3) by (simp add: head_ok_def)
qed

lemma sweep_spec:
  assumes "inner_ok H xs (length xs) inner" "length xs \<le> 2 ^ 31" "0 < length xs" "pb \<longrightarrow> pos < length xs"
    and "odd (width (length xs) l)" "l \<le> 31" "c = width (length xs) l * 2 ^ l"
    and "h = tnode H xs l (width (length xs) l - 1)"
    and "pb \<longrightarrow> head_ok H xs pos l ml matchh branch"
  shows "\<exists>D branch'. l \<le> D \<and> width (length xs) D = 1 \<and> (\<forall>k. l \<le> k \<longrightarrow> k < D \<longrightarrow> width (length xs) k \<noteq> 1) \<and>
    sweep H pb inner ml (of_nat c) l h matchh branch = Inr (tnode H xs D 0, branch') \<and>
    (pb \<longrightarrow> branch' = map (sib H xs pos) [0..<D])"
  using assms(5-9)
proof (induction "32 - l" arbitrary: l h c matchh branch rule: less_induct)
  case less
  let ?n = "length xs" and ?w = "width (length xs) l"
  have c31: "c \<le> 2 ^ 31" using width_mult_le [OF assms(2) less.prems(2)] less.prems(3) by simp
  have eq: "(of_nat c :: u32) = push_bit l 1 \<longleftrightarrow> ?w = 1"
  proof -
    have "(2::nat) ^ l \<le> 2 ^ 31" using less.prems(2) by (intro power_increasing) auto
    then have "(of_nat c :: u32) = of_nat (2 ^ l) \<longleftrightarrow> c = 2 ^ l"
      using c31 less.prems(2) by (simp only: word_of_nat_eq_iff) (simp add: take_bit_nat_eq_self)
    then show ?thesis using less.prems(3) by (simp add: push_bit_eq_mult)
  qed
  show ?case
  proof (cases "?w = 1")
    case True
    then have "sweep H pb inner ml (of_nat c) l h matchh branch = Inr (tnode H xs l 0, branch)"
      using eq less.prems(2,4) by (subst sweep.simps) simp
    then show ?thesis using True less.prems(5) head_ok_top [OF _ True] assms(4) by (intro exI [of _ l]) auto
  next
    case False
    obtain r where r: "?w = 2 * r + 1" using less.prems(1) by (auto elim: oddE)
    have w: "width ?n (Suc l) = r + 1" by (simp add: width_Suc r)
    have l31: "Suc l \<le> 31"
    proof (rule ccontr)
      assume "\<not> Suc l \<le> 31"
      then have "l = 31" using less.prems(2) by simp
      then have "?w * 2 ^ 31 \<le> 2 ^ 31" using width_mult_le [OF assms(2), of 31] by simp
      then show False using r False by simp
    qed
    have nd: "\<not> 2 ^ Suc l dvd ?n" unfolding dvd_pow_Suc using less.prems(1) by (auto simp: width_def)
    have c: "c + 2 ^ l = width ?n (Suc l) * 2 ^ Suc l" using less.prems(3) r w by (simp add: algebra_simps)
    have h: "H h h = tnode H xs (Suc l) (width ?n (Suc l) - 1)" using r w by (simp add: less.prems(4) tnode.simps)
    let ?b = "if pb \<and> matchh then branch @ [h] else branch"
    have wk: "pb \<longrightarrow> walk_ok H xs pos ?n (width ?n (Suc l) - 1) (Suc l) ml (matchh, ?b)"
    proof
      assume pb
      then have "head_ok H xs pos l ml matchh branch" "pos < ?n" using less.prems(5) assms(4) by auto
      from head_ok_double [OF this(1) r this(2)] show "walk_ok H xs pos ?n (width ?n (Suc l) - 1) (Suc l) ml (matchh, ?b)"
        using \<open>pb\<close> w r by (cases matchh) (simp_all add: less.prems(4) del: walk_ok.simps)
    qed
    from propagate_spec [OF assms(1-3) nd l31 c h wk]
    obtain L mh' b' where L: "Suc l \<le> L" "L \<le> 31" "odd (width ?n L)" "\<not> 2 ^ L dvd ?n" "c + 2 ^ l = width ?n L * 2 ^ L"
      "\<forall>k. Suc l \<le> k \<longrightarrow> k < L \<longrightarrow> width ?n k \<noteq> 1"
      "propagate H pb inner ml (of_nat (c + 2 ^ l)) (Suc l) (H h h) (matchh, ?b) = Inr (L, tnode H xs L (width ?n L - 1), mh', b')"
      "pb \<longrightarrow> walk_ok H xs pos ?n (width ?n L - 1) L ml (mh', b')" by (metis surj_pair)
    have "even (?n div 2 ^ L)" using L(3,4) by (simp add: width_def)
    then have hd: "pb \<longrightarrow> head_ok H xs pos L ml mh' b'"
      using L(8) assms(4) unfolding head_ok_def walk_ok.simps match_ok_def by (metis Suc_leI le_neq_implies_less not_le)
    have "32 - L < 32 - l" using L(1,2) by simp
    from less.hyps [OF this L(3,2,5) refl hd] obtain D branch' where D: "L \<le> D" "width ?n D = 1"
      "\<forall>k. L \<le> k \<longrightarrow> k < D \<longrightarrow> width ?n k \<noteq> 1"
      "sweep H pb inner ml (of_nat (c + 2 ^ l)) L (tnode H xs L (width ?n L - 1)) mh' b' = Inr (tnode H xs D 0, branch')"
      "pb \<longrightarrow> branch' = map (sib H xs pos) [0..<D]" by blast
    have "sweep H pb inner ml (of_nat c) l h matchh branch = Inr (tnode H xs D 0, branch')"
      using eq False less.prems(2) L(7) D(4) by (subst sweep.simps) (simp add: Let_def push_bit_eq_mult)
    moreover have "\<forall>k. l \<le> k \<longrightarrow> k < D \<longrightarrow> width ?n k \<noteq> 1"
      using L(6) D(3) False by (metis Suc_leI le_neq_implies_less not_le)
    moreover have "l \<le> D" using L(1) D(1) by simp
    ultimately show ?thesis using D(2,5) by blast
  qed
qed

section \<open>The reference tree\<close>

text \<open>The tree as lists of hashes, one list per level, as the comment at the head of the file draws it.\<close>

fun next_level :: "combine \<Rightarrow> bytes list \<Rightarrow> bytes list" where
  "next_level H [] = []"
| "next_level H [x] = [H x x]"
| "next_level H (x # y # zs) = H x y # next_level H zs"

lemma length_next_level [simp]: "length (next_level H xs) = (length xs + 1) div 2"
  by (induction H xs rule: next_level.induct) auto

function tree_root :: "combine \<Rightarrow> bytes list \<Rightarrow> bytes" where
  "tree_root H xs = (case xs of [] \<Rightarrow> base_blob_new 32 | [x] \<Rightarrow> x | _ \<Rightarrow> tree_root H (next_level H xs))"
  by pat_completeness auto
termination by (relation "measure (\<lambda>(H, xs). length xs)") auto

declare tree_root.simps [simp del]

lemma next_level_nth:
  "i < (length xs + 1) div 2 \<Longrightarrow> next_level H xs ! i = H (xs ! (2 * i)) (xs ! min (2 * i + 1) (length xs - 1))"
proof (induction H xs arbitrary: i rule: next_level.induct)
  case (3 H x y zs)
  then show ?case by (cases i) (auto simp: min_def nth_Cons')
qed auto

lemma level_Suc:
  assumes "xs \<noteq> []"
  shows "next_level H (map (tnode H xs k) [0..<width (length xs) k]) = map (tnode H xs (Suc k)) [0..<width (length xs) (Suc k)]"
proof (rule nth_equalityI)
  show "length (next_level H (map (tnode H xs k) [0..<width (length xs) k])) =
    length (map (tnode H xs (Suc k)) [0..<width (length xs) (Suc k)])" by (simp add: width_Suc)
  fix i assume "i < length (next_level H (map (tnode H xs k) [0..<width (length xs) k]))"
  moreover have "0 < width (length xs) k" using assms by (intro width_pos) simp
  ultimately show "next_level H (map (tnode H xs k) [0..<width (length xs) k]) ! i =
    map (tnode H xs (Suc k)) [0..<width (length xs) (Suc k)] ! i"
    by (simp add: next_level_nth width_Suc tnode.simps)
qed

lemma tree_root_level:
  assumes "xs \<noteq> []" "width (length xs) D = 1" "k \<le> D" "\<forall>j. k \<le> j \<longrightarrow> j < D \<longrightarrow> width (length xs) j \<noteq> 1"
  shows "tree_root H (map (tnode H xs k) [0..<width (length xs) k]) = tnode H xs D 0"
  using assms(3,4)
proof (induction "D - k" arbitrary: k)
  case 0
  then show ?case using assms(2) by (subst tree_root.simps) simp
next
  case (Suc d)
  let ?l = "map (tnode H xs k) [0..<width (length xs) k]"
  have "width (length xs) k \<noteq> 1" "width (length xs) k \<noteq> 0"
    using Suc.prems Suc.hyps(2) width_pos [of "length xs" k] assms(1) by auto
  then have "2 \<le> length ?l" by simp
  then have "\<exists>a b r. ?l = a # b # r" by (metis Suc_le_length_iff numeral_2_eq_2)
  then have "tree_root H ?l = tree_root H (next_level H ?l)"
    by (subst tree_root.simps) auto
  then show ?case using Suc.hyps(1) [of "Suc k"] Suc.hyps(2) Suc.prems by (simp add: level_Suc [OF assms(1)])
qed

lemma MerkleComputation_spec:
  assumes "xs \<noteq> []" "length xs \<le> 2 ^ 31" "pos < 2 ^ 32" "pb \<longrightarrow> pos < length xs"
  shows "\<exists>D branch. width (length xs) D = 1 \<and> (\<forall>j < D. width (length xs) j \<noteq> 1) \<and> tree_root H xs = tnode H xs D 0 \<and>
    MerkleComputation H xs (of_nat pos) pb = Inr (tnode H xs D 0, duplicate H xs (length xs), branch) \<and>
    (pb \<longrightarrow> branch = map (sib H xs pos) [0..<D])"
proof -
  let ?n = "length xs"
  have n: "0 < ?n" "?n < 2 ^ 32" using assms(1,2) by auto
  let ?st = "\<lparr>mk_inner = replicate 32 (base_blob_new 32), mk_matchlevel = - 1, mk_mutated = False, mk_branch = []\<rparr>"
  have "leaves_ok H xs pb pos 0 ?st" by (simp add: leaves_ok_def inner_ok_def duplicate_def match_ok_def)
  from merkle_leaves_spec [OF this _ n(2) assms(3)] obtain st where
    st: "merkle_leaves H pb (of_nat pos) xs 0 ?st = Inr (of_nat ?n, st)" "leaves_ok H xs pb pos ?n st" by auto
  then have ok: "inner_ok H xs ?n (mk_inner st)" "mk_mutated st = duplicate H xs ?n"
    "pb \<longrightarrow> match_ok H xs pos ?n 0 (mk_matchlevel st) (mk_branch st)" by (auto simp: leaves_ok_def)
  from lowest_level_spec [OF n, of 0] obtain L where
    L: "lowest_level (of_nat ?n) 0 = Inr L" "L < 32" "2 ^ L dvd ?n" "odd (?n div 2 ^ L)" by auto
  have w: "width ?n L = ?n div 2 ^ L" using L(3) by (simp add: width_def)
  have h: "mk_inner st ! L = tnode H xs L (width ?n L - 1)" using ok(1) L(2,4) w by (simp add: inner_ok_def)
  have low: "\<not> odd (?n div 2 ^ m)" "width ?n m \<noteq> 1" if "m < L" for m
  proof -
    have "2 ^ Suc m dvd ?n" using that L(3) by (meson Suc_leI dvd_trans le_imp_power_dvd)
    then show "\<not> odd (?n div 2 ^ m)" "width ?n m \<noteq> 1" unfolding dvd_pow_Suc by (auto simp: width_def)
  qed
  have hd: "pb \<longrightarrow> head_ok H xs pos L (mk_matchlevel st) (mk_matchlevel st = int L) (mk_branch st)"
    using ok(3) assms(4) low(1) w unfolding head_ok_def match_ok_def
    by (metis Suc_leI linorder_neqE_nat not_le of_nat_eq_iff)
  have c: "?n = width ?n L * 2 ^ L" using w L(3) by simp
  from sweep_spec [OF ok(1) assms(2) n(1) assms(4) _ _ c h hd] w L(2,4) obtain D branch where
    D: "L \<le> D" "width ?n D = 1" "\<forall>k. L \<le> k \<longrightarrow> k < D \<longrightarrow> width ?n k \<noteq> 1"
    "sweep H pb (mk_inner st) (mk_matchlevel st) (of_nat ?n) L (mk_inner st ! L) (mk_matchlevel st = int L) (mk_branch st)
      = Inr (tnode H xs D 0, branch)" "pb \<longrightarrow> branch = map (sib H xs pos) [0..<D]" by auto
  have least: "\<forall>j. 0 \<le> j \<longrightarrow> j < D \<longrightarrow> width ?n j \<noteq> 1" using D(3) low(2) by (metis not_le)
  from tree_root_level [OF assms(1) D(2) _ this, of H] have "tree_root H xs = tnode H xs D 0"
    by (simp add: map_nth tnode.simps(1) [abs_def])
  moreover have "MerkleComputation H xs (of_nat pos) pb = Inr (tnode H xs D 0, duplicate H xs ?n, branch)"
    using D(4) st(1) L(1) ok(2) assms(1) by (simp add: MerkleComputation_def)
  ultimately show ?thesis using D(2,5) least by blast
qed

section \<open>Duplicates, branches, levels\<close>

text \<open>
  A list is mutated if two adjacent complete subtrees of the same size, the left one at an even
  place, have the same hash.
\<close>

fun full_root :: "combine \<Rightarrow> nat \<Rightarrow> bytes list \<Rightarrow> bytes" where
  "full_root H 0 xs = hd xs"
| "full_root H (Suc k) xs = H (full_root H k (take (2 ^ k) xs)) (full_root H k (drop (2 ^ k) xs))"

definition mutated_list :: "combine \<Rightarrow> bytes list \<Rightarrow> bool" where
  "mutated_list H xs \<longleftrightarrow>
     (\<exists>k i. (2 * i + 2) * 2 ^ k \<le> length xs \<and>
        full_root H k (take (2 ^ k) (drop (2 * i * 2 ^ k) xs)) =
        full_root H k (take (2 ^ k) (drop ((2 * i + 1) * 2 ^ k) xs)))"

lemma full_root_tnode:
  "(i + 1) * 2 ^ k \<le> length xs \<Longrightarrow> full_root H k (take (2 ^ k) (drop (i * 2 ^ k) xs)) = tnode H xs k i"
proof (induction k arbitrary: i)
  case 0
  then show ?case by (simp add: hd_drop_conv_nth take_Suc)
next
  case (Suc k)
  have l: "(2 * i + 1) * 2 ^ k \<le> length xs" "(2 * i + 1 + 1) * 2 ^ k \<le> length xs"
    using Suc.prems by (simp_all add: algebra_simps)
  have "(2 * i + 1 + 1) * 2 ^ k div 2 ^ k \<le> width (length xs) k"
    using l(2) by (rule div_le_width)
  then have "2 * i + 1 \<le> width (length xs) k - 1" by simp
  then have "tnode H xs (Suc k) i = H (tnode H xs k (2 * i)) (tnode H xs k (2 * i + 1))"
    by (simp add: tnode.simps min_absorb1)
  moreover have "take (2 ^ k) (take (2 ^ Suc k) (drop (i * 2 ^ Suc k) xs)) = take (2 ^ k) (drop (2 * i * 2 ^ k) xs)"
    by (simp add: ac_simps)
  moreover have "drop (2 ^ k) (take (2 ^ Suc k) (drop (i * 2 ^ Suc k) xs)) = take (2 ^ k) (drop ((2 * i + 1) * 2 ^ k) xs)"
  proof -
    have "i * 2 ^ Suc k + 2 ^ k = (2 * i + 1) * 2 ^ k" "2 ^ Suc k - 2 ^ k = (2 ^ k :: nat)" by (simp_all add: algebra_simps)
    then show ?thesis by (simp only: drop_take drop_drop add.commute)
  qed
  ultimately show ?case using Suc.IH [OF l(1)] Suc.IH [OF l(2)] by (simp only: full_root.simps)
qed

lemma mutated_list_duplicate: "duplicate H xs (length xs) \<longleftrightarrow> mutated_list H xs"
  unfolding duplicate_def mutated_list_def
proof (intro ex_cong1 conj_cong refl)
  fix k i assume "(2 * i + 2) * 2 ^ k \<le> length xs"
  then have "(2 * i + 1) * 2 ^ k \<le> length xs" "(2 * i + 1 + 1) * 2 ^ k \<le> length xs" by (simp_all add: algebra_simps)
  then show "tnode H xs k (2 * i) = tnode H xs k (2 * i + 1) \<longleftrightarrow>
      full_root H k (take (2 ^ k) (drop (2 * i * 2 ^ k) xs)) = full_root H k (take (2 ^ k) (drop ((2 * i + 1) * 2 ^ k) xs))"
    by (simp only: full_root_tnode)
qed

lemma branch_prefix:
  assumes "pos < length xs" "pos < 2 ^ 32"
  shows "ComputeMerkleRootFromBranch H (tnode H xs k (pos div 2 ^ k)) (map (sib H xs pos) [k..<D]) (of_nat (pos div 2 ^ k))
    = tnode H xs (max k D) (pos div 2 ^ max k D)"
proof (induction "D - k" arbitrary: k)
  case 0
  then show ?case by simp
next
  case (Suc d)
  let ?p = "pos div 2 ^ k"
  have up: "[k..<D] = k # [Suc k..<D]" using Suc.hyps(2) by (simp add: upt_conv_Cons)
  have lt: "?p < 2 ^ 32" using assms(2) by (rule le_less_trans [OF div_le_dividend])
  have odd: "(of_nat ?p :: u32) AND 1 \<noteq> 0 \<longleftrightarrow> odd ?p"
    using test_bit_nat [of 0 ?p] by simp
  have half: "drop_bit 1 (of_nat ?p :: u32) = of_nat (pos div 2 ^ Suc k)"
    unfolding div_pow_Suc word_unat_eq_iff unat_drop_bit_eq
    using lt by (simp add: unat_of_nat take_bit_nat_eq_self drop_bit_eq_div)
  have "Suc ?p \<le> width (length xs) k"
  proof -
    have "?p \<le> (length xs - 1) div 2 ^ k" using assms(1) by (intro div_le_mono) simp
    moreover have "0 < length xs div 2 ^ k" if "2 ^ k dvd length xs"
      using that assms(1) by (metis dvd_div_eq_0_iff gr0I less_nat_zero_code)
    moreover have "(length xs - 1) div 2 ^ k \<le> length xs div 2 ^ k" by (intro div_le_mono) simp
    moreover have "0 < length xs" by (rule le_less_trans [OF le0 assms(1)])
    ultimately show ?thesis
      using pred_div [of "length xs" k] by (cases "2 ^ k dvd length xs") (auto simp: width_def)
  qed
  then have w: "?p \<le> width (length xs) k - 1" by simp
  have "(if odd ?p then H (sib H xs pos k) (tnode H xs k ?p) else H (tnode H xs k ?p) (sib H xs pos k))
      = tnode H xs (Suc k) (pos div 2 ^ Suc k)"
    unfolding div_pow_Suc using w by (auto simp: sib_def Let_def tnode.simps elim!: evenE oddE)
  then show ?case using Suc.hyps(1) [of "Suc k"] Suc.hyps(2) up odd half by (auto simp: max_def)
qed

text \<open>The number of levels above the leaves.\<close>

fun levels :: "nat \<Rightarrow> nat" where
  "levels n = (if n \<le> 1 then 0 else Suc (levels ((n + 1) div 2)))"

declare levels.simps [simp del]

lemma levels_width:
  assumes "width n D = 1" "\<forall>j < D. width n j \<noteq> 1" "k \<le> D" "0 < n"
  shows "levels (width n k) = D - k"
  using assms(3)
proof (induction "D - k" arbitrary: k)
  case 0
  then show ?case using assms(1) by (simp add: levels.simps)
next
  case (Suc d)
  have "1 < width n k" using Suc.hyps(2) assms(2) width_pos [OF assms(4), of k] by (metis Suc_lessI less_diff_conv nat_less_le zero_less_Suc add_0 One_nat_def)
  then show ?case using Suc.hyps(1) [of "Suc k", unfolded width_Suc] Suc.hyps(2) by (subst levels.simps) simp
qed

lemma ComputeMerkleRoot_spec:
  assumes "xs \<noteq> []" "length xs \<le> 2 ^ 31"
  shows "width (length xs) (levels (length xs)) = 1" "tree_root H xs = tnode H xs (levels (length xs)) 0"
    "ComputeMerkleRoot H xs = Inr (tnode H xs (levels (length xs)) 0, mutated_list H xs)"
proof -
  have m1: "(of_nat (2 ^ 32 - 1) :: u32) = - 1" by simp
  from MerkleComputation_spec [OF assms, of "2 ^ 32 - 1" False H, unfolded m1] obtain D branch where
    D: "width (length xs) D = 1" "\<forall>j < D. width (length xs) j \<noteq> 1" "tree_root H xs = tnode H xs D 0"
    "MerkleComputation H xs (- 1) False = Inr (tnode H xs D 0, duplicate H xs (length xs), branch)" by auto
  have "levels (length xs) = D" using levels_width [OF D(1,2), of 0] assms(1) by simp
  then show "width (length xs) (levels (length xs)) = 1" "tree_root H xs = tnode H xs (levels (length xs)) 0"
    "ComputeMerkleRoot H xs = Inr (tnode H xs (levels (length xs)) 0, mutated_list H xs)"
    using D by (simp_all add: ComputeMerkleRoot_def mutated_list_duplicate)
qed

section \<open>What a root commits to\<close>

text \<open>The pairs of hashes that the tree over a list hands to the hash function.\<close>

definition hashed :: "combine \<Rightarrow> bytes list \<Rightarrow> bytes \<times> bytes \<Rightarrow> bool" where
  "hashed H xs p \<longleftrightarrow>
     (\<exists>k i. k < levels (length xs) \<and> i < width (length xs) (Suc k) \<and>
        p = (tnode H xs k (2 * i), tnode H xs k (min (2 * i + 1) (width (length xs) k - 1))))"

definition collision :: "combine \<Rightarrow> bytes list \<Rightarrow> bytes list \<Rightarrow> bool" where
  "collision H xs ys \<longleftrightarrow>
     (\<exists>a b c d. (hashed H xs (a, b) \<or> hashed H ys (a, b)) \<and> (hashed H xs (c, d) \<or> hashed H ys (c, d)) \<and>
        (a, b) \<noteq> (c, d) \<and> H a b = H c d)"

lemma hashedI:
  "k < levels (length xs) \<Longrightarrow> i < width (length xs) (Suc k) \<Longrightarrow>
   hashed H xs (tnode H xs k (2 * i), tnode H xs k (min (2 * i + 1) (width (length xs) k - 1)))"
  unfolding hashed_def by blast

lemma children_eq:
  assumes "\<not> collision H xs ys" "tnode H us (Suc k) i = tnode H vs (Suc k) j"
    and "us = xs \<or> us = ys" "vs = xs \<or> vs = ys"
    and "k < levels (length us)" "i < width (length us) (Suc k)" "k < levels (length vs)" "j < width (length vs) (Suc k)"
  shows "tnode H us k (2 * i) = tnode H vs k (2 * j)"
    "tnode H us k (min (2 * i + 1) (width (length us) k - 1)) = tnode H vs k (min (2 * j + 1) (width (length vs) k - 1))"
  using assms(1,2,3,4) hashedI [OF assms(5,6), of H] hashedI [OF assms(7,8), of H]
  unfolding collision_def tnode.simps by blast+

lemma nodes_agree:
  assumes nc: "\<not> collision H xs ys" and D: "D = levels (length xs)" "D = levels (length ys)"
    and top: "tnode H xs D 0 = tnode H ys D 0" and "k \<le> D"
    and w: "width (length xs) D = 1" "width (length ys) D = 1"
    and "i < width (length xs) k" "i < width (length ys) k"
  shows "tnode H xs k i = tnode H ys k i"
  using assms(5,8,9)
proof (induction "D - k" arbitrary: k i)
  case 0
  then show ?case using top w by simp
next
  case (Suc d)
  let ?j = "i div 2"
  have j: "?j < width (length xs) (Suc k)" "?j < width (length ys) (Suc k)"
    using Suc.prems(2,3) by (auto simp: width_Suc)
  then have "tnode H xs (Suc k) ?j = tnode H ys (Suc k) ?j" using Suc.hyps(1) [of "Suc k"] Suc.hyps(2) by simp
  from children_eq [OF nc this _ _ _ j(1) _ j(2)] Suc.hyps(2) D have "tnode H xs k (2 * ?j) = tnode H ys k (2 * ?j)"
    "tnode H xs k (min (2 * ?j + 1) (width (length xs) k - 1)) = tnode H ys k (min (2 * ?j + 1) (width (length ys) k - 1))"
    by simp_all
  moreover have "min (2 * ?j + 1) (n - 1) = i" if "odd i" "i < n" for n using that by (auto simp: min_def elim!: oddE)
  ultimately show ?case using Suc.prems(2,3) by (cases "even i") auto
qed

lemma padded_duplicate:
  assumes nc: "\<not> collision H xs ys" and "k \<le> levels (length ys)"
    and "tnode H ys k a = tnode H ys k b" "(a + 1) * 2 ^ k \<le> length ys"
    and "b = width (length ys) k - 1" "length ys < (b + 1) * 2 ^ k" "ys \<noteq> []"
  shows "duplicate H ys (length ys)"
  using assms(2-6)
proof (induction k arbitrary: a b)
  case 0
  then show ?case by simp
next
  case (Suc k)
  let ?w = "width (length ys) k"
  have pos: "0 < ?w" "0 < width (length ys) (Suc k)" using assms(7) by (simp_all add: width_pos)
  have l: "(2 * a + 2) * 2 ^ k \<le> length ys" using Suc.prems(3) by (simp add: algebra_simps)
  then have "(2 * a + 2) * 2 ^ k div 2 ^ k \<le> ?w" by (rule div_le_width)
  then have a: "2 * a + 2 \<le> ?w" by simp
  have "min (2 * a + 1) (?w - 1) = 2 * a + 1" using a by simp
  moreover have "a < width (length ys) (Suc k)" "b < width (length ys) (Suc k)"
    using a Suc.prems(4) pos by (auto simp: width_Suc)
  ultimately have eq: "tnode H ys k (2 * a) = tnode H ys k (2 * b)"
    "tnode H ys k (2 * a + 1) = tnode H ys k (min (2 * b + 1) (?w - 1))"
    using children_eq [OF nc Suc.prems(2)] Suc.prems(1) by simp_all
  have b: "?w = 2 * b + 1 \<or> ?w = 2 * b + 2" using Suc.prems(4) pos by (auto simp: width_Suc)
  then show ?case
  proof
    assume "?w = 2 * b + 1"
    then have "tnode H ys k (2 * a) = tnode H ys k (2 * a + 1)" using eq by simp
    then show ?thesis using l unfolding duplicate_def by blast
  next
    assume w: "?w = 2 * b + 2"
    show ?thesis
    proof (rule Suc.IH [of "2 * a + 1" "2 * b + 1"])
      show "k \<le> levels (length ys)" using Suc.prems(1) by simp
      show "tnode H ys k (2 * a + 1) = tnode H ys k (2 * b + 1)" using eq(2) w by simp
      show "(2 * a + 1 + 1) * 2 ^ k \<le> length ys" using l by (simp add: algebra_simps)
      show "2 * b + 1 = ?w - 1" using w by simp
      show "length ys < (2 * b + 1 + 1) * 2 ^ k" using Suc.prems(5) by (simp add: algebra_simps)
    qed
  qed
qed

lemma width_mono: "n \<le> m \<Longrightarrow> width n k \<le> width m k"
  by (induction k) (auto simp: width_Suc)

lemma halves:
  fixes a b :: nat
  assumes "(a + 1) div 2 = (b + 1) div 2" "a < b"
  shows "a = 2 * (a div 2) + 1" "b = 2 * (a div 2) + 2"
proof -
  obtain i where "a = 2 * i \<or> a = 2 * i + 1" by (metis oddE evenE)
  moreover obtain j where "b = 2 * j \<or> b = 2 * j + 1" by (metis oddE evenE)
  ultimately show "a = 2 * (a div 2) + 1" "b = 2 * (a div 2) + 2" using assms by auto
qed

lemma shorter_duplicate:
  assumes nc: "\<not> collision H xs ys" and D: "D = levels (length xs)" "D = levels (length ys)"
    and top: "tnode H xs D 0 = tnode H ys D 0" and "ys \<noteq> []"
    and w: "width (length xs) D = 1" "width (length ys) D = 1"
    and "length xs < length ys"
  shows "duplicate H ys (length ys)"
proof -
  let ?P = "\<lambda>k. width (length xs) k = width (length ys) k"
  define k where "k = (LEAST k. ?P k)"
  have P: "?P k" unfolding k_def by (rule LeastI [of ?P D]) (simp add: w)
  have "k \<noteq> 0" using P assms(8) by (cases k) auto
  then obtain l where l: "k = Suc l" by (cases k) auto
  have ne: "\<not> ?P l" using not_less_Least [of l ?P] l by (simp add: k_def)
  have "k \<le> D" unfolding k_def by (rule Least_le) (simp add: w)
  have le: "width (length xs) l \<le> width (length ys) l" using assms(8) by (intro width_mono) simp
  obtain i where i: "width (length xs) l = 2 * i + 1" "width (length ys) l = 2 * i + 2"
  proof -
    have h: "(width (length xs) l + 1) div 2 = (width (length ys) l + 1) div 2" using P l by (simp add: width_Suc)
    have "width (length xs) l < width (length ys) l" using ne le by simp
    from that [OF halves [OF h this]] show thesis .
  qed
  have lt: "i < width (length xs) (Suc l)" "i < width (length ys) (Suc l)" using i by (simp_all add: width_Suc)
  then have kn: "tnode H xs (Suc l) i = tnode H ys (Suc l) i"
    using \<open>k \<le> D\<close> l by (intro nodes_agree [OF nc D top _ w]) auto
  have eq: "tnode H ys l (2 * i) = tnode H ys l (2 * i + 1)"
    using children_eq [OF nc kn _ _ _ lt(1) _ lt(2)] \<open>k \<le> D\<close> l D i by auto
  have full: "(2 * i + 1) * 2 ^ l \<le> length ys"
  proof -
    have "2 * i + 1 \<le> length ys div 2 ^ l" using i(2) by (auto simp: width_def split: if_splits)
    then show ?thesis by (rule order_trans [OF mult_le_mono1 div_times_less_eq_dividend])
  qed
  show ?thesis
  proof (cases "(2 * i + 2) * 2 ^ l \<le> length ys")
    case True
    then show ?thesis using eq unfolding duplicate_def by blast
  next
    case False
    then show ?thesis using padded_duplicate [OF nc _ eq full _ _ assms(5)] i(2) \<open>k \<le> D\<close> l D by simp
  qed
qed

section \<open>Properties\<close>

text \<open>
  Property C10.  For up to \<open>2 ^ 31\<close> leaves the constant-space \<open>ComputeMerkleRoot\<close> shifts by no more than
  31 bits, stays inside its array of 32 pending hashes, and returns the root of the tree built level by
  level, in which the last node of an odd level is paired with itself; its flag says exactly whether two
  neighbouring complete subtrees of the same size, which would be siblings, have the same hash.
\<close>

theorem ComputeMerkleRoot_correct:
  assumes "length xs \<le> 2 ^ 31"
  shows "ComputeMerkleRoot H xs = Inr (tree_root H xs, mutated_list H xs)"
proof (cases "xs = []")
  case True
  then show ?thesis
    by (simp add: ComputeMerkleRoot_def MerkleComputation_def mutated_list_def tree_root.simps)
next
  case False
  then show ?thesis using ComputeMerkleRoot_spec [OF False assms] by simp
qed

theorem ComputeMerkleRoot_correct_witness:
  "ComputeMerkleRoot (\<lambda>a b. a @ b) [[1], [2], [3], [4], [5], [6], [5], [6]] =
     Inr (tree_root (\<lambda>a b. a @ b) [[1], [2], [3], [4], [5], [6], [5], [6]],
          mutated_list (\<lambda>a b. a @ b) [[1], [2], [3], [4], [5], [6], [5], [6]])"
  by (rule ComputeMerkleRoot_correct) simp

text \<open>
  Property.  The branch \<open>ComputeMerkleBranch\<close> returns for a position proves the leaf there: folding
  it with \<open>ComputeMerkleRootFromBranch\<close> gives the root of the tree.
\<close>

theorem MerkleBranch_proves_leaf:
  assumes "length xs \<le> 2 ^ 31" "unat position < length xs"
  shows "\<exists>branch. ComputeMerkleBranch H xs position = Inr branch \<and> length branch = levels (length xs) \<and>
    ComputeMerkleRootFromBranch H (xs ! unat position) branch position = tree_root H xs"
proof -
  let ?p = "unat position"
  have ne: "xs \<noteq> []" using assms(2) by auto
  have p: "of_nat ?p = position" "?p < 2 ^ 32" using unat_lt2p [of position] by simp_all
  from MerkleComputation_spec [OF ne assms(1) p(2), of True H] assms(2) obtain D where
    D: "width (length xs) D = 1" "\<forall>j < D. width (length xs) j \<noteq> 1" "tree_root H xs = tnode H xs D 0"
    "MerkleComputation H xs position True = Inr (tnode H xs D 0, duplicate H xs (length xs), map (sib H xs ?p) [0..<D])"
    by (auto simp: p(1))
  have "levels (length xs) = D" using levels_width [OF D(1,2), of 0] ne by simp
  moreover have "?p div 2 ^ D = 0"
  proof -
    have "length xs \<le> 2 ^ D"
      using D(1) dvd_mult_div_cancel [of "2 ^ D" "length xs"]
      by (auto simp: width_def div_eq_0_iff less_imp_le split: if_splits)
    then show ?thesis using assms(2) by simp
  qed
  ultimately show ?thesis
    using branch_prefix [OF assms(2) p(2), of H 0 D] D(3,4) by (simp add: ComputeMerkleBranch_def p(1))
qed

theorem MerkleBranch_proves_leaf_witness:
  "\<exists>branch. ComputeMerkleBranch (\<lambda>a b. 0 # a @ b) [[1], [2], [3]] 2 = Inr branch \<and> length branch = levels 3 \<and>
    ComputeMerkleRootFromBranch (\<lambda>a b. 0 # a @ b) [3] branch 2 = tree_root (\<lambda>a b. 0 # a @ b) [[1], [2], [3]]"
  using MerkleBranch_proves_leaf [of "[[1], [2], [3]]" 2 "\<lambda>a b. 0 # a @ b"] by (simp add: numeral_3_eq_3)

text \<open>
  Property C11.  For a given number of levels, a root that \<open>ComputeMerkleRoot\<close> computes without raising its
  flag determines the leaves: two lists (not empty, at most \<open>2 ^ 31\<close> leaves) whose trees have the same number
  of levels, with the same root and the flag down, are equal, or among the pairs the two trees
  hash there is a collision of the hash function.  So the flag catches every way of changing the list of
  transactions by duplicating leaves within a tree of the same height (CVE-2012-2459).  The number of
  levels matters: the root does not tell an inner node from a leaf, so a list of inner nodes has
  the root of the taller tree.
\<close>

theorem ComputeMerkleRoot_binding:
  assumes "length xs \<le> 2 ^ 31" "length ys \<le> 2 ^ 31" "xs \<noteq> []" "ys \<noteq> []" "levels (length xs) = levels (length ys)"
    and "ComputeMerkleRoot H xs = Inr (r, False)" "ComputeMerkleRoot H ys = Inr (r, False)"
  shows "xs = ys \<or> collision H xs ys"
proof (rule disjCI)
  assume nc: "\<not> collision H xs ys"
  then have nc': "\<not> collision H ys xs" unfolding collision_def by blast
  let ?D = "levels (length xs)"
  note x = ComputeMerkleRoot_spec [OF assms(3,1)]
  note y = ComputeMerkleRoot_spec [OF assms(4,2), folded assms(5)]
  have top: "tnode H xs ?D 0 = tnode H ys ?D 0" using x(3) [of H] y(3) [of H] assms(6,7) by simp
  have nd: "\<not> duplicate H xs (length xs)" "\<not> duplicate H ys (length ys)"
    using x(3) [of H] y(3) [of H] assms(6,7) by (simp_all add: mutated_list_duplicate)
  have len: "length xs = length ys"
    using shorter_duplicate [OF nc refl assms(5) top assms(4) x(1) y(1)]
      shorter_duplicate [OF nc' assms(5) refl top [symmetric] assms(3) y(1) x(1)] nd by (meson linorder_neqE_nat)
  show "xs = ys"
    using len nodes_agree [OF nc refl assms(5) top le0 x(1) y(1)] by (intro nth_equalityI) simp_all
qed

theorem ComputeMerkleRoot_binding_witness:
  "ComputeMerkleRoot (\<lambda>a b. [7]) [[1], [2], [3]] = Inr ([7], False) \<and>
   ComputeMerkleRoot (\<lambda>a b. [7]) [[1], [2], [4]] = Inr ([7], False) \<and>
   collision (\<lambda>a b. [7]) [[1], [2], [3]] [[1], [2], [4]]"
proof -
  have 3: "ComputeMerkleRoot (\<lambda>a b. [7]) [[1], [2], [3]] = Inr ([7], False)" by code_simp
  have 4: "ComputeMerkleRoot (\<lambda>a b. [7]) [[1], [2], [4]] = Inr ([7], False)" by code_simp
  have "[[1], [2], [3]] = [[1], [2], [4 :: u8]] \<or> collision (\<lambda>a b. [7]) [[1], [2], [3]] [[1], [2], [4]]"
    by (rule ComputeMerkleRoot_binding [OF _ _ _ _ _ 3 4]) simp_all
  then show ?thesis using 3 4 by simp
qed

end
