(* ===== verification/Undo.thy ===== *)
theory Undo
  imports Compressor CoinsFlush
begin

text \<open>
  The undo records of a block: \<open>undo.h\<close>.  For each input of each transaction but the coinbase the
  block's undo data holds the coin the input spent, in the compact form of \<open>compressor.h\<close>.
\<close>

section \<open>Definitions\<close>

record CTxUndo =
  vprevout :: "Coin list"

record CBlockUndo =
  vtxundo :: "CTxUndo list"

definition TxInUndoFormatter_Ser :: "(bytes \<Rightarrow> bool) \<Rightarrow> 's sink_ops \<Rightarrow> 's \<Rightarrow> Coin \<Rightarrow> 's res" where
  "TxInUndoFormatter_Ser isFullyValid W s txout =
     bindE (WriteVarInt 4 W s (unat (Coin_code txout))) (\<lambda>s.
     bindE (if coin_nHeight txout > 0 then ser_writedata8 W s 0 else Inr s) (\<lambda>s.
       TxOutCompression_Ser isFullyValid W s (coin_out txout)))"

definition TxInUndoFormatter_Unser ::
  "(bytes \<Rightarrow> bytes option) \<Rightarrow> ('s \<Rightarrow> nat \<Rightarrow> 's res) \<Rightarrow> 's source_ops \<Rightarrow> 's \<Rightarrow> (Coin \<times> 's) res" where
  "TxInUndoFormatter_Unser decompress ignore R s =
     bindE (ReadVarInt uint32_max R s) (\<lambda>(v, s).
       let nCode = of_nat v :: u32;
           height = drop_bit 2 nCode
       in bindE (if height > 0 then bindE (ReadVarInt uint32_max R s) (\<lambda>(nVersionDummy, s). Inr ((), s)) else Inr ((), s))
            (\<lambda>(u, s).
          bindE (TxOutCompression_Unser decompress ignore R s) (\<lambda>(txout, s).
            Inr (\<lparr>fCoinBase = (nCode AND 2 \<noteq> 0), fCoinStake = (nCode AND 1 \<noteq> 0), coin_out = txout,
                  coin_nHeight = height\<rparr>, s))))"

text \<open>The element sizes are those the vector templates allocate with.\<close>

definition CTxUndo_Ser :: "(bytes \<Rightarrow> bool) \<Rightarrow> 's sink_ops \<Rightarrow> 's \<Rightarrow> CTxUndo \<Rightarrow> 's res" where
  "CTxUndo_Ser isFullyValid W s obj = VectorFormatter_Ser (TxInUndoFormatter_Ser isFullyValid W) W s (vprevout obj)"

definition CTxUndo_Unser ::
  "nat \<Rightarrow> (bytes \<Rightarrow> bytes option) \<Rightarrow> ('s \<Rightarrow> nat \<Rightarrow> 's res) \<Rightarrow> 's source_ops \<Rightarrow> 's \<Rightarrow> (CTxUndo \<times> 's) res" where
  "CTxUndo_Unser sizeof_Coin decompress ignore R s =
     bindE (VectorFormatter_Unser sizeof_Coin (TxInUndoFormatter_Unser decompress ignore R) R s) (\<lambda>(v, s).
       Inr (\<lparr>vprevout = v\<rparr>, s))"

definition CBlockUndo_Ser :: "(bytes \<Rightarrow> bool) \<Rightarrow> 's sink_ops \<Rightarrow> 's \<Rightarrow> CBlockUndo \<Rightarrow> 's res" where
  "CBlockUndo_Ser isFullyValid W s obj = VectorFormatter_Ser (CTxUndo_Ser isFullyValid W) W s (vtxundo obj)"

definition CBlockUndo_Unser ::
  "nat \<Rightarrow> nat \<Rightarrow> (bytes \<Rightarrow> bytes option) \<Rightarrow> ('s \<Rightarrow> nat \<Rightarrow> 's res) \<Rightarrow> 's source_ops \<Rightarrow> 's \<Rightarrow> (CBlockUndo \<times> 's) res" where
  "CBlockUndo_Unser sizeof_CTxUndo sizeof_Coin decompress ignore R s =
     bindE (VectorFormatter_Unser sizeof_CTxUndo (CTxUndo_Unser sizeof_Coin decompress ignore R) R s) (\<lambda>(v, s).
       Inr (\<lparr>vtxundo = v\<rparr>, s))"

section \<open>Undo records read back\<close>

definition undo_coin_ok :: "Coin \<Rightarrow> bool" where
  "undo_coin_ok coin \<longleftrightarrow> coin_storable coin \<and> coin_ok coin"

definition undo_coin_enc :: "(bytes \<Rightarrow> bool) \<Rightarrow> Coin \<Rightarrow> bytes" where
  "undo_coin_enc fv coin =
     varint_bytes (unat (Coin_code coin)) @ (if coin_nHeight coin > 0 then [0] else []) @
     compressed_amount_enc (nValue (coin_out coin)) @ script_enc fv (scriptPubKey (coin_out coin))"

definition txundo_enc :: "(bytes \<Rightarrow> bool) \<Rightarrow> CTxUndo \<Rightarrow> bytes" where
  "txundo_enc fv u = vec_enc (undo_coin_enc fv) (vprevout u)"

definition txundo_ok :: "CTxUndo \<Rightarrow> bool" where
  "txundo_ok u \<longleftrightarrow> vec_ok undo_coin_ok (vprevout u)"

definition blockundo_enc :: "(bytes \<Rightarrow> bool) \<Rightarrow> CBlockUndo \<Rightarrow> bytes" where
  "blockundo_enc fv u = vec_enc (txundo_enc fv) (vtxundo u)"

definition blockundo_ok :: "CBlockUndo \<Rightarrow> bool" where
  "blockundo_ok u \<longleftrightarrow> vec_ok txundo_ok (vtxundo u)"

context tx_streams
begin

lemma TxOutCompression_emits:
  assumes "coin_storable coin"
  shows "emits out winv (\<lambda>s. TxOutCompression_Ser fv W s (coin_out coin))
    (compressed_amount_enc (nValue (coin_out coin)) @ script_enc fv (scriptPubKey (coin_out coin)))"
  using emits_bind [OF AmountCompression_emits ScriptCompression_emits [of "scriptPubKey (coin_out coin)" fv]] assms
  by (simp add: TxOutCompression_Ser_def coin_storable_def)

lemma undo_coin_codec:
  assumes "decompresses fv decompress"
  shows "codec W out winv R inp rinv (TxInUndoFormatter_Ser fv W) (TxInUndoFormatter_Unser decompress ignore R)
    (undo_coin_enc fv) undo_coin_ok"
proof unfold_locales
  fix coin assume "undo_coin_ok coin"
  then have ok: "coin_storable coin" "coin_ok coin" by (simp_all add: undo_coin_ok_def)
  have n: "unat (Coin_code coin) < 2 ^ (8 * 4)" "unat (Coin_code coin) \<le> uint32_max"
    using unat_lt2p [of "Coin_code coin"] by (simp_all add: uint32_max_def)
  have "emits out winv (\<lambda>s. if coin_nHeight coin > 0 then ser_writedata8 W s 0 else Inr s)
      (if coin_nHeight coin > 0 then [0] else [])"
    using sink.writedata_emits(1) [of 0] emits_Inr [of out winv] by simp
  from emits_bind [OF sink.WriteVarInt_emits [OF n(1)] emits_bind [OF this TxOutCompression_emits [OF ok(1), of fv]]]
  show "emits out winv (\<lambda>s. TxInUndoFormatter_Ser fv W s coin) (undo_coin_enc fv coin)"
    by (simp add: TxInUndoFormatter_Ser_def undo_coin_enc_def)
  have h: "unat (coin_nHeight coin) < 2 ^ 30" using ok(1) by (simp add: coin_storable_def)
  note f = Coin_code_fields [OF h]
  have z: "varint_bytes 0 = [0]" by (simp add: varint_bytes_small)
  have dummy: "parses inp rinv (\<lambda>s. if drop_bit 2 (Coin_code coin) > 0
      then bindE (ReadVarInt uint32_max R s) (\<lambda>(nVersionDummy, s). Inr ((), s)) else Inr ((), s)) ()
      (if coin_nHeight coin > 0 then [0] else [])"
    using parses_map [OF source.ReadVarInt_parses [of 0 uint32_max], of "\<lambda>_. ()" "()"] parses_Inr [of inp rinv "()"]
    by (simp add: f(1) z)
  have "parses inp rinv (\<lambda>s. bindE (TxOutCompression_Unser decompress ignore R s) (\<lambda>(txout, s).
      Inr (\<lparr>fCoinBase = (Coin_code coin AND 2 \<noteq> 0), fCoinStake = (Coin_code coin AND 1 \<noteq> 0), coin_out = txout,
            coin_nHeight = drop_bit 2 (Coin_code coin)\<rparr>, s))) coin
      (compressed_amount_enc (nValue (coin_out coin)) @ script_enc fv (scriptPubKey (coin_out coin)))"
    by (rule parses_map [OF TxOutCompression_parses])
      (use ok assms f in \<open>simp_all add: coin_storable_def coin_ok_def CTxOut_new_def\<close>)
  then show "parses inp rinv (TxInUndoFormatter_Unser decompress ignore R) coin (undo_coin_enc fv coin)"
    unfolding TxInUndoFormatter_Unser_def [abs_def] undo_coin_enc_def Let_def
    by (intro parses_bind [OF source.ReadVarInt_parses [OF n(2)]]) (simp add: parses_bind [OF dummy])
qed

lemma txundo_codec:
  assumes "decompresses fv decompress" "0 < n" "n \<le> MAX_VECTOR_ALLOCATE"
  shows "codec W out winv R inp rinv (CTxUndo_Ser fv W) (CTxUndo_Unser n decompress ignore R) (txundo_enc fv) txundo_ok"
proof -
  note c = codec.vector_codec [OF undo_coin_codec [OF assms(1), of ignore] assms(2,3)]
  show ?thesis
  proof unfold_locales
    fix u assume "txundo_ok u"
    then have ok: "length (vprevout u) \<le> unat MAX_SIZE \<and> list_all undo_coin_ok (vprevout u)"
      by (simp add: txundo_ok_def vec_ok_def)
    show "emits out winv (\<lambda>s. CTxUndo_Ser fv W s u) (txundo_enc fv u)"
      using codec.ser_emits [OF c ok] by (simp add: CTxUndo_Ser_def txundo_enc_def vec_enc_def)
    show "parses inp rinv (CTxUndo_Unser n decompress ignore R) u (txundo_enc fv u)"
      using parses_map [OF codec.uns_parses [OF c ok], of "\<lambda>v. \<lparr>vprevout = v\<rparr>" u]
      by (simp add: CTxUndo_Unser_def [abs_def] txundo_enc_def vec_enc_def)
  qed
qed

lemma blockundo_codec:
  assumes "decompresses fv decompress" "0 < n" "n \<le> MAX_VECTOR_ALLOCATE" "0 < m" "m \<le> MAX_VECTOR_ALLOCATE"
  shows "codec W out winv R inp rinv (CBlockUndo_Ser fv W) (CBlockUndo_Unser m n decompress ignore R) (blockundo_enc fv) blockundo_ok"
proof -
  note c = codec.vector_codec [OF txundo_codec [OF assms(1-3), of ignore] assms(4,5)]
  show ?thesis
  proof unfold_locales
    fix u assume "blockundo_ok u"
    then have ok: "length (vtxundo u) \<le> unat MAX_SIZE \<and> list_all txundo_ok (vtxundo u)"
      by (simp add: blockundo_ok_def vec_ok_def)
    show "emits out winv (\<lambda>s. CBlockUndo_Ser fv W s u) (blockundo_enc fv u)"
      using codec.ser_emits [OF c ok] by (simp add: CBlockUndo_Ser_def blockundo_enc_def vec_enc_def)
    show "parses inp rinv (CBlockUndo_Unser m n decompress ignore R) u (blockundo_enc fv u)"
      using parses_map [OF codec.uns_parses [OF c ok], of "\<lambda>v. \<lparr>vtxundo = v\<rparr>" u]
      by (simp add: CBlockUndo_Unser_def [abs_def] blockundo_enc_def vec_enc_def)
  qed
qed

end

section \<open>Properties\<close>

text \<open>
  Property.  The undo data of a block written to a data stream reads back unchanged on any host:
  the byte written for the old format, a plain zero, is what the reader takes for a variable-length
  version number, and it is present exactly for the coins whose height is not zero.
\<close>

theorem CBlockUndo_roundtrip:
  assumes "blockundo_ok u" "decompresses fv decompress"
    and "0 < n" "n \<le> MAX_VECTOR_ALLOCATE" "0 < m" "m \<le> MAX_VECTOR_ALLOCATE"
    and "length (blockundo_enc fv u) + length rest < 2 ^ 31"
  shows "\<exists>s t. CBlockUndo_Ser fv (DataStream_sink h) (DataStream_new ty v) u = Inr s \<and>
    CBlockUndo_Unser m n decompress DataStream_ignore_unsigned (DataStream_source h')
      (DataStream_from (pending s @ rest) ty' v') = Inr (u, t) \<and> pending t = rest"
proof -
  note c = tx_ds.blockundo_codec [OF assms(2-6), where ignore = DataStream_ignore_unsigned, of h h']
  from codec.roundtrip [OF c assms(1) DataStream_new_ok(1) [of ty v]]
  obtain s where s: "CBlockUndo_Ser fv (DataStream_sink h) (DataStream_new ty v) u = Inr s" "pending s = blockundo_enc fv u"
    by auto
  have "DataStream_rok (DataStream_from (blockundo_enc fv u @ rest) ty' v')" using assms(7) by (intro DataStream_from_ok(1)) simp
  from parsesD [OF codec.uns_parses [OF c assms(1)] this, of rest] s show ?thesis by auto
qed

definition sample_undo :: CBlockUndo where
  "sample_undo = \<lparr>vtxundo = [\<lparr>vprevout = [compact_coin, compact_coin\<lparr>coin_nHeight := 0\<rparr>]\<rparr>, \<lparr>vprevout = []\<rparr>]\<rparr>"

theorem CBlockUndo_roundtrip_witness:
  "\<exists>s t. CBlockUndo_Ser (\<lambda>k. k = sample_key) (DataStream_sink LittleEndianHost) (DataStream_new 1 0) sample_undo = Inr s \<and>
    CBlockUndo_Unser 24 64 (\<lambda>_. Some sample_key) DataStream_ignore_unsigned (DataStream_source BigEndianHost)
      (DataStream_from (pending s @ [9]) 1 0) = Inr (sample_undo, t) \<and> pending t = [9]"
proof (rule CBlockUndo_roundtrip)
  show "blockundo_ok sample_undo"
    by (simp add: blockundo_ok_def vec_ok_def sample_undo_def txundo_ok_def undo_coin_ok_def coin_ok_def MAX_SIZE_def
        coin_storable_def compact_coin_def sample_key_def CTxOut_new_def MAX_SCRIPT_SIZE_def)
  show "decompresses (\<lambda>k. k = sample_key) (\<lambda>_. Some sample_key)" by (simp add: decompresses_def)
  have "coin_storable compact_coin" "coin_storable (compact_coin\<lparr>coin_nHeight := 0\<rparr>)"
    by (simp_all add: coin_storable_def compact_coin_def sample_key_def CTxOut_new_def MAX_SCRIPT_SIZE_def)
  then have "length (undo_coin_enc fv compact_coin) \<le> 10101"
    "length (undo_coin_enc fv (compact_coin\<lparr>coin_nHeight := 0\<rparr>)) \<le> 10101" for fv
    by (auto dest!: coin_enc_length [of _ fv] simp: undo_coin_enc_def coin_enc_def)
  from this [of "\<lambda>k. k = sample_key"]
  have "length (blockundo_enc (\<lambda>k. k = sample_key) sample_undo) \<le> 100000"
    by (simp add: blockundo_enc_def txundo_enc_def vec_enc_def sample_undo_def length_compact_bytes GetSizeOfCompactSize_def)
  then show "length (blockundo_enc (\<lambda>k. k = sample_key) sample_undo) + length [9 :: u8] < 2 ^ 31" by simp
qed (simp_all add: MAX_VECTOR_ALLOCATE_def)

end
