(* ===== verification/Connect.thy ===== *)
theory Connect
  imports Undo CoinsSpec Chain
begin

text \<open>
  Applying a block's transactions to the set of unspent outputs and undoing them: \<open>UpdateCoins\<close>,
  \<open>ApplyTxInUndo\<close> and \<open>DisconnectBlock\<close> of \<open>validation.cpp\<close>.  The parts of the node that
  \<open>DisconnectBlock\<close> also tells about the block (special transactions, zerocoin serials, budget fees, the
  evolution database, the accumulator checksums) share a state of type \<open>'x\<close>; what it calls on them
  is an argument, and so is reading the undo file.
\<close>

section \<open>Applying a transaction\<close>

fun SpendInputs ::
  "'t coins_env \<Rightarrow> 't CCoinsViewCache \<Rightarrow> 't view \<Rightarrow> CTxIn list \<Rightarrow> Coin list
     \<Rightarrow> Coin list \<times> 't CCoinsViewCache \<times> 't view" where
  "SpendInputs E c b [] prev = (prev, c, b)"
| "SpendInputs E c b (txin # rest) prev =
     (case SpendCoin E c b (prevout txin) of
        (moveout, c, b) \<Rightarrow>
          SpendInputs E c b rest (prev @ [case moveout of Some coin \<Rightarrow> coin | None \<Rightarrow> Coin_new]))"

text \<open>\<open>txid\<close> is the hash of the transaction.\<close>

definition UpdateCoins ::
  "'t coins_env \<Rightarrow> bytes \<Rightarrow> CTransaction \<Rightarrow> 't CCoinsViewCache \<Rightarrow> 't view \<Rightarrow> CTxUndo \<Rightarrow> int \<Rightarrow> bool
     \<Rightarrow> exc option \<times> CTxUndo \<times> 't CCoinsViewCache \<times> 't view" where
  "UpdateCoins E txid tx c b txundo height fSkipInvalid =
     (case (if \<not> IsCoinBase tx \<and> \<not> HasZerocoinSpendInputs tx
            then SpendInputs E c b (vin tx) (vprevout txundo) else (vprevout txundo, c, b)) of
        (prev, c, b) \<Rightarrow>
          (case AddCoins E txid (SetNullifiers c tx True) b tx height False fSkipInvalid of
             (e, c, b) \<Rightarrow> (e, txundo\<lparr>vprevout := prev\<rparr>, c, b)))"

section \<open>Undoing it\<close>

datatype DisconnectResult = DISCONNECT_OK | DISCONNECT_UNCLEAN | DISCONNECT_FAILED

text \<open>The metadata of an old undo record comes from another output of the same transaction.\<close>

definition complete_undo ::
  "'t coins_env \<Rightarrow> Coin \<Rightarrow> 't CCoinsViewCache \<Rightarrow> 't view \<Rightarrow> COutPoint
     \<Rightarrow> Coin option \<times> 't CCoinsViewCache \<times> 't view" where
  "complete_undo E undo c b out =
     (if coin_nHeight undo = 0 then
        (case AccessByTxid E c b (op_hash out) of
           (alternate, c, b) \<Rightarrow>
             (if \<not> Coin_IsSpent alternate
              then Some (undo\<lparr>coin_nHeight := coin_nHeight alternate, fCoinBase := fCoinBase alternate,
                              fCoinStake := fCoinStake alternate\<rparr>)
              else None, c, b))
      else (Some undo, c, b))"

definition ApplyTxInUndo ::
  "'t coins_env \<Rightarrow> Coin \<Rightarrow> 't CCoinsViewCache \<Rightarrow> 't view \<Rightarrow> COutPoint
     \<Rightarrow> (DisconnectResult \<times> 't CCoinsViewCache \<times> 't view) res" where
  "ApplyTxInUndo E undo c b out =
     (case CacheHaveCoin E c b out of
        (have, c, b) \<Rightarrow>
          (case complete_undo E undo c b out of
             (None, c, b) \<Rightarrow> Inr (DISCONNECT_FAILED, c, b)
           | (Some undo, c, b) \<Rightarrow>
               (case AddCoin E c out undo have of
                  (Some e, c) \<Rightarrow> Inl e
                | (None, c) \<Rightarrow> Inr (if have then DISCONNECT_UNCLEAN else DISCONNECT_OK, c, b))))"

text \<open>The outputs of a transaction from output \<open>i\<close> on.\<close>

fun DisconnectOutputs ::
  "'t coins_env \<Rightarrow> bytes \<Rightarrow> CTxOut list \<Rightarrow> nat \<Rightarrow> bool \<Rightarrow> 't CCoinsViewCache \<Rightarrow> 't view
     \<Rightarrow> bool \<times> 't CCoinsViewCache \<times> 't view" where
  "DisconnectOutputs E txid [] i fClean c b = (fClean, c, b)"
| "DisconnectOutputs E txid (txout # rest) i fClean c b =
     (if \<not> IsUnspendable (scriptPubKey txout) \<and> \<not> CTxOut_IsZerocoinMint txout then
        (case SpendCoin E c b \<lparr>op_hash = txid, op_n = of_nat i\<rparr> of
           (moveout, c, b) \<Rightarrow>
             let coin = (case moveout of Some coin \<Rightarrow> coin | None \<Rightarrow> Coin_new)
             in DisconnectOutputs E txid rest (Suc i) (if txout \<noteq> coin_out coin then False else fClean) c b)
      else DisconnectOutputs E txid rest (Suc i) fClean c b)"

text \<open>
  Inputs with their undo records, last input first.  The result is \<open>None\<close> when the block cannot be
  disconnected, and otherwise whether everything was found as expected.
\<close>

fun RestoreInputs ::
  "'t coins_env \<Rightarrow> (CTxIn \<times> Coin) list \<Rightarrow> bool \<Rightarrow> 't CCoinsViewCache \<Rightarrow> 't view
     \<Rightarrow> (bool option \<times> 't CCoinsViewCache \<times> 't view) res" where
  "RestoreInputs E [] fClean c b = Inr (Some fClean, c, b)"
| "RestoreInputs E ((txin, undo) # rest) fClean c b =
     bindE (ApplyTxInUndo E undo c b (prevout txin)) (\<lambda>(r, c, b).
       if r = DISCONNECT_FAILED then Inr (None, c, b)
       else RestoreInputs E rest (fClean \<and> r \<noteq> DISCONNECT_UNCLEAN) c b)"

record 'x disconnect_env =
  dx_hash :: "CTransaction \<Rightarrow> bytes"
  dx_undo :: "FlatFilePos \<Rightarrow> bytes \<Rightarrow> CBlockUndo option"
  dx_verify_best :: "bytes \<Rightarrow> 'x \<Rightarrow> bool"
  dx_abort :: "string \<Rightarrow> 'x \<Rightarrow> 'x"
  dx_undo_special :: "'x \<Rightarrow> bool \<times> 'x"
  dx_zerocoin :: "CTransaction \<Rightarrow> 'x \<Rightarrow> bool \<times> 'x"
  dx_budget :: "bytes \<Rightarrow> 'x \<Rightarrow> 'x"
  dx_write_best :: "bytes \<Rightarrow> 'x \<Rightarrow> 'x"
  dx_checksum :: "'x \<Rightarrow> 'x"
  dx_last_checkpoint :: int

text \<open>One round of the loop; the first transaction of a block has no undo record.\<close>

definition DisconnectTx ::
  "'t coins_env \<Rightarrow> 'x disconnect_env \<Rightarrow> CTransaction \<Rightarrow> CTxUndo option \<Rightarrow> bool \<Rightarrow> 'x \<Rightarrow> 't CCoinsViewCache \<Rightarrow> 't view
     \<Rightarrow> (bool option \<times> 'x \<times> 't CCoinsViewCache \<times> 't view) res" where
  "DisconnectTx E X tx txundo fClean x c b =
     (case dx_zerocoin X tx x of
        (ok, x) \<Rightarrow>
          if \<not> ok then Inr (None, x, c, b)
          else
            let hash = dx_hash X tx; x = dx_budget X hash x
            in case DisconnectOutputs E hash (vout tx) 0 fClean c b of
                 (fClean, c, b) \<Rightarrow>
                   if IsCoinBase tx \<or> HasZerocoinSpendInputs tx then Inr (Some fClean, x, c, b)
                   else
                     let c = SetNullifiers c tx False
                     in case txundo of
                          None \<Rightarrow> Inl (UndefinedBehaviour ''blockUndo.vtxundo[-1]'')
                        | Some u \<Rightarrow>
                            if length (vprevout u) \<noteq> length (vin tx) then Inr (None, x, c, b)
                            else bindE (RestoreInputs E (rev (zip (vin tx) (vprevout u))) fClean c b)
                                   (\<lambda>(r, c, b). Inr (r, x, c, b)))"

fun DisconnectTxs ::
  "'t coins_env \<Rightarrow> 'x disconnect_env \<Rightarrow> (CTransaction \<times> CTxUndo option) list \<Rightarrow> bool \<Rightarrow> 'x \<Rightarrow> 't CCoinsViewCache \<Rightarrow> 't view
     \<Rightarrow> (bool option \<times> 'x \<times> 't CCoinsViewCache \<times> 't view) res" where
  "DisconnectTxs E X [] fClean x c b = Inr (Some fClean, x, c, b)"
| "DisconnectTxs E X ((tx, txundo) # rest) fClean x c b =
     bindE (DisconnectTx E X tx txundo fClean x c b) (\<lambda>(r, x, c, b).
       case r of None \<Rightarrow> Inr (None, x, c, b) | Some fClean \<Rightarrow> DisconnectTxs E X rest fClean x c b)"

definition DisconnectBlock ::
  "'t coins_env \<Rightarrow> 'x disconnect_env \<Rightarrow> Params \<Rightarrow> index \<Rightarrow> CTransaction list \<Rightarrow> CBlockIndex \<Rightarrow> 'x \<Rightarrow> 't CCoinsViewCache \<Rightarrow> 't view
     \<Rightarrow> (DisconnectResult \<times> 'x \<times> 't CCoinsViewCache \<times> 't view) res" where
  "DisconnectBlock E X P H vtx pindex x c b =
     bindE (NetworkUpgradeActive (nHeight pindex) P (upgrade_idx UPGRADE_V6_0)) (\<lambda>fDIP3Active.
       if fDIP3Active \<and> \<not> dx_verify_best X (phashBlock pindex) x
       then Inr (DISCONNECT_FAILED, dx_abort X ''Found EvoDB inconsistency, you must reindex to continue'' x, c, b)
       else if FlatFilePos_IsNull (GetUndoPos pindex) then Inr (DISCONNECT_FAILED, x, c, b)
       else
         bindE (deref H (pprev pindex)) (\<lambda>prev.
         case dx_undo X (GetUndoPos pindex) (phashBlock prev) of
           None \<Rightarrow> Inr (DISCONNECT_FAILED, x, c, b)
         | Some blockUndo \<Rightarrow>
             if length (vtxundo blockUndo) + 1 \<noteq> length vtx then Inr (DISCONNECT_FAILED, x, c, b)
             else
               case dx_undo_special X x of
                 (ok, x) \<Rightarrow>
                   if \<not> ok then Inr (DISCONNECT_FAILED, x, c, b)
                   else
                     bindE (DisconnectTxs E X (rev (zip vtx (None # map Some (vtxundo blockUndo)))) True x c b)
                       (\<lambda>(r, x, c, b).
                       case r of
                         None \<Rightarrow> Inr (DISCONNECT_FAILED, x, c, b)
                       | Some fClean \<Rightarrow>
                           bindE (NetworkUpgradeActive (nHeight prev) P (upgrade_idx UPGRADE_V5_0)) (\<lambda>v5.
                           bindE (PopAnchor E c b (if v5 then hashFinalSaplingRoot prev else env_empty_root E))
                             (\<lambda>(c, b).
                             let c = SetBestBlock c (phashBlock prev);
                                 x = dx_write_best X (phashBlock prev) x
                             in bindE (NetworkUpgradeActive (nHeight pindex) P (upgrade_idx UPGRADE_ZC_V2)) (\<lambda>zc.
                                let x = (if zc \<and> nHeight pindex \<le> dx_last_checkpoint X then dx_checksum X x else x)
                                in Inr (if fClean then DISCONNECT_OK else DISCONNECT_UNCLEAN, x, c, b)))))))"

section \<open>Operations on a cache that stands for a chain state\<close>

definition at :: "'t coins_env \<Rightarrow> 't CCoinsViewCache \<Rightarrow> 't view \<Rightarrow> chainstate \<Rightarrow> bool" where
  "at E c b st \<longleftrightarrow> view_inv E (Cache c b) \<and> chain_of E (Cache c b) = st"

lemma at_writes: "writes E s (c', b') st \<Longrightarrow> at E c' b' st"
  by (simp add: writes_def at_def)

lemma at_utxo: "at E c b st \<Longrightarrow> utxo (Cache c b) = cs_utxo st"
  by (auto simp: at_def simp del: folded_views)

lemma SpendCoin_at:
  assumes "at E c b st" "SpendCoin E c b p = (r, c', b')"
  shows "at E c' b' (st\<lparr>cs_utxo := (cs_utxo st)(p := None)\<rparr>)" "cs_utxo st p = Option.bind r live"
  using SpendCoin_writes [of E c b p r c' b'] assms at_utxo [OF assms(1)]
  by (auto simp: at_def writes_def simp del: folded_views)

lemma SpendCoin_at_Some:
  assumes "at E c b st" "SpendCoin E c b p = (r, c', b')" "cs_utxo st p = Some coin"
  shows "r = Some coin"
  using SpendCoin_at(2) [OF assms(1,2)] assms(3) by (cases r) (auto simp: live_def split: if_splits)

lemma AddCoin_at:
  assumes "at E c b st" "\<not> Coin_IsSpent coin" "coin_ok coin" "overwrite \<or> cs_utxo st p = None"
  shows "\<exists>c'. AddCoin E c p coin overwrite = (None, c') \<and> at E c' b (with_coin st p coin)"
proof -
  have inv: "view_inv E (Cache c b)" using assms(1) by (simp add: at_def del: folded_views)
  have "overwrite \<or> utxo (Cache c b) p = None" using assms(4) at_utxo [OF assms(1)] by simp
  from AddCoin_writes [OF inv assms(2,3) this] show ?thesis
    using assms(1) at_writes by (fastforce simp: at_def simp del: folded_views)
qed

lemma HaveCoin_at:
  assumes "at E c b st" "CacheHaveCoin E c b p = (h, c', b')"
  shows "at E c' b' st" "h \<longleftrightarrow> cs_utxo st p \<noteq> None"
  using HaveCoin_reads [of E c b p h c' b'] assms at_utxo [OF assms(1)]
  by (auto simp: at_def reads_def simp del: folded_views)

lemma SetNullifiers_at: "at E c b st \<Longrightarrow> at E (SetNullifiers c tx spent) b (nullifiers_set st tx spent)"
  using SetNullifiers_writes [of E c b tx spent] by (auto simp: at_def writes_def simp del: folded_views)

lemma utxo_coin_ok: "view_inv E v \<Longrightarrow> utxo v p = Some coin \<Longrightarrow> coin_ok coin \<and> \<not> Coin_IsSpent coin"
proof (induction v)
  case (DB db)
  then show ?case by (auto simp: db_inv_def db_GetCoin_def live_def bind_eq_Some_conv split: if_splits option.splits db_value.splits)
next
  case (Cache c b)
  then show ?case
    by (auto simp: coins_inv_def through_def live_def split: option.splits if_splits)
qed simp

lemma at_coin_ok: "at E c b st \<Longrightarrow> cs_utxo st p = Some coin \<Longrightarrow> coin_ok coin \<and> \<not> Coin_IsSpent coin"
  using utxo_coin_ok [of E "Cache c b" p coin] at_utxo [of E c b st] by (simp add: at_def del: folded_views)

section \<open>A transaction on the chain state\<close>

abbreviation (input) plain_inputs :: "CTransaction \<Rightarrow> bool" where
  "plain_inputs tx \<equiv> \<not> IsCoinBase tx \<and> \<not> HasZerocoinSpendInputs tx"

definition without_inputs :: "(COutPoint \<rightharpoonup> Coin) \<Rightarrow> CTxIn list \<Rightarrow> COutPoint \<rightharpoonup> Coin" where
  "without_inputs u ins = (\<lambda>p. if p \<in> prevout ` set ins then None else u p)"

fun outs_map :: "bytes \<Rightarrow> bool \<Rightarrow> bool \<Rightarrow> int \<Rightarrow> CTxOut list \<Rightarrow> nat \<Rightarrow> COutPoint \<rightharpoonup> Coin" where
  "outs_map txid cb cs height [] i = Map.empty"
| "outs_map txid cb cs height (txout # rest) i =
     (let coin = Coin_of txout height cb cs; m = outs_map txid cb cs height rest (Suc i)
      in if kept coin then m(\<lparr>op_hash = txid, op_n = of_nat i\<rparr> \<mapsto> coin) else m)"

definition applied :: "bytes \<Rightarrow> CTransaction \<Rightarrow> int \<Rightarrow> chainstate \<Rightarrow> chainstate" where
  "applied txid tx height st =
     (let u = (if plain_inputs tx then without_inputs (cs_utxo st) (vin tx) else cs_utxo st)
      in nullifiers_set (st\<lparr>cs_utxo := u ++ outs_map txid (IsCoinBase tx) (IsCoinStake tx) height (vout tx) 0\<rparr>) tx True)"

text \<open>What a transaction needs to be applied: new outputs under its hash, available inputs, unspent nullifiers.\<close>

definition applicable :: "bytes \<Rightarrow> CTransaction \<Rightarrow> chainstate \<Rightarrow> bool" where
  "applicable txid tx st \<longleftrightarrow>
     (\<forall>n. cs_utxo st \<lparr>op_hash = txid, op_n = n\<rparr> = None) \<and> length (vout tx) \<le> 2 ^ 32 \<and>
     (\<forall>t \<in> set (vout tx). \<not> CTxOut_IsNull t \<and> nRounds t = - 10) \<and>
     (if plain_inputs tx
      then distinct (map prevout (vin tx)) \<and> (\<forall>i \<in> set (vin tx). cs_utxo st (prevout i) \<noteq> None) \<and>
           (\<forall>d. sapData tx = Some d \<longrightarrow> (\<forall>s \<in> set (vShieldedSpend d). \<not> cs_nullifiers st (sp_nullifier s)))
      else (\<forall>d. sapData tx = Some d \<longrightarrow> vShieldedSpend d = []))"

lemma SpendInputs_at:
  assumes "at E c b st" "distinct (map prevout ins)" "\<forall>i \<in> set ins. cs_utxo st (prevout i) \<noteq> None"
  shows "\<exists>c' b'. SpendInputs E c b ins prev = (prev @ map (\<lambda>i. the (cs_utxo st (prevout i))) ins, c', b') \<and>
    at E c' b' (st\<lparr>cs_utxo := without_inputs (cs_utxo st) ins\<rparr>)"
  using assms
proof (induction ins arbitrary: c b st prev)
  case Nil
  then show ?case by (simp add: without_inputs_def)
next
  case (Cons i ins)
  obtain r c1 b1 where s: "SpendCoin E c b (prevout i) = (r, c1, b1)" by (cases "SpendCoin E c b (prevout i)")
  obtain coin where coin: "cs_utxo st (prevout i) = Some coin" using Cons.prems(3) by auto
  let ?st = "st\<lparr>cs_utxo := (cs_utxo st)(prevout i := None)\<rparr>"
  have r: "r = Some coin" by (rule SpendCoin_at_Some [OF Cons.prems(1) s coin])
  have ne: "prevout j \<noteq> prevout i" if "j \<in> set ins" for j using Cons.prems(2) that by (auto simp: image_iff)
  then have "\<forall>j \<in> set ins. cs_utxo ?st (prevout j) \<noteq> None" using Cons.prems(3) by auto
  moreover have "distinct (map prevout ins)" using Cons.prems(2) by simp
  ultimately obtain c' b' where "SpendInputs E c1 b1 ins (prev @ [coin]) =
      ((prev @ [coin]) @ map (\<lambda>i. the (cs_utxo ?st (prevout i))) ins, c', b')"
    "at E c' b' (?st\<lparr>cs_utxo := without_inputs (cs_utxo ?st) ins\<rparr>)"
    using Cons.IH [OF SpendCoin_at(1) [OF Cons.prems(1) s], of "prev @ [coin]"] by blast
  moreover have "map (\<lambda>i. the (cs_utxo ?st (prevout i))) ins = map (\<lambda>i. the (cs_utxo st (prevout i))) ins"
    using ne by auto
  moreover have "without_inputs (cs_utxo ?st) ins = without_inputs (cs_utxo st) (i # ins)"
    by (auto simp: without_inputs_def)
  ultimately show ?case using s r coin by simp
qed

text \<open>The outpoints of the outputs from \<open>i\<close> on.\<close>

lemma outs_map_dom:
  "outs_map txid cb cs height outs i p \<noteq> None \<Longrightarrow> op_hash p = txid \<and> (\<exists>k \<ge> i. k < i + length outs \<and> op_n p = of_nat k)"
proof (induction outs arbitrary: i)
  case (Cons t outs)
  show ?case
  proof (cases "p = \<lparr>op_hash = txid, op_n = of_nat i\<rparr>")
    case True
    then show ?thesis by (auto intro!: exI [of _ i])
  next
    case False
    then have "outs_map txid cb cs height outs (Suc i) p \<noteq> None"
      using Cons.prems by (auto simp: Let_def split: if_splits)
    from Cons.IH [OF this] obtain k where "op_hash p = txid" "Suc i \<le> k" "k < Suc i + length outs" "op_n p = of_nat k"
      by blast
    then have "i \<le> k \<and> k < i + length (t # outs) \<and> op_n p = of_nat k" by simp
    then show ?thesis using \<open>op_hash p = txid\<close> by blast
  qed
qed simp

lemma outs_map_next:
  assumes "i + length (t # outs) \<le> 2 ^ 32"
  shows "outs_map txid cb cs height outs (Suc i) \<lparr>op_hash = txid, op_n = of_nat i\<rparr> = None"
proof (rule ccontr)
  assume "outs_map txid cb cs height outs (Suc i) \<lparr>op_hash = txid, op_n = of_nat i\<rparr> \<noteq> None"
  from outs_map_dom [OF this] obtain k where k: "Suc i \<le> k" "k < Suc i + length outs" "(of_nat i :: u32) = of_nat k" by auto
  then have "k < 2 ^ 32" "i < 2 ^ 32" using assms by auto
  with k show False by (simp add: word_of_nat_eq_iff take_bit_nat_eq_self)
qed

lemma AddCoins_at:
  assumes "at E c b st" "i + length outs \<le> 2 ^ 32" "\<forall>k. i \<le> k \<longrightarrow> k < i + length outs \<longrightarrow> cs_utxo st \<lparr>op_hash = txid, op_n = of_nat k\<rparr> = None"
    and "\<forall>t \<in> set outs. \<not> CTxOut_IsNull t \<and> nRounds t = - 10"
  shows "\<exists>c'. AddCoins_loop E txid cb cs height False False outs i c b = (None, c', b) \<and>
    at E c' b (st\<lparr>cs_utxo := cs_utxo st ++ outs_map txid cb cs height outs i\<rparr>)"
  using assms
proof (induction outs arbitrary: c i st)
  case Nil
  then show ?case by simp
next
  case (Cons t outs)
  let ?p = "\<lparr>op_hash = txid, op_n = of_nat i\<rparr>" and ?coin = "Coin_of t height cb cs"
  have "cs_utxo st ?p = None" using Cons.prems(3) by auto
  moreover have coin: "\<not> Coin_IsSpent ?coin" "coin_ok ?coin"
    using Cons.prems(4) by (simp_all add: Coin_IsSpent_def Coin_of_def coin_ok_def)
  ultimately obtain c1 where c1: "AddCoin E c ?p ?coin False = (None, c1)" "at E c1 b (with_coin st ?p ?coin)"
    using AddCoin_at [OF Cons.prems(1) coin, of False ?p] by auto
  have nn: "of_nat k \<noteq> (of_nat i :: u32)" if "Suc i \<le> k" "k < Suc i + length outs" for k
    using that Cons.prems(2) by (simp add: word_of_nat_eq_iff take_bit_nat_eq_self)
  have fresh: "\<forall>k. Suc i \<le> k \<longrightarrow> k < Suc i + length outs \<longrightarrow>
      cs_utxo (with_coin st ?p ?coin) \<lparr>op_hash = txid, op_n = of_nat k\<rparr> = None"
    using Cons.prems(3) nn by (auto simp: with_coin_def)
  obtain c' where c': "AddCoins_loop E txid cb cs height False False outs (Suc i) c1 b = (None, c', b)"
    "at E c' b ((with_coin st ?p ?coin)\<lparr>cs_utxo := cs_utxo (with_coin st ?p ?coin) ++ outs_map txid cb cs height outs (Suc i)\<rparr>)"
    using Cons.IH [OF c1(2) _ fresh] Cons.prems(2,4) by auto
  have "?p \<notin> dom (outs_map txid cb cs height outs (Suc i))" using outs_map_next [OF Cons.prems(2)] by auto
  then have "(with_coin st ?p ?coin)\<lparr>cs_utxo := cs_utxo (with_coin st ?p ?coin) ++ outs_map txid cb cs height outs (Suc i)\<rparr>
      = st\<lparr>cs_utxo := cs_utxo st ++ outs_map txid cb cs height (t # outs) i\<rparr>"
    by (simp add: with_coin_def Let_def map_add_upd_left)
  then show ?case using c1(1) c' by (simp add: Let_def)
qed

lemma UpdateCoins_at:
  assumes "at E c b st" "applicable txid tx st"
  shows "\<exists>c' b'. UpdateCoins E txid tx c b u height False =
      (None, u\<lparr>vprevout := vprevout u @ (if plain_inputs tx then map (\<lambda>i. the (cs_utxo st (prevout i))) (vin tx) else [])\<rparr>, c', b') \<and>
    at E c' b' (applied txid tx height st)"
proof -
  let ?u = "if plain_inputs tx then without_inputs (cs_utxo st) (vin tx) else cs_utxo st"
  let ?prev = "vprevout u @ (if plain_inputs tx then map (\<lambda>i. the (cs_utxo st (prevout i))) (vin tx) else [])"
  obtain c1 b1 where s: "(if plain_inputs tx then SpendInputs E c b (vin tx) (vprevout u) else (vprevout u, c, b)) = (?prev, c1, b1)"
    "at E c1 b1 (st\<lparr>cs_utxo := ?u\<rparr>)"
    using SpendInputs_at [OF assms(1), of "vin tx" "vprevout u"] assms by (cases "plain_inputs tx") (auto simp: applicable_def)
  let ?st = "nullifiers_set (st\<lparr>cs_utxo := ?u\<rparr>) tx True"
  have n: "at E (SetNullifiers c1 tx True) b1 ?st" by (rule SetNullifiers_at [OF s(2)])
  have eq: "cs_utxo ?st = ?u" by (simp add: nullifiers_set_def split: option.split)
  have fin: "applied txid tx height st = ?st\<lparr>cs_utxo := ?u ++ outs_map txid (IsCoinBase tx) (IsCoinStake tx) height (vout tx) 0\<rparr>"
    unfolding applied_def Let_def by (simp add: nullifiers_set_def split: option.split)
  have fresh: "\<forall>k. 0 \<le> k \<longrightarrow> k < 0 + length (vout tx) \<longrightarrow> cs_utxo ?st \<lparr>op_hash = txid, op_n = of_nat k\<rparr> = None"
    unfolding eq using assms(2) by (auto simp: applicable_def without_inputs_def)
  obtain c' where "AddCoins E txid (SetNullifiers c1 tx True) b1 tx height False False = (None, c', b1)"
    "at E c' b1 (?st\<lparr>cs_utxo := ?u ++ outs_map txid (IsCoinBase tx) (IsCoinStake tx) height (vout tx) 0\<rparr>)"
    using AddCoins_at [OF n _ fresh, of "IsCoinBase tx" "IsCoinStake tx" height] assms(2)
    unfolding eq AddCoins_def applicable_def by auto
  then show ?thesis unfolding fin UpdateCoins_def s(1) by simp
qed

section \<open>Undoing a transaction on the chain state\<close>

lemma DisconnectOutputs_at:
  assumes "at E c b (st\<lparr>cs_utxo := u ++ outs_map txid cb cs height outs i\<rparr>)" "i + length outs \<le> 2 ^ 32"
    and "\<forall>k. i \<le> k \<longrightarrow> k < i + length outs \<longrightarrow> u \<lparr>op_hash = txid, op_n = of_nat k\<rparr> = None"
  shows "\<exists>c' b'. DisconnectOutputs E txid outs i fClean c b = (fClean, c', b') \<and> at E c' b' (st\<lparr>cs_utxo := u\<rparr>)"
  using assms
proof (induction outs arbitrary: c b i)
  case Nil
  then show ?case by simp
next
  case (Cons t outs)
  let ?p = "\<lparr>op_hash = txid, op_n = of_nat i\<rparr>" and ?coin = "Coin_of t height cb cs"
  let ?m = "outs_map txid cb cs height outs (Suc i)"
  have rest: "Suc i + length outs \<le> 2 ^ 32"
    "\<forall>k. Suc i \<le> k \<longrightarrow> k < Suc i + length outs \<longrightarrow> u \<lparr>op_hash = txid, op_n = of_nat k\<rparr> = None"
    using Cons.prems(2,3) by auto
  have kept: "kept ?coin \<longleftrightarrow> \<not> IsUnspendable (scriptPubKey t) \<and> \<not> CTxOut_IsZerocoinMint t"
    by (simp add: kept_def Coin_of_def)
  show ?case
  proof (cases "kept ?coin")
    case True
    obtain r c1 b1 where s: "SpendCoin E c b ?p = (r, c1, b1)" by (cases "SpendCoin E c b ?p")
    have "r = Some ?coin"
      by (rule SpendCoin_at_Some [OF Cons.prems(1) s]) (simp add: Let_def True)
    have none: "?m ?p = None" "u ?p = None" using outs_map_next [OF Cons.prems(2)] Cons.prems(3) by auto
    then have "(u ++ outs_map txid cb cs height (t # outs) i)(?p := None) = u ++ ?m"
      using True by (auto simp: map_add_def Let_def)
    moreover have "at E c1 b1 (st\<lparr>cs_utxo := (u ++ outs_map txid cb cs height (t # outs) i)(?p := None)\<rparr>)"
      using SpendCoin_at(1) [OF Cons.prems(1) s] by (simp del: outs_map.simps)
    ultimately have "at E c1 b1 (st\<lparr>cs_utxo := u ++ ?m\<rparr>)" by (simp only:)
    from Cons.IH [OF this rest] show ?thesis
      using s True \<open>r = Some ?coin\<close> unfolding kept by (auto simp: Coin_of_def Let_def)
  next
    case False
    then have "at E c b (st\<lparr>cs_utxo := u ++ ?m\<rparr>)" using Cons.prems(1) by (simp add: Let_def)
    from Cons.IH [OF this rest] show ?thesis using False unfolding kept by auto
  qed
qed

lemma ApplyTxInUndo_at:
  assumes "at E c b st" "cs_utxo st p = None" "\<not> Coin_IsSpent coin" "coin_ok coin" "kept coin" "coin_nHeight coin \<noteq> 0"
  shows "\<exists>c' b'. ApplyTxInUndo E coin c b p = Inr (DISCONNECT_OK, c', b') \<and>
    at E c' b' (st\<lparr>cs_utxo := (cs_utxo st)(p \<mapsto> coin)\<rparr>)"
proof -
  obtain h c1 b1 where h: "CacheHaveCoin E c b p = (h, c1, b1)" by (cases "CacheHaveCoin E c b p")
  have "\<not> h" "at E c1 b1 st" using HaveCoin_at [OF assms(1) h] assms(2) by auto
  from AddCoin_at [OF this(2) assms(3,4), of False p] assms(2,5) \<open>\<not> h\<close> show ?thesis
    by (auto simp: ApplyTxInUndo_def h complete_undo_def assms(6) with_coin_def)
qed

text \<open>Unspent outputs are spendable and know their height.\<close>

definition utxo_wf :: "chainstate \<Rightarrow> bool" where
  "utxo_wf st \<longleftrightarrow> (\<forall>p coin. cs_utxo st p = Some coin \<longrightarrow>
     coin_ok coin \<and> \<not> Coin_IsSpent coin \<and> kept coin \<and> coin_nHeight coin \<noteq> 0)"

lemma RestoreInputs_at:
  assumes "at E c b (st\<lparr>cs_utxo := (\<lambda>p. if p \<in> prevout ` fst ` set l then None else cs_utxo st p)\<rparr>)"
    and "\<forall>(i, coin) \<in> set l. cs_utxo st (prevout i) = Some coin"
    and "distinct (map (prevout \<circ> fst) l)" "utxo_wf st"
  shows "\<exists>c' b'. RestoreInputs E l fClean c b = Inr (Some fClean, c', b') \<and> at E c' b' st"
  using assms(1-3)
proof (induction l arbitrary: c b)
  case Nil
  then show ?case by simp
next
  case (Cons a l)
  obtain i coin where a: "a = (i, coin)" by (cases a)
  let ?u = "\<lambda>l p. if p \<in> prevout ` fst ` set l then None else cs_utxo st p"
  have coin: "cs_utxo st (prevout i) = Some coin" "coin_ok coin" "\<not> Coin_IsSpent coin" "kept coin" "coin_nHeight coin \<noteq> 0"
    using Cons.prems(2) assms(4) by (auto simp: a utxo_wf_def)
  obtain c1 b1 where s: "ApplyTxInUndo E coin c b (prevout i) = Inr (DISCONNECT_OK, c1, b1)"
    "at E c1 b1 (st\<lparr>cs_utxo := (?u (a # l))(prevout i \<mapsto> coin)\<rparr>)"
    using ApplyTxInUndo_at [OF Cons.prems(1) _ coin(3,2,4,5), of "prevout i"] by (auto simp: a)
  have "prevout i \<notin> prevout ` fst ` set l" using Cons.prems(3) by (auto simp: a)
  then have "(?u (a # l))(prevout i \<mapsto> coin) = ?u l" using coin(1) by (auto simp: a)
  then have "at E c1 b1 (st\<lparr>cs_utxo := ?u l\<rparr>)" using s(2) by (simp only:)
  from Cons.IH [OF this] Cons.prems(2,3) show ?case using s(1) by (auto simp: a)
qed

lemma without_inputs_undo:
  "distinct (map prevout ins) \<Longrightarrow>
   (\<lambda>p. if p \<in> prevout ` fst ` set (rev (zip ins (map f ins))) then None else u p) = without_inputs u ins"
  by (simp add: without_inputs_def zip_map2 zip_same_conv_map image_comp)

lemma nullifiers_undo:
  assumes "applicable txid tx st"
  shows "nullifiers_set ((nullifiers_set (st\<lparr>cs_utxo := v\<rparr>) tx True)\<lparr>cs_utxo := w\<rparr>) tx False = st\<lparr>cs_utxo := w\<rparr>"
    "\<not> plain_inputs tx \<Longrightarrow> nullifiers_set (st\<lparr>cs_utxo := v\<rparr>) tx True = st\<lparr>cs_utxo := v\<rparr>"
  using assms by (auto simp: nullifiers_set_def applicable_def fun_eq_iff split: option.split if_splits intro!: chainstate.equality)

lemma DisconnectTx_at:
  assumes "at E c b (applied (dx_hash X tx) tx height st)" "applicable (dx_hash X tx) tx st" "utxo_wf st"
    and "dx_zerocoin X tx x = (True, x1)"
    and "plain_inputs tx \<longrightarrow> txundo = Some \<lparr>vprevout = map (\<lambda>i. the (cs_utxo st (prevout i))) (vin tx)\<rparr>"
  shows "\<exists>x' c' b'. DisconnectTx E X tx txundo fClean x c b = Inr (Some fClean, x', c', b') \<and> at E c' b' st"
proof -
  let ?txid = "dx_hash X tx" and ?u = "if plain_inputs tx then without_inputs (cs_utxo st) (vin tx) else cs_utxo st"
  let ?m = "outs_map (dx_hash X tx) (IsCoinBase tx) (IsCoinStake tx) height (vout tx) 0"
  let ?st = "nullifiers_set (st\<lparr>cs_utxo := ?u\<rparr>) tx True"
  have ap: "applied ?txid tx height st = ?st\<lparr>cs_utxo := ?u ++ ?m\<rparr>"
    unfolding applied_def Let_def by (simp add: nullifiers_set_def split: option.split)
  have fresh: "\<forall>k. 0 \<le> k \<longrightarrow> k < 0 + length (vout tx) \<longrightarrow> ?u \<lparr>op_hash = ?txid, op_n = of_nat k\<rparr> = None"
    using assms(2) by (auto simp: applicable_def without_inputs_def)
  have len: "0 + length (vout tx) \<le> 2 ^ 32" using assms(2) by (simp add: applicable_def)
  from DisconnectOutputs_at [OF assms(1) [unfolded ap] len fresh, of fClean] obtain c1 b1 where
    o: "DisconnectOutputs E ?txid (vout tx) 0 fClean c b = (fClean, c1, b1)" "at E c1 b1 (?st\<lparr>cs_utxo := ?u\<rparr>)" by blast
  show ?thesis
  proof (cases "plain_inputs tx")
    case False
    then have "?u = cs_utxo st" by auto
    then have "at E c1 b1 st" using o(2) nullifiers_undo(2) [OF assms(2) False, of "cs_utxo st"] by simp
    then show ?thesis using False o(1) assms(4) by (auto simp: DisconnectTx_def Let_def)
  next
    case True
    let ?prev = "map (\<lambda>i. the (cs_utxo st (prevout i))) (vin tx)" and ?l = "rev (zip (vin tx) (map (\<lambda>i. the (cs_utxo st (prevout i))) (vin tx)))"
    have d: "distinct (map prevout (vin tx))" "\<forall>i \<in> set (vin tx). cs_utxo st (prevout i) \<noteq> None"
      using assms(2) True by (auto simp: applicable_def)
    have "at E (SetNullifiers c1 tx False) b1 (st\<lparr>cs_utxo := ?u\<rparr>)"
      using SetNullifiers_at [OF o(2), of tx False] nullifiers_undo(1) [OF assms(2)] by simp
    then have r: "at E (SetNullifiers c1 tx False) b1
        (st\<lparr>cs_utxo := (\<lambda>p. if p \<in> prevout ` fst ` set ?l then None else cs_utxo st p)\<rparr>)"
      unfolding without_inputs_undo [OF d(1)] using True by simp
    have "\<forall>(i, coin) \<in> set ?l. cs_utxo st (prevout i) = Some coin"
      using d(2) by (auto simp: zip_map2 zip_same_conv_map)
    moreover have "distinct (map (prevout \<circ> fst) ?l)"
      using d(1) by (simp add: rev_map [symmetric] zip_map2 zip_same_conv_map comp_def)
    ultimately obtain c' b' where "RestoreInputs E ?l fClean (SetNullifiers c1 tx False) b1 = Inr (Some fClean, c', b')" "at E c' b' st"
      using RestoreInputs_at [OF r _ _ assms(3)] by blast
    then show ?thesis using True o(1) assms(4,5) by (auto simp: DisconnectTx_def Let_def)
  qed
qed

section \<open>Blocks\<close>

fun all_applicable :: "(CTransaction \<Rightarrow> bytes) \<Rightarrow> int \<Rightarrow> CTransaction list \<Rightarrow> chainstate \<Rightarrow> bool" where
  "all_applicable hash height [] st = True"
| "all_applicable hash height (tx # txs) st =
     (applicable (hash tx) tx st \<and> all_applicable hash height txs (applied (hash tx) tx height st))"

fun all_applied :: "(CTransaction \<Rightarrow> bytes) \<Rightarrow> int \<Rightarrow> CTransaction list \<Rightarrow> chainstate \<Rightarrow> chainstate" where
  "all_applied hash height [] st = st"
| "all_applied hash height (tx # txs) st = all_applied hash height txs (applied (hash tx) tx height st)"

text \<open>The undo records the block gets.\<close>

fun undo_records :: "(CTransaction \<Rightarrow> bytes) \<Rightarrow> int \<Rightarrow> CTransaction list \<Rightarrow> chainstate \<Rightarrow> CTxUndo list" where
  "undo_records hash height [] st = []"
| "undo_records hash height (tx # txs) st =
     \<lparr>vprevout = (if plain_inputs tx then map (\<lambda>i. the (cs_utxo st (prevout i))) (vin tx) else [])\<rparr> #
     undo_records hash height txs (applied (hash tx) tx height st)"

lemma length_undo_records [simp]: "length (undo_records hash height txs st) = length txs"
  by (induction txs arbitrary: st) auto

lemma kept_outs:
  "outs_map txid cb cs height outs i p = Some coin \<Longrightarrow> \<forall>t \<in> set outs. \<not> CTxOut_IsNull t \<and> nRounds t = - 10 \<Longrightarrow>
   coin_ok coin \<and> \<not> Coin_IsSpent coin \<and> kept coin \<and> coin_nHeight coin = word_of_int height"
  by (induction outs arbitrary: i) (auto simp: Let_def Coin_of_def Coin_IsSpent_def coin_ok_def split: if_splits)

lemma applied_wf:
  "utxo_wf st \<Longrightarrow> (word_of_int height :: u32) \<noteq> 0 \<Longrightarrow> applicable txid tx st \<Longrightarrow> utxo_wf (applied txid tx height st)"
  unfolding utxo_wf_def applied_def applicable_def Let_def
  by (auto simp: nullifiers_set_def without_inputs_def map_add_def dest!: kept_outs split: option.splits if_splits)

text \<open>Transactions with their undo records, last first; the records of transactions without inputs do not matter.\<close>

lemma DisconnectTxs_at:
  assumes "at E c b (all_applied (dx_hash X) height txs st)" "all_applicable (dx_hash X) height txs st" "utxo_wf st"
    and "(word_of_int height :: u32) \<noteq> 0" "\<And>tx x. fst (dx_zerocoin X tx x)"
    and "list_all2 (\<lambda>(tx, u) r. plain_inputs tx \<longrightarrow> u = Some r) us (undo_records (dx_hash X) height txs st)" "map fst us = txs"
  shows "\<exists>x' c' b'. DisconnectTxs E X (rev us @ later) fClean x c b = DisconnectTxs E X later fClean x' c' b' \<and> at E c' b' st"
  using assms(1-3,6,7)
proof (induction txs arbitrary: st us x c b later)
  case Nil
  then show ?case by auto
next
  case (Cons tx txs)
  let ?st = "applied (dx_hash X tx) tx height st"
  obtain u us' where us: "us = (tx, u) # us'" "map fst us' = txs" using Cons.prems(5) by (cases us) auto
  have app: "applicable (dx_hash X tx) tx st" using Cons.prems(2) by simp
  have "\<exists>x' c' b'. DisconnectTxs E X (rev us' @ ((tx, u) # later)) fClean x c b =
      DisconnectTxs E X ((tx, u) # later) fClean x' c' b' \<and> at E c' b' ?st"
    using Cons.IH [OF _ _ applied_wf [OF Cons.prems(3) assms(4) app], of c b us' "(tx, u) # later" x] Cons.prems(1,2,4) us by simp
  then obtain x2 c2 b2 where s: "DisconnectTxs E X (rev us @ later) fClean x c b = DisconnectTxs E X ((tx, u) # later) fClean x2 c2 b2"
    "at E c2 b2 ?st" unfolding us(1) by auto
  obtain x3 where z: "dx_zerocoin X tx x2 = (True, x3)" using assms(5) [of tx x2] by (cases "dx_zerocoin X tx x2") auto
  have "plain_inputs tx \<longrightarrow> u = Some \<lparr>vprevout = map (\<lambda>i. the (cs_utxo st (prevout i))) (vin tx)\<rparr>"
    using Cons.prems(4) us by auto
  from DisconnectTx_at [OF s(2) app Cons.prems(3) z this, of fClean] obtain x' c' b' where
    "DisconnectTx E X tx u fClean x2 c2 b2 = Inr (Some fClean, x', c', b')" "at E c' b' st" by blast
  then have "DisconnectTxs E X (rev us @ later) fClean x c b = DisconnectTxs E X later fClean x' c' b'" using s(1) by simp
  then show ?case using \<open>at E c' b' st\<close> by blast
qed

lemma PushAnchor_at:
  assumes "at E c b st" "\<not> base_blob_IsNull (env_root E tree)" "PushAnchor E c b tree = (c', b')"
  shows "at E c' b' (if cs_anchor st = env_root E tree then st
    else st\<lparr>cs_anchors := (cs_anchors st)(env_root E tree := True), cs_anchor := env_root E tree\<rparr>)"
proof -
  have inv: "view_inv E (Cache c b)" and st: "st = chain_of E (Cache c b)" using assms(1) by (simp_all add: at_def del: folded_views)
  have cs: "cs_anchor st = best_anchor E (Cache c b)" "cs_anchors st = anchors E (Cache c b)"
    unfolding st by (simp_all add: chain_of_def del: folded_views)
  from at_writes [OF PushAnchor_writes [OF inv assms(2,3)]] show ?thesis unfolding cs unfolding st .
qed

lemma PopAnchor_at:
  assumes "at E c b st" "\<not> base_blob_IsNull newrt"
    and "cs_anchor st = newrt \<or> cs_anchor st \<noteq> env_empty_root E \<and> cs_anchors st (cs_anchor st)"
  shows "\<exists>c' b'. PopAnchor E c b newrt = Inr (c', b') \<and> at E c' b' (if cs_anchor st = newrt then st
    else st\<lparr>cs_anchors := (cs_anchors st)(cs_anchor st := False), cs_anchor := newrt\<rparr>)"
proof -
  have inv: "view_inv E (Cache c b)" and st: "st = chain_of E (Cache c b)" using assms(1) by (simp_all add: at_def del: folded_views)
  have cs: "cs_anchor st = best_anchor E (Cache c b)" "cs_anchors st = anchors E (Cache c b)"
    unfolding st by (simp_all add: chain_of_def del: folded_views)
  show ?thesis
  proof (cases "cs_anchor st = newrt")
    case True
    obtain h d w where g: "CacheGetBestAnchor E c b = (h, d, w)" by (cases "CacheGetBestAnchor E c b")
    from GetBestAnchor_reads(2) [OF inv g] have "h = newrt" "at E d w st"
      using True st cs by (simp_all add: reads_def at_def del: folded_views)
    then show ?thesis using True g by (simp add: PopAnchor_def)
  next
    case False
    then have cur: "best_anchor E (Cache c b) \<noteq> env_empty_root E" "anchors E (Cache c b) (best_anchor E (Cache c b))"
      using assms(3) unfolding cs by auto
    from PopAnchor_writes [OF inv assms(2) cur] obtain c' b' where "PopAnchor E c b newrt = Inr (c', b')"
      "at E c' b' (if best_anchor E (Cache c b) = newrt then chain_of E (Cache c b)
       else (chain_of E (Cache c b))\<lparr>cs_anchors := (anchors E (Cache c b))(best_anchor E (Cache c b) := False), cs_anchor := newrt\<rparr>)"
      using at_writes by blast
    then show ?thesis unfolding cs unfolding st by blast
  qed
qed

lemma SetBestBlock_at: "at E c b st \<Longrightarrow> \<not> base_blob_IsNull h \<Longrightarrow> at E (SetBestBlock c h) b (st\<lparr>cs_block := h\<rparr>)"
  using SetBestBlock_writes [of E c b h] by (auto simp: at_def writes_def simp del: folded_views)

text \<open>What the transactions do does not depend on the tip and leaves it.\<close>

definition with_tip :: "(bytes \<Rightarrow> bool) \<Rightarrow> bytes \<Rightarrow> bytes \<Rightarrow> chainstate \<Rightarrow> chainstate" where
  "with_tip a r h st = st\<lparr>cs_anchors := a, cs_anchor := r, cs_block := h\<rparr>"

lemma applied_with_tip:
  "applied txid tx height (with_tip a r h st) = with_tip a r h (applied txid tx height st)"
  "applicable txid tx (with_tip a r h st) = applicable txid tx st"
  by (simp_all add: applied_def applicable_def with_tip_def nullifiers_set_def Let_def split: option.split)

lemma all_with_tip:
  "all_applied hash height txs (with_tip a r h st) = with_tip a r h (all_applied hash height txs st)"
  "all_applicable hash height txs (with_tip a r h st) = all_applicable hash height txs st"
  "undo_records hash height txs (with_tip a r h st) = undo_records hash height txs st"
  by (induction txs arbitrary: st) (simp_all add: applied_with_tip, simp add: with_tip_def)

lemma applied_tip:
  "cs_anchors (applied txid tx height st) = cs_anchors st" "cs_anchor (applied txid tx height st) = cs_anchor st"
  "cs_block (applied txid tx height st) = cs_block st"
  by (simp_all add: applied_def nullifiers_set_def Let_def split: option.split)

lemma all_applied_tip:
  "cs_anchors (all_applied hash height txs st) = cs_anchors st" "cs_anchor (all_applied hash height txs st) = cs_anchor st"
  "cs_block (all_applied hash height txs st) = cs_block st"
  by (induction txs arbitrary: st) (simp_all add: applied_tip)

lemma undo_records_paired:
  "list_all2 (\<lambda>(tx, u) r. plain_inputs tx \<longrightarrow> u = Some r) (zip txs (map Some (undo_records hash height txs st)))
     (undo_records hash height txs st)"
  by (induction txs arbitrary: st) auto

text \<open>The chain state once a block with the final tree \<open>tree\<close> and the hash \<open>h\<close> is connected.\<close>

definition connected :: "'t coins_env \<Rightarrow> (CTransaction \<Rightarrow> bytes) \<Rightarrow> int \<Rightarrow> CTransaction list \<Rightarrow> bytes \<Rightarrow> bytes \<Rightarrow> chainstate \<Rightarrow> chainstate" where
  "connected E hash height txs root h st =
     (let st' = all_applied hash height txs st
      in if cs_anchor st = root then st'\<lparr>cs_block := h\<rparr>
         else with_tip ((cs_anchors st)(root := True)) root h st')"

lemma DisconnectBlock_at:
  assumes at: "at E c b (connected E (dx_hash X) (nHeight pindex) txs root (phashBlock pindex) st)"
    and txs: "txs = cb # rest" "IsCoinBase cb" "all_applicable (dx_hash X) (nHeight pindex) txs st"
    and st: "utxo_wf st" "(word_of_int (nHeight pindex) :: u32) \<noteq> 0"
    and root: "cs_anchor st = root \<or> \<not> cs_anchors st root \<and> root \<noteq> env_empty_root E"
    and others: "\<And>tx x. fst (dx_zerocoin X tx x)" "\<And>x. fst (dx_undo_special X x)"
    and idx: "NetworkUpgradeActive (nHeight pindex) P (upgrade_idx UPGRADE_V6_0) = Inr v6" "v6 \<longrightarrow> dx_verify_best X (phashBlock pindex) x"
      "\<not> FlatFilePos_IsNull (GetUndoPos pindex)" "deref H (pprev pindex) = Inr prev"
      "dx_undo X (GetUndoPos pindex) (phashBlock prev) = Some \<lparr>vtxundo = tl (undo_records (dx_hash X) (nHeight pindex) txs st)\<rparr>"
      "NetworkUpgradeActive (nHeight prev) P (upgrade_idx UPGRADE_V5_0) = Inr v5"
      "NetworkUpgradeActive (nHeight pindex) P (upgrade_idx UPGRADE_ZC_V2) = Inr zc"
    and prev: "phashBlock prev = cs_block st" "(if v5 then hashFinalSaplingRoot prev else env_empty_root E) = cs_anchor st"
      "\<not> base_blob_IsNull (cs_block st)" "\<not> base_blob_IsNull (cs_anchor st)"
  shows "\<exists>x' c' b'. DisconnectBlock E X P H txs pindex x c b = Inr (DISCONNECT_OK, x', c', b') \<and> at E c' b' st"
proof -
  let ?st = "if cs_anchor st = root then st\<lparr>cs_block := phashBlock pindex\<rparr>
    else with_tip ((cs_anchors st)(root := True)) root (phashBlock pindex) st"
  let ?rs = "undo_records (dx_hash X) (nHeight pindex) txs st" and ?us = "zip txs (None # map Some (tl (undo_records (dx_hash X) (nHeight pindex) txs st)))"
  obtain a r where tip: "?st = with_tip a r (phashBlock pindex) st"
  proof
    show "?st = with_tip (if cs_anchor st = root then cs_anchors st else (cs_anchors st)(root := True)) root (phashBlock pindex) st"
      by (auto simp: with_tip_def)
  qed
  have con: "connected E (dx_hash X) (nHeight pindex) txs root (phashBlock pindex) st = all_applied (dx_hash X) (nHeight pindex) txs ?st"
  proof (cases "cs_anchor st = root")
    case True
    then have "?st = with_tip (cs_anchors st) (cs_anchor st) (phashBlock pindex) st" by (auto simp: with_tip_def)
    then show ?thesis using True all_applied_tip
      by (simp add: connected_def Let_def all_with_tip) (simp add: with_tip_def all_applied_tip)
  qed (simp add: connected_def Let_def all_with_tip)
  have rs: "undo_records (dx_hash X) (nHeight pindex) txs ?st = ?rs" unfolding tip by (simp add: all_with_tip)
  have paired: "list_all2 (\<lambda>(tx, u) r. plain_inputs tx \<longrightarrow> u = Some r) ?us (undo_records (dx_hash X) (nHeight pindex) txs ?st)"
    unfolding rs unfolding txs(1) using txs(2) undo_records_paired by simp
  have wf: "utxo_wf ?st" "all_applicable (dx_hash X) (nHeight pindex) txs ?st"
    unfolding tip using st(1) txs(3) by (simp_all add: all_with_tip) (simp add: utxo_wf_def with_tip_def)
  obtain x1 where sp: "dx_undo_special X x = (True, x1)" using others(2) [of x] by (cases "dx_undo_special X x") auto
  have "map fst ?us = txs" unfolding txs(1) by simp
  from DisconnectTxs_at [OF at [unfolded con] wf(2,1) st(2) others(1) paired this, of "[]" True x1] obtain x2 c2 b2 where
    d: "DisconnectTxs E X (rev ?us) True x1 c b = Inr (Some True, x2, c2, b2)" "at E c2 b2 ?st" by auto
  have cur: "cs_anchor ?st = cs_anchor st \<or> cs_anchor ?st \<noteq> env_empty_root E \<and> cs_anchors ?st (cs_anchor ?st)"
    using root by (auto simp: with_tip_def)
  from PopAnchor_at [OF d(2) prev(4) cur] obtain c3 b3 where p: "PopAnchor E c2 b2 (cs_anchor st) = Inr (c3, b3)"
    "at E c3 b3 (if cs_anchor ?st = cs_anchor st then ?st
      else ?st\<lparr>cs_anchors := (cs_anchors ?st)(cs_anchor ?st := False), cs_anchor := cs_anchor st\<rparr>)" by blast
  have "(if cs_anchor ?st = cs_anchor st then ?st
      else ?st\<lparr>cs_anchors := (cs_anchors ?st)(cs_anchor ?st := False), cs_anchor := cs_anchor st\<rparr>)\<lparr>cs_block := cs_block st\<rparr> = st"
    using root by (auto simp: with_tip_def intro!: chainstate.equality fun_upd_idem)
  then have "at E (SetBestBlock c3 (cs_block st)) b3 st" using SetBestBlock_at [OF p(2) prev(3)] by (simp only:)
  moreover have "length (tl ?rs) + 1 = length txs" unfolding txs(1) by simp
  ultimately show ?thesis
    using idx sp d(1) p(1) prev(1,2) by (auto simp: DisconnectBlock_def Let_def)
qed

end
