(* ===== verification/Hash.thy ===== *)
theory Hash
  imports TxVerify
begin

text \<open>
  The streams of \<open>hash.h\<close> that hash what passes through them.  The double SHA-256 of \<open>CHash256\<close> is
  the argument \<open>digest\<close>: it is fed by \<open>write\<close> and depends on the bytes written only, so a
  \<open>CHashWriter\<close> is the bytes it was given.
\<close>

section \<open>Definitions\<close>

definition SER_NETWORK :: int where "SER_NETWORK = 1"
definition SER_DISK :: int where "SER_DISK = 2"
definition SER_GETHASH :: int where "SER_GETHASH = 4"

record CHashWriter =
  hw_ctx :: bytes
  hw_nType :: int
  hw_nVersion :: int

definition CHashWriter_new :: "int \<Rightarrow> int \<Rightarrow> CHashWriter" where
  "CHashWriter_new nTypeIn nVersionIn = \<lparr>hw_ctx = [], hw_nType = nTypeIn, hw_nVersion = nVersionIn\<rparr>"

definition CHashWriter_write :: "CHashWriter \<Rightarrow> bytes \<Rightarrow> CHashWriter res" where
  "CHashWriter_write this pch = Inr (this\<lparr>hw_ctx := hw_ctx this @ pch\<rparr>)"

definition CHashWriter_GetHash :: "(bytes \<Rightarrow> bytes) \<Rightarrow> CHashWriter \<Rightarrow> bytes" where
  "CHashWriter_GetHash digest this = digest (hw_ctx this)"

definition CHashWriter_sink :: "host_order \<Rightarrow> CHashWriter sink_ops" where
  "CHashWriter_sink h = \<lparr>sk_host = h, sk_write = CHashWriter_write, sk_compact = None\<rparr>"

text \<open>A \<open>CHashVerifier\<close> over a source: the writer it extends and the source it points to.\<close>

record 's CHashVerifier =
  hv_writer :: CHashWriter
  hv_source :: 's

definition CHashVerifier_new :: "int \<Rightarrow> int \<Rightarrow> 's \<Rightarrow> 's CHashVerifier" where
  "CHashVerifier_new nType nVersion source = \<lparr>hv_writer = CHashWriter_new nType nVersion, hv_source = source\<rparr>"

definition CHashVerifier_write :: "'s CHashVerifier \<Rightarrow> bytes \<Rightarrow> 's CHashVerifier res" where
  "CHashVerifier_write this pch =
     bindE (CHashWriter_write (hv_writer this) pch) (\<lambda>w. Inr (this\<lparr>hv_writer := w\<rparr>))"

definition CHashVerifier_read :: "'s source_ops \<Rightarrow> 's CHashVerifier \<Rightarrow> nat \<Rightarrow> (bytes \<times> 's CHashVerifier) res" where
  "CHashVerifier_read R this nSize =
     bindE (sc_read R (hv_source this) nSize) (\<lambda>(pch, source).
     bindE (CHashVerifier_write (this\<lparr>hv_source := source\<rparr>) pch) (\<lambda>this. Inr (pch, this)))"

function CHashVerifier_ignore :: "'s source_ops \<Rightarrow> 's CHashVerifier \<Rightarrow> nat \<Rightarrow> 's CHashVerifier res" where
  "CHashVerifier_ignore R this nSize =
     (if nSize > 0 then
        let now = min nSize 1024
        in bindE (CHashVerifier_read R this now) (\<lambda>(data, this). CHashVerifier_ignore R this (nSize - now))
      else Inr this)"
  by pat_completeness auto
termination by (relation "measure (\<lambda>(R, this, nSize). nSize)") auto

declare CHashVerifier_ignore.simps [simp del]

definition CHashVerifier_sink :: "host_order \<Rightarrow> 's CHashVerifier sink_ops" where
  "CHashVerifier_sink h = \<lparr>sk_host = h, sk_write = CHashVerifier_write, sk_compact = None\<rparr>"

definition CHashVerifier_source :: "'s source_ops \<Rightarrow> 's CHashVerifier source_ops" where
  "CHashVerifier_source R = \<lparr>sc_host = sc_host R, sc_read = CHashVerifier_read R\<rparr>"

text \<open>\<open>SerializeHash\<close> of an object whose serializer is \<open>ser\<close>.\<close>

definition SerializeHash ::
  "(bytes \<Rightarrow> bytes) \<Rightarrow> (CHashWriter \<Rightarrow> 'a \<Rightarrow> CHashWriter res) \<Rightarrow> 'a \<Rightarrow> int \<Rightarrow> int \<Rightarrow> bytes res" where
  "SerializeHash digest ser obj nType nVersion =
     bindE (ser (CHashWriter_new nType nVersion) obj) (\<lambda>ss. Inr (CHashWriter_GetHash digest ss))"

definition CTransaction_ComputeHash :: "host_order \<Rightarrow> (bytes \<Rightarrow> bytes) \<Rightarrow> CTransaction \<Rightarrow> bytes res" where
  "CTransaction_ComputeHash h digest tx =
     SerializeHash digest (SerializeTransaction (CHashWriter_sink h)) tx SER_GETHASH PROTOCOL_VERSION"

section \<open>They are lawful streams\<close>

interpretation hash_out: byte_sink "CHashWriter_sink h" hw_ctx "\<lambda>_. True" for h
  by unfold_locales (simp_all add: CHashWriter_sink_def CHashWriter_write_def)

lemma CHashVerifier_write_eq [simp]:
  "CHashVerifier_write this pch = Inr (this\<lparr>hv_writer := (hv_writer this)\<lparr>hw_ctx := hw_ctx (hv_writer this) @ pch\<rparr>\<rparr>)"
  by (simp add: CHashVerifier_write_def CHashWriter_write_def)

interpretation verifier_out: byte_sink "CHashVerifier_sink h" "\<lambda>v. hw_ctx (hv_writer v)" "\<lambda>_. True" for h
  by unfold_locales (simp_all add: CHashVerifier_sink_def)

text \<open>
  As a source a verifier delivers what its source delivers.  The bytes hashed so far and the bytes to
  come always make up the same \<open>whole\<close>.
\<close>

definition verifying :: "('s \<Rightarrow> bytes) \<Rightarrow> ('s \<Rightarrow> bool) \<Rightarrow> bytes \<Rightarrow> 's CHashVerifier \<Rightarrow> bool" where
  "verifying inp rinv whole v \<longleftrightarrow> rinv (hv_source v) \<and> hw_ctx (hv_writer v) @ inp (hv_source v) = whole"

context byte_source
begin

lemma verifier_source:
  "byte_source (CHashVerifier_source R) (\<lambda>v. inp (hv_source v)) (verifying inp rinv whole)"
proof unfold_locales
  fix v n assume v: "verifying inp rinv whole v" and n: "n \<le> length (inp (hv_source v))"
  then obtain s' where s': "sc_read R (hv_source v) n = Inr (take n (inp (hv_source v)), s')" "rinv s'"
    "inp s' = drop n (inp (hv_source v))"
    using read_ok [of "hv_source v" n] by (auto simp: verifying_def)
  then show "\<exists>s'. sc_read (CHashVerifier_source R) v n = Inr (take n (inp (hv_source v)), s') \<and>
      verifying inp rinv whole s' \<and> inp (hv_source s') = drop n (inp (hv_source v))"
    using v by (simp add: CHashVerifier_source_def CHashVerifier_read_def verifying_def)
next
  fix v n assume "verifying inp rinv whole v" "length (inp (hv_source v)) < n" "n \<le> 2 ^ 31"
  then show "\<exists>m. sc_read (CHashVerifier_source R) v n = Inl (IosFailure m)"
    using read_short [of "hv_source v" n] by (auto simp: verifying_def CHashVerifier_source_def CHashVerifier_read_def)
qed

lemma CHashVerifier_ignore_ok:
  assumes "verifying inp rinv whole v" "n \<le> length (inp (hv_source v))"
  shows "\<exists>v'. CHashVerifier_ignore R v n = Inr v' \<and> verifying inp rinv whole v' \<and> inp (hv_source v') = drop n (inp (hv_source v))"
  using assms
proof (induction n arbitrary: v rule: less_induct)
  case (less n)
  show ?case
  proof (cases "n = 0")
    case True
    then show ?thesis using less.prems by (simp add: CHashVerifier_ignore.simps)
  next
    case False
    let ?k = "min n 1024"
    have "?k \<le> length (inp (hv_source v))" using less.prems(2) by simp
    from byte_source.read_ok [OF verifier_source less.prems(1) this] obtain v1 where
      v1: "CHashVerifier_read R v ?k = Inr (take ?k (inp (hv_source v)), v1)" "verifying inp rinv whole v1"
        "inp (hv_source v1) = drop ?k (inp (hv_source v))"
      by (auto simp: CHashVerifier_source_def)
    have "n - ?k < n" "n - ?k \<le> length (inp (hv_source v1))" using False less.prems(2) v1(3) by auto
    from less.IH [OF this(1) v1(2) this(2)] show ?thesis
      using v1 False by (subst CHashVerifier_ignore.simps) (auto simp: Let_def)
  qed
qed

end

section \<open>What they hash\<close>

lemma SerializeHash_emits:
  assumes "emits hw_ctx (\<lambda>_. True) (\<lambda>s. ser s obj) bs"
  shows "SerializeHash digest ser obj nType nVersion = Inr (digest bs)"
  using emitsD [OF assms, of "CHashWriter_new nType nVersion"]
  by (auto simp: SerializeHash_def CHashWriter_GetHash_def CHashWriter_new_def)

interpretation tx_hash: tx_streams "CHashWriter_sink h" hw_ctx "\<lambda>_. True" "DataStream_source h'" pending DataStream_rok for h h' ..

lemma CTransaction_ComputeHash_eq: "tx_ok tx \<Longrightarrow> CTransaction_ComputeHash h digest tx = Inr (digest (tx_enc tx))"
  unfolding CTransaction_ComputeHash_def
  by (intro SerializeHash_emits tx_hash.transaction_emits [where sizeof = "\<lambda>_. 1"]) (simp_all add: MAX_VECTOR_ALLOCATE_def)

end
