(* ===== verification/Block.thy ===== *)
theory Block
  imports Hash
begin

text \<open>
  Block headers, blocks and locators: \<open>primitives/block.h\<close> and \<open>CBlockHeader::GetHash\<close>.  A block is
  a header with more fields, as in the source.  Hash functions are arguments.
\<close>

section \<open>Headers and blocks\<close>

definition UINT256_ZERO :: bytes where
  "UINT256_ZERO = replicate 32 0"

record CBlockHeader =
  hd_nVersion :: int
  hashPrevBlock :: bytes
  hashMerkleRoot :: bytes
  hd_nTime :: u32
  hd_nBits :: u32
  nNonce :: u32
  nAccumulatorCheckpoint :: bytes
  hd_hashFinalSaplingRoot :: bytes

record CBlock = CBlockHeader +
  vtx :: "CTransaction list"
  vchBlockSig :: bytes
  fChecked :: bool

definition CBlockHeader_CURRENT_VERSION :: int where
  "CBlockHeader_CURRENT_VERSION = 11"

definition CBlockHeader_SetNull :: "'b CBlockHeader_scheme \<Rightarrow> 'b CBlockHeader_scheme" where
  "CBlockHeader_SetNull this = this\<lparr>hd_nVersion := CBlockHeader_CURRENT_VERSION, hashPrevBlock := UINT256_ZERO,
     hashMerkleRoot := UINT256_ZERO, hd_nTime := 0, hd_nBits := 0, nNonce := 0,
     nAccumulatorCheckpoint := UINT256_ZERO, hd_hashFinalSaplingRoot := UINT256_ZERO\<rparr>"

definition CBlockHeader_new :: CBlockHeader where
  "CBlockHeader_new = \<lparr>hd_nVersion = CBlockHeader_CURRENT_VERSION, hashPrevBlock = UINT256_ZERO,
     hashMerkleRoot = UINT256_ZERO, hd_nTime = 0, hd_nBits = 0, nNonce = 0,
     nAccumulatorCheckpoint = UINT256_ZERO, hd_hashFinalSaplingRoot = UINT256_ZERO\<rparr>"

definition CBlockHeader_IsNull :: "'b CBlockHeader_scheme \<Rightarrow> bool" where
  "CBlockHeader_IsNull this \<longleftrightarrow> hd_nBits this = 0"

definition CBlockHeader_GetBlockTime :: "'b CBlockHeader_scheme \<Rightarrow> int" where
  "CBlockHeader_GetBlockTime this = uint (hd_nTime this)"

definition CBlock_SetNull :: "CBlock \<Rightarrow> CBlock" where
  "CBlock_SetNull this = (CBlockHeader_SetNull this)\<lparr>vtx := [], fChecked := False, vchBlockSig := []\<rparr>"

definition CBlock_of :: "CBlockHeader \<Rightarrow> CBlock" where
  "CBlock_of header = CBlockHeader.extend header (CBlock.fields [] [] False)"

definition GetBlockHeader :: "CBlock \<Rightarrow> CBlockHeader" where
  "GetBlockHeader this =
     (let block = CBlockHeader_new\<lparr>hd_nVersion := hd_nVersion this, hashPrevBlock := hashPrevBlock this,
            hashMerkleRoot := hashMerkleRoot this, hd_nTime := hd_nTime this, hd_nBits := hd_nBits this,
            nNonce := nNonce this\<rparr>;
          block = (if hd_nVersion this > 3 \<and> hd_nVersion this < 7
                   then block\<lparr>nAccumulatorCheckpoint := nAccumulatorCheckpoint this\<rparr> else block)
      in if hd_nVersion this \<ge> 8 then block\<lparr>hd_hashFinalSaplingRoot := hd_hashFinalSaplingRoot this\<rparr> else block)"

definition CBlock_IsProofOfStake :: "CBlock \<Rightarrow> bool" where
  "CBlock_IsProofOfStake this \<longleftrightarrow> length (vtx this) > 1 \<and> IsCoinStake (vtx this ! 1)"

definition CBlock_IsProofOfWork :: "CBlock \<Rightarrow> bool" where
  "CBlock_IsProofOfWork this \<longleftrightarrow> \<not> CBlock_IsProofOfStake this"

section \<open>Serialisation\<close>

definition Serialize_int32 :: "'s sink_ops \<Rightarrow> 's \<Rightarrow> int \<Rightarrow> 's res" where
  "Serialize_int32 W s a = ser_writedata32 W s (word_of_int a)"

definition Unserialize_int32 :: "'s source_ops \<Rightarrow> 's \<Rightarrow> (int \<times> 's) res" where
  "Unserialize_int32 R s = bindE (ser_readdata32 R s) (\<lambda>(w, s). Inr (sint w, s))"

definition CBlockHeader_Ser :: "'s sink_ops \<Rightarrow> 's \<Rightarrow> 'b CBlockHeader_scheme \<Rightarrow> 's res" where
  "CBlockHeader_Ser W s obj =
     bindE (Serialize_int32 W s (hd_nVersion obj)) (\<lambda>s.
     bindE (Serialize_blob W s (hashPrevBlock obj)) (\<lambda>s.
     bindE (Serialize_blob W s (hashMerkleRoot obj)) (\<lambda>s.
     bindE (ser_writedata32 W s (hd_nTime obj)) (\<lambda>s.
     bindE (ser_writedata32 W s (hd_nBits obj)) (\<lambda>s.
     bindE (ser_writedata32 W s (nNonce obj)) (\<lambda>s.
     bindE (if hd_nVersion obj > 3 \<and> hd_nVersion obj < 7 then Serialize_blob W s (nAccumulatorCheckpoint obj) else Inr s) (\<lambda>s.
       if hd_nVersion obj \<ge> 8 then Serialize_blob W s (hd_hashFinalSaplingRoot obj) else Inr s)))))))"

text \<open>Reading assigns the fields of an object; those the version leaves out keep their value.\<close>

definition CBlockHeader_Unser :: "'s source_ops \<Rightarrow> 's \<Rightarrow> 'b CBlockHeader_scheme \<Rightarrow> ('b CBlockHeader_scheme \<times> 's) res" where
  "CBlockHeader_Unser R s obj =
     bindE (Unserialize_int32 R s) (\<lambda>(ver, s).
     bindE (Unserialize_blob 32 R s) (\<lambda>(prev, s).
     bindE (Unserialize_blob 32 R s) (\<lambda>(root, s).
     bindE (ser_readdata32 R s) (\<lambda>(time, s).
     bindE (ser_readdata32 R s) (\<lambda>(bits, s).
     bindE (ser_readdata32 R s) (\<lambda>(nonce, s).
     bindE (if ver > 3 \<and> ver < 7 then Unserialize_blob 32 R s else Inr (nAccumulatorCheckpoint obj, s)) (\<lambda>(acc, s).
     bindE (if ver \<ge> 8 then Unserialize_blob 32 R s else Inr (hd_hashFinalSaplingRoot obj, s)) (\<lambda>(sap, s).
       Inr (obj\<lparr>hd_nVersion := ver, hashPrevBlock := prev, hashMerkleRoot := root, hd_nTime := time, hd_nBits := bits,
              nNonce := nonce, nAccumulatorCheckpoint := acc, hd_hashFinalSaplingRoot := sap\<rparr>, s)))))))))"

definition CBlock_Ser :: "'s sink_ops \<Rightarrow> 's \<Rightarrow> CBlock \<Rightarrow> 's res" where
  "CBlock_Ser W s obj =
     bindE (CBlockHeader_Ser W s obj) (\<lambda>s.
     bindE (VectorFormatter_Ser (SerializeTransaction W) W s (vtx obj)) (\<lambda>s.
       if length (vtx obj) > 1 \<and> IsCoinStake (vtx obj ! 1) then Serialize_bytevector W s (vchBlockSig obj) else Inr s))"

text \<open>The elements of \<open>vtx\<close> are smart pointers of \<open>sizeof_ref\<close> bytes.\<close>

definition CBlock_Unser :: "(vec_elem \<Rightarrow> nat) \<Rightarrow> nat \<Rightarrow> 's source_ops \<Rightarrow> 's \<Rightarrow> CBlock \<Rightarrow> (CBlock \<times> 's) res" where
  "CBlock_Unser sizeof sizeof_ref R s obj =
     bindE (CBlockHeader_Unser R s obj) (\<lambda>(obj, s).
     bindE (VectorFormatter_Unser sizeof_ref (UnserializeTransaction sizeof R) R s) (\<lambda>(txs, s).
       let obj = obj\<lparr>vtx := txs\<rparr>
       in if length txs > 1 \<and> IsCoinStake (txs ! 1)
          then bindE (Unserialize_bytevector R s) (\<lambda>(sig, s). Inr (obj\<lparr>vchBlockSig := sig\<rparr>, s))
          else Inr (obj, s)))"

text \<open>
  \<open>GetHash\<close>: up to version 3 the header's 80 bytes, laid out by hand or read from memory; from
  version 4 on its serialization, which \<open>SerializeHash\<close> hashes.
\<close>

definition header_data :: "host_order \<Rightarrow> 'b CBlockHeader_scheme \<Rightarrow> bytes" where
  "header_data h this =
     (case h of
        BigEndianHost \<Rightarrow>
          WriteLE32 h (word_of_int (hd_nVersion this)) @ hashPrevBlock this @ hashMerkleRoot this @
          WriteLE32 h (hd_nTime this) @ WriteLE32 h (hd_nBits this) @ WriteLE32 h (nNonce this)
      | LittleEndianHost \<Rightarrow>
          mem_of h (word_of_int (hd_nVersion this) :: u32) @ hashPrevBlock this @ hashMerkleRoot this @
          mem_of h (hd_nTime this) @ mem_of h (hd_nBits this) @ mem_of h (nNonce this))"

definition CBlockHeader_GetHash ::
  "host_order \<Rightarrow> (bytes \<Rightarrow> bytes) \<Rightarrow> (bytes \<Rightarrow> bytes) \<Rightarrow> 'b CBlockHeader_scheme \<Rightarrow> bytes res" where
  "CBlockHeader_GetHash h HashQuark digest this =
     (if hd_nVersion this < 4 then Inr (HashQuark (header_data h this))
      else SerializeHash digest (CBlockHeader_Ser (CHashWriter_sink h)) this SER_GETHASH PROTOCOL_VERSION)"

record CBlockLocator =
  loc_vHave :: "bytes list"

definition CBlockLocator_SetNull :: "CBlockLocator \<Rightarrow> CBlockLocator" where
  "CBlockLocator_SetNull this = this\<lparr>loc_vHave := []\<rparr>"

definition CBlockLocator_IsNull :: "CBlockLocator \<Rightarrow> bool" where
  "CBlockLocator_IsNull this \<longleftrightarrow> loc_vHave this = []"

text \<open>The version of the stream is written first, except for hashing; on reading it is thrown away.\<close>

definition CBlockLocator_Ser :: "int \<Rightarrow> int \<Rightarrow> 's sink_ops \<Rightarrow> 's \<Rightarrow> CBlockLocator \<Rightarrow> 's res" where
  "CBlockLocator_Ser nType nVersion W s obj =
     bindE (if word_of_int nType AND (word_of_int SER_GETHASH :: u32) = 0 then Serialize_int32 W s nVersion else Inr s) (\<lambda>s.
       VectorFormatter_Ser (Serialize_blob W) W s (loc_vHave obj))"

definition CBlockLocator_Unser :: "int \<Rightarrow> 's source_ops \<Rightarrow> 's \<Rightarrow> (CBlockLocator \<times> 's) res" where
  "CBlockLocator_Unser nType R s =
     bindE (if word_of_int nType AND (word_of_int SER_GETHASH :: u32) = 0
            then bindE (Unserialize_int32 R s) (\<lambda>(nVersion, s). Inr ((), s)) else Inr ((), s)) (\<lambda>(u, s).
     bindE (VectorFormatter_Unser 32 (Unserialize_blob 32 R) R s) (\<lambda>(v, s). Inr (\<lparr>loc_vHave = v\<rparr>, s)))"

section \<open>Reading back\<close>

definition int32_enc :: "int \<Rightarrow> bytes" where
  "int32_enc a = digits_of 4 (unat (word_of_int a :: u32))"

definition int32_ok :: "int \<Rightarrow> bool" where
  "int32_ok a \<longleftrightarrow> - (2 ^ 31) \<le> a \<and> a < 2 ^ 31"

definition header_enc :: "'b CBlockHeader_scheme \<Rightarrow> bytes" where
  "header_enc b = int32_enc (hd_nVersion b) @ hashPrevBlock b @ hashMerkleRoot b @ digits_of 4 (unat (hd_nTime b)) @
     digits_of 4 (unat (hd_nBits b)) @ digits_of 4 (unat (nNonce b)) @
     (if hd_nVersion b > 3 \<and> hd_nVersion b < 7 then nAccumulatorCheckpoint b else []) @
     (if hd_nVersion b \<ge> 8 then hd_hashFinalSaplingRoot b else [])"

text \<open>A header whose optional fields are null where its version leaves them out.\<close>

definition header_ok :: "'b CBlockHeader_scheme \<Rightarrow> bool" where
  "header_ok b \<longleftrightarrow> int32_ok (hd_nVersion b) \<and> length (hashPrevBlock b) = 32 \<and> length (hashMerkleRoot b) = 32 \<and>
     (if hd_nVersion b > 3 \<and> hd_nVersion b < 7 then length (nAccumulatorCheckpoint b) = 32
      else nAccumulatorCheckpoint b = UINT256_ZERO) \<and>
     (if hd_nVersion b \<ge> 8 then length (hd_hashFinalSaplingRoot b) = 32 else hd_hashFinalSaplingRoot b = UINT256_ZERO)"

definition block_enc :: "CBlock \<Rightarrow> bytes" where
  "block_enc b = header_enc b @ vec_enc tx_enc (vtx b) @
     (if CBlock_IsProofOfStake b then bytevec_enc (vchBlockSig b) else [])"

definition block_ok :: "CBlock \<Rightarrow> bool" where
  "block_ok b \<longleftrightarrow> header_ok b \<and> vec_ok tx_ok (vtx b) \<and> \<not> fChecked b \<and>
     (if CBlock_IsProofOfStake b then bytevec_ok (vchBlockSig b) else vchBlockSig b = [])"

lemma sint_word_of_int32: "int32_ok a \<Longrightarrow> sint (word_of_int a :: u32) = a"
  unfolding sint_sbintrunc' int32_ok_def by (intro signed_take_bit_int_eq_self) simp_all

context tx_streams
begin

lemma int32_codec:
  "codec W out winv R inp rinv (Serialize_int32 W) (Unserialize_int32 R) int32_enc int32_ok"
proof unfold_locales
  fix a :: int assume a: "int32_ok a"
  show "emits out winv (\<lambda>s. Serialize_int32 W s a) (int32_enc a)"
    unfolding Serialize_int32_def int32_enc_def by (rule sink.writedata_emits)
  show "parses inp rinv (Unserialize_int32 R) a (int32_enc a)"
    unfolding Unserialize_int32_def int32_enc_def
    by (rule parses_map [OF source.readdata_parses(4)]) (rule sint_word_of_int32 [OF a])
qed

lemma emits_if: "(P \<Longrightarrow> emits out winv f bs) \<Longrightarrow> emits out winv (\<lambda>s. if P then f s else Inr s) (if P then bs else [])"
  using emits_Inr [of out winv] by simp

lemma header_emits:
  assumes "header_ok b"
  shows "emits out winv (\<lambda>s. CBlockHeader_Ser W s b) (header_enc b)"
  unfolding CBlockHeader_Ser_def header_enc_def
  by (intro emits_bind emits_if atom_emits codec.ser_emits [OF int32_codec])
    (use assms in \<open>auto simp: header_ok_def split: if_splits\<close>)

lemma parses_if:
  "(P \<Longrightarrow> parses inp rinv f x bs) \<Longrightarrow> (\<not> P \<Longrightarrow> x = y) \<Longrightarrow>
   parses inp rinv (\<lambda>s. if P then f s else Inr (y, s)) x (if P then bs else [])"
  using parses_Inr [of inp rinv y] by auto

lemma header_parses:
  assumes "header_ok b" "nAccumulatorCheckpoint obj = UINT256_ZERO" "hd_hashFinalSaplingRoot obj = UINT256_ZERO"
  shows "parses inp rinv (\<lambda>s. CBlockHeader_Unser R s obj)
    (obj\<lparr>hd_nVersion := hd_nVersion b, hashPrevBlock := hashPrevBlock b, hashMerkleRoot := hashMerkleRoot b,
       hd_nTime := hd_nTime b, hd_nBits := hd_nBits b, nNonce := nNonce b,
       nAccumulatorCheckpoint := nAccumulatorCheckpoint b, hd_hashFinalSaplingRoot := hd_hashFinalSaplingRoot b\<rparr>) (header_enc b)"
proof -
  have acc: "parses inp rinv (\<lambda>s. if hd_nVersion b > 3 \<and> hd_nVersion b < 7 then Unserialize_blob 32 R s
      else Inr (nAccumulatorCheckpoint obj, s)) (nAccumulatorCheckpoint b)
      (if hd_nVersion b > 3 \<and> hd_nVersion b < 7 then nAccumulatorCheckpoint b else [])"
    using assms by (intro parses_if atom_parses) (auto simp: header_ok_def split: if_splits)
  have sap: "parses inp rinv (\<lambda>s. if hd_nVersion b \<ge> 8 then Unserialize_blob 32 R s
      else Inr (hd_hashFinalSaplingRoot obj, s)) (hd_hashFinalSaplingRoot b)
      (if hd_nVersion b \<ge> 8 then hd_hashFinalSaplingRoot b else [])"
    using assms by (intro parses_if atom_parses) (auto simp: header_ok_def split: if_splits)
  show ?thesis
    unfolding CBlockHeader_Unser_def header_enc_def
    by (intro parses_bind [OF codec.uns_parses [OF int32_codec]] parses_bind [OF atom_parses(1)] parses_bind [OF atom_parses(5)] parses_bind [OF acc] parses_map [OF sap])
      (use assms in \<open>auto simp: header_ok_def\<close>)
qed

lemma block_codec:
  assumes "\<And>e. 0 < sizeof e \<and> sizeof e \<le> MAX_VECTOR_ALLOCATE" "0 < n" "n \<le> MAX_VECTOR_ALLOCATE"
  shows "codec W out winv R inp rinv (CBlock_Ser W) (\<lambda>s. CBlock_Unser sizeof n R s (CBlock_of CBlockHeader_new)) block_enc block_ok"
proof unfold_locales
  note txs = vec_codec [OF transaction_codec [OF assms(1)] assms(2,3)]
  fix b assume b: "block_ok b"
  then have h: "header_ok b" and v: "vec_ok tx_ok (vtx b)" by (simp_all add: block_ok_def)
  show "emits out winv (\<lambda>s. CBlock_Ser W s b) (block_enc b)"
    unfolding CBlock_Ser_def block_enc_def CBlock_IsProofOfStake_def [symmetric]
    by (intro emits_bind emits_if header_emits [OF h] codec.ser_emits [OF txs v])
      (use b in \<open>simp add: block_ok_def bytevec_enc_def bytevec_ok_def sink.Serialize_bytevector_emits\<close>)
  let ?null = "CBlock_of CBlockHeader_new"
  have null: "nAccumulatorCheckpoint ?null = UINT256_ZERO" "hd_hashFinalSaplingRoot ?null = UINT256_ZERO"
    by (simp_all add: CBlock_of_def CBlockHeader_new_def CBlockHeader.extend_def)
  define obj where "obj = ?null\<lparr>hd_nVersion := hd_nVersion b, hashPrevBlock := hashPrevBlock b, hashMerkleRoot := hashMerkleRoot b,
       hd_nTime := hd_nTime b, hd_nBits := hd_nBits b, nNonce := nNonce b,
       nAccumulatorCheckpoint := nAccumulatorCheckpoint b, hd_hashFinalSaplingRoot := hd_hashFinalSaplingRoot b\<rparr>"
  have sig: "parses inp rinv (\<lambda>s. if length (vtx b) > 1 \<and> IsCoinStake (vtx b ! 1)
      then bindE (Unserialize_bytevector R s) (\<lambda>(sig, s). Inr (obj\<lparr>vtx := vtx b, vchBlockSig := sig\<rparr>, s)) else Inr (obj\<lparr>vtx := vtx b\<rparr>, s)) b
      (if length (vtx b) > 1 \<and> IsCoinStake (vtx b ! 1) then bytevec_enc (vchBlockSig b) else [])"
  proof (rule parses_if)
    assume P: "length (vtx b) > 1 \<and> IsCoinStake (vtx b ! 1)"
    then have "length (vchBlockSig b) \<le> unat MAX_SIZE" using b by (simp add: block_ok_def CBlock_IsProofOfStake_def bytevec_ok_def)
    from parses_map [OF source.Unserialize_bytevector_parses [OF this], of "\<lambda>sig. obj\<lparr>vtx := vtx b, vchBlockSig := sig\<rparr>" b]
    show "parses inp rinv (\<lambda>s. bindE (Unserialize_bytevector R s) (\<lambda>(sig, s). Inr (obj\<lparr>vtx := vtx b, vchBlockSig := sig\<rparr>, s))) b (bytevec_enc (vchBlockSig b))"
      using b by (simp add: obj_def bytevec_enc_def block_ok_def CBlock_of_def CBlockHeader_new_def CBlockHeader.extend_def CBlock.fields_def)
  next
    assume "\<not> (length (vtx b) > 1 \<and> IsCoinStake (vtx b ! 1))"
    then show "b = obj\<lparr>vtx := vtx b\<rparr>"
      using b by (simp add: obj_def block_ok_def CBlock_IsProofOfStake_def CBlock_of_def CBlockHeader_new_def CBlockHeader.extend_def CBlock.fields_def split: if_splits)
  qed
  show "parses inp rinv (\<lambda>s. CBlock_Unser sizeof n R s ?null) b (block_enc b)"
    unfolding CBlock_Unser_def block_enc_def Let_def CBlock_IsProofOfStake_def
    by (intro parses_bind [OF header_parses [OF h null]] parses_bind [OF codec.uns_parses [OF txs v]])
      (rule sig [unfolded obj_def])
qed

lemma locator_codec:
  assumes "int32_ok nVersion"
  shows "codec W out winv R inp rinv (CBlockLocator_Ser nType nVersion W) (CBlockLocator_Unser nType R)
    (\<lambda>l. (if word_of_int nType AND (word_of_int SER_GETHASH :: u32) = 0 then int32_enc nVersion else []) @ vec_enc (\<lambda>x. x) (loc_vHave l))
    (\<lambda>l. vec_ok (\<lambda>x. length x = 32) (loc_vHave l))"
proof unfold_locales
  note v = vec_codec [OF blob_codec [of 32], of 32, unfolded MAX_VECTOR_ALLOCATE_def, simplified]
  fix l :: CBlockLocator assume l: "vec_ok (\<lambda>x. length x = 32) (loc_vHave l)"
  show "emits out winv (\<lambda>s. CBlockLocator_Ser nType nVersion W s l)
    ((if word_of_int nType AND (word_of_int SER_GETHASH :: u32) = 0 then int32_enc nVersion else []) @ vec_enc (\<lambda>x. x) (loc_vHave l))"
    unfolding CBlockLocator_Ser_def
    by (intro emits_bind emits_if codec.ser_emits [OF int32_codec] codec.ser_emits [OF v] assms l)
  have "parses inp rinv (\<lambda>s. if word_of_int nType AND (word_of_int SER_GETHASH :: u32) = 0
      then bindE (Unserialize_int32 R s) (\<lambda>(nVersion, s). Inr ((), s)) else Inr ((), s)) ()
      (if word_of_int nType AND (word_of_int SER_GETHASH :: u32) = 0 then int32_enc nVersion else [])"
    by (intro parses_if parses_map [OF codec.uns_parses [OF int32_codec assms]]) auto
  from parses_bind [OF this, of "\<lambda>u s. bindE (VectorFormatter_Unser 32 (Unserialize_blob 32 R) R s) (\<lambda>(v, s). Inr (\<lparr>loc_vHave = v\<rparr>, s))" l,
      OF parses_map [OF codec.uns_parses [OF v l], of "\<lambda>v. \<lparr>loc_vHave = v\<rparr>" l]]
  show "parses inp rinv (CBlockLocator_Unser nType R) l
    ((if word_of_int nType AND (word_of_int SER_GETHASH :: u32) = 0 then int32_enc nVersion else []) @ vec_enc (\<lambda>x. x) (loc_vHave l))"
    by (simp add: CBlockLocator_Unser_def [abs_def])
qed

end

section \<open>Hashes\<close>

text \<open>The hand-written layout of old headers is their serialization, on either kind of host.\<close>

lemma header_data_enc: "hd_nVersion b < 4 \<Longrightarrow> header_data h b = header_enc b"
  by (cases h) (simp_all add: header_data_def header_enc_def int32_enc_def mem_of_def)

lemma GetHash_header_enc:
  assumes "header_ok b"
  shows "CBlockHeader_GetHash h HashQuark digest b = Inr (if hd_nVersion b < 4 then HashQuark (header_enc b) else digest (header_enc b))"
  using SerializeHash_emits [of "CBlockHeader_Ser (CHashWriter_sink h)" b "header_enc b", OF tx_hash.header_emits [OF assms]]
  by (simp add: CBlockHeader_GetHash_def header_data_enc)

lemma GetBlockHeader_enc: "header_enc (GetBlockHeader b) = header_enc b"
  by (simp add: GetBlockHeader_def header_enc_def CBlockHeader_new_def Let_def)

section \<open>Properties\<close>

text \<open>
  Property.  A block written to a data stream reads back unchanged on any host, whatever its version:
  the accumulator checkpoint travels in versions 4 to 6 only, the Sapling root from version 8 on, the
  block signature in proof-of-stake blocks only.  The block read has the hash of the block written, and so has the
  header \<open>GetBlockHeader\<close> cuts out of it: the hash is taken of the serialized header on every host,
  also where \<open>GetHash\<close> lays out the 80 bytes of an old header by hand.
\<close>

theorem CBlock_roundtrip:
  assumes "block_ok b" "\<And>e. 0 < sizeof e \<and> sizeof e \<le> MAX_VECTOR_ALLOCATE" "0 < n" "n \<le> MAX_VECTOR_ALLOCATE"
    and "length (block_enc b) + length rest < 2 ^ 31"
  shows "\<exists>s t. CBlock_Ser (DataStream_sink h) (DataStream_new ty v) b = Inr s \<and>
    CBlock_Unser sizeof n (DataStream_source h') (DataStream_from (pending s @ rest) ty' v') (CBlock_of CBlockHeader_new) = Inr (b, t) \<and>
    pending t = rest \<and>
    CBlockHeader_GetHash h HashQuark digest b = Inr (if hd_nVersion b < 4 then HashQuark (header_enc b) else digest (header_enc b)) \<and>
    CBlockHeader_GetHash h' HashQuark digest (GetBlockHeader b) = CBlockHeader_GetHash h HashQuark digest b"
proof -
  note c = tx_ds.block_codec [of sizeof n h h', OF assms(2-4)]
  from emitsD [OF codec.ser_emits [OF c assms(1)] DataStream_new_ok(1) [of ty v]]
  obtain s where s: "CBlock_Ser (DataStream_sink h) (DataStream_new ty v) b = Inr s" "pending s = block_enc b" by auto
  have "DataStream_rok (DataStream_from (block_enc b @ rest) ty' v')" using assms(5) by (intro DataStream_from_ok(1)) simp
  from parsesD [OF codec.uns_parses [OF c assms(1)] this, of rest] s
  obtain t where t: "CBlock_Unser sizeof n (DataStream_source h') (DataStream_from (pending s @ rest) ty' v') (CBlock_of CBlockHeader_new) = Inr (b, t)"
    "pending t = rest" by auto
  have ok: "header_ok b" "header_ok (GetBlockHeader b)" "hd_nVersion (GetBlockHeader b) = hd_nVersion b"
    using assms(1) by (simp_all add: block_ok_def header_ok_def GetBlockHeader_def CBlockHeader_new_def Let_def UINT256_ZERO_def split: if_splits)
  show ?thesis using s(1) t GetHash_header_enc [OF ok(1)] GetHash_header_enc [OF ok(2)]
    by (simp add: ok(3) GetBlockHeader_enc)
qed

definition sample_stake :: CTransaction where
  "sample_stake = CMutableTransaction_new\<lparr>
     vin := [\<lparr>prevout = \<lparr>op_hash = replicate 32 7, op_n = 0\<rparr>, scriptSig = [1], nSequence = 5\<rparr>],
     vout := [CTxOut_new 0 [], CTxOut_new 5 [0x51]]\<rparr>"

definition sample_pos_block :: CBlock where
  "sample_pos_block = (CBlock_of (CBlockHeader_new\<lparr>hd_nTime := 77, hd_hashFinalSaplingRoot := replicate 32 9\<rparr>))
     \<lparr>vtx := [CMutableTransaction_new, sample_stake], vchBlockSig := [1, 2, 3]\<rparr>"

lemma sample_pos_block_ok: "CBlock_IsProofOfStake sample_pos_block" "block_ok sample_pos_block" "length (block_enc sample_pos_block) \<le> 1000"
proof -
  note tx = CMutableTransaction_new_def sample_stake_def CTxOut_new_def isSaplingVersion_def TxVersion_SAPLING_def IsNormalType_def
    TxType_NORMAL_def SaplingTxData_new_def
  note block = sample_pos_block_def CBlock_of_def CBlockHeader_new_def CBlockHeader.extend_def CBlock.fields_def CBlockHeader_CURRENT_VERSION_def
  show pos: "CBlock_IsProofOfStake sample_pos_block"
    by (simp add: CBlock_IsProofOfStake_def sample_pos_block_def sample_stake_def IsCoinStake_def COutPoint_IsNull_def Let_def
        CTxOut_IsEmpty_def CTxOut_new_def base_blob_IsNull_def)
  have ok: "tx_ok CMutableTransaction_new" "tx_ok sample_stake"
    by (simp_all add: tx_ok_def tx vec_ok_def CTxIn_ok_def COutPoint_ok_def bytevec_ok_def CTxOut_ok_def amount_ok_def
        int64_min_def int64_max_def MAX_SIZE_def Sapling_ok_def)
  then show "block_ok sample_pos_block" unfolding block_ok_def using pos
    by (simp add: block header_ok_def int32_ok_def UINT256_ZERO_def vec_ok_def MAX_SIZE_def bytevec_ok_def)
  have "length (tx_enc CMutableTransaction_new) \<le> 200" "length (tx_enc sample_stake) \<le> 200"
    by (simp_all add: tx_enc_def int16_enc_def vec_enc_def compact_bytes_def CTxIn_enc_def COutPoint_enc_def
        bytevec_enc_def CTxOut_enc_def amount_enc_def opt_enc_def Sapling_enc_def tx)
  then show "length (block_enc sample_pos_block) \<le> 1000" unfolding block_enc_def using pos
    by (simp add: block header_enc_def int32_enc_def vec_enc_def compact_bytes_def bytevec_enc_def UINT256_ZERO_def)
qed

theorem CBlock_roundtrip_witness:
  "\<exists>s t. CBlock_Ser (DataStream_sink LittleEndianHost) (DataStream_new 1 0) sample_pos_block = Inr s \<and>
    CBlock_Unser (\<lambda>_. 64) 16 (DataStream_source BigEndianHost) (DataStream_from (pending s @ [4]) 1 0) (CBlock_of CBlockHeader_new)
      = Inr (sample_pos_block, t) \<and>
    pending t = [4] \<and>
    CBlockHeader_GetHash LittleEndianHost rev (take 3) sample_pos_block =
      Inr (if hd_nVersion sample_pos_block < 4 then rev (header_enc sample_pos_block) else take 3 (header_enc sample_pos_block)) \<and>
    CBlockHeader_GetHash BigEndianHost rev (take 3) (GetBlockHeader sample_pos_block) = CBlockHeader_GetHash LittleEndianHost rev (take 3) sample_pos_block"
proof (rule CBlock_roundtrip)
  show "length (block_enc sample_pos_block) + length [4 :: u8] < 2 ^ 31" using sample_pos_block_ok(3) by simp
qed (simp_all add: MAX_VECTOR_ALLOCATE_def sample_pos_block_ok)

end
