(* ===== verification/Disk.thy ===== *)
theory Disk
  imports Block Undo Pow
begin

text \<open>
  Blocks and undo data on disk: \<open>FlatFileSeq::Open\<close> of \<open>flatfile.cpp\<close> and the readers and writers of
  \<open>validation.cpp\<close>.  A directory of numbered files is a map from numbers to contents; opening
  a file may be denied, and the device of a file may fail.  What an exception leaves in a
  file is not tracked.
\<close>

section \<open>Files\<close>

record flat_files =
  ff_data :: "int \<rightharpoonup> bytes"
  ff_denied :: "int \<Rightarrow> bool"
  ff_failing :: "int \<Rightarrow> bool"

definition open_file :: "flat_files \<Rightarrow> int \<Rightarrow> bytes \<Rightarrow> FILE" where
  "open_file ff n data = \<lparr>f_data = data, f_pos = 0, f_eof = False, f_failed = ff_failing ff n\<rparr>"

text \<open>
  Mode \<open>rb\<close> or \<open>rb+\<close> wants an existing file; mode \<open>wb+\<close> makes an empty one.  \<open>fseek\<close> to a position that is
  not negative does not fail on a regular file, and the branch for its failure is left out.
\<close>

definition FlatFileSeq_Open :: "flat_files \<Rightarrow> FlatFilePos \<Rightarrow> bool \<Rightarrow> FILE option" where
  "FlatFileSeq_Open ff pos read_only =
     (if FlatFilePos_IsNull pos then None
      else
        let n = pos_nFile pos;
            file = (if ff_denied ff n then None else map_option (open_file ff n) (ff_data ff n));
            file = (if file = None \<and> \<not> read_only \<and> \<not> ff_denied ff n then Some (open_file ff n []) else file)
        in case file of
             None \<Rightarrow> None
           | Some f \<Rightarrow> Some (if pos_nPos pos \<noteq> 0 then f\<lparr>f_pos := unat (pos_nPos pos), f_eof := False\<rparr> else f))"

text \<open>Closing a file: its contents go to the directory.\<close>

definition close_file :: "flat_files \<Rightarrow> int \<Rightarrow> CAutoFile \<Rightarrow> flat_files" where
  "close_file ff n s = (case af_file s of None \<Rightarrow> ff | Some f \<Rightarrow> ff\<lparr>ff_data := (ff_data ff)(n \<mapsto> f_data f)\<rparr>)"

definition AutoFile_ftell :: "CAutoFile \<Rightarrow> int" where
  "AutoFile_ftell s = (case af_file s of None \<Rightarrow> - 1 | Some f \<Rightarrow> int (f_pos f))"

definition Serialize_chars :: "'s sink_ops \<Rightarrow> 's \<Rightarrow> bytes \<Rightarrow> 's res" where
  "Serialize_chars W s a = sk_write W s a"

section \<open>Undo data\<close>

text \<open>
  What the functions use of the rest of the program: the host, the validity test of public keys, the
  network's message start, the hash function and the version of the client.
\<close>

record disk_env =
  de_host :: host_order
  de_fully_valid :: "bytes \<Rightarrow> bool"
  de_decompress :: "bytes \<Rightarrow> bytes option"
  de_message_start :: bytes
  de_digest :: "bytes \<Rightarrow> bytes"
  de_quark :: "bytes \<Rightarrow> bytes"
  de_client_version :: int
  de_sizeof :: "vec_elem \<Rightarrow> nat"
  de_sizeof_ref :: nat
  de_sizeof_CTxUndo :: nat
  de_sizeof_Coin :: nat

definition UndoWriteToDisk ::
  "disk_env \<Rightarrow> flat_files \<Rightarrow> CBlockUndo \<Rightarrow> FlatFilePos \<Rightarrow> bytes \<Rightarrow> (bool \<times> FlatFilePos \<times> flat_files) res" where
  "UndoWriteToDisk D ff blockundo pos hashBlk =
     (let h = de_host D; W = AutoFile_sink h;
          fileout = AutoFile_new (FlatFileSeq_Open ff pos False) SER_DISK (de_client_version D)
      in if AutoFile_IsNull fileout then Inr (False, pos, ff)
         else
           bindE (GetSerializeSize (CBlockUndo_Ser (de_fully_valid D)) h blockundo (de_client_version D)) (\<lambda>nSize.
           bindE (Serialize_chars W fileout (de_message_start D)) (\<lambda>fileout.
           bindE (ser_writedata32 W fileout (of_nat nSize)) (\<lambda>fileout.
             let fileOutPos = AutoFile_ftell fileout
             in if fileOutPos < 0 then Inr (False, pos, close_file ff (pos_nFile pos) fileout)
                else
                  let pos' = pos\<lparr>pos_nPos := word_of_int fileOutPos\<rparr>
                  in bindE (CBlockUndo_Ser (de_fully_valid D) W fileout blockundo) (\<lambda>fileout.
                     bindE (Serialize_blob (CHashWriter_sink h) (CHashWriter_new SER_GETHASH PROTOCOL_VERSION) hashBlk) (\<lambda>hasher.
                     bindE (CBlockUndo_Ser (de_fully_valid D) (CHashWriter_sink h) hasher blockundo) (\<lambda>hasher.
                     bindE (Serialize_blob W fileout (CHashWriter_GetHash (de_digest D) hasher)) (\<lambda>fileout.
                       Inr (True, pos', close_file ff (pos_nFile pos) fileout)))))))))"

text \<open>
  Reading returns the undo data, or \<open>None\<close> where the source reports an error: all its exceptions are
  caught.
\<close>

definition UndoReadFromDisk :: "disk_env \<Rightarrow> flat_files \<Rightarrow> FlatFilePos \<Rightarrow> bytes \<Rightarrow> CBlockUndo option" where
  "UndoReadFromDisk D ff pos hashBlk =
     (let h = de_host D; R = AutoFile_source h;
          filein = AutoFile_new (FlatFileSeq_Open ff pos True) SER_DISK (de_client_version D)
      in if AutoFile_IsNull filein then None
         else
           case bindE (Serialize_blob (CHashVerifier_sink h) (CHashVerifier_new SER_DISK (de_client_version D) filein) hashBlk) (\<lambda>verifier.
                bindE (CBlockUndo_Unser (de_sizeof_CTxUndo D) (de_sizeof_Coin D) (de_decompress D) (CHashVerifier_ignore R)
                         (CHashVerifier_source R) verifier) (\<lambda>(blockundo, verifier).
                bindE (Unserialize_blob 32 R (hv_source verifier)) (\<lambda>(hashChecksum, filein).
                  Inr (blockundo, hashChecksum, verifier)))) of
             Inl e \<Rightarrow> None
           | Inr (blockundo, hashChecksum, verifier) \<Rightarrow>
               if hashChecksum \<noteq> CHashWriter_GetHash (de_digest D) (hv_writer verifier) then None
               else Some blockundo)"

section \<open>Blocks\<close>

definition WriteBlockToDisk ::
  "disk_env \<Rightarrow> flat_files \<Rightarrow> CBlock \<Rightarrow> FlatFilePos \<Rightarrow> (bool \<times> FlatFilePos \<times> flat_files) res" where
  "WriteBlockToDisk D ff block pos =
     (let h = de_host D; W = AutoFile_sink h;
          fileout = AutoFile_new (FlatFileSeq_Open ff pos False) SER_DISK (de_client_version D)
      in if AutoFile_IsNull fileout then Inr (False, pos, ff)
         else
           bindE (GetSerializeSize CBlock_Ser h block (de_client_version D)) (\<lambda>nSize.
           bindE (Serialize_chars W fileout (de_message_start D)) (\<lambda>fileout.
           bindE (ser_writedata32 W fileout (of_nat nSize)) (\<lambda>fileout.
             let fileOutPos = AutoFile_ftell fileout
             in if fileOutPos < 0 then Inr (False, pos, close_file ff (pos_nFile pos) fileout)
                else
                  let pos' = pos\<lparr>pos_nPos := word_of_int fileOutPos\<rparr>
                  in bindE (CBlock_Ser W fileout block) (\<lambda>fileout.
                       Inr (True, pos', close_file ff (pos_nFile pos) fileout))))))"

text \<open>\<open>P\<close> are the consensus parameters.  The result is the block, or \<open>None\<close> with an error.\<close>

definition ReadBlockFromDisk_pos :: "disk_env \<Rightarrow> Params \<Rightarrow> flat_files \<Rightarrow> FlatFilePos \<Rightarrow> CBlock option res" where
  "ReadBlockFromDisk_pos D P ff pos =
     (let h = de_host D; R = AutoFile_source h;
          filein = AutoFile_new (FlatFileSeq_Open ff pos True) SER_DISK (de_client_version D)
      in if AutoFile_IsNull filein then Inr None
         else
           case CBlock_Unser (de_sizeof D) (de_sizeof_ref D) R filein (CBlock_SetNull (CBlock_of CBlockHeader_new)) of
             Inl e \<Rightarrow> Inr None
           | Inr (block, filein) \<Rightarrow>
               if CBlock_IsProofOfWork block then
                 bindE (CBlockHeader_GetHash h (de_quark D) (de_digest D) block) (\<lambda>hash.
                   Inr (if CheckProofOfWork h P hash (hd_nBits block) then Some block else None))
               else Inr (Some block))"

definition ReadBlockFromDisk :: "disk_env \<Rightarrow> Params \<Rightarrow> flat_files \<Rightarrow> CBlockIndex \<Rightarrow> CBlock option res" where
  "ReadBlockFromDisk D P ff pindex =
     bindE (ReadBlockFromDisk_pos D P ff (GetBlockPos pindex)) (\<lambda>r.
       case r of
         None \<Rightarrow> Inr None
       | Some block \<Rightarrow>
           bindE (CBlockHeader_GetHash (de_host D) (de_quark D) (de_digest D) block) (\<lambda>hash.
             Inr (if hash \<noteq> phashBlock pindex then None else Some block)))"

section \<open>Sizes\<close>

context count_sink
begin

lemma counts_if:
  "(P \<Longrightarrow> counts cnt winv f (length bs)) \<Longrightarrow> counts cnt winv (\<lambda>s. if P then f s else Inr s) (length (if P then bs else []))"
  using counts_Inr [of cnt winv] by simp

lemma int32_counts: "counts cnt winv (\<lambda>s. Serialize_int32 W s a) (length (int32_enc a))"
  using writedata_counts(3) [of "word_of_int a"] by (simp add: Serialize_int32_def int32_enc_def)

lemma header_counts: "counts cnt winv (\<lambda>s. CBlockHeader_Ser W s b) (length (header_enc b))"
  unfolding CBlockHeader_Ser_def header_enc_def length_append
  by (intro counts_bind counts_if atom_counts int32_counts)

lemma block_counts: "counts cnt winv (\<lambda>s. CBlock_Ser W s b) (length (block_enc b))"
  unfolding CBlock_Ser_def block_enc_def length_append CBlock_IsProofOfStake_def
  by (intro counts_bind counts_if atom_counts header_counts vec_counts transaction_counts)

lemma undo_coin_counts:
  assumes "undo_coin_ok coin"
  shows "counts cnt winv (\<lambda>s. TxInUndoFormatter_Ser fv W s coin) (length (undo_coin_enc fv coin))"
proof -
  have k: "length (scriptPubKey (coin_out coin)) + nSpecialScripts < 2 ^ (8 * 4)"
    using assms by (simp add: undo_coin_ok_def coin_storable_def MAX_SCRIPT_SIZE_def nSpecialScripts_def)
  have script: "counts cnt winv (\<lambda>s. ScriptCompression_Ser fv W s (scriptPubKey (coin_out coin)))
      (length (script_enc fv (scriptPubKey (coin_out coin))))"
    using counts_bind [OF WriteVarInt_counts [OF k] write_counts] k write_counts
    by (auto simp: ScriptCompression_Ser_def script_enc_def split: option.split)
  have amount: "counts cnt winv (\<lambda>s. AmountCompression_Ser W s (nValue (coin_out coin)))
      (length (compressed_amount_enc (nValue (coin_out coin))))"
    using WriteVarInt_counts [of "unat (amount_word (word_of_int (nValue (coin_out coin))))" 8]
      unat_lt2p [of "amount_word (word_of_int (nValue (coin_out coin)))"]
    by (simp add: AmountCompression_Ser_def compressed_amount_enc_def CompressAmount_total)
  have "counts cnt winv (\<lambda>s. WriteVarInt 4 W s (unat (Coin_code coin))) (length (varint_bytes (unat (Coin_code coin))))"
    using unat_lt2p [of "Coin_code coin"] by (intro WriteVarInt_counts) simp_all
  moreover have "counts cnt winv (\<lambda>s. if coin_nHeight coin > 0 then ser_writedata8 W s 0 else Inr s)
      (length (if coin_nHeight coin > 0 then [0 :: u8] else []))"
    using writedata_counts(1) [of 0] by (intro counts_if) simp
  ultimately show ?thesis
    unfolding TxInUndoFormatter_Ser_def undo_coin_enc_def length_append TxOutCompression_Ser_def
    by (intro counts_bind amount script)
qed

lemma vec_counts_on:
  "(\<And>x. x \<in> set xs \<Longrightarrow> counts cnt winv (\<lambda>s. ser s x) (length (enc x))) \<Longrightarrow>
   counts cnt winv (\<lambda>s. VectorFormatter_Ser ser W s xs) (length (vec_enc enc xs))"
  using VectorFormatter_Ser_counts [of xs ser "\<lambda>x. length (enc x)"]
  by (simp add: vec_enc_def length_compact_bytes length_concat o_def)

lemma blockundo_counts:
  assumes "blockundo_ok u"
  shows "counts cnt winv (\<lambda>s. CBlockUndo_Ser fv W s u) (length (blockundo_enc fv u))"
proof -
  have "counts cnt winv (\<lambda>s. CTxUndo_Ser fv W s t) (length (txundo_enc fv t))" if "t \<in> set (vtxundo u)" for t
    unfolding CTxUndo_Ser_def txundo_enc_def
    by (intro vec_counts_on undo_coin_counts)
      (use assms that in \<open>auto simp: blockundo_ok_def txundo_ok_def vec_ok_def list_all_iff\<close>)
  then show ?thesis unfolding CBlockUndo_Ser_def blockundo_enc_def by (intro vec_counts_on)
qed

end

lemma GetSerializeSize_counts:
  assumes "counts SizeComputer_size (\<lambda>_. True) (\<lambda>s. ser (SizeComputer_sink h) s x) n"
  shows "GetSerializeSize ser h x ver = Inr n"
  using countsD [OF assms, of "SizeComputer_new ver"]
  by (auto simp: GetSerializeSize_def SizeComputer_new_def SizeComputer_size_def)

lemmas record_sizes =
  GetSerializeSize_counts [of CBlock_Ser, OF sz_cnt.block_counts]
  GetSerializeSize_counts [of "CBlockUndo_Ser fv", OF sz_cnt.blockundo_counts] for fv

section \<open>Positions in a file\<close>

definition contents :: "flat_files \<Rightarrow> FlatFilePos \<Rightarrow> bytes" where
  "contents ff pos = (case ff_data ff (pos_nFile pos) of None \<Rightarrow> [] | Some d \<Rightarrow> d)"

text \<open>A position that data can be written at: of a file that can be opened and reaches up to it.\<close>

definition writable :: "flat_files \<Rightarrow> FlatFilePos \<Rightarrow> bool" where
  "writable ff pos \<longleftrightarrow> \<not> FlatFilePos_IsNull pos \<and> \<not> ff_denied ff (pos_nFile pos) \<and> \<not> ff_failing ff (pos_nFile pos) \<and>
     unat (pos_nPos pos) \<le> length (contents ff pos)"

lemma opened_to_write:
  assumes "writable ff pos"
  shows "\<exists>f. FlatFileSeq_Open ff pos False = Some f \<and> AutoFile_ready (AutoFile_new (Some f) ty v) \<and>
    AutoFile_written (AutoFile_new (Some f) ty v) = take (unat (pos_nPos pos)) (contents ff pos)"
  using assms
  by (cases "ff_data ff (pos_nFile pos)"; cases "pos_nPos pos = 0")
    (simp_all add: writable_def contents_def FlatFileSeq_Open_def open_file_def AutoFile_simps AutoFile_new_def Let_def)

lemma opened_to_read:
  assumes "writable ff pos" "ff_data ff (pos_nFile pos) = Some d"
  shows "\<exists>f. FlatFileSeq_Open ff pos True = Some f \<and> AutoFile_ready (AutoFile_new (Some f) ty v) \<and>
    AutoFile_unread (AutoFile_new (Some f) ty v) = drop (unat (pos_nPos pos)) d"
  using assms
  by (cases "pos_nPos pos = 0")
    (simp_all add: writable_def contents_def FlatFileSeq_Open_def open_file_def AutoFile_simps AutoFile_new_def Let_def)

lemma ftell_written: "AutoFile_ready s \<Longrightarrow> AutoFile_ftell s = int (length (AutoFile_written s))"
  by (simp add: AutoFile_ready_def AutoFile_ftell_def AutoFile_written_def split: option.splits)

lemma closed:
  assumes "AutoFile_ready s"
  shows "\<exists>rest. ff_data (close_file ff n s) n = Some (AutoFile_written s @ rest)"
    "m \<noteq> n \<Longrightarrow> ff_data (close_file ff n s) m = ff_data ff m"
    "ff_denied (close_file ff n s) = ff_denied ff" "ff_failing (close_file ff n s) = ff_failing ff"
  using assms
  by (auto simp: AutoFile_ready_def close_file_def AutoFile_written_def split: option.splits intro!: exI append_take_drop_id [symmetric])

lemma chars_emits: "emits AutoFile_written AutoFile_ready (\<lambda>s. Serialize_chars (AutoFile_sink h) s a) a"
  unfolding Serialize_chars_def by (rule af_out.write_emits)

text \<open>The position after the message start and the size.\<close>

definition after_header :: "FlatFilePos \<Rightarrow> FlatFilePos" where
  "after_header pos = pos\<lparr>pos_nPos := pos_nPos pos + 8\<rparr>"

lemma after_header_word:
  assumes "unat (pos_nPos pos) + 8 < 2 ^ 32"
  shows "unat (pos_nPos (after_header pos)) = unat (pos_nPos pos) + 8"
    "pos\<lparr>pos_nPos := word_of_int (int (unat (pos_nPos pos) + 8))\<rparr> = after_header pos"
proof -
  show "unat (pos_nPos (after_header pos)) = unat (pos_nPos pos) + 8"
    using assms by (simp add: after_header_def unat_word_ariths)
  show "pos\<lparr>pos_nPos := word_of_int (int (unat (pos_nPos pos) + 8))\<rparr> = after_header pos"
    by (simp add: after_header_def)
qed

lemma ftell_after_header:
  assumes "writable ff pos" "unat (pos_nPos pos) + 8 < 2 ^ 32" "length start = 4"
    and "AutoFile_ready s" "AutoFile_written s = take (unat (pos_nPos pos)) (contents ff pos) @ start @ digits_of 4 n"
  shows "\<not> AutoFile_ftell s < 0" "pos\<lparr>pos_nPos := word_of_int (AutoFile_ftell s)\<rparr> = after_header pos"
proof -
  have "AutoFile_ftell s = int (unat (pos_nPos pos) + 8)"
    using ftell_written [OF assms(4)] assms(1,3,5) by (simp add: writable_def)
  then show "\<not> AutoFile_ftell s < 0" "pos\<lparr>pos_nPos := word_of_int (AutoFile_ftell s)\<rparr> = after_header pos"
    using after_header_word(2) [OF assms(2)] by (simp_all only: of_nat_less_0_iff not_False_eq_True)
qed

text \<open>What a record leaves in its file: what was before it, the header and the record itself.\<close>

definition recorded :: "disk_env \<Rightarrow> flat_files \<Rightarrow> FlatFilePos \<Rightarrow> bytes \<Rightarrow> bytes \<Rightarrow> flat_files \<Rightarrow> bool" where
  "recorded D ff pos enc trailer ff' \<longleftrightarrow>
     (\<exists>rest. ff_data ff' (pos_nFile pos) = Some (take (unat (pos_nPos pos)) (contents ff pos) @ de_message_start D @
        digits_of 4 (length enc mod 2 ^ 32) @ enc @ trailer @ rest)) \<and>
     (\<forall>n. n \<noteq> pos_nFile pos \<longrightarrow> ff_data ff' n = ff_data ff n) \<and> ff_denied ff' = ff_denied ff \<and> ff_failing ff' = ff_failing ff"

lemma recorded_readable:
  assumes "recorded D ff pos enc trailer ff'" "writable ff pos" "unat (pos_nPos pos) + 8 < 2 ^ 32" "length (de_message_start D) = 4"
  shows "writable ff' (after_header pos)"
    "\<exists>d rest. ff_data ff' (pos_nFile (after_header pos)) = Some d \<and> drop (unat (pos_nPos (after_header pos))) d = enc @ trailer @ rest"
proof -
  from assms(1) obtain rest where r: "ff_data ff' (pos_nFile pos) = Some (take (unat (pos_nPos pos)) (contents ff pos) @
      de_message_start D @ digits_of 4 (length enc mod 2 ^ 32) @ enc @ trailer @ rest)"
    "ff_denied ff' = ff_denied ff" "ff_failing ff' = ff_failing ff" by (auto simp: recorded_def)
  have l: "length (take (unat (pos_nPos pos)) (contents ff pos)) = unat (pos_nPos pos)" using assms(2) by (simp add: writable_def)
  show "writable ff' (after_header pos)"
    using assms(2,4) l r unfolding writable_def contents_def after_header_word(1) [OF assms(3)]
    by (simp add: after_header_def FlatFilePos_IsNull_def)
  show "\<exists>d rest. ff_data ff' (pos_nFile (after_header pos)) = Some d \<and> drop (unat (pos_nPos (after_header pos))) d = enc @ trailer @ rest"
    unfolding after_header_word(1) [OF assms(3)] using r(1) l assms(4) by (simp add: after_header_def)
qed

section \<open>Writing\<close>

interpretation undo_hash: tx_streams "CHashWriter_sink h" hw_ctx "\<lambda>_. True"
  "CHashVerifier_source (AutoFile_source h')" "\<lambda>v. AutoFile_unread (hv_source v)" "verifying AutoFile_unread AutoFile_ready whole" for h h' whole
  by (rule tx_streams.intro [OF hash_out.byte_sink_axioms af_in.verifier_source])

lemma UndoWriteToDisk_records:
  assumes "blockundo_ok u" "writable ff pos" "unat (pos_nPos pos) + 8 < 2 ^ 32" "length (de_message_start D) = 4"
    and "decompresses (de_fully_valid D) (de_decompress D)"
  shows "\<exists>ff'. UndoWriteToDisk D ff u pos hash = Inr (True, after_header pos, ff') \<and>
    recorded D ff pos (blockundo_enc (de_fully_valid D) u) (de_digest D (hash @ blockundo_enc (de_fully_valid D) u)) ff'"
proof -
  let ?fv = "de_fully_valid D" and ?W = "AutoFile_sink (de_host D)" and ?n = "pos_nFile pos"
  let ?enc = "blockundo_enc (de_fully_valid D) u" and ?H = "CHashWriter_sink (de_host D)"
  from opened_to_write [OF assms(2), of SER_DISK "de_client_version D"] obtain f where
    f: "FlatFileSeq_Open ff pos False = Some f" "AutoFile_ready (AutoFile_new (Some f) SER_DISK (de_client_version D))"
    "AutoFile_written (AutoFile_new (Some f) SER_DISK (de_client_version D)) = take (unat (pos_nPos pos)) (contents ff pos)" by blast
  note cw = tx_file.blockundo_codec [OF assms(5), where n = 1 and m = 1 and ignore = "\<lambda>s _. Inr s" and h = "de_host D" and h' = "de_host D",
      unfolded MAX_VECTOR_ALLOCATE_def, simplified]
  note ch = undo_hash.blockundo_codec [OF assms(5), where n = 1 and m = 1 and ignore = "\<lambda>s _. Inr s" and h = "de_host D" and h' = "de_host D" and whole = "[]",
      unfolded MAX_VECTOR_ALLOCATE_def, simplified]
  from emitsD [OF chars_emits f(2), of "de_host D" "de_message_start D"] obtain s1 where
    s1: "Serialize_chars ?W (AutoFile_new (Some f) SER_DISK (de_client_version D)) (de_message_start D) = Inr s1" "AutoFile_ready s1"
    "AutoFile_written s1 = take (unat (pos_nPos pos)) (contents ff pos) @ de_message_start D" using f(3) by auto
  from emitsD [OF af_out.writedata_emits(4) s1(2), of "de_host D" "of_nat (length ?enc)"] obtain s2 where
    s2: "ser_writedata32 ?W s1 (of_nat (length ?enc)) = Inr s2" "AutoFile_ready s2"
    "AutoFile_written s2 = take (unat (pos_nPos pos)) (contents ff pos) @ de_message_start D @ digits_of 4 (length ?enc mod 2 ^ 32)"
    using s1(3) by (auto simp: unat_of_nat)
  note tell = ftell_after_header [OF assms(2-4) s2(2,3)]
  from emitsD [OF codec.ser_emits [OF cw assms(1)] s2(2)] obtain s3 where
    s3: "CBlockUndo_Ser ?fv ?W s2 u = Inr s3" "AutoFile_ready s3" "AutoFile_written s3 = AutoFile_written s2 @ ?enc" by auto
  obtain w1 where
    w1: "Serialize_blob ?H (CHashWriter_new SER_GETHASH PROTOCOL_VERSION) hash = Inr w1" "hw_ctx w1 = hash"
    by (simp add: Serialize_blob_def CHashWriter_sink_def CHashWriter_write_def CHashWriter_new_def)
  from emitsD [OF codec.ser_emits [OF ch assms(1)], of w1] obtain w2 where
    w2: "CBlockUndo_Ser ?fv ?H w1 u = Inr w2" "hw_ctx w2 = hash @ ?enc" using w1(2) by auto
  from emitsD [OF af_out.write_emits s3(2), of "de_host D" "de_digest D (hash @ ?enc)"] obtain s4 where
    s4: "Serialize_blob ?W s3 (de_digest D (hash @ ?enc)) = Inr s4" "AutoFile_ready s4"
    "AutoFile_written s4 = AutoFile_written s3 @ de_digest D (hash @ ?enc)" by (auto simp: Serialize_blob_def)
  have "UndoWriteToDisk D ff u pos hash = Inr (True, after_header pos, close_file ff ?n s4)"
    using f(1) s1(1) s2(1) s3(1) w1(1) w2 s4(1) tell
    by (simp add: UndoWriteToDisk_def AutoFile_IsNull_def AutoFile_new_def record_sizes(2) [OF assms(1)] Let_def
        CHashWriter_GetHash_def)
  moreover have "recorded D ff pos ?enc (de_digest D (hash @ ?enc)) (close_file ff ?n s4)"
    using closed [OF s4(2)] s4(3) s3(3) s2(3) by (auto simp: recorded_def)
  ultimately show ?thesis by blast
qed

lemma WriteBlockToDisk_records:
  assumes "block_ok b" "writable ff pos" "unat (pos_nPos pos) + 8 < 2 ^ 32" "length (de_message_start D) = 4"
  shows "\<exists>ff'. WriteBlockToDisk D ff b pos = Inr (True, after_header pos, ff') \<and> recorded D ff pos (block_enc b) [] ff'"
proof -
  let ?W = "AutoFile_sink (de_host D)" and ?n = "pos_nFile pos"
  from opened_to_write [OF assms(2), of SER_DISK "de_client_version D"] obtain f where
    f: "FlatFileSeq_Open ff pos False = Some f" "AutoFile_ready (AutoFile_new (Some f) SER_DISK (de_client_version D))"
    "AutoFile_written (AutoFile_new (Some f) SER_DISK (de_client_version D)) = take (unat (pos_nPos pos)) (contents ff pos)" by blast
  note cw = tx_file.block_codec [where sizeof = "\<lambda>_. 1" and n = 1 and h = "de_host D" and h' = "de_host D",
      unfolded MAX_VECTOR_ALLOCATE_def, simplified]
  from emitsD [OF chars_emits f(2), of "de_host D" "de_message_start D"] obtain s1 where
    s1: "Serialize_chars ?W (AutoFile_new (Some f) SER_DISK (de_client_version D)) (de_message_start D) = Inr s1" "AutoFile_ready s1"
    "AutoFile_written s1 = take (unat (pos_nPos pos)) (contents ff pos) @ de_message_start D" using f(3) by auto
  from emitsD [OF af_out.writedata_emits(4) s1(2), of "de_host D" "of_nat (length (block_enc b))"] obtain s2 where
    s2: "ser_writedata32 ?W s1 (of_nat (length (block_enc b))) = Inr s2" "AutoFile_ready s2"
    "AutoFile_written s2 = take (unat (pos_nPos pos)) (contents ff pos) @ de_message_start D @ digits_of 4 (length (block_enc b) mod 2 ^ 32)"
    using s1(3) by (auto simp: unat_of_nat)
  note tell = ftell_after_header [OF assms(2-4) s2(2,3)]
  from emitsD [OF codec.ser_emits [OF cw assms(1)] s2(2)] obtain s3 where
    s3: "CBlock_Ser ?W s2 b = Inr s3" "AutoFile_ready s3" "AutoFile_written s3 = AutoFile_written s2 @ block_enc b" by auto
  have "WriteBlockToDisk D ff b pos = Inr (True, after_header pos, close_file ff ?n s3)"
    using f(1) s1(1) s2(1) s3(1) tell
    by (simp add: WriteBlockToDisk_def AutoFile_IsNull_def AutoFile_new_def record_sizes(1) Let_def)
  moreover have "recorded D ff pos (block_enc b) [] (close_file ff ?n s3)"
    using closed [OF s3(2)] s3(3) s2(3) by (auto simp: recorded_def)
  ultimately show ?thesis by blast
qed

section \<open>Reading\<close>

definition sizes_ok :: "disk_env \<Rightarrow> bool" where
  "sizes_ok D \<longleftrightarrow> (\<forall>e. 0 < de_sizeof D e \<and> de_sizeof D e \<le> MAX_VECTOR_ALLOCATE) \<and>
     0 < de_sizeof_ref D \<and> de_sizeof_ref D \<le> MAX_VECTOR_ALLOCATE \<and>
     0 < de_sizeof_CTxUndo D \<and> de_sizeof_CTxUndo D \<le> MAX_VECTOR_ALLOCATE \<and>
     0 < de_sizeof_Coin D \<and> de_sizeof_Coin D \<le> MAX_VECTOR_ALLOCATE"

text \<open>Undo data in a file is accepted exactly with the right checksum.\<close>

lemma UndoReadFromDisk_checks:
  assumes "blockundo_ok u" "decompresses (de_fully_valid D) (de_decompress D)" "sizes_ok D"
    and "writable ff pos" "ff_data ff (pos_nFile pos) = Some d"
    and "drop (unat (pos_nPos pos)) d = blockundo_enc (de_fully_valid D) u @ checksum @ rest" "length checksum = 32"
  shows "UndoReadFromDisk D ff pos hash =
    (if checksum = de_digest D (hash @ blockundo_enc (de_fully_valid D) u) then Some u else None)"
proof -
  let ?enc = "blockundo_enc (de_fully_valid D) u" and ?R = "AutoFile_source (de_host D)"
  from opened_to_read [OF assms(4,5), of SER_DISK "de_client_version D"] obtain f where
    f: "FlatFileSeq_Open ff pos True = Some f" "AutoFile_ready (AutoFile_new (Some f) SER_DISK (de_client_version D))"
    "AutoFile_unread (AutoFile_new (Some f) SER_DISK (de_client_version D)) = ?enc @ checksum @ rest" using assms(6) by auto
  define s0 where "s0 = AutoFile_new (Some f) SER_DISK (de_client_version D)"
  define v0 where "v0 = (CHashVerifier_new SER_DISK (de_client_version D) s0)
    \<lparr>hv_writer := (CHashWriter_new SER_DISK (de_client_version D))\<lparr>hw_ctx := hash\<rparr>\<rparr>"
  let ?whole = "hash @ ?enc @ checksum @ rest"
  have v0: "verifying AutoFile_unread AutoFile_ready ?whole v0" "AutoFile_unread (hv_source v0) = ?enc @ checksum @ rest"
    using f by (simp_all add: v0_def s0_def verifying_def CHashVerifier_new_def)
  have w: "Serialize_blob (CHashVerifier_sink (de_host D)) (CHashVerifier_new SER_DISK (de_client_version D) s0) hash = Inr v0"
    by (simp add: Serialize_blob_def CHashVerifier_sink_def v0_def CHashVerifier_new_def CHashWriter_new_def)
  note c = undo_hash.blockundo_codec [OF assms(2), where n = "de_sizeof_Coin D" and m = "de_sizeof_CTxUndo D"
      and ignore = "CHashVerifier_ignore ?R" and h = "de_host D" and h' = "de_host D" and whole = ?whole]
  have c': "parses (\<lambda>v. AutoFile_unread (hv_source v)) (verifying AutoFile_unread AutoFile_ready ?whole)
      (CBlockUndo_Unser (de_sizeof_CTxUndo D) (de_sizeof_Coin D) (de_decompress D) (CHashVerifier_ignore ?R) (CHashVerifier_source ?R)) u ?enc"
    using assms(3) by (intro codec.uns_parses [OF c _] assms(1)) (simp_all add: sizes_ok_def)
  from parsesD [OF c' v0] obtain v1 where
    v1: "CBlockUndo_Unser (de_sizeof_CTxUndo D) (de_sizeof_Coin D) (de_decompress D) (CHashVerifier_ignore ?R) (CHashVerifier_source ?R) v0 = Inr (u, v1)"
      "verifying AutoFile_unread AutoFile_ready ?whole v1" "AutoFile_unread (hv_source v1) = checksum @ rest" by blast
  have ctx: "hw_ctx (hv_writer v1) = hash @ ?enc" using v1(2,3) by (simp add: verifying_def)
  have "AutoFile_ready (hv_source v1)" using v1(2) by (simp add: verifying_def)
  from parsesD [OF af_in.read_parses [OF assms(7), where h = "de_host D"] this v1(3)] obtain s2 where
    s2: "Unserialize_blob 32 ?R (hv_source v1) = Inr (checksum, s2)" by (auto simp: Unserialize_blob_def)
  show ?thesis
    using f(1) w v1(1) s2 ctx by (simp add: UndoReadFromDisk_def AutoFile_IsNull_def Let_def s0_def AutoFile_new_def CHashWriter_GetHash_def)
qed

lemma ReadBlockFromDisk_accepts:
  assumes "block_ok b" "sizes_ok D" "writable ff (GetBlockPos pindex)" "ff_data ff (pos_nFile (GetBlockPos pindex)) = Some d"
    and "drop (unat (pos_nPos (GetBlockPos pindex))) d = block_enc b @ rest"
  shows "ReadBlockFromDisk D P ff pindex = Inr (if
     (CBlock_IsProofOfWork b \<longrightarrow> CheckProofOfWork (de_host D) P (phashBlock pindex) (hd_nBits b)) \<and>
     (if hd_nVersion b < 4 then de_quark D else de_digest D) (header_enc b) = phashBlock pindex then Some b else None)"
proof -
  let ?R = "AutoFile_source (de_host D)" and ?pos = "GetBlockPos pindex"
  from opened_to_read [OF assms(3,4), of SER_DISK "de_client_version D"] obtain f where
    f: "FlatFileSeq_Open ff ?pos True = Some f" "AutoFile_ready (AutoFile_new (Some f) SER_DISK (de_client_version D))"
    "AutoFile_unread (AutoFile_new (Some f) SER_DISK (de_client_version D)) = block_enc b @ rest" using assms(5) by auto
  have null: "CBlock_SetNull (CBlock_of CBlockHeader_new) = CBlock_of CBlockHeader_new"
    by (simp add: CBlock_SetNull_def CBlock_of_def CBlockHeader_new_def CBlockHeader.extend_def CBlock.fields_def CBlockHeader_SetNull_def)
  note c = tx_file.block_codec [where sizeof = "de_sizeof D" and n = "de_sizeof_ref D" and h = "de_host D" and h' = "de_host D"]
  have "parses AutoFile_unread AutoFile_ready (\<lambda>s. CBlock_Unser (de_sizeof D) (de_sizeof_ref D) ?R s (CBlock_of CBlockHeader_new)) b (block_enc b)"
    using assms(2) by (intro codec.uns_parses [OF c] assms(1)) (simp_all add: sizes_ok_def)
  from parsesD [OF this f(2,3)] obtain s1 where
    s1: "CBlock_Unser (de_sizeof D) (de_sizeof_ref D) ?R (AutoFile_new (Some f) SER_DISK (de_client_version D)) (CBlock_of CBlockHeader_new) = Inr (b, s1)" by blast
  have "header_ok b" using assms(1) by (simp add: block_ok_def)
  note hash = GetHash_header_enc [OF this, of "de_host D" "de_quark D" "de_digest D"]
  show ?thesis
    using f(1) s1 hash
    by (auto simp: ReadBlockFromDisk_def ReadBlockFromDisk_pos_def AutoFile_IsNull_def Let_def null AutoFile_new_def)
qed

section \<open>Properties\<close>

text \<open>
  Property C12.  Undo data that \<open>UndoWriteToDisk\<close> writes at a position of a file, \<open>UndoReadFromDisk\<close> reads
  back at the position it returns, eight bytes on, when it is given the hash of the same block; with the
  hash of a block for which the checksum differs it refuses.  Everything before the position and all
  other files stay as they were.
\<close>

theorem UndoDisk_roundtrip:
  assumes "blockundo_ok u" "decompresses (de_fully_valid D) (de_decompress D)" "sizes_ok D"
    and "writable ff pos" "unat (pos_nPos pos) + 8 < 2 ^ 32"
    and "length (de_message_start D) = 4" "\<And>x. length (de_digest D x) = 32"
  shows "\<exists>ff'. UndoWriteToDisk D ff u pos hash = Inr (True, after_header pos, ff') \<and>
    UndoReadFromDisk D ff' (after_header pos) hash = Some u \<and>
    (\<forall>other. de_digest D (other @ blockundo_enc (de_fully_valid D) u) \<noteq> de_digest D (hash @ blockundo_enc (de_fully_valid D) u)
       \<longrightarrow> UndoReadFromDisk D ff' (after_header pos) other = None) \<and>
    take (unat (pos_nPos pos)) (contents ff' pos) = take (unat (pos_nPos pos)) (contents ff pos) \<and>
    (\<forall>n. n \<noteq> pos_nFile pos \<longrightarrow> ff_data ff' n = ff_data ff n)"
proof -
  let ?enc = "blockundo_enc (de_fully_valid D) u"
  from UndoWriteToDisk_records [OF assms(1,4,5,6,2)] obtain ff' where
    w: "UndoWriteToDisk D ff u pos hash = Inr (True, after_header pos, ff')" and r: "recorded D ff pos ?enc (de_digest D (hash @ ?enc)) ff'" by blast
  note R = recorded_readable [OF r assms(4,5,6)]
  from R(2) obtain d rest where d: "ff_data ff' (pos_nFile (after_header pos)) = Some d"
    "drop (unat (pos_nPos (after_header pos))) d = ?enc @ de_digest D (hash @ ?enc) @ rest" by blast
  note read = UndoReadFromDisk_checks [OF assms(1-3) R(1) d assms(7)]
  have l: "length (take (unat (pos_nPos pos)) (contents ff pos)) = unat (pos_nPos pos)" using assms(4) by (simp add: writable_def)
  then have "take (unat (pos_nPos pos)) (contents ff' pos) = take (unat (pos_nPos pos)) (contents ff pos)"
    using r by (auto simp: recorded_def contents_def [of ff'])
  then show ?thesis using w r read by (auto simp: recorded_def)
qed

text \<open>
  Property C13.  A block that \<open>WriteBlockToDisk\<close> writes is read back by \<open>ReadBlockFromDisk\<close> through
  an index entry that holds the position returned and the block's hash, provided its target is in range
  if it is a proof-of-work block; through an entry with another hash it is refused.
\<close>

theorem BlockDisk_roundtrip:
  assumes "block_ok b" "sizes_ok D" "writable ff pos" "unat (pos_nPos pos) + 8 < 2 ^ 32" "length (de_message_start D) = 4"
    and "CBlock_IsProofOfWork b \<longrightarrow> CheckProofOfWork (de_host D) P (phashBlock pindex) (hd_nBits b)"
    and "GetBlockPos pindex = after_header pos"
  shows "\<exists>ff'. WriteBlockToDisk D ff b pos = Inr (True, after_header pos, ff') \<and>
    ReadBlockFromDisk D P ff' pindex =
      (if CBlockHeader_GetHash (de_host D) (de_quark D) (de_digest D) b = Inr (phashBlock pindex) then Inr (Some b) else Inr None)"
proof -
  from WriteBlockToDisk_records [OF assms(1,3,4,5)] obtain ff' where
    w: "WriteBlockToDisk D ff b pos = Inr (True, after_header pos, ff')" and r: "recorded D ff pos (block_enc b) [] ff'" by blast
  note R = recorded_readable [OF r assms(3,4,5)]
  from R(2) obtain d rest where "ff_data ff' (pos_nFile (after_header pos)) = Some d"
    "drop (unat (pos_nPos (after_header pos))) d = block_enc b @ rest" by auto
  note read = ReadBlockFromDisk_accepts [OF assms(1,2), of ff' pindex, unfolded assms(7), OF R(1) this]
  have "header_ok b" using assms(1) by (simp add: block_ok_def)
  from GetHash_header_enc [OF this, of "de_host D" "de_quark D" "de_digest D"] show ?thesis
    using w read assms(6) by auto
qed

definition sample_disk :: disk_env where
  "sample_disk = \<lparr>de_host = LittleEndianHost, de_fully_valid = (\<lambda>k. k = sample_key), de_decompress = (\<lambda>_. Some sample_key),
     de_message_start = [1, 2, 3, 4], de_digest = (\<lambda>x. take 32 (x @ replicate 32 0)), de_quark = (\<lambda>x. take 32 (x @ replicate 32 0)),
     de_client_version = 1, de_sizeof = (\<lambda>_. 64), de_sizeof_ref = 16, de_sizeof_CTxUndo = 24, de_sizeof_Coin = 64\<rparr>"

definition sample_files :: flat_files where
  "sample_files = \<lparr>ff_data = [0 \<mapsto> [7, 7, 7]], ff_denied = (\<lambda>_. False), ff_failing = (\<lambda>_. False)\<rparr>"

lemma sample_disk_ok:
  "sizes_ok sample_disk" "decompresses (de_fully_valid sample_disk) (de_decompress sample_disk)"
  "writable sample_files \<lparr>pos_nFile = 0, pos_nPos = 2\<rparr>" "writable sample_files \<lparr>pos_nFile = 3, pos_nPos = 0\<rparr>"
  "length (de_message_start sample_disk) = 4" "length (de_digest sample_disk x) = 32"
  by (simp_all add: sizes_ok_def sample_disk_def MAX_VECTOR_ALLOCATE_def decompresses_def writable_def sample_files_def
      FlatFilePos_IsNull_def contents_def)

theorem UndoDisk_roundtrip_witness:
  "\<exists>ff'. UndoWriteToDisk sample_disk sample_files \<lparr>vtxundo = [\<lparr>vprevout = []\<rparr>]\<rparr> \<lparr>pos_nFile = 0, pos_nPos = 2\<rparr> (replicate 32 1) =
      Inr (True, after_header \<lparr>pos_nFile = 0, pos_nPos = 2\<rparr>, ff') \<and>
    UndoReadFromDisk sample_disk ff' (after_header \<lparr>pos_nFile = 0, pos_nPos = 2\<rparr>) (replicate 32 1) = Some \<lparr>vtxundo = [\<lparr>vprevout = []\<rparr>]\<rparr> \<and>
    UndoReadFromDisk sample_disk ff' (after_header \<lparr>pos_nFile = 0, pos_nPos = 2\<rparr>) (replicate 32 2) = None \<and>
    take 2 (contents ff' \<lparr>pos_nFile = 0, pos_nPos = 2\<rparr>) = [7, 7]"
proof -
  have u: "blockundo_ok \<lparr>vtxundo = [\<lparr>vprevout = []\<rparr>]\<rparr>"
    by (simp add: blockundo_ok_def txundo_ok_def vec_ok_def MAX_SIZE_def)
  have p: "unat (pos_nPos \<lparr>pos_nFile = 0, pos_nPos = 2\<rparr>) + 8 < 2 ^ 32" by simp
  from UndoDisk_roundtrip [OF u sample_disk_ok(2,1,3) p sample_disk_ok(5,6), of "replicate 32 1"] obtain ff' where
    "UndoWriteToDisk sample_disk sample_files \<lparr>vtxundo = [\<lparr>vprevout = []\<rparr>]\<rparr> \<lparr>pos_nFile = 0, pos_nPos = 2\<rparr> (replicate 32 1) =
      Inr (True, after_header \<lparr>pos_nFile = 0, pos_nPos = 2\<rparr>, ff')"
    "UndoReadFromDisk sample_disk ff' (after_header \<lparr>pos_nFile = 0, pos_nPos = 2\<rparr>) (replicate 32 1) = Some \<lparr>vtxundo = [\<lparr>vprevout = []\<rparr>]\<rparr>"
    "\<forall>other. de_digest sample_disk (other @ blockundo_enc (de_fully_valid sample_disk) \<lparr>vtxundo = [\<lparr>vprevout = []\<rparr>]\<rparr>) \<noteq>
        de_digest sample_disk (replicate 32 1 @ blockundo_enc (de_fully_valid sample_disk) \<lparr>vtxundo = [\<lparr>vprevout = []\<rparr>]\<rparr>)
       \<longrightarrow> UndoReadFromDisk sample_disk ff' (after_header \<lparr>pos_nFile = 0, pos_nPos = 2\<rparr>) other = None"
    "take (unat (pos_nPos \<lparr>pos_nFile = 0, pos_nPos = 2\<rparr>)) (contents ff' \<lparr>pos_nFile = 0, pos_nPos = 2\<rparr>) =
      take (unat (pos_nPos \<lparr>pos_nFile = 0, pos_nPos = 2\<rparr>)) (contents sample_files \<lparr>pos_nFile = 0, pos_nPos = 2\<rparr>)"
    by blast
  moreover have "take 2 (contents sample_files \<lparr>pos_nFile = 0, pos_nPos = 2\<rparr>) = [7, 7]"
    by (simp add: contents_def sample_files_def)
  moreover have "replicate 32 (2 :: u8) \<noteq> replicate 32 1" by simp
  ultimately show ?thesis by (auto simp: sample_disk_def)
qed

text \<open>The index entry of a block in file 3.\<close>

definition stored_index :: "bytes \<Rightarrow> CBlockIndex" where
  "stored_index hash = (sample_block 1 None None)\<lparr>phashBlock := hash, nFile := 3, nDataPos := 8, nStatus := BLOCK_HAVE_DATA\<rparr>"

theorem BlockDisk_roundtrip_witness:
  "\<exists>ff'. WriteBlockToDisk sample_disk sample_files sample_pos_block \<lparr>pos_nFile = 3, pos_nPos = 0\<rparr> =
      Inr (True, after_header \<lparr>pos_nFile = 3, pos_nPos = 0\<rparr>, ff') \<and>
    ReadBlockFromDisk sample_disk main_consensus ff' (stored_index (take 32 (header_enc sample_pos_block))) = Inr (Some sample_pos_block)"
proof -
  let ?pos = "\<lparr>pos_nFile = 3, pos_nPos = 0\<rparr>" and ?i = "stored_index (take 32 (header_enc sample_pos_block))"
  have pos: "unat (pos_nPos ?pos) + 8 < 2 ^ 32" "GetBlockPos ?i = after_header ?pos"
    by (simp_all add: GetBlockPos_def stored_index_def after_header_def BLOCK_HAVE_DATA_def)
  have pow: "CBlock_IsProofOfWork sample_pos_block \<longrightarrow>
      CheckProofOfWork (de_host sample_disk) main_consensus (phashBlock ?i) (hd_nBits sample_pos_block)"
    using sample_pos_block_ok(1) by (simp add: CBlock_IsProofOfWork_def)
  have l: "32 \<le> length (header_enc sample_pos_block)" "\<not> hd_nVersion sample_pos_block < 4" "header_ok sample_pos_block"
    using sample_pos_block_ok(2)
    by (simp_all add: header_enc_def header_ok_def block_ok_def sample_pos_block_def CBlock_of_def CBlockHeader_new_def
        CBlockHeader.extend_def CBlock.fields_def CBlockHeader_CURRENT_VERSION_def)
  have "CBlockHeader_GetHash (de_host sample_disk) (de_quark sample_disk) (de_digest sample_disk) sample_pos_block = Inr (phashBlock ?i)"
    using GetHash_header_enc [OF l(3), of "de_host sample_disk" "de_quark sample_disk" "de_digest sample_disk"] l(1,2)
    by (simp add: sample_disk_def stored_index_def)
  then show ?thesis
    using BlockDisk_roundtrip [OF sample_pos_block_ok(2) sample_disk_ok(1,4) pos(1) sample_disk_ok(5) pow pos(2)] by simp
qed

end
