(* ===== verification/CheckBlock.thy ===== *)
theory CheckBlock
  imports Disk Merkle CoinsSpec
begin

text \<open>
  The checks of a block that do not depend on the outputs it spends: \<open>CheckBlock\<close> of
  \<open>validation.cpp\<close> with the functions it calls.  What it asks of the rest of the node (sporks, payments,
  special transactions, the block signature, the clock) is in \<open>check_env\<close>, with the block index and
  the active chain.
\<close>

section \<open>Definitions\<close>

definition MAX_BLOCK_SIZE_LEGACY :: nat where "MAX_BLOCK_SIZE_LEGACY = 1000000"
definition MAX_BLOCK_SHIELDED_TXES_SIZE :: nat where "MAX_BLOCK_SHIELDED_TXES_SIZE = 750000"
definition MAX_BLOCK_SIGOPS_CURRENT :: nat where "MAX_BLOCK_SIGOPS_CURRENT = MAX_BLOCK_SIZE_CURRENT div 50"
definition MAX_BLOCK_SIGOPS_LEGACY :: nat where "MAX_BLOCK_SIGOPS_LEGACY = MAX_BLOCK_SIZE_LEGACY div 50"

record check_env =
  ck_host :: host_order
  ck_params :: Params
  ck_quark :: "bytes \<Rightarrow> bytes"
  ck_digest :: "bytes \<Rightarrow> bytes"
  ck_txhash :: "CTransaction \<Rightarrow> bytes"
  ck_combine :: combine
  ck_nMaxMoneyOut :: nat
  ck_ZC_TimeStart :: int
  ck_index :: index
  ck_chainActive :: CChain
  ck_mapBlockIndex :: "bytes \<rightharpoonup> addr"
  ck_initial_download :: bool
  ck_coldstaking_maintenance :: bool
  ck_superblocks_enabled :: bool
  ck_patriotnode_payment :: "int \<Rightarrow> CAmount"
  ck_budget_block :: "int \<Rightarrow> bool"
  ck_special :: "CTransaction \<Rightarrow> CValidationState \<Rightarrow> bool \<times> CValidationState"
  ck_signature :: "CBlock \<Rightarrow> bool"
  ck_time :: int

definition CheckColdStakeFreeOutput :: "check_env \<Rightarrow> CTransaction \<Rightarrow> int \<Rightarrow> bool res" where
  "CheckColdStakeFreeOutput K tx height =
     (if \<not> IsCoinStake tx then Inl (AssertFailed ''tx.IsCoinStake()'')
      else if \<not> IsPayToColdStakingLOF (scriptPubKey (vout tx ! 1)) then Inr True
      else
        let outs = length (vout tx);
            lastOut = vout tx ! (outs - 1)
        in if outs \<ge> 3 \<and> scriptPubKey lastOut \<noteq> scriptPubKey (vout tx ! (outs - 2)) then
             bindE (NetworkUpgradeActive height (ck_params K) (upgrade_idx UPGRADE_V6_0)) (\<lambda>v6.
               if v6 then Inr False
               else if nValue lastOut = ck_patriotnode_payment K height then Inr True
               else if ck_budget_block K height then Inr (ck_superblocks_enabled K)
               else Inr False)
           else Inr True)"

fun GetTotalShieldedTxSize :: "host_order \<Rightarrow> CTransaction list \<Rightarrow> u32 \<Rightarrow> u32 res" where
  "GetTotalShieldedTxSize h [] nSizeShielded = Inr nSizeShielded"
| "GetTotalShieldedTxSize h (tx # rest) nSizeShielded =
     (if IsShieldedTx tx
      then bindE (GetTotalSize h tx) (\<lambda>n. GetTotalShieldedTxSize h rest (nSizeShielded + of_nat n))
      else GetTotalShieldedTxSize h rest nSizeShielded)"

text \<open>The test of the Merkle root: a verdict to return, or \<open>None\<close> to go on.\<close>

definition CheckBlock_merkle :: "check_env \<Rightarrow> CBlock \<Rightarrow> CValidationState \<Rightarrow> (bool \<times> CValidationState) option res" where
  "CheckBlock_merkle K block state =
     bindE (BlockMerkleRoot (ck_combine K) (ck_txhash K) (vtx block)) (\<lambda>(hashMerkleRoot2, mutated).
       if hashMerkleRoot block \<noteq> hashMerkleRoot2
       then Inr (Some (DoS state 100 False REJECT_INVALID ''bad-txnmrklroot'' True ''hashMerkleRoot mismatch''))
       else if mutated
       then Inr (Some (DoS state 100 False REJECT_INVALID ''bad-txns-duplicate'' True ''duplicate transaction''))
       else Inr None)"

definition CheckBlock_size :: "check_env \<Rightarrow> CBlock \<Rightarrow> CValidationState \<Rightarrow> (bool \<times> CValidationState) option res" where
  "CheckBlock_size K block state =
     (let nMaxBlockSize = MAX_BLOCK_SIZE_CURRENT
      in bindE (GetSerializeSize CBlock_Ser (ck_host K) block PROTOCOL_VERSION) (\<lambda>n.
         let nBlockSize = n mod 2 ^ 32
         in if vtx block = [] \<or> length (vtx block) > nMaxBlockSize \<or> nBlockSize > nMaxBlockSize
            then Inr (Some (DoS state 100 False REJECT_INVALID ''bad-blk-length'' False ''size limits failed''))
            else
              bindE (if nBlockSize > MAX_BLOCK_SHIELDED_TXES_SIZE
                     then bindE (GetTotalShieldedTxSize (ck_host K) (vtx block) 0) (\<lambda>s. Inr (unat s > MAX_BLOCK_SHIELDED_TXES_SIZE))
                     else Inr False) (\<lambda>over.
                if over
                then Inr (Some (DoS state 100 False REJECT_INVALID ''bad-blk-shielded-size'' False ''shielded size limits failed''))
                else Inr None)))"

definition CheckBlock_shape :: "CBlock \<Rightarrow> CValidationState \<Rightarrow> (bool \<times> CValidationState) option" where
  "CheckBlock_shape block state =
     (if vtx block = [] \<or> \<not> IsCoinBase (vtx block ! 0)
      then Some (DoS state 100 False REJECT_INVALID ''bad-cb-missing'' False ''first tx is not coinbase'')
      else if list_ex IsCoinBase (drop 1 (vtx block))
      then Some (DoS state 100 False REJECT_INVALID ''bad-cb-multiple'' False ''more than one coinbase'')
      else if CBlock_IsProofOfStake block then
        (if vtx block = [] \<or> \<not> IsCoinStake (vtx block ! 1)
         then Some (DoS state 100 False REJECT_INVALID ''bad-cs-missing'' False ''second tx is not coinstake'')
         else if list_ex IsCoinStake (drop 2 (vtx block))
         then Some (DoS state 100 False REJECT_INVALID ''bad-cs-multiple'' False ''more than one coinstake'')
         else None)
      else None)"

text \<open>
  The block before this one: the tip, or the entry of \<open>mapBlockIndex\<close> when the block does not extend
  the tip.  The result is a verdict or whether cold staking is active, with the rejected blocks.
\<close>

type_synonym rejected = "bytes \<rightharpoonup> int"

definition emplace_rejected :: "rejected \<Rightarrow> bytes \<Rightarrow> int \<Rightarrow> rejected" where
  "emplace_rejected m k v = (if m k = None then m(k \<mapsto> v) else m)"

definition CheckBlock_payments ::
  "check_env \<Rightarrow> CBlock \<Rightarrow> CValidationState \<Rightarrow> rejected \<Rightarrow> (((bool \<times> CValidationState) + bool) \<times> rejected) res" where
  "CheckBlock_payments K block state rej =
     (case CChain_Tip (ck_index K) (ck_chainActive K) False of
        None \<Rightarrow> Inl (UndefinedBehaviour ''chainActive.Tip()'')
      | Some (Inl e) \<Rightarrow> Inl e
      | Some (Inr None) \<Rightarrow> Inr (Inr True, rej)
      | Some (Inr (Some tip)) \<Rightarrow>
          if hashPrevBlock block = UINT256_ZERO then Inr (Inr True, rej)
          else
            bindE (deref (ck_index K) (Some tip)) (\<lambda>t.
              case (if phashBlock t \<noteq> hashPrevBlock block then ck_mapBlockIndex K (hashPrevBlock block) else Some tip) of
                None \<Rightarrow> Inr (Inl (CValidationState_Error state ''blk-out-of-order''), rej)
              | Some a \<Rightarrow>
                  bindE (deref (ck_index K) (Some a)) (\<lambda>pindexPrev.
                    let height = nHeight pindexPrev + 1
                    in if height \<noteq> 0 \<and> \<not> ck_initial_download K then
                         bindE (if CBlock_IsProofOfStake block then CheckColdStakeFreeOutput K (vtx block ! 1) height else Inr True)
                           (\<lambda>free.
                           if \<not> free then
                             bindE (CBlockHeader_GetHash (ck_host K) (ck_quark K) (ck_digest K) block) (\<lambda>hash.
                               Inr (Inl (DoS state 0 False REJECT_INVALID ''bad-p2cs-outs'' False ''invalid cold-stake output''),
                                    emplace_rejected rej hash (ck_time K)))
                           else Inr (Inr (\<not> ck_coldstaking_maintenance K), rej))
                       else Inr (Inr True, rej))))"

fun CheckBlock_txs :: "check_env \<Rightarrow> bool \<Rightarrow> CTransaction list \<Rightarrow> CValidationState \<Rightarrow> (bool \<times> CValidationState) res" where
  "CheckBlock_txs K fColdStakingActive [] state = Inr (True, state)"
| "CheckBlock_txs K fColdStakingActive (tx # rest) state =
     bindE (CheckTransaction (ck_host K) (ck_nMaxMoneyOut K) tx state fColdStakingActive) (\<lambda>(ok, state).
       if \<not> ok then
         Inr (CValidationState_Invalid state False (chRejectCode state) (strRejectReason state)
                (''Transaction check failed (tx hash '' @ base_blob_GetHex (ck_txhash K tx) @ '') '' @ strDebugMessage state))
       else
         case ck_special K tx state of
           (ok, state) \<Rightarrow> if \<not> ok then Inr (False, state) else CheckBlock_txs K fColdStakingActive rest state)"

definition CheckBlock_sigops :: "check_env \<Rightarrow> CBlock \<Rightarrow> CValidationState \<Rightarrow> (bool \<times> CValidationState) option res" where
  "CheckBlock_sigops K block state =
     bindE (sum_sigops (GetLegacySigOpCount (ck_host K)) (vtx block) 0) (\<lambda>nSigOps.
       let nMaxBlockSigOps = (if CBlockHeader_GetBlockTime block > ck_ZC_TimeStart K then MAX_BLOCK_SIGOPS_CURRENT else MAX_BLOCK_SIGOPS_LEGACY)
       in if unat nSigOps > nMaxBlockSigOps
          then Inr (Some (DoS state 100 False REJECT_INVALID ''bad-blk-sigops'' True ''''))
          else Inr None)"

text \<open>
  From the payments on.  The result is the verdict with the state, the block, which remembers that it
  was checked, and the rejected blocks.
\<close>

definition CheckBlock_contents ::
  "check_env \<Rightarrow> CBlock \<Rightarrow> CValidationState \<Rightarrow> bool \<Rightarrow> bool \<Rightarrow> bool \<Rightarrow> rejected
     \<Rightarrow> ((bool \<times> CValidationState) \<times> CBlock \<times> rejected) res" where
  "CheckBlock_contents K block state fCheckPOW fCheckMerkleRoot fCheckSig rej =
     bindE (CheckBlock_payments K block state rej) (\<lambda>(p, rej).
     case p of Inl r \<Rightarrow> Inr (r, block, rej)
     | Inr fColdStakingActive \<Rightarrow>
         bindE (CheckBlock_txs K fColdStakingActive (vtx block) state) (\<lambda>(ok, state).
         if \<not> ok then Inr ((False, state), block, rej)
         else
           bindE (CheckBlock_sigops K block state) (\<lambda>v.
           case v of Some r \<Rightarrow> Inr (r, block, rej)
           | None \<Rightarrow>
               if fCheckSig \<and> \<not> ck_signature K block
               then Inr (DoS state 100 False REJECT_INVALID ''bad-PoS-sig'' True '''', block, rej)
               else
                 Inr ((True, state),
                   (if fCheckPOW \<and> fCheckMerkleRoot \<and> fCheckSig then block\<lparr>fChecked := True\<rparr> else block),
                   rej))))"

definition CheckBlock ::
  "check_env \<Rightarrow> CBlock \<Rightarrow> CValidationState \<Rightarrow> bool \<Rightarrow> bool \<Rightarrow> bool \<Rightarrow> rejected
     \<Rightarrow> ((bool \<times> CValidationState) \<times> CBlock \<times> rejected) res" where
  "CheckBlock K block state fCheckPOW fCheckMerkleRoot fCheckSig rej =
     (if fChecked block then Inr ((True, state), block, rej)
      else
        bindE (if \<not> CBlock_IsProofOfStake block \<and> fCheckPOW
               then bindE (CBlockHeader_GetHash (ck_host K) (ck_quark K) (ck_digest K) block) (\<lambda>hash.
                      Inr (CheckProofOfWork (ck_host K) (ck_params K) hash (hd_nBits block)))
               else Inr True) (\<lambda>pow.
        if \<not> pow then Inr (DoS state 50 False REJECT_INVALID ''high-hash'' False ''proof of work failed'', block, rej)
        else
          bindE (if fCheckMerkleRoot then CheckBlock_merkle K block state else Inr None) (\<lambda>v.
          case v of Some r \<Rightarrow> Inr (r, block, rej)
          | None \<Rightarrow>
              bindE (CheckBlock_size K block state) (\<lambda>v.
              case v of Some r \<Rightarrow> Inr (r, block, rej)
              | None \<Rightarrow>
                  case CheckBlock_shape block state of Some r \<Rightarrow> Inr (r, block, rej)
                  | None \<Rightarrow> CheckBlock_contents K block state fCheckPOW fCheckMerkleRoot fCheckSig rej))))"

section \<open>Counting without wrapping\<close>

lemma sum_sigops_exact:
  assumes "\<And>x. x \<in> set xs \<Longrightarrow> \<exists>q. f x = Inr q \<and> unat q = g x" "unat acc + sum_list (map g xs) < 2 ^ 32"
  shows "\<exists>r. sum_sigops f xs acc = Inr r \<and> unat r = unat acc + sum_list (map g xs)"
  using assms
proof (induction xs arbitrary: acc)
  case (Cons x xs)
  obtain q where q: "f x = Inr q" "unat q = g x" using Cons.prems(1) by auto
  have "unat (acc + q) = unat acc + g x" using Cons.prems(2) q(2) by (simp add: unat_word_ariths)
  then show ?case using Cons.IH [of "acc + q"] Cons.prems q by (simp add: add.assoc)
qed simp

text \<open>The signature operations in a script, a transaction; their number is bounded by the bytes.\<close>

definition script_sigops :: "host_order \<Rightarrow> bytes \<Rightarrow> nat" where
  "script_sigops h s = (case GetSigOpCount h s False of Inr q \<Rightarrow> unat q | Inl e \<Rightarrow> 0)"

definition tx_sigops :: "host_order \<Rightarrow> CTransaction \<Rightarrow> nat" where
  "tx_sigops h tx = sum_list (map (\<lambda>i. script_sigops h (scriptSig i)) (vin tx)) +
     sum_list (map (\<lambda>t. script_sigops h (scriptPubKey t)) (vout tx))"

lemma script_sigops_count:
  assumes "20 * length s < 2 ^ 32"
  shows "\<exists>q. GetSigOpCount h s False = Inr q \<and> unat q = script_sigops h s" "script_sigops h s \<le> 20 * length s"
proof -
  obtain q where "GetSigOpCount h s False = Inr q" "unat q \<le> 20 * length s"
    using GetSigOpCount_loop_bounds [of 0 0 s 0 h OP_INVALIDOPCODE] assms by (auto simp: GetSigOpCount_def)
  then show "\<exists>q. GetSigOpCount h s False = Inr q \<and> unat q = script_sigops h s" "script_sigops h s \<le> 20 * length s"
    by (simp_all add: script_sigops_def)
qed

lemma sum_list_le: "(\<And>x. x \<in> set xs \<Longrightarrow> f x \<le> (g x :: nat)) \<Longrightarrow> sum_list (map f xs) \<le> sum_list (map g xs)"
  by (induction xs) (auto intro: add_mono)

lemma vec_enc_bound:
  "(\<And>x. x \<in> set xs \<Longrightarrow> f x \<le> k * length (enc x)) \<Longrightarrow> sum_list (map f xs) \<le> k * length (vec_enc enc xs)"
  using sum_list_le [of xs f "\<lambda>x. k * length (enc x)"]
  by (fastforce simp: vec_enc_def length_concat o_def sum_list_const_mult algebra_simps)

lemma vec_enc_member: "x \<in> set xs \<Longrightarrow> length (enc x) \<le> length (vec_enc enc xs)"
  using member_le_sum_list [of "length (enc x)" "map (length \<circ> enc) xs"] by (force simp: vec_enc_def length_concat o_def)

lemma scripts_in_tx:
  "i \<in> set (vin tx) \<Longrightarrow> length (scriptSig i) \<le> length (tx_enc tx)"
  "t \<in> set (vout tx) \<Longrightarrow> length (scriptPubKey t) \<le> length (tx_enc tx)"
  using vec_enc_member [of i "vin tx" CTxIn_enc] vec_enc_member [of t "vout tx" CTxOut_enc]
  by (auto simp: tx_enc_def CTxIn_enc_def CTxOut_enc_def bytevec_enc_def)

lemma tx_sigops_count:
  assumes "20 * length (tx_enc tx) < 2 ^ 32"
  shows "\<exists>q. GetLegacySigOpCount h tx = Inr q \<and> unat q = tx_sigops h tx" "tx_sigops h tx \<le> 20 * length (tx_enc tx)"
proof -
  have len: "20 * length (scriptSig i) < 2 ^ 32" if "i \<in> set (vin tx)" for i using scripts_in_tx(1) [OF that] assms by simp
  have len': "20 * length (scriptPubKey t) < 2 ^ 32" if "t \<in> set (vout tx)" for t using scripts_in_tx(2) [OF that] assms by simp
  have "sum_list (map (\<lambda>i. script_sigops h (scriptSig i)) (vin tx)) \<le> 20 * length (vec_enc CTxIn_enc (vin tx))"
    by (rule vec_enc_bound) (use script_sigops_count(2) [OF len, of _ h] in \<open>fastforce simp: CTxIn_enc_def bytevec_enc_def\<close>)
  moreover have "sum_list (map (\<lambda>t. script_sigops h (scriptPubKey t)) (vout tx)) \<le> 20 * length (vec_enc CTxOut_enc (vout tx))"
    by (rule vec_enc_bound) (use script_sigops_count(2) [OF len', of _ h] in \<open>fastforce simp: CTxOut_enc_def bytevec_enc_def\<close>)
  ultimately show le: "tx_sigops h tx \<le> 20 * length (tx_enc tx)" by (simp add: tx_sigops_def tx_enc_def)
  obtain a where a: "sum_sigops (\<lambda>txin. GetSigOpCount h (scriptSig txin) False) (vin tx) 0 = Inr a"
    "unat a = sum_list (map (\<lambda>i. script_sigops h (scriptSig i)) (vin tx))"
    using sum_sigops_exact [of "vin tx" "\<lambda>txin. GetSigOpCount h (scriptSig txin) False" "\<lambda>i. script_sigops h (scriptSig i)" 0]
      script_sigops_count(1) [OF len] le assms by (auto simp: tx_sigops_def)
  obtain r where "sum_sigops (\<lambda>txout. GetSigOpCount h (scriptPubKey txout) False) (vout tx) a = Inr r" "unat r = tx_sigops h tx"
    using sum_sigops_exact [of "vout tx" "\<lambda>txout. GetSigOpCount h (scriptPubKey txout) False" "\<lambda>t. script_sigops h (scriptPubKey t)" a]
      script_sigops_count(1) [OF len'] le assms a(2) by (auto simp: tx_sigops_def)
  then show "\<exists>q. GetLegacySigOpCount h tx = Inr q \<and> unat q = tx_sigops h tx" using a(1) by (simp add: GetLegacySigOpCount_def)
qed

lemma block_sigops_count:
  assumes "20 * length (block_enc b) < 2 ^ 32"
  shows "\<exists>r. sum_sigops (GetLegacySigOpCount h) (vtx b) 0 = Inr r \<and> unat r = sum_list (map (tx_sigops h) (vtx b))"
proof -
  have len: "20 * length (tx_enc tx) < 2 ^ 32" if "tx \<in> set (vtx b)" for tx
    using vec_enc_member [OF that, of tx_enc] assms by (simp add: block_enc_def)
  have "sum_list (map (tx_sigops h) (vtx b)) \<le> 20 * length (vec_enc tx_enc (vtx b))"
    by (rule vec_enc_bound) (use tx_sigops_count(2) [OF len] in blast)
  then have "unat (0 :: u32) + sum_list (map (tx_sigops h) (vtx b)) < 2 ^ 32" using assms by (simp add: block_enc_def)
  from sum_sigops_exact [OF tx_sigops_count(1) [OF len] this] show ?thesis by simp
qed

definition shielded_size :: "CTransaction \<Rightarrow> nat" where
  "shielded_size tx = (if IsShieldedTx tx then length (tx_enc tx) else 0)"

lemma GetTotalShieldedTxSize_exact:
  assumes "unat acc + sum_list (map shielded_size txs) < 2 ^ 32"
  shows "\<exists>r. GetTotalShieldedTxSize h txs acc = Inr r \<and> unat r = unat acc + sum_list (map shielded_size txs)"
  using assms
proof (induction txs arbitrary: acc)
  case (Cons tx txs)
  let ?n = "length (tx_enc tx) mod 2 ^ 32"
  show ?case
  proof (cases "IsShieldedTx tx")
    case True
    have "unat (acc + of_nat ?n) = unat acc + shielded_size tx"
      using Cons.prems True by (simp add: shielded_size_def unat_word_ariths unat_of_nat)
    then show ?thesis
      using Cons.IH [of "acc + of_nat ?n"] Cons.prems True by (simp add: GetTotalSize_exact add.assoc)
  next
    case False
    then show ?thesis using Cons.IH [of acc] Cons.prems by (simp add: shielded_size_def)
  qed
qed simp

section \<open>What is accepted\<close>

text \<open>One coinbase in front; in a proof-of-stake block one coinstake behind it.\<close>

definition block_shape :: "CBlock \<Rightarrow> bool" where
  "block_shape b \<longleftrightarrow>
     (\<exists>cb rest. vtx b = cb # rest \<and> IsCoinBase cb \<and> (\<forall>tx \<in> set rest. \<not> IsCoinBase tx) \<and>
        (CBlock_IsProofOfStake b \<longrightarrow> (\<forall>tx \<in> set (tl rest). \<not> IsCoinStake tx)))"

definition block_txs_valid :: "check_env \<Rightarrow> bool \<Rightarrow> CValidationState \<Rightarrow> CBlock \<Rightarrow> bool" where
  "block_txs_valid K cold state b \<longleftrightarrow>
     (\<forall>tx \<in> set (vtx b). tx_valid (ck_nMaxMoneyOut K) cold tx \<and> fst (ck_special K tx state))"

text \<open>
  The block before this one is looked for when there is a tip and the block names a predecessor; it is
  the tip or the entry of \<open>mapBlockIndex\<close>.
\<close>

definition active_tip :: "check_env \<Rightarrow> addr option" where
  "active_tip K = (if ck_chainActive K = [] then None else last (ck_chainActive K))"

definition names_predecessor :: "check_env \<Rightarrow> CBlock \<Rightarrow> bool" where
  "names_predecessor K b \<longleftrightarrow> active_tip K \<noteq> None \<and> hashPrevBlock b \<noteq> UINT256_ZERO"

definition predecessor :: "check_env \<Rightarrow> CBlock \<Rightarrow> CBlockIndex option" where
  "predecessor K b =
     (let t = Option.bind (active_tip K) (ck_index K)
      in if map_option phashBlock t = Some (hashPrevBlock b) then t
         else Option.bind (ck_mapBlockIndex K (hashPrevBlock b)) (ck_index K))"

text \<open>
  A coinstake that stakes a cold-staking output with a free last output may use it for the
  patriotnode payment or, in a superblock, for a budget payment; from version 6 on not at all.
\<close>

definition free_output_rule :: "check_env \<Rightarrow> CTransaction \<Rightarrow> int \<Rightarrow> bool" where
  "free_output_rule K tx height \<longleftrightarrow>
     (IsPayToColdStakingLOF (scriptPubKey (vout tx ! 1)) \<and> 3 \<le> length (vout tx) \<and>
        scriptPubKey (last (vout tx)) \<noteq> scriptPubKey (last (butlast (vout tx))) \<longrightarrow>
      \<not> upgrade_on (ck_params K) (upgrade_idx UPGRADE_V6_0) height \<and>
      (nValue (last (vout tx)) = ck_patriotnode_payment K height \<or> ck_budget_block K height \<and> ck_superblocks_enabled K))"

definition predecessor_rule :: "check_env \<Rightarrow> CBlock \<Rightarrow> bool" where
  "predecessor_rule K b \<longleftrightarrow>
     (names_predecessor K b \<longrightarrow>
        (case predecessor K b of None \<Rightarrow> False
         | Some p \<Rightarrow> \<not> ck_initial_download K \<and> CBlock_IsProofOfStake b \<longrightarrow> free_output_rule K (vtx b ! 1) (nHeight p + 1)))"

definition cold_staking_active :: "check_env \<Rightarrow> CBlock \<Rightarrow> bool" where
  "cold_staking_active K b \<longleftrightarrow> \<not> (names_predecessor K b \<and> \<not> ck_initial_download K \<and> ck_coldstaking_maintenance K)"

text \<open>The rules for a block.\<close>

definition block_rules :: "check_env \<Rightarrow> bool \<Rightarrow> bool \<Rightarrow> bool \<Rightarrow> CValidationState \<Rightarrow> CBlock \<Rightarrow> bool" where
  "block_rules K pow merkle sig state b \<longleftrightarrow>
     (pow \<and> \<not> CBlock_IsProofOfStake b \<longrightarrow>
        CheckProofOfWork (ck_host K) (ck_params K) ((if hd_nVersion b < 4 then ck_quark K else ck_digest K) (header_enc b)) (hd_nBits b)) \<and>
     (merkle \<longrightarrow> hashMerkleRoot b = tree_root (ck_combine K) (map (ck_txhash K) (vtx b)) \<and>
        \<not> mutated_list (ck_combine K) (map (ck_txhash K) (vtx b))) \<and>
     length (block_enc b) \<le> MAX_BLOCK_SIZE_CURRENT \<and>
     sum_list (map shielded_size (vtx b)) \<le> MAX_BLOCK_SHIELDED_TXES_SIZE \<and>
     block_shape b \<and>
     predecessor_rule K b \<and>
     block_txs_valid K (cold_staking_active K b) state b \<and>
     sum_list (map (tx_sigops (ck_host K)) (vtx b)) \<le>
       (if CBlockHeader_GetBlockTime b > ck_ZC_TimeStart K then MAX_BLOCK_SIGOPS_CURRENT else MAX_BLOCK_SIGOPS_LEGACY) \<and>
     (sig \<longrightarrow> ck_signature K b)"

lemma CheckBlock_merkle_None:
  assumes "length (vtx b) \<le> 2 ^ 31"
  shows "\<exists>v. CheckBlock_merkle K b state = Inr v \<and> (v = None \<longleftrightarrow>
    hashMerkleRoot b = tree_root (ck_combine K) (map (ck_txhash K) (vtx b)) \<and> \<not> mutated_list (ck_combine K) (map (ck_txhash K) (vtx b)))"
    "CheckBlock_merkle K b state = Inr (Some r) \<Longrightarrow> \<not> fst r"
proof -
  let ?xs = "map (ck_txhash K) (vtx b)"
  have m: "ComputeMerkleRoot (ck_combine K) ?xs = Inr (tree_root (ck_combine K) ?xs, mutated_list (ck_combine K) ?xs)"
  proof (cases "?xs = []")
    case True
    then show ?thesis by (simp add: ComputeMerkleRoot_def MerkleComputation_def mutated_list_def tree_root.simps)
  next
    case False
    then show ?thesis using ComputeMerkleRoot_spec(2,3) [OF False, where H = "ck_combine K"] assms by simp
  qed
  show "\<exists>v. CheckBlock_merkle K b state = Inr v \<and> (v = None \<longleftrightarrow>
      hashMerkleRoot b = tree_root (ck_combine K) ?xs \<and> \<not> mutated_list (ck_combine K) ?xs)"
    "CheckBlock_merkle K b state = Inr (Some r) \<Longrightarrow> \<not> fst r"
    using m by (auto simp: CheckBlock_merkle_def BlockMerkleRoot_def DoS_def Let_def split: if_splits)
qed

lemma length_le_vec_enc: "(\<And>x. enc x \<noteq> []) \<Longrightarrow> length xs \<le> length (vec_enc enc xs)"
proof -
  assume "\<And>x. enc x \<noteq> []"
  then have "sum_list (map (\<lambda>_. 1) xs) \<le> sum_list (map (\<lambda>x. length (enc x)) xs)" by (intro sum_list_le) (simp add: Suc_le_eq)
  then show ?thesis by (simp add: vec_enc_def length_concat o_def sum_list_triv)
qed

lemma CheckBlock_size_None:
  assumes "length (block_enc b) < 2 ^ 32"
  shows "\<exists>v. CheckBlock_size K b state = Inr v \<and> (v = None \<longleftrightarrow> vtx b \<noteq> [] \<and>
    length (block_enc b) \<le> MAX_BLOCK_SIZE_CURRENT \<and> sum_list (map shielded_size (vtx b)) \<le> MAX_BLOCK_SHIELDED_TXES_SIZE)"
    "CheckBlock_size K b state = Inr (Some r) \<Longrightarrow> \<not> fst r"
proof -
  have "length (tx_enc tx) > 0" for tx by (simp add: tx_enc_def)
  then have "length (vtx b) \<le> length (vec_enc tx_enc (vtx b))" by (intro length_le_vec_enc) simp
  then have n: "length (vtx b) \<le> length (block_enc b)" by (simp add: block_enc_def)
  have "sum_list (map shielded_size (vtx b)) \<le> 1 * length (vec_enc tx_enc (vtx b))"
    by (rule vec_enc_bound) (simp add: shielded_size_def)
  then have sh: "sum_list (map shielded_size (vtx b)) \<le> length (block_enc b)" by (simp add: block_enc_def)
  then have "unat (0 :: u32) + sum_list (map shielded_size (vtx b)) < 2 ^ 32" using assms(1) by simp
  from GetTotalShieldedTxSize_exact [OF this, of "ck_host K"] obtain r' where
    "GetTotalShieldedTxSize (ck_host K) (vtx b) 0 = Inr r'" "unat r' = sum_list (map shielded_size (vtx b))" by auto
  with n sh assms show "\<exists>v. CheckBlock_size K b state = Inr v \<and> (v = None \<longleftrightarrow> vtx b \<noteq> [] \<and>
      length (block_enc b) \<le> MAX_BLOCK_SIZE_CURRENT \<and> sum_list (map shielded_size (vtx b)) \<le> MAX_BLOCK_SHIELDED_TXES_SIZE)"
    "CheckBlock_size K b state = Inr (Some r) \<Longrightarrow> \<not> fst r"
    by (auto simp: CheckBlock_size_def record_sizes(1) Let_def DoS_def split: if_splits)
qed

lemma CheckBlock_shape_None:
  "CheckBlock_shape b state = None \<longleftrightarrow> block_shape b"
  "CheckBlock_shape b state = Some r \<Longrightarrow> \<not> fst r"
  by (cases "vtx b"; auto simp: block_shape_def CheckBlock_shape_def CBlock_IsProofOfStake_def list_ex_iff drop_Suc DoS_def Let_def split: if_splits)+

lemma CheckBlock_txs_True:
  assumes "\<forall>tx \<in> set txs. tx_ok tx \<and> length (tx_enc tx) < 2 ^ 32" "ck_nMaxMoneyOut K \<le> 2 ^ 61"
    and "\<And>tx st. ck_special K tx state = (True, st) \<Longrightarrow> st = state"
  shows "CheckBlock_txs K cold txs state = Inr (True, st) \<longleftrightarrow>
    st = state \<and> (\<forall>tx \<in> set txs. tx_valid (ck_nMaxMoneyOut K) cold tx \<and> fst (ck_special K tx state))"
  using assms(1)
proof (induction txs)
  case (Cons tx txs)
  have tx: "tx_ok tx" "length (tx_enc tx) < 2 ^ 32" using Cons.prems by simp_all
  note ct = CheckTransaction_True [OF tx assms(2), of "ck_host K" state cold]
  have no: "CValidationState_Invalid st' False c m d \<noteq> (True, st)" for st' c m d
    by (simp add: CValidationState_Invalid_def DoS_def Let_def)
  show ?case
  proof (cases "CheckTransaction (ck_host K) (ck_nMaxMoneyOut K) tx state cold")
    case (Inl e)
    then show ?thesis using ct [of state] by simp
  next
    case (Inr r)
    obtain ok st1 where r: "r = (ok, st1)" by (cases r)
    show ?thesis
    proof (cases ok)
      case True
      then have v: "st1 = state" "tx_valid (ck_nMaxMoneyOut K) cold tx" using ct Inr r by auto
      obtain k st2 where sp: "ck_special K tx state = (k, st2)" by (cases "ck_special K tx state")
      then show ?thesis using Cons.IH Cons.prems Inr r True v assms(3) [of tx st2] by auto
    next
      case False
      then show ?thesis using ct [of state] Inr r no by auto
    qed
  qed
qed auto

lemma CheckBlock_sigops_None:
  assumes "20 * length (block_enc b) < 2 ^ 32"
  shows "\<exists>v. CheckBlock_sigops K b state = Inr v \<and> (v = None \<longleftrightarrow> sum_list (map (tx_sigops (ck_host K)) (vtx b)) \<le>
       (if CBlockHeader_GetBlockTime b > ck_ZC_TimeStart K then MAX_BLOCK_SIGOPS_CURRENT else MAX_BLOCK_SIGOPS_LEGACY))"
    "CheckBlock_sigops K b state = Inr (Some r) \<Longrightarrow> \<not> fst r"
  using block_sigops_count [OF assms, of "ck_host K"]
  by (auto simp: CheckBlock_sigops_def Let_def DoS_def split: if_splits)

text \<open>From the payments on, for a block that is small enough.\<close>

definition sigops_within :: "check_env \<Rightarrow> CBlock \<Rightarrow> bool" where
  "sigops_within K b \<longleftrightarrow> sum_list (map (tx_sigops (ck_host K)) (vtx b)) \<le>
     (if CBlockHeader_GetBlockTime b > ck_ZC_TimeStart K then MAX_BLOCK_SIGOPS_CURRENT else MAX_BLOCK_SIGOPS_LEGACY)"

lemma CheckBlock_contents_True:
  assumes prev: "CheckBlock_payments K b state rej = Inr (Inr cold, rej')"
    and T: "\<And>st. CheckBlock_txs K cold (vtx b) state = Inr (True, st) \<longleftrightarrow> st = state \<and> block_txs_valid K cold state b"
    and small: "length (block_enc b) \<le> MAX_BLOCK_SIZE_CURRENT"
  shows "CheckBlock_contents K b state pow merkle sig rej = Inr ((True, st), b', rej'') \<longleftrightarrow>
    block_txs_valid K cold state b \<and> sigops_within K b \<and> (sig \<longrightarrow> ck_signature K b) \<and> st = state \<and> rej'' = rej' \<and>
    b' = (if pow \<and> merkle \<and> sig then b\<lparr>fChecked := True\<rparr> else b)"
proof (cases "CheckBlock_txs K cold (vtx b) state")
  case (Inl e)
  then show ?thesis using prev T [of state] by (simp add: CheckBlock_contents_def)
next
  case (Inr r)
  have "20 * length (block_enc b) < 2 ^ 32" using small by (simp add: MAX_BLOCK_SIZE_CURRENT_def)
  note G = CheckBlock_sigops_None [OF this, of K state, folded sigops_within_def]
  from G(1) obtain g where g: "CheckBlock_sigops K b state = Inr g" "g = None \<longleftrightarrow> sigops_within K b" by blast
  show ?thesis
  proof (cases "r = (True, state)")
    case True
    then have v: "block_txs_valid K cold state b" using T [of state] Inr by simp
    show ?thesis
    proof (cases g)
      case None
      then show ?thesis using True Inr prev g v by (auto simp: CheckBlock_contents_def DoS_def Let_def)
    next
      case (Some q)
      then have "\<not> sigops_within K b" using g(2) by simp
      then show ?thesis using True Inr prev g(1) v Some G(2) [of q] by (auto simp: CheckBlock_contents_def)
    qed
  next
    case False
    then have "\<not> block_txs_valid K cold state b" "\<not> fst r" using T [of state] T [of "snd r"] Inr by (cases r; auto)+
    then show ?thesis using Inr prev by (cases r) (auto simp: CheckBlock_contents_def)
  qed
qed

text \<open>The stages before the contents, as a conjunction of their rules.\<close>

definition header_rules :: "check_env \<Rightarrow> bool \<Rightarrow> bool \<Rightarrow> CBlock \<Rightarrow> bool" where
  "header_rules K pow merkle b \<longleftrightarrow>
     (pow \<and> \<not> CBlock_IsProofOfStake b \<longrightarrow>
        CheckProofOfWork (ck_host K) (ck_params K) ((if hd_nVersion b < 4 then ck_quark K else ck_digest K) (header_enc b)) (hd_nBits b)) \<and>
     (merkle \<longrightarrow> hashMerkleRoot b = tree_root (ck_combine K) (map (ck_txhash K) (vtx b)) \<and>
        \<not> mutated_list (ck_combine K) (map (ck_txhash K) (vtx b))) \<and>
     vtx b \<noteq> [] \<and> length (block_enc b) \<le> MAX_BLOCK_SIZE_CURRENT \<and>
     sum_list (map shielded_size (vtx b)) \<le> MAX_BLOCK_SHIELDED_TXES_SIZE \<and> block_shape b"

lemma CheckBlock_stages:
  assumes b: "\<not> fChecked b" "block_ok b" "length (block_enc b) < 2 ^ 32"
  shows "CheckBlock K b state pow merkle sig rej = Inr ((True, st), b', rej'') \<longleftrightarrow>
    header_rules K pow merkle b \<and> CheckBlock_contents K b state pow merkle sig rej = Inr ((True, st), b', rej'')"
proof -
  have "header_ok b" and v: "vec_ok tx_ok (vtx b)" using b(2) by (simp_all add: block_ok_def)
  note hash = GetHash_header_enc [OF this(1), of "ck_host K" "ck_quark K" "ck_digest K"]
  have "length (vtx b) \<le> 2 ^ 31" using v by (simp add: vec_ok_def MAX_SIZE_def)
  note M = CheckBlock_merkle_None [OF this, of K state]
  note S = CheckBlock_size_None [OF b(3), of K state]
  note F = CheckBlock_shape_None [of b state]
  from M(1) obtain m where m: "CheckBlock_merkle K b state = Inr m" "m = None \<longleftrightarrow>
    hashMerkleRoot b = tree_root (ck_combine K) (map (ck_txhash K) (vtx b)) \<and> \<not> mutated_list (ck_combine K) (map (ck_txhash K) (vtx b))" by blast
  from S(1) obtain s where s: "CheckBlock_size K b state = Inr s" "s = None \<longleftrightarrow> vtx b \<noteq> [] \<and>
    length (block_enc b) \<le> MAX_BLOCK_SIZE_CURRENT \<and> sum_list (map shielded_size (vtx b)) \<le> MAX_BLOCK_SHIELDED_TXES_SIZE" by blast
  have pow: "(if \<not> CBlock_IsProofOfStake b \<and> pow
      then bindE (CBlockHeader_GetHash (ck_host K) (ck_quark K) (ck_digest K) b) (\<lambda>hash.
             Inr (CheckProofOfWork (ck_host K) (ck_params K) hash (hd_nBits b))) else Inr True) =
    Inr (pow \<and> \<not> CBlock_IsProofOfStake b \<longrightarrow>
      CheckProofOfWork (ck_host K) (ck_params K) ((if hd_nVersion b < 4 then ck_quark K else ck_digest K) (header_enc b)) (hd_nBits b))"
    using hash by simp
  have stages: "CheckBlock K b state pow merkle sig rej = Inr ((True, st), b', rej'') \<longleftrightarrow>
    (pow \<and> \<not> CBlock_IsProofOfStake b \<longrightarrow>
      CheckProofOfWork (ck_host K) (ck_params K) ((if hd_nVersion b < 4 then ck_quark K else ck_digest K) (header_enc b)) (hd_nBits b)) \<and>
    (merkle \<longrightarrow> m = None) \<and> s = None \<and> CheckBlock_shape b state = None \<and>
    CheckBlock_contents K b state pow merkle sig rej = Inr ((True, st), b', rej'')"
    unfolding CheckBlock_def pow using b(1) m(1) s(1) M(2) S(2) F(2)
    by (auto simp: DoS_def Let_def split: option.splits if_splits)
  show ?thesis unfolding stages header_rules_def m(2) s(2) F(1) by blast
qed

lemma CheckBlock_True:
  assumes b: "\<not> fChecked b" "block_ok b" "length (block_enc b) < 2 ^ 32" "ck_nMaxMoneyOut K \<le> 2 ^ 61"
    and special: "\<And>tx st. ck_special K tx state = (True, st) \<Longrightarrow> st = state"
    and prev: "CheckBlock_payments K b state rej = Inr (Inr cold, rej')"
  shows "CheckBlock K b state pow merkle sig rej = Inr ((True, st), b', rej'') \<longleftrightarrow>
    header_rules K pow merkle b \<and> block_txs_valid K cold state b \<and> sigops_within K b \<and> (sig \<longrightarrow> ck_signature K b) \<and>
    st = state \<and> rej'' = rej' \<and> b' = (if pow \<and> merkle \<and> sig then b\<lparr>fChecked := True\<rparr> else b)"
proof -
  have v: "vec_ok tx_ok (vtx b)" using b(2) by (simp add: block_ok_def)
  have tx: "\<forall>tx \<in> set (vtx b). tx_ok tx \<and> length (tx_enc tx) < 2 ^ 32"
    using v vec_enc_member [of _ "vtx b" tx_enc] b(3) by (fastforce simp: vec_ok_def list_all_iff block_enc_def)
  have T: "CheckBlock_txs K cold (vtx b) state = Inr (True, st) \<longleftrightarrow>
      st = state \<and> block_txs_valid K cold state b" for st
    unfolding block_txs_valid_def by (rule CheckBlock_txs_True [OF tx b(4)]) (rule special)
  show ?thesis
  proof (cases "header_rules K pow merkle b")
    case True
    then have "length (block_enc b) \<le> MAX_BLOCK_SIZE_CURRENT" by (simp add: header_rules_def)
    from CheckBlock_contents_True [OF prev T this] True show ?thesis unfolding CheckBlock_stages [OF b(1-3)] by simp
  qed (simp add: CheckBlock_stages [OF b(1-3)])
qed

text \<open>A verdict on the payments is never an acceptance.\<close>

lemma CheckBlock_payments_refuses: "CheckBlock_payments K b state rej = Inr (Inl v, rej') \<Longrightarrow> \<not> fst v"
  by (auto simp: CheckBlock_payments_def bind_simps DoS_def CValidationState_Error_def Let_def split: option.splits if_splits sum.splits)

lemma CheckBlock_contents_payments:
  assumes "CheckBlock_contents K b state pow merkle sig rej = Inr ((True, st), b', rej')"
  obtains cold r where "CheckBlock_payments K b state rej = Inr (Inr cold, r)"
proof -
  obtain p r where p: "CheckBlock_payments K b state rej = Inr (p, r)" using assms by (auto simp: CheckBlock_contents_def bind_simps)
  show thesis
  proof (cases p)
    case (Inl v)
    then have "v = (True, st)" using assms p by (simp add: CheckBlock_contents_def)
    then show ?thesis using CheckBlock_payments_refuses [of K b state rej v r] p Inl by simp
  next
    case (Inr cold)
    then show ?thesis using that p by simp
  qed
qed

lemma CheckBlock_accepts:
  assumes "CheckBlock K b state pow merkle sig rej = Inr ((True, st), b', rej')"
    and b: "\<not> fChecked b" "block_ok b" "length (block_enc b) < 2 ^ 32" "ck_nMaxMoneyOut K \<le> 2 ^ 61"
    and special: "\<And>tx st. ck_special K tx state = (True, st) \<Longrightarrow> st = state"
  obtains cold where "header_rules K pow merkle b" "block_txs_valid K cold state b" "st = state"
    "b' = (if pow \<and> merkle \<and> sig then b\<lparr>fChecked := True\<rparr> else b)"
proof -
  have "CheckBlock_contents K b state pow merkle sig rej = Inr ((True, st), b', rej')"
    using assms(1) CheckBlock_stages [OF b(1-3)] by blast
  then obtain cold r where "CheckBlock_payments K b state rej = Inr (Inr cold, r)" by (rule CheckBlock_contents_payments)
  then have "header_rules K pow merkle b \<and> block_txs_valid K cold state b \<and> sigops_within K b \<and> (sig \<longrightarrow> ck_signature K b) \<and>
    st = state \<and> rej' = r \<and> b' = (if pow \<and> merkle \<and> sig then b\<lparr>fChecked := True\<rparr> else b)"
    by (intro iffD1 [OF CheckBlock_True [OF b] assms(1)]) (rule special)
  then show thesis using that [of cold] by (elim conjE)
qed

text \<open>
  The pointers in the active chain and in \<open>mapBlockIndex\<close> lead to entries of the index.  Then the
  search for the predecessor and the test of the free output come out as their rules say.
\<close>

definition known_index :: "check_env \<Rightarrow> bool" where
  "known_index K \<longleftrightarrow>
     (\<forall>a. Some a \<in> set (ck_chainActive K) \<union> range (ck_mapBlockIndex K) \<longrightarrow> (\<exists>i. ck_index K a = Some i \<and> 0 \<le> nHeight i))"

lemma known_indexD:
  assumes "known_index K"
  shows "active_tip K = Some a \<Longrightarrow> \<exists>i. ck_index K a = Some i \<and> 0 \<le> nHeight i"
    and "ck_mapBlockIndex K h = Some a \<Longrightarrow> \<exists>i. ck_index K a = Some i \<and> 0 \<le> nHeight i"
proof -
  show "\<exists>i. ck_index K a = Some i \<and> 0 \<le> nHeight i" if "active_tip K = Some a"
    using assms that unfolding known_index_def active_tip_def by (metis UnI1 last_in_set option.distinct(1))
  show "\<exists>i. ck_index K a = Some i \<and> 0 \<le> nHeight i" if "ck_mapBlockIndex K h = Some a"
    using assms that rangeI [of "ck_mapBlockIndex K" h] by (simp add: known_index_def)
qed

lemma CheckColdStakeFreeOutput_exact:
  assumes "IsCoinStake tx" "0 \<le> height"
  shows "CheckColdStakeFreeOutput K tx height = Inr (free_output_rule K tx height)"
proof (cases "3 \<le> length (vout tx)")
  case True
  then have "vout tx ! (length (vout tx) - 1) = last (vout tx)" "vout tx ! (length (vout tx) - 2) = last (butlast (vout tx))"
    by (auto simp: last_conv_nth nth_butlast numeral_2_eq_2 simp flip: length_greater_0_conv)
  then show ?thesis using assms True NetworkUpgradeActive_eq [OF assms(2) upgrade_idx_less, of "ck_params K" UPGRADE_V6_0]
    by (simp add: CheckColdStakeFreeOutput_def free_output_rule_def Let_def)
next
  case False
  then show ?thesis using assms by (simp add: CheckColdStakeFreeOutput_def free_output_rule_def Let_def)
qed

lemma CheckBlock_payments_exact:
  assumes K: "known_index K" and shape: "block_shape b"
  shows "CheckBlock_payments K b state rej = Inr (Inr cold, rej') \<longleftrightarrow>
    predecessor_rule K b \<and> cold = cold_staking_active K b \<and> rej' = rej"
proof (cases "names_predecessor K b")
  case False
  then show ?thesis
    by (auto simp: CheckBlock_payments_def CChain_Tip_def predecessor_rule_def cold_staking_active_def names_predecessor_def
        active_tip_def last_conv_nth Suc_le_eq not_less_eq_eq split: if_splits option.splits)
next
  case True
  then obtain tip where tip: "active_tip K = Some tip" "hashPrevBlock b \<noteq> UINT256_ZERO" by (auto simp: names_predecessor_def)
  then have T: "CChain_Tip (ck_index K) (ck_chainActive K) False = Some (Inr (Some tip))"
    by (auto simp: CChain_Tip_def active_tip_def last_conv_nth Suc_le_eq split: if_splits)
  obtain t where t: "ck_index K tip = Some t" "0 \<le> nHeight t" using known_indexD(1) [OF K tip(1)] by blast
  have free: "(if CBlock_IsProofOfStake b then CheckColdStakeFreeOutput K (vtx b ! 1) h else Inr True) =
      Inr (CBlock_IsProofOfStake b \<longrightarrow> free_output_rule K (vtx b ! 1) h)" if "0 \<le> h" for h
    using CheckColdStakeFreeOutput_exact [OF _ that] by (auto simp: CBlock_IsProofOfStake_def)
  let ?a = "if phashBlock t \<noteq> hashPrevBlock b then ck_mapBlockIndex K (hashPrevBlock b) else Some tip"
  have P: "predecessor K b = Option.bind ?a (ck_index K)" using tip t by (simp add: predecessor_def Let_def)
  show ?thesis
  proof (cases ?a)
    case None
    then show ?thesis using True T tip t P by (simp add: CheckBlock_payments_def deref_def predecessor_rule_def)
  next
    case (Some a)
    then obtain p where p: "ck_index K a = Some p" "0 \<le> nHeight p"
      using t known_indexD(2) [OF K] by (auto split: if_splits)
    then have "predecessor K b = Some p" using P Some by simp
    then show ?thesis using True T tip(2) t(1) p(1) Some free [of "nHeight p + 1"] p(2)
      by (auto simp: CheckBlock_payments_def deref_def predecessor_rule_def cold_staking_active_def Let_def bind_simps)
  qed
qed

section \<open>Properties\<close>

text \<open>
  Property C3.  For every block from the wire that was not checked before, \<open>CheckBlock\<close> accepts exactly
  when the block satisfies its rules: the work target in range, the Merkle root that of the
  transactions and no subtree duplicated, the size and shielded size, one coinbase in front and at
  most one coinstake behind it, a predecessor that is known and, after the initial download, no abuse of
  the free output of a cold stake, every transaction valid (with cold staking as the spork says, or
  on where the spork is not asked), the number of signature operations, the signature.  The 32-bit
  counters of the source count exactly: no block small enough to get there makes them wrap.  On
  acceptance the state and the rejected blocks are as they were.  The pointers of the node's own
  chain and map must lead into the index, and the check of a special transaction that succeeds
  must not touch the state.
\<close>

theorem CheckBlock_exact:
  assumes b: "\<not> fChecked b" "block_ok b" "length (block_enc b) < 2 ^ 32" "ck_nMaxMoneyOut K \<le> 2 ^ 61"
    and special: "\<And>tx st. ck_special K tx state = (True, st) \<Longrightarrow> st = state"
    and known: "known_index K"
  shows "CheckBlock K b state pow merkle sig rej = Inr ((True, st), b', rej') \<longleftrightarrow>
    block_rules K pow merkle sig state b \<and> st = state \<and> rej' = rej \<and>
    b' = (if pow \<and> merkle \<and> sig then b\<lparr>fChecked := True\<rparr> else b)"
proof -
  have "block_shape b \<Longrightarrow> vtx b \<noteq> []" by (auto simp: block_shape_def)
  then have rules: "block_rules K pow merkle sig state b \<longleftrightarrow> header_rules K pow merkle b \<and> predecessor_rule K b \<and>
      block_txs_valid K (cold_staking_active K b) state b \<and> sigops_within K b \<and> (sig \<longrightarrow> ck_signature K b)"
    unfolding header_rules_def sigops_within_def block_rules_def by blast
  show ?thesis
  proof (cases "header_rules K pow merkle b \<and> predecessor_rule K b")
    case True
    then have "CheckBlock_payments K b state rej = Inr (Inr (cold_staking_active K b), rej)"
      using CheckBlock_payments_exact [OF known] by (simp add: header_rules_def)
    from CheckBlock_True [OF b special this] True show ?thesis unfolding rules by simp
  next
    case False
    have "predecessor_rule K b" if h: "header_rules K pow merkle b"
      and c: "CheckBlock_contents K b state pow merkle sig rej = Inr ((True, st), b', rej')"
    proof -
      obtain cold r where "CheckBlock_payments K b state rej = Inr (Inr cold, r)" by (rule CheckBlock_contents_payments [OF c])
      then show ?thesis using CheckBlock_payments_exact [OF known] h by (simp add: header_rules_def)
    qed
    then show ?thesis using False unfolding CheckBlock_stages [OF b(1-3)] rules by blast
  qed
qed

definition sample_coinbase :: CTransaction where
  "sample_coinbase = CMutableTransaction_new\<lparr>
     vin := [\<lparr>prevout = COutPoint_SetNull, scriptSig = [1, 2], nSequence = 5\<rparr>], vout := [CTxOut_new (1000 * COIN) [0x51]]\<rparr>"

lemma sample_coinbase_ok:
  "tx_ok sample_coinbase" "tx_valid 1800000000000000 True sample_coinbase" "IsCoinBase sample_coinbase"
  "GetValueOut sample_coinbase = Inr (1000 * COIN)" "length (tx_enc sample_coinbase) \<le> 200" "\<not> IsShieldedTx sample_coinbase"
  "GetLegacySigOpCount LittleEndianHost sample_coinbase = Inr 0"
proof -
  note tx = sample_coinbase_def CMutableTransaction_new_def CTxOut_new_def isSaplingVersion_def TxVersion_SAPLING_def
    IsNormalType_def TxType_NORMAL_def SaplingTxData_new_def COutPoint_SetNull_def base_blob_new_def COIN_def
  show "tx_ok sample_coinbase"
    by (simp add: tx_ok_def tx vec_ok_def CTxIn_ok_def COutPoint_ok_def bytevec_ok_def CTxOut_ok_def amount_ok_def
        int64_min_def int64_max_def MAX_SIZE_def Sapling_ok_def)
  show len: "length (tx_enc sample_coinbase) \<le> 200"
    by (simp add: tx_enc_def int16_enc_def vec_enc_def compact_bytes_def CTxIn_enc_def COutPoint_enc_def
        bytevec_enc_def CTxOut_enc_def amount_enc_def opt_enc_def Sapling_enc_def tx)
  show cb: "IsCoinBase sample_coinbase" by (simp add: IsCoinBase_def tx COutPoint_IsNull_def blob_replicate CTxIn_IsZerocoinSpend_def IsZerocoinSpend_def StartsWithOpcode_def)
  have sap: "\<not> hasSaplingData sample_coinbase" by (simp add: hasSaplingData_def tx hasBindingSig_def list_ex_iff)
  then have out: "shielded_out sample_coinbase = 0" by (simp add: shielded_out_def tx)
  show sh: "\<not> IsShieldedTx sample_coinbase" using sap by (simp add: IsShieldedTx_def)
  have "MoneyRange 1800000000000000 (1000 * COIN)" using MoneyRange_main [of "1000 * COIN"] by (simp add: COIN_def)
  moreover have "inputs_distinct (vin sample_coinbase)" by (simp add: inputs_distinct_def tx)
  moreover have "\<forall>t \<in> set (vout sample_coinbase). output_valid 1800000000000000 sample_coinbase True t"
    by (simp add: tx output_valid_def CTxOut_IsEmpty_def IsPayToColdStaking_def)
  moreover have "vin sample_coinbase \<noteq> []" "vout sample_coinbase \<noteq> []" "tx_nVersion sample_coinbase = 1"
    "scriptSig (vin sample_coinbase ! 0) = [1, 2]" "map nValue (vout sample_coinbase) = [1000 * COIN]" by (simp_all add: tx)
  moreover have "sapling_valid 1800000000000000 sample_coinbase" using sap by (simp add: sapling_valid_def)
  ultimately show "tx_valid 1800000000000000 True sample_coinbase"
    unfolding tx_valid_def using len cb out sh
    by (auto simp: MAX_ZEROCOIN_TX_SIZE_def TxVersion_TOOHIGH_def)
  show "GetValueOut sample_coinbase = Inr (1000 * COIN)" by code_simp
  show "GetLegacySigOpCount LittleEndianHost sample_coinbase = Inr 0" by code_simp
qed

definition sample_pow_block :: CBlock where
  "sample_pow_block = (CBlock_of (CBlockHeader_new\<lparr>hd_nBits := 0x1e0ffff0, hashMerkleRoot := replicate 32 3\<rparr>))\<lparr>vtx := [sample_coinbase]\<rparr>"

lemma one_leaf: "tree_root H [x] = x" "\<not> mutated_list H [x]"
proof -
  show "tree_root H [x] = x" by (subst tree_root.simps) simp
  have "\<not> (2 * i + 2) * 2 ^ k \<le> length [x]" for i k :: nat using mult_le_mono [of 2 "2 * i + 2" 1 "2 ^ k"] by simp
  then show "\<not> mutated_list H [x]" unfolding mutated_list_def by blast
qed

definition sample_check :: check_env where
  "sample_check = \<lparr>ck_host = LittleEndianHost, ck_params = main_consensus, ck_quark = rev, ck_digest = rev,
     ck_txhash = (\<lambda>_. replicate 32 3), ck_combine = (\<lambda>a b. a @ b), ck_nMaxMoneyOut = 1800000000000000, ck_ZC_TimeStart = 0,
     ck_index = (\<lambda>_. None), ck_chainActive = [], ck_mapBlockIndex = (\<lambda>_. None), ck_initial_download = False,
     ck_coldstaking_maintenance = False, ck_superblocks_enabled = False, ck_patriotnode_payment = (\<lambda>_. 0),
     ck_budget_block = (\<lambda>_. False), ck_special = (\<lambda>tx st. (True, st)), ck_signature = (\<lambda>_. True), ck_time = 0\<rparr>"

text \<open>A node whose tip is the block that the sample block names as its predecessor.\<close>

definition tip_index :: CBlockIndex where
  "tip_index = \<lparr>phashBlock = replicate 32 1, pprev = None, pskip = None, nHeight = 0, nFile = 0, nDataPos = 8, nUndoPos = 0, nStatus = 8,
     vStakeModifier = [], nFlags = 0, nSaplingValue = 0, nChainSaplingValue = None, nTime = 0, nBits = 0, nTimeMax = 0, hashFinalSaplingRoot = []\<rparr>"

definition tip_check :: check_env where
  "tip_check = sample_check\<lparr>ck_index := [0 \<mapsto> tip_index], ck_chainActive := [Some 0]\<rparr>"

definition tip_block :: "bytes \<Rightarrow> CBlock" where
  "tip_block prev = sample_pow_block\<lparr>hashPrevBlock := prev\<rparr>"

lemma tip_check_simps:
  "ck_host tip_check = LittleEndianHost" "ck_nMaxMoneyOut tip_check = 1800000000000000" "ck_special tip_check = (\<lambda>tx st. (True, st))"
  "ck_signature tip_check = (\<lambda>_. True)" "ck_txhash tip_check = (\<lambda>_. replicate 32 3)" "ck_index tip_check = [0 \<mapsto> tip_index]"
  "active_tip tip_check = Some 0" "ck_mapBlockIndex tip_check = Map.empty" "ck_coldstaking_maintenance tip_check = False" "known_index tip_check"
  by (auto simp: tip_check_def sample_check_def active_tip_def known_index_def tip_index_def)

lemma tip_block_ok:
  assumes "length prev = 32"
  shows "\<not> fChecked (tip_block prev)" "block_ok (tip_block prev)" "length (block_enc (tip_block prev)) \<le> 1000"
    "vtx (tip_block prev) = [sample_coinbase]" "hashPrevBlock (tip_block prev) = prev" "hashMerkleRoot (tip_block prev) = replicate 32 3"
    "\<not> CBlock_IsProofOfStake (tip_block prev)"
proof -
  note block = tip_block_def sample_pow_block_def CBlock_of_def CBlockHeader_new_def CBlockHeader.extend_def CBlock.fields_def CBlockHeader_CURRENT_VERSION_def
  show "\<not> fChecked (tip_block prev)" "vtx (tip_block prev) = [sample_coinbase]" "hashPrevBlock (tip_block prev) = prev"
      "hashMerkleRoot (tip_block prev) = replicate 32 3" "\<not> CBlock_IsProofOfStake (tip_block prev)"
    by (simp_all add: block CBlock_IsProofOfStake_def)
  show "block_ok (tip_block prev)" using sample_coinbase_ok(1) assms
    by (simp add: block_ok_def block header_ok_def int32_ok_def UINT256_ZERO_def vec_ok_def MAX_SIZE_def bytevec_ok_def CBlock_IsProofOfStake_def)
  show "length (block_enc (tip_block prev)) \<le> 1000" using sample_coinbase_ok(5) assms
    by (simp add: block_enc_def block header_enc_def int32_enc_def vec_enc_def compact_bytes_def bytevec_enc_def UINT256_ZERO_def CBlock_IsProofOfStake_def)
qed

lemma tip_block_rules:
  assumes "length prev = 32" "prev \<noteq> UINT256_ZERO"
  shows "block_rules tip_check False True True CValidationState_new (tip_block prev) \<longleftrightarrow> prev = replicate 32 1"
proof -
  note b = tip_block_ok [OF assms(1)]
  have shape: "block_shape (tip_block prev)" using sample_coinbase_ok(3) b by (simp add: block_shape_def)
  have sh: "shielded_size sample_coinbase = 0" using sample_coinbase_ok(6) by (simp add: shielded_size_def)
  have ops: "tx_sigops LittleEndianHost sample_coinbase = 0"
    using tx_sigops_count(1) [of sample_coinbase LittleEndianHost] sample_coinbase_ok(5,7) by auto
  have "cold_staking_active tip_check (tip_block prev)" by (simp add: cold_staking_active_def tip_check_simps)
  then have valid: "block_txs_valid tip_check (cold_staking_active tip_check (tip_block prev)) CValidationState_new (tip_block prev)"
    using sample_coinbase_ok(2) b by (simp add: block_txs_valid_def tip_check_simps)
  have "predecessor_rule tip_check (tip_block prev) \<longleftrightarrow> prev = replicate 32 1"
    using assms b by (auto simp: predecessor_rule_def names_predecessor_def predecessor_def tip_check_simps tip_index_def)
  then show ?thesis using b shape sh ops valid one_leaf
    by (auto simp: block_rules_def tip_check_simps MAX_BLOCK_SIZE_CURRENT_def MAX_BLOCK_SHIELDED_TXES_SIZE_def)
qed

text \<open>The sample block is accepted behind the tip and refused behind a block nobody knows.\<close>

theorem CheckBlock_exact_witness:
  "CheckBlock tip_check (tip_block (replicate 32 1)) CValidationState_new False True True Map.empty =
      Inr ((True, CValidationState_new), tip_block (replicate 32 1), Map.empty) \<and>
    (\<nexists>st b' rej'. CheckBlock tip_check (tip_block (replicate 32 9)) CValidationState_new False True True Map.empty =
      Inr ((True, st), b', rej'))"
proof -
  have ne: "replicate 32 1 \<noteq> UINT256_ZERO" "replicate 32 9 \<noteq> UINT256_ZERO" "replicate 32 9 \<noteq> (replicate 32 1 :: bytes)"
    by (simp_all add: UINT256_ZERO_def base_blob_new_def)
  have "CheckBlock tip_check (tip_block prev) CValidationState_new False True True Map.empty = Inr ((True, st), b', rej') \<longleftrightarrow>
      prev = replicate 32 1 \<and> st = CValidationState_new \<and> rej' = Map.empty \<and> b' = tip_block prev"
    if "length prev = 32" "prev \<noteq> UINT256_ZERO" for prev st b' rej'
  proof -
    have "length (block_enc (tip_block prev)) < 2 ^ 32" using tip_block_ok(3) [OF that(1)] by simp
    from CheckBlock_exact [OF tip_block_ok(1,2) [OF that(1)] this, of tip_check CValidationState_new False True True Map.empty st b' rej']
    show ?thesis unfolding tip_block_rules [OF that] by (simp add: tip_check_simps)
  qed
  then show ?thesis using ne by simp
qed

end
