(* ===== verification/Money.thy ===== *)
theory Money
  imports Uint256 Transaction
begin

text \<open>
  Printing and reading amounts: \<open>utilmoneystr.cpp\<close>.
\<close>

section \<open>Definitions\<close>

definition CENT :: CAmount where "CENT = 1000000"

definition isdigit :: "char \<Rightarrow> bool" where
  "isdigit c \<longleftrightarrow> (let n = of_char c :: nat in 48 \<le> n \<and> n \<le> 57)"

definition digit_char :: "nat \<Rightarrow> char" where
  "digit_char d = char_of (48 + d)"

text \<open>The conversions \<open>%d\<close> of a number that is not negative and \<open>%08d\<close>.\<close>

fun decimal :: "nat \<Rightarrow> string" where
  "decimal n = (if n < 10 then [digit_char n] else decimal (n div 10) @ [digit_char (n mod 10)])"

declare decimal.simps [simp del]

definition pad8 :: "string \<Rightarrow> string" where
  "pad8 s = replicate (8 - length s) (CHR ''0'') @ s"

text \<open>The number of zeros to trim, from the last character on.\<close>

fun FormatMoney_nTrim :: "string \<Rightarrow> nat" where
  "FormatMoney_nTrim (a # b # c # rest) = (if a = CHR ''0'' \<and> isdigit c then Suc (FormatMoney_nTrim (b # c # rest)) else 0)"
| "FormatMoney_nTrim _ = 0"

definition FormatMoney :: "CAmount \<Rightarrow> bool \<Rightarrow> string res" where
  "FormatMoney n fPlus =
     bindE (if n > 0 then Inr n else neg_amount n) (\<lambda>n_abs.
       let quotient = n_abs div COIN;
           remainder = n_abs mod COIN;
           str = decimal (nat quotient) @ ''.'' @ pad8 (decimal (nat remainder));
           nTrim = FormatMoney_nTrim (rev str);
           str = take (length str - nTrim) str
       in Inr (if n < 0 then CHR ''-'' # str else if fPlus \<and> n > 0 then CHR ''+'' # str else str))"

fun digits_value :: "string \<Rightarrow> int \<Rightarrow> int" where
  "digits_value [] acc = acc"
| "digits_value (c # rest) acc = (if isdigit c then digits_value rest (acc * 10 + (of_char c - 48)) else acc)"

text \<open>\<open>strtoll\<close> in base ten: blanks, a sign, digits; the result is clamped to the type.\<close>

definition atoi64 :: "string \<Rightarrow> int" where
  "atoi64 str =
     (let s = dropWhile isspace str;
          v = (case s of [] \<Rightarrow> 0
               | c # r \<Rightarrow> if c = CHR ''-'' then - digits_value r 0 else if c = CHR ''+'' then digits_value r 0 else digits_value s 0)
      in max int64_min (min int64_max v))"

fun ParseMoney_units :: "string \<Rightarrow> int \<Rightarrow> int \<Rightarrow> int \<times> string" where
  "ParseMoney_units [] nMult nUnits = (nUnits, [])"
| "ParseMoney_units (c # p) nMult nUnits =
     (if isdigit c \<and> nMult > 0 then ParseMoney_units p (nMult div 10) (nUnits + nMult * (of_char c - 48)) else (nUnits, c # p))"

fun ParseMoney_loop :: "string \<Rightarrow> string \<Rightarrow> (string \<times> int \<times> string) option" where
  "ParseMoney_loop [] strWhole = Some (strWhole, 0, [])"
| "ParseMoney_loop (c # p) strWhole =
     (if c = CHR ''.'' then (case ParseMoney_units p (CENT * 10) 0 of (nUnits, p) \<Rightarrow> Some (strWhole, nUnits, p))
      else if isspace c then Some (strWhole, 0, c # p)
      else if \<not> isdigit c then None
      else ParseMoney_loop p (strWhole @ [c]))"

definition ParseMoney :: "string \<Rightarrow> CAmount option" where
  "ParseMoney str =
     (let p = dropWhile isspace (takeWhile (\<lambda>c. of_char c \<noteq> (0 :: nat)) str)
      in case ParseMoney_loop p [] of
           None \<Rightarrow> None
         | Some (strWhole, nUnits, p) \<Rightarrow>
             if \<not> list_all isspace p then None
             else if length strWhole > 10 then None
             else if nUnits < 0 \<or> nUnits > COIN then None
             else Some (atoi64 strWhole * COIN + nUnits))"

section \<open>Decimal numbers\<close>

lemma of_digit_char: "d < 10 \<Longrightarrow> (of_char (digit_char d) :: nat) = 48 + d"
  by (simp add: digit_char_def)

lemma of_digit_char_int: "d < 10 \<Longrightarrow> (of_char (digit_char d) :: int) = 48 + int d"
proof -
  assume "d < 10"
  have "(of_char (digit_char d) :: int) = int (of_char (digit_char d))" by (simp add: of_char_def)
  then show ?thesis using of_digit_char [OF \<open>d < 10\<close>] by simp
qed

lemma isdigit_digit_char: "d < 10 \<Longrightarrow> isdigit (digit_char d)"
  by (simp add: isdigit_def of_digit_char Let_def)

lemma decimal_digits: "c \<in> set (decimal n) \<Longrightarrow> isdigit c"
proof (induction n rule: decimal.induct)
  case (1 n)
  then show ?case by (subst (asm) decimal.simps) (auto simp: isdigit_digit_char split: if_splits)
qed

lemma decimal_nonempty: "decimal n \<noteq> []"
  by (subst decimal.simps) simp

lemma digits_value_append: "list_all isdigit s \<Longrightarrow> digits_value (s @ t) acc = digits_value t (digits_value s acc)"
  by (induction s arbitrary: acc) auto

lemma digits_value_decimal: "digits_value (decimal n) 0 = int n"
proof (induction n rule: decimal.induct)
  case (1 n)
  show ?case
  proof (cases "n < 10")
    case True
    then show ?thesis by (subst decimal.simps) (simp add: isdigit_digit_char of_digit_char_int)
  next
    case False
    have "list_all isdigit (decimal (n div 10))" using decimal_digits by (simp add: list_all_iff)
    then show ?thesis using False 1
      by (subst decimal.simps) (simp add: digits_value_append isdigit_digit_char of_digit_char_int zdiv_int zmod_int)
  qed
qed

lemma length_decimal: "n < 10 ^ k \<Longrightarrow> 0 < k \<Longrightarrow> length (decimal n) \<le> k"
proof (induction n arbitrary: k rule: decimal.induct)
  case (1 n)
  show ?case
  proof (cases "n < 10")
    case True
    then show ?thesis using 1 by (subst decimal.simps) simp
  next
    case False
    then obtain j where k: "k = Suc j" "0 < j" using "1.prems" by (cases k; cases "k - 1") auto
    have "n div 10 < 10 ^ j" using "1.prems" k by (simp add: less_mult_imp_div_less mult.commute)
    then show ?thesis using 1 False k by (subst decimal.simps) simp
  qed
qed

section \<open>Amounts read back\<close>

lemma eight: "length f = 8 \<Longrightarrow> \<exists>a0 a1 a2 a3 a4 a5 a6 a7. f = [a0, a1, a2, a3, a4, a5, a6, a7]"
  by (auto simp: numeral_eq_Suc length_Suc_conv)

text \<open>Trimming stops at the second decimal.\<close>

lemma trim_spec:
  assumes "length f = 8" "list_all isdigit f"
  shows "\<exists>t. FormatMoney_nTrim (rev (w @ ''.'' @ f)) = t \<and> t \<le> 6 \<and> drop (8 - t) f = replicate t (CHR ''0'')"
proof -
  from eight [OF assms(1)] obtain a0 a1 a2 a3 a4 a5 a6 a7 where f: "f = [a0, a1, a2, a3, a4, a5, a6, a7]" by blast
  have nd: "\<not> isdigit (CHR ''.'')" by (simp add: isdigit_def)
  show ?thesis using assms(2) unfolding f
    by (auto simp: nd numeral_eq_Suc)
qed

lemma digits_value_acc: "list_all isdigit s \<Longrightarrow> digits_value s acc = acc * 10 ^ length s + digits_value s 0"
proof (induction s arbitrary: acc)
  case (Cons c s)
  then have d: "list_all isdigit s" by simp
  note IH = Cons.IH [OF d]
  have "digits_value (c # s) acc = (acc * 10 + (of_char c - 48)) * 10 ^ length s + digits_value s 0"
    "digits_value (c # s) 0 = (of_char c - 48) * 10 ^ length s + digits_value s 0"
    using Cons.prems IH [of "acc * 10 + (of_char c - 48)"] IH [of "of_char c - 48"] by simp_all
  then show ?case by (simp only: list.size power_Suc) (simp add: distrib_right)
qed simp

lemma units_value:
  "list_all isdigit s \<Longrightarrow> ParseMoney_units s (10 ^ (length s + j) div 10) u = (u + digits_value s 0 * 10 ^ j, [])"
proof (induction s arbitrary: u)
  case (Cons c s)
  have m: "(10 :: int) ^ (length (c # s) + j) div 10 = 10 ^ (length s + j)" by simp
  have "digits_value (c # s) 0 = (of_char c - 48) * 10 ^ length s + digits_value s 0"
    using digits_value_acc [of s "of_char c - 48"] Cons.prems by simp
  then have "digits_value (c # s) 0 * 10 ^ j = 10 ^ (length s + j) * (of_char c - 48) + digits_value s 0 * 10 ^ j"
    by (simp only: distrib_right power_add) (simp add: ac_simps)
  then show ?case unfolding m using Cons.prems Cons.IH [of "u + 10 ^ (length s + j) * (of_char c - 48)"]
    by simp
qed simp

lemma digits_value_zeros: "digits_value (replicate t (CHR ''0'')) v = v * 10 ^ t"
  by (induction t arbitrary: v) (simp_all add: isdigit_def Let_def)

lemma pad8_value: "digits_value (pad8 (decimal n)) 0 = int n" "list_all isdigit (pad8 (decimal n))"
  "n < 10 ^ 8 \<Longrightarrow> length (pad8 (decimal n)) = 8"
proof -
  have zero: "isdigit (CHR ''0'')" by (simp add: isdigit_def)
  then have z: "list_all isdigit (replicate k (CHR ''0''))" for k by (simp add: list_all_iff)
  show "list_all isdigit (pad8 (decimal n))" using zero decimal_digits by (auto simp: pad8_def list_all_iff)
  show "digits_value (pad8 (decimal n)) 0 = int n"
    unfolding pad8_def by (simp add: digits_value_append [OF z] digits_value_zeros digits_value_decimal)
  show "n < 10 ^ 8 \<Longrightarrow> length (pad8 (decimal n)) = 8" using length_decimal [of n 8] by (simp add: pad8_def)
qed

lemma isdigit_not: "isdigit c \<Longrightarrow> \<not> isspace c \<and> c \<noteq> CHR ''.'' \<and> (of_char c :: nat) \<noteq> 0 \<and> c \<noteq> CHR ''-'' \<and> c \<noteq> CHR ''+''"
  by (auto simp: isdigit_def isspace_def Let_def)

lemma loop_digits: "list_all isdigit s \<Longrightarrow> ParseMoney_loop (s @ p) w = ParseMoney_loop p (w @ s)"
  by (induction s arbitrary: w) (auto dest: isdigit_not)

lemma atoi64_decimal:
  assumes "int n \<le> int64_max"
  shows "atoi64 (decimal n) = int n"
proof -
  have d: "list_all isdigit (decimal n)" using decimal_digits by (simp add: list_all_iff)
  obtain c r where cr: "decimal n = c # r" using decimal_nonempty [of n] by (cases "decimal n") auto
  then have "isdigit c" using d by simp
  then have "dropWhile isspace (decimal n) = decimal n" "c \<noteq> CHR ''-''" "c \<noteq> CHR ''+''" using cr isdigit_not [of c] by auto
  then show ?thesis using assms digits_value_decimal [of n] cr by (simp add: atoi64_def Let_def int64_min_def)
qed

section \<open>Properties\<close>

text \<open>
  Property.  Every amount below ten thousand million coins that \<open>FormatMoney\<close> prints, \<open>ParseMoney\<close> reads
  back, whatever zeros were trimmed; at least two decimals stay.
\<close>

theorem FormatMoney_roundtrip:
  assumes "0 \<le> n" "n < 10 ^ 18"
  shows "\<exists>s. FormatMoney n False = Inr s \<and> ParseMoney s = Some n"
proof -
  let ?q = "nat (n div COIN)" and ?r = "nat (n mod COIN)"
  let ?f = "pad8 (decimal ?r)" and ?w = "decimal ?q"
  have r: "?r < 10 ^ 8" by (simp add: COIN_def nat_less_iff)
  have q: "?q < 10 ^ 10" using assms by (simp add: COIN_def nat_less_iff)
  note f = pad8_value(3) [OF r] pad8_value(2) [of ?r]
  from trim_spec [OF f, of ?w] obtain t where t: "FormatMoney_nTrim (rev (?w @ ''.'' @ ?f)) = t" "t \<le> 6"
    "drop (8 - t) ?f = replicate t (CHR ''0'')" by blast
  let ?g = "take (8 - t) ?f"
  have str: "take (length (?w @ ''.'' @ ?f) - t) (?w @ ''.'' @ ?f) = ?w @ ''.'' @ ?g"
    using f(1) t(2) by (simp add: take_Cons' Suc_diff_le)
  have "(if n > 0 then Inr n else neg_amount n) = Inr n" using assms(1) by (auto simp: neg_amount_def int64_min_def)
  then have fm: "FormatMoney n False = Inr (?w @ ''.'' @ ?g)"
    using assms(1) by (simp only: FormatMoney_def Let_def bindE_Inr t(1) str) simp
  have w: "list_all isdigit ?w" using decimal_digits by (simp add: list_all_iff)
  have g: "list_all isdigit ?g" "length ?g = 8 - t" using f by (auto simp: list_all_iff dest: in_set_takeD)
  have "digits_value ?f 0 = digits_value (?g @ replicate t (CHR ''0'')) 0" using t(3) append_take_drop_id [of "8 - t" ?f] by simp
  then have v: "digits_value ?g 0 * 10 ^ t = int ?r" using g(1) by (simp add: digits_value_append digits_value_zeros pad8_value(1))
  have "(10 :: int) ^ (length ?g + t) div 10 = CENT * 10" using g(2) t(2) by (simp add: CENT_def)
  then have units: "ParseMoney_units ?g (CENT * 10) 0 = (int ?r, [])" using units_value [OF g(1), of t 0] v by simp
  have "\<forall>c \<in> set (?w @ ''.'' @ ?g). (of_char c :: nat) \<noteq> 0"
    using w g(1) isdigit_not by (auto simp: list_all_iff)
  then have nul: "takeWhile (\<lambda>c. of_char c \<noteq> (0 :: nat)) (?w @ ''.'' @ ?g) = ?w @ ''.'' @ ?g" by (simp add: takeWhile_eq_all_conv)
  obtain c rest where "?w = c # rest" using decimal_nonempty [of ?q] by (cases ?w) auto
  then have blanks: "dropWhile isspace (?w @ ''.'' @ ?g) = ?w @ ''.'' @ ?g" using w isdigit_not [of c] by simp
  have loop: "ParseMoney_loop (?w @ ''.'' @ ?g) [] = Some (?w, int ?r, [])" using loop_digits [OF w] units by simp
  have "length ?w \<le> 10" using length_decimal [OF q] by simp
  moreover have "atoi64 ?w = int ?q"
  proof (rule atoi64_decimal)
    have "int ?q < 10 ^ 10" using q by (simp only: of_nat_less_iff [where 'a = int, symmetric] of_nat_power of_nat_numeral)
    also have "(10 :: int) ^ 10 \<le> int64_max" by (simp add: int64_max_def)
    finally show "int ?q \<le> int64_max" by simp
  qed
  moreover have "int ?r \<le> COIN" "int ?q * COIN + int ?r = n"
    using assms(1) r pos_imp_zdiv_nonneg_iff [of "100000000" n] by (simp_all add: COIN_def)
  ultimately have "ParseMoney (?w @ ''.'' @ ?g) = Some n" by (simp only: ParseMoney_def Let_def nul blanks loop option.case prod.case) simp
  then show ?thesis using fm by blast
qed

theorem FormatMoney_roundtrip_witness: "\<exists>s. FormatMoney 123450000 False = Inr s \<and> ParseMoney s = Some 123450000"
  by (rule FormatMoney_roundtrip) simp_all

end
