(* ===== verification/BlockFiles.thy ===== *)
theory BlockFiles
  imports Disk TxVerify
begin

text \<open>
  Space in the block and undo files: \<open>CBlockFileInfo\<close> of \<open>chain.h\<close>, \<open>FlatFileSeq::Allocate\<close> and
  \<open>FlatFileSeq::Flush\<close> of \<open>flatfile.cpp\<close> with the file operations of \<open>util/system.cpp\<close> they use, and
  \<open>FlushBlockFile\<close>, \<open>FindBlockPos\<close> and \<open>FindUndoPos\<close> of \<open>validation.cpp\<close>.  The free space of the disk is
  an argument.
\<close>

section \<open>Statistics of a file\<close>

record CBlockFileInfo =
  fi_nBlocks :: u32
  fi_nSize :: u32
  fi_nUndoSize :: u32
  fi_nHeightFirst :: u32
  fi_nHeightLast :: u32
  fi_nTimeFirst :: u64
  fi_nTimeLast :: u64

definition CBlockFileInfo_SetNull :: CBlockFileInfo where
  "CBlockFileInfo_SetNull = \<lparr>fi_nBlocks = 0, fi_nSize = 0, fi_nUndoSize = 0, fi_nHeightFirst = 0, fi_nHeightLast = 0,
     fi_nTimeFirst = 0, fi_nTimeLast = 0\<rparr>"

definition CBlockFileInfo_AddBlock :: "CBlockFileInfo \<Rightarrow> u32 \<Rightarrow> u64 \<Rightarrow> CBlockFileInfo" where
  "CBlockFileInfo_AddBlock f nHeightIn nTimeIn =
     (let f = (if fi_nBlocks f = 0 \<or> fi_nHeightFirst f > nHeightIn then f\<lparr>fi_nHeightFirst := nHeightIn\<rparr> else f);
          f = (if fi_nBlocks f = 0 \<or> fi_nTimeFirst f > nTimeIn then f\<lparr>fi_nTimeFirst := nTimeIn\<rparr> else f);
          f = f\<lparr>fi_nBlocks := fi_nBlocks f + 1\<rparr>;
          f = (if nHeightIn > fi_nHeightLast f then f\<lparr>fi_nHeightLast := nHeightIn\<rparr> else f)
      in if nTimeIn > fi_nTimeLast f then f\<lparr>fi_nTimeLast := nTimeIn\<rparr> else f)"

section \<open>Files\<close>

text \<open>The variant of \<open>AllocateFileRange\<close> for Linux; it ignores a failure of \<open>posix_fallocate\<close>.\<close>

definition AllocateFileRange :: "FILE \<Rightarrow> u32 \<Rightarrow> u32 \<Rightarrow> FILE" where
  "AllocateFileRange file offset len =
     (let nEndPos = unat offset + unat len
      in if f_failed file then file
         else file\<lparr>f_data := f_data file @ replicate (nEndPos - length (f_data file)) 0\<rparr>)"

definition TruncateFile :: "FILE \<Rightarrow> u32 \<Rightarrow> bool \<times> FILE" where
  "TruncateFile file len =
     (if f_failed file then (False, file)
      else (True, file\<lparr>f_data := take (unat len) (f_data file) @ replicate (unat len - length (f_data file)) 0\<rparr>))"

definition FileCommit :: "FILE \<Rightarrow> bool" where
  "FileCommit file \<longleftrightarrow> \<not> f_failed file"

definition CheckDiskSpace :: "u64 \<Rightarrow> u64 \<Rightarrow> bool" where
  "CheckDiskSpace free_bytes_available additional_bytes \<longleftrightarrow> free_bytes_available \<ge> 52428800 + additional_bytes"

definition fclose :: "flat_files \<Rightarrow> int \<Rightarrow> FILE \<Rightarrow> flat_files" where
  "fclose ff n file = ff\<lparr>ff_data := (ff_data ff)(n \<mapsto> f_data file)\<rparr>"

text \<open>The result: the bytes allocated, whether the disk is full, the files.\<close>

definition FlatFileSeq_Allocate :: "u64 \<Rightarrow> u64 \<Rightarrow> flat_files \<Rightarrow> FlatFilePos \<Rightarrow> u64 \<Rightarrow> u64 \<times> bool \<times> flat_files" where
  "FlatFileSeq_Allocate m_chunk_size avail ff pos add_size =
     (let nPos = ucast (pos_nPos pos) :: u64;
          n_old_chunks = ucast ((nPos + m_chunk_size - 1) div m_chunk_size) :: u32;
          n_new_chunks = ucast ((nPos + add_size + m_chunk_size - 1) div m_chunk_size) :: u32
      in if n_new_chunks > n_old_chunks then
           let old_size = nPos;
               new_size = ucast n_new_chunks * m_chunk_size;
               inc_size = new_size - old_size
           in if CheckDiskSpace avail inc_size then
                case FlatFileSeq_Open ff pos False of
                  Some file \<Rightarrow> (inc_size, False, fclose ff (pos_nFile pos) (AllocateFileRange file (pos_nPos pos) (ucast inc_size)))
                | None \<Rightarrow> (0, False, ff)
              else (0, True, ff)
         else (0, False, ff))"

definition FlatFileSeq_Flush :: "flat_files \<Rightarrow> FlatFilePos \<Rightarrow> bool \<Rightarrow> bool \<times> flat_files" where
  "FlatFileSeq_Flush ff pos finalize =
     (let n = pos_nFile pos
      in case FlatFileSeq_Open ff \<lparr>pos_nFile = n, pos_nPos = 0\<rparr> False of
           None \<Rightarrow> (False, ff)
         | Some file \<Rightarrow>
             case (if finalize then TruncateFile file (pos_nPos pos) else (True, file)) of
               (ok, file) \<Rightarrow>
                 if \<not> ok then (False, fclose ff n file)
                 else if \<not> FileCommit file then (False, fclose ff n file)
                 else (True, fclose ff n file))"

section \<open>The files of the node\<close>

definition MAX_BLOCKFILE_SIZE :: u32 where "MAX_BLOCKFILE_SIZE = 0x8000000"
definition BLOCKFILE_CHUNK_SIZE :: u64 where "BLOCKFILE_CHUNK_SIZE = 0x1000000"
definition UNDOFILE_CHUNK_SIZE :: u64 where "UNDOFILE_CHUNK_SIZE = 0x100000"

record block_files =
  bf_blk :: flat_files
  bf_rev :: flat_files
  vinfoBlockFile :: "CBlockFileInfo list"
  nLastBlockFile :: int
  setDirtyFileInfo :: "int set"
  bf_aborted :: "string list"

definition files_AbortNode :: "string \<Rightarrow> block_files \<Rightarrow> block_files" where
  "files_AbortNode msg B = B\<lparr>bf_aborted := bf_aborted B @ [msg]\<rparr>"

definition resize :: "CBlockFileInfo list \<Rightarrow> nat \<Rightarrow> CBlockFileInfo list" where
  "resize xs n = take n xs @ replicate (n - length xs) CBlockFileInfo_SetNull"

definition FlushBlockFile :: "bool \<Rightarrow> block_files \<Rightarrow> block_files res" where
  "FlushBlockFile fFinalize B =
     (let n = nLastBlockFile B
      in if n < 0 \<or> length (vinfoBlockFile B) \<le> nat n then Inl (UndefinedBehaviour ''vinfoBlockFile[nLastBlockFile]'')
         else
           let info = vinfoBlockFile B ! nat n
           in case FlatFileSeq_Flush (bf_blk B) \<lparr>pos_nFile = n, pos_nPos = fi_nSize info\<rparr> fFinalize of
                (ok1, blk) \<Rightarrow>
                  case FlatFileSeq_Flush (bf_rev B) \<lparr>pos_nFile = n, pos_nPos = fi_nUndoSize info\<rparr> fFinalize of
                    (ok2, revs) \<Rightarrow>
                      let B = B\<lparr>bf_blk := blk, bf_rev := revs\<rparr>
                      in Inr (if \<not> (ok1 \<and> ok2)
                              then files_AbortNode ''Flushing block file to disk failed. This is likely the result of an I/O error.'' B
                              else B))"

text \<open>The loop that looks for a file with room; it need not end for a size no file has room for.\<close>

partial_function (option) FindBlockPos_loop :: "u32 \<Rightarrow> u32 \<Rightarrow> CBlockFileInfo list \<Rightarrow> (u32 \<times> CBlockFileInfo list) res option" where
  "FindBlockPos_loop nAddSize n info =
     (if length info \<le> unat n then Some (Inl (UndefinedBehaviour ''vinfoBlockFile[nFile]''))
      else if fi_nSize (info ! unat n) + nAddSize \<ge> MAX_BLOCKFILE_SIZE then
        let n = n + 1
        in FindBlockPos_loop nAddSize n (if length info \<le> unat n then resize info (unat (n + 1)) else info)
      else Some (Inr (n, info)))"

definition FindBlockPos ::
  "u64 \<Rightarrow> FlatFilePos \<Rightarrow> u32 \<Rightarrow> u32 \<Rightarrow> u64 \<Rightarrow> bool \<Rightarrow> block_files \<Rightarrow> (bool \<times> FlatFilePos \<times> block_files) res option" where
  "FindBlockPos avail pos nAddSize height time fKnown B =
     (let n = (if fKnown then word_of_int (pos_nFile pos) else word_of_int (nLastBlockFile B)) :: u32;
          info = vinfoBlockFile B;
          info = (if length info \<le> unat n then resize info (unat (n + 1)) else info)
      in case (if \<not> fKnown then FindBlockPos_loop nAddSize n info else Some (Inr (n, info))) of
           None \<Rightarrow> None
         | Some (Inl e) \<Rightarrow> Some (Inl e)
         | Some (Inr (n, info)) \<Rightarrow> Some (
             let pos = (if \<not> fKnown then \<lparr>pos_nFile = sint n, pos_nPos = fi_nSize (info ! unat n)\<rparr> else pos);
                 B = B\<lparr>vinfoBlockFile := info\<rparr>
             in bindE (if sint n \<noteq> nLastBlockFile B
                       then bindE (FlushBlockFile (\<not> fKnown) B) (\<lambda>B. Inr (B\<lparr>nLastBlockFile := sint n\<rparr>))
                       else Inr B) (\<lambda>B.
                if length (vinfoBlockFile B) \<le> unat n then Inl (UndefinedBehaviour ''vinfoBlockFile[nFile]'')
                else
                  let f = CBlockFileInfo_AddBlock (vinfoBlockFile B ! unat n) height time;
                      f = (if fKnown then f\<lparr>fi_nSize := max (pos_nPos pos + nAddSize) (fi_nSize f)\<rparr>
                           else f\<lparr>fi_nSize := fi_nSize f + nAddSize\<rparr>);
                      B = B\<lparr>vinfoBlockFile := (vinfoBlockFile B)[unat n := f]\<rparr>
                  in case (if \<not> fKnown then FlatFileSeq_Allocate BLOCKFILE_CHUNK_SIZE avail (bf_blk B) pos (ucast nAddSize)
                           else (0, False, bf_blk B)) of
                       (_, out_of_space, blk) \<Rightarrow>
                         let B = B\<lparr>bf_blk := blk\<rparr>
                         in if out_of_space then Inr (False, pos, files_AbortNode ''Disk space is low!'' B)
                            else Inr (True, pos, B\<lparr>setDirtyFileInfo := insert (sint n) (setDirtyFileInfo B)\<rparr>))))"

definition FindUndoPos ::
  "u64 \<Rightarrow> CValidationState \<Rightarrow> int \<Rightarrow> u32 \<Rightarrow> block_files \<Rightarrow> ((bool \<times> CValidationState) \<times> FlatFilePos \<times> block_files) res" where
  "FindUndoPos avail state n nAddSize B =
     (if n < 0 \<or> length (vinfoBlockFile B) \<le> nat n then Inl (UndefinedBehaviour ''vinfoBlockFile[nFile]'')
      else
        let info = vinfoBlockFile B ! nat n;
            pos = \<lparr>pos_nFile = n, pos_nPos = fi_nUndoSize info\<rparr>;
            B = B\<lparr>vinfoBlockFile := (vinfoBlockFile B)[nat n := info\<lparr>fi_nUndoSize := fi_nUndoSize info + nAddSize\<rparr>],
                  setDirtyFileInfo := insert n (setDirtyFileInfo B)\<rparr>
        in case FlatFileSeq_Allocate UNDOFILE_CHUNK_SIZE avail (bf_rev B) pos (ucast nAddSize) of
             (_, out_of_space, revs) \<Rightarrow>
               let B = B\<lparr>bf_rev := revs\<rparr>
               in if out_of_space
                  then Inr (CValidationState_Error state ''Disk space is low!'', pos, files_AbortNode ''Disk space is low!'' B)
                  else Inr ((True, state), pos, B))"

text \<open>\<open>AbortNode\<close> with a state also marks the state.\<close>

definition AbortNode :: "CValidationState \<Rightarrow> string \<Rightarrow> block_files \<Rightarrow> (bool \<times> CValidationState) \<times> block_files" where
  "AbortNode state msg B = (CValidationState_Error state msg, files_AbortNode msg B)"

text \<open>
  \<open>AcceptBlock\<close> finds a place for a block and writes it there; a block that came from a block file
  (\<open>dbp\<close>) stays where it is.  An exception on the way, which \<open>AcceptBlock\<close> catches to abort the node, is
  left as an exception here.
\<close>

definition AcceptBlock_write ::
  "disk_env \<Rightarrow> u64 \<Rightarrow> FlatFilePos option \<Rightarrow> CBlock \<Rightarrow> int \<Rightarrow> CValidationState \<Rightarrow> block_files
     \<Rightarrow> ((bool \<times> CValidationState) \<times> FlatFilePos \<times> block_files) res option" where
  "AcceptBlock_write D avail dbp block height state B =
     (case GetSerializeSize CBlock_Ser (de_host D) block (de_client_version D) of
        Inl e \<Rightarrow> Some (Inl e)
      | Inr bytes \<Rightarrow>
          let nBlockSize = of_nat bytes :: u32;
              blockPos = (case dbp of None \<Rightarrow> FlatFilePos_SetNull | Some p \<Rightarrow> p)
          in (case FindBlockPos avail blockPos (nBlockSize + 8) (word_of_int height)
                    (word_of_int (CBlockHeader_GetBlockTime block)) (dbp \<noteq> None) B of
               None \<Rightarrow> None
             | Some (Inl e) \<Rightarrow> Some (Inl e)
             | Some (Inr (ok, blockPos, B)) \<Rightarrow> Some (
                 if \<not> ok then Inr ((False, state), blockPos, B)
                 else if dbp \<noteq> None then Inr ((True, state), blockPos, B)
                 else
                   bindE (WriteBlockToDisk D (bf_blk B) block blockPos) (\<lambda>(ok, blockPos, ff).
                     let B = B\<lparr>bf_blk := ff\<rparr>
                     in if \<not> ok then (case AbortNode state ''Failed to write block'' B of (v, B) \<Rightarrow> Inr (v, blockPos, B))
                        else Inr ((True, state), blockPos, B)))))"

text \<open>
  The undo data of a block whose index has none, as \<open>ConnectBlock\<close> writes it: the verdict, the index entry and
  the files.
\<close>

definition ConnectBlock_write_undo ::
  "disk_env \<Rightarrow> u64 \<Rightarrow> CValidationState \<Rightarrow> CBlockUndo \<Rightarrow> bytes \<Rightarrow> CBlockIndex \<Rightarrow> block_files
     \<Rightarrow> ((bool \<times> CValidationState) \<times> CBlockIndex \<times> block_files) res" where
  "ConnectBlock_write_undo D avail state blockundo hashPrev pindex B =
     bindE (GetSerializeSize (CBlockUndo_Ser (de_fully_valid D)) (de_host D) blockundo (de_client_version D)) (\<lambda>bytes.
     bindE (FindUndoPos avail state (nFile pindex) (of_nat (bytes + 40)) B) (\<lambda>((ok, state), diskPosBlock, B).
       if \<not> ok then Inr ((False, state), pindex, B)
       else
         bindE (UndoWriteToDisk D (bf_rev B) blockundo diskPosBlock hashPrev) (\<lambda>(ok, diskPosBlock, ff).
           let B = B\<lparr>bf_rev := ff\<rparr>
           in if \<not> ok then (case AbortNode state ''Failed to write undo data'' B of (v, B) \<Rightarrow> Inr (v, pindex, B))
              else Inr ((True, state),
                pindex\<lparr>nUndoPos := pos_nPos diskPosBlock, nStatus := nStatus pindex OR BLOCK_HAVE_UNDO\<rparr>, B))))"

section \<open>What the operations keep\<close>

definition bytes_in :: "flat_files \<Rightarrow> int \<Rightarrow> bytes" where
  "bytes_in ff n = (case ff_data ff n of None \<Rightarrow> [] | Some d \<Rightarrow> d)"

lemma contents_bytes_in: "contents ff pos = bytes_in ff (pos_nFile pos)"
  by (simp add: contents_def bytes_in_def)

definition healthy :: "flat_files \<Rightarrow> bool" where
  "healthy ff \<longleftrightarrow> (\<forall>n. \<not> ff_denied ff n \<and> \<not> ff_failing ff n)"

text \<open>The first \<open>lim n\<close> bytes of every file \<open>n\<close> are kept.\<close>

definition prefix_kept :: "(int \<Rightarrow> nat) \<Rightarrow> flat_files \<Rightarrow> flat_files \<Rightarrow> bool" where
  "prefix_kept lim ff ff' \<longleftrightarrow> healthy ff' \<and> (\<forall>n. take (lim n) (bytes_in ff' n) = take (lim n) (bytes_in ff n))"

definition covered :: "(int \<Rightarrow> nat) \<Rightarrow> flat_files \<Rightarrow> bool" where
  "covered lim ff \<longleftrightarrow> (\<forall>n. lim n \<le> length (bytes_in ff n))"

lemma prefix_kept_refl: "healthy ff \<Longrightarrow> prefix_kept lim ff ff"
  by (simp add: prefix_kept_def)

lemma prefix_kept_trans: "prefix_kept lim ff ff' \<Longrightarrow> prefix_kept lim ff' ff'' \<Longrightarrow> prefix_kept lim ff ff''"
  by (simp add: prefix_kept_def)

lemma prefix_kept_mono:
  assumes "prefix_kept lim ff ff'" "\<And>n. lim' n \<le> lim n"
  shows "prefix_kept lim' ff ff'"
proof -
  have "take (lim' n) (bytes_in ff' n) = take (lim' n) (bytes_in ff n)" for n
    using assms unfolding prefix_kept_def by (metis min.absorb1 take_take)
  then show ?thesis using assms(1) by (simp add: prefix_kept_def)
qed

lemma take_eq_length: "take k xs = take k ys \<Longrightarrow> k \<le> length xs \<Longrightarrow> k \<le> length ys"
  by (metis length_take min.absorb_iff2 min.commute)

lemma prefix_kept_covered: "prefix_kept lim ff ff' \<Longrightarrow> covered lim ff \<Longrightarrow> covered lim ff'"
  unfolding prefix_kept_def covered_def by (metis take_eq_length)

lemma opened_healthy:
  assumes "healthy ff" "0 \<le> n"
  shows "FlatFileSeq_Open ff \<lparr>pos_nFile = n, pos_nPos = p\<rparr> False =
    Some \<lparr>f_data = bytes_in ff n, f_pos = unat p, f_eof = False, f_failed = False\<rparr>"
  using assms
  by (cases "ff_data ff n") (auto simp: FlatFileSeq_Open_def FlatFilePos_IsNull_def Let_def healthy_def open_file_def bytes_in_def)

lemma bytes_in_fclose: "bytes_in (fclose ff n f) m = (if m = n then f_data f else bytes_in ff m)"
  by (simp add: fclose_def bytes_in_def)

lemma healthy_fclose: "healthy (fclose ff n f) = healthy ff"
  by (simp add: fclose_def healthy_def)

lemma Flush_kept:
  assumes "healthy ff" "0 \<le> n" "lim n \<le> unat p" "covered lim ff"
  shows "\<exists>ff'. FlatFileSeq_Flush ff \<lparr>pos_nFile = n, pos_nPos = p\<rparr> fin = (True, ff') \<and> prefix_kept lim ff ff'"
  using assms opened_healthy [OF assms(1,2), of 0]
  by (auto simp: FlatFileSeq_Flush_def TruncateFile_def FileCommit_def Let_def prefix_kept_def healthy_fclose bytes_in_fclose covered_def)

definition chunks :: "nat \<Rightarrow> nat \<Rightarrow> nat" where
  "chunks n c = (n + c - 1) div c"

lemma chunks_bounds: "0 < c \<Longrightarrow> chunks n c * c \<le> n + c - 1" "0 < c \<Longrightarrow> n \<le> chunks n c * c"
proof -
  assume c: "0 < c"
  show "chunks n c * c \<le> n + c - 1" by (simp add: chunks_def)
  have "n + c - 1 < (chunks n c + 1) * c" unfolding chunks_def using c dividend_less_times_div [of c "n + c - 1"] by (simp add: algebra_simps)
  then show "n \<le> chunks n c * c" using c by (simp add: algebra_simps)
qed

lemma chunks_fit:
  fixes p :: u32 and add chunk :: u64
  assumes "unat chunk \<le> 2 ^ 31" "2 ^ 20 \<le> unat chunk" "unat add \<le> 2 ^ 33"
  shows "unat (ucast ((ucast p + add + chunk - 1) div chunk) :: u32) = chunks (unat p + unat add) (unat chunk)"
    "unat (ucast (ucast ((ucast p + add + chunk - 1) div chunk) :: u32) * chunk :: u64) = chunks (unat p + unat add) (unat chunk) * unat chunk"
proof -
  have p: "unat p < 2 ^ 32" using unat_lt2p [of p] by simp
  let ?w = "ucast p + add + chunk - 1 :: u64" and ?q = "chunks (unat p + unat add) (unat chunk)"
  have "unat (ucast p + add + chunk :: u64) = unat p + unat add + unat chunk"
    using p assms(1,3) by (simp add: unat_word_ariths)
  then have s: "unat ?w = unat p + unat add + unat chunk - 1"
    using assms(2) by (subst unat_sub) (auto simp: word_le_nat_alt)
  have q: "?q * unat chunk \<le> unat p + unat add + unat chunk - 1" using assms(2) chunks_bounds(1) by simp
  have "?q * 2 ^ 20 \<le> unat p + unat add + unat chunk - 1"
    by (rule le_trans [OF _ q]) (intro mult_le_mono2 assms(2))
  also have "\<dots> < 2 ^ 34" using p assms(1,3) by simp
  finally have small: "?q < 2 ^ 32" by simp
  show w: "unat (ucast (?w div chunk) :: u32) = ?q"
    using small by (simp add: unat_div s unsigned_ucast_eq unsigned_take_bit_eq take_bit_nat_eq_self chunks_def)
  have "unat (ucast (ucast (?w div chunk) :: u32) :: u64) = ?q" using w by simp
  then show "unat (ucast (ucast (?w div chunk) :: u32) * chunk :: u64) = ?q * unat chunk"
    using q p assms(1,3) by (simp only: unat_word_ariths) simp
qed

lemma Allocate_kept:
  assumes "healthy ff" "0 \<le> n" "unat add \<le> 2 ^ 33" "chunk = BLOCKFILE_CHUNK_SIZE \<or> chunk = UNDOFILE_CHUNK_SIZE"
    and "52428800 + unat add + unat chunk \<le> unat avail" "covered lim ff"
  shows "\<exists>r ff'. FlatFileSeq_Allocate chunk avail ff \<lparr>pos_nFile = n, pos_nPos = p\<rparr> add = (r, False, ff') \<and> prefix_kept lim ff ff'"
proof -
  let ?new = "ucast ((ucast p + add + chunk - 1) div chunk :: u64) :: u32"
  let ?old = "ucast ((ucast p + chunk - 1) div chunk :: u64) :: u32" and ?size = "ucast ?new * chunk :: u64"
  have c: "unat chunk \<le> 2 ^ 31" "2 ^ 20 \<le> unat chunk"
    using assms(4) by (auto simp: BLOCKFILE_CHUNK_SIZE_def UNDOFILE_CHUNK_SIZE_def)
  then have pos: "0 < unat chunk" by (metis less_le_trans zero_less_numeral zero_less_power)
  note new = chunks_fit [OF c assms(3), of p]
  have old: "unat ?old = chunks (unat p) (unat chunk)" using chunks_fit(1) [OF c, of 0 p] by simp
  show ?thesis
  proof (cases "?new > ?old")
    case True
    have "chunks (unat p) (unat chunk) * unat chunk \<le> chunks (unat p + unat add) (unat chunk) * unat chunk"
      using True new(1) old by (intro mult_le_mono1) (simp add: word_less_nat_alt)
    then have "unat p \<le> unat ?size" using new(2) chunks_bounds(2) [OF pos, of "unat p"] by linarith
    then have "unat (?size - ucast p) = unat ?size - unat p" by (subst unat_sub) (simp_all add: word_le_nat_alt)
    then have "unat (?size - ucast p) \<le> unat add + unat chunk"
      using new(2) chunks_bounds(1) [OF pos, of "unat p + unat add"] by linarith
    then have "52428800 + (?size - ucast p) \<le> avail"
      using assms(3,5) c(1) by (simp add: word_le_nat_alt unat_word_ariths)
    then show ?thesis using True opened_healthy [OF assms(1,2), of p] assms(1,6)
      by (auto simp: FlatFileSeq_Allocate_def Let_def CheckDiskSpace_def AllocateFileRange_def prefix_kept_def healthy_fclose bytes_in_fclose covered_def)
  next
    case False
    then show ?thesis using assms(1) by (auto simp: FlatFileSeq_Allocate_def Let_def intro: prefix_kept_refl)
  qed
qed

section \<open>Finding room\<close>

text \<open>The bytes of a file that are in use, in a block file and in an undo file.\<close>

definition used :: "CBlockFileInfo list \<Rightarrow> int \<Rightarrow> nat" where
  "used info n = (if 0 \<le> n \<and> nat n < length info then unat (fi_nSize (info ! nat n)) else 0)"

definition undone :: "CBlockFileInfo list \<Rightarrow> int \<Rightarrow> nat" where
  "undone info n = (if 0 \<le> n \<and> nat n < length info then unat (fi_nUndoSize (info ! nat n)) else 0)"

definition files_inv :: "block_files \<Rightarrow> bool" where
  "files_inv B \<longleftrightarrow> healthy (bf_blk B) \<and> healthy (bf_rev B) \<and>
     0 \<le> nLastBlockFile B \<and> nLastBlockFile B < max 1 (int (length (vinfoBlockFile B))) \<and>
     covered (used (vinfoBlockFile B)) (bf_blk B) \<and> covered (undone (vinfoBlockFile B)) (bf_rev B) \<and>
     (\<forall>f \<in> set (vinfoBlockFile B). fi_nSize f < MAX_BLOCKFILE_SIZE)"

lemma nulls_unused:
  "used (info @ replicate k CBlockFileInfo_SetNull) = used info"
  "undone (info @ replicate k CBlockFileInfo_SetNull) = undone info"
  by (auto simp: used_def undone_def nth_append CBlockFileInfo_SetNull_def fun_eq_iff)

lemma AddBlock_sizes [simp]:
  "fi_nSize (CBlockFileInfo_AddBlock f h t) = fi_nSize f" "fi_nUndoSize (CBlockFileInfo_AddBlock f h t) = fi_nUndoSize f"
  by (simp_all add: CBlockFileInfo_AddBlock_def Let_def)

lemma resize_longer: "length info \<le> n \<Longrightarrow> resize info n = info @ replicate (n - length info) CBlockFileInfo_SetNull"
  by (simp add: resize_def)

definition has_room :: "u32 \<Rightarrow> CBlockFileInfo \<Rightarrow> bool" where
  "has_room nAddSize f \<longleftrightarrow> unat (fi_nSize f) + unat nAddSize < unat MAX_BLOCKFILE_SIZE"

lemma room_test:
  assumes "fi_nSize f < MAX_BLOCKFILE_SIZE" "nAddSize < MAX_BLOCKFILE_SIZE"
  shows "fi_nSize f + nAddSize \<ge> MAX_BLOCKFILE_SIZE \<longleftrightarrow> \<not> has_room nAddSize f"
  using assms by (auto simp: has_room_def MAX_BLOCKFILE_SIZE_def word_le_nat_alt word_less_nat_alt unat_word_ariths)

lemma FindBlockPos_loop_finds:
  assumes "unat n < length info" "length info < 2 ^ 31" "\<forall>f \<in> set info. fi_nSize f < MAX_BLOCKFILE_SIZE" "nAddSize < MAX_BLOCKFILE_SIZE"
  shows "\<exists>n' k. FindBlockPos_loop nAddSize n info = Some (Inr (n', info @ replicate k CBlockFileInfo_SetNull)) \<and> k \<le> 1 \<and>
    unat n \<le> unat n' \<and> unat n' < length info + k \<and> has_room nAddSize ((info @ replicate k CBlockFileInfo_SetNull) ! unat n') \<and>
    (\<forall>m. unat n \<le> m \<and> m < unat n' \<longrightarrow> \<not> has_room nAddSize (info ! m))"
  using assms(1)
proof (induction "length info - unat n" arbitrary: n rule: less_induct)
  case less
  have f: "fi_nSize (info ! unat n) < MAX_BLOCKFILE_SIZE" using assms(3) less.prems by simp
  show ?case
  proof (cases "has_room nAddSize (info ! unat n)")
    case True
    then show ?thesis
      using less.prems room_test [OF f assms(4)]
      by (intro exI [of _ n] exI [of _ 0]) (auto simp: FindBlockPos_loop.simps)
  next
    case False
    have n1: "unat (n + 1) = Suc (unat n)" using less.prems assms(2) by (simp add: unat_word_ariths)
    show ?thesis
    proof (cases "Suc (unat n) < length info")
      case True
      have "length info - unat (n + 1) < length info - unat n" "unat (n + 1) < length info" using True n1 by simp_all
      from less.hyps [OF this] obtain n' k where
        r: "FindBlockPos_loop nAddSize (n + 1) info = Some (Inr (n', info @ replicate k CBlockFileInfo_SetNull))" "k \<le> 1"
        "Suc (unat n) \<le> unat n'" "unat n' < length info + k" "has_room nAddSize ((info @ replicate k CBlockFileInfo_SetNull) ! unat n')"
        and later: "\<forall>m. Suc (unat n) \<le> m \<and> m < unat n' \<longrightarrow> \<not> has_room nAddSize (info ! m)"
        unfolding n1 by blast
      have "\<forall>m. unat n \<le> m \<and> m < unat n' \<longrightarrow> \<not> has_room nAddSize (info ! m)"
        using later False by (metis Suc_leI le_neq_implies_less)
      moreover have "FindBlockPos_loop nAddSize n info = FindBlockPos_loop nAddSize (n + 1) info"
        using False less.prems room_test [OF f assms(4)] n1 True by (simp add: FindBlockPos_loop.simps [of nAddSize n] Let_def)
      ultimately show ?thesis using r by (intro exI [of _ n'] exI [of _ k]) simp
    next
      case full: False
      then have l: "length info = Suc (unat n)" using less.prems by simp
      have n2: "unat (n + 1 + 1) = Suc (Suc (unat n))" using l assms(2) n1 by (simp add: unat_word_ariths)
      have room: "has_room nAddSize CBlockFileInfo_SetNull"
        using assms(4) by (simp add: has_room_def CBlockFileInfo_SetNull_def word_less_nat_alt)
      have new: "(info @ [CBlockFileInfo_SetNull]) ! Suc (unat n) = CBlockFileInfo_SetNull" unfolding l [symmetric] by simp
      have "FindBlockPos_loop nAddSize n info = FindBlockPos_loop nAddSize (n + 1) (info @ [CBlockFileInfo_SetNull])"
        using False less.prems room_test [OF f assms(4)] n1 n2 l
        by (simp add: FindBlockPos_loop.simps [of nAddSize n] Let_def resize_longer)
      also have "\<dots> = Some (Inr (n + 1, info @ [CBlockFileInfo_SetNull]))"
        using new n1 l assms(4) by (simp add: FindBlockPos_loop.simps [of nAddSize "n + 1"] CBlockFileInfo_SetNull_def not_le [symmetric])
      finally show ?thesis
        using False n1 l new room by (intro exI [of _ "n + 1"] exI [of _ 1]) (auto simp: less_Suc_eq)
    qed
  qed
qed

lemma FlushBlockFile_kept:
  assumes "healthy (bf_blk B)" "healthy (bf_rev B)" "0 \<le> nLastBlockFile B" "nat (nLastBlockFile B) < length (vinfoBlockFile B)"
    and "covered (used (vinfoBlockFile B)) (bf_blk B)" "covered (undone (vinfoBlockFile B)) (bf_rev B)"
  shows "\<exists>blk revs. FlushBlockFile fin B = Inr (B\<lparr>bf_blk := blk, bf_rev := revs\<rparr>) \<and>
    prefix_kept (used (vinfoBlockFile B)) (bf_blk B) blk \<and> prefix_kept (undone (vinfoBlockFile B)) (bf_rev B) revs"
proof -
  let ?n = "nLastBlockFile B" and ?info = "vinfoBlockFile B"
  have "used ?info ?n = unat (fi_nSize (?info ! nat ?n))" "undone ?info ?n = unat (fi_nUndoSize (?info ! nat ?n))"
    using assms(3,4) by (simp_all add: used_def undone_def)
  then show ?thesis
    using Flush_kept [OF assms(1,3) _ assms(5), of "fi_nSize (?info ! nat ?n)" fin]
      Flush_kept [OF assms(2,3) _ assms(6), of "fi_nUndoSize (?info ! nat ?n)" fin] assms(3,4)
    by (fastforce simp: FlushBlockFile_def Let_def)
qed

text \<open>The space a call gives out: at the end of what is used in a file with room.\<close>

definition granted :: "block_files \<Rightarrow> u32 \<Rightarrow> FlatFilePos \<Rightarrow> block_files \<Rightarrow> bool" where
  "granted B nAddSize pos B' \<longleftrightarrow> nLastBlockFile B \<le> pos_nFile pos \<and> pos_nFile pos < 2 ^ 31 \<and>
     unat (pos_nPos pos) = used (vinfoBlockFile B) (pos_nFile pos) \<and>
     unat (pos_nPos pos) + unat nAddSize < unat MAX_BLOCKFILE_SIZE \<and>
     used (vinfoBlockFile B') = (used (vinfoBlockFile B))(pos_nFile pos := unat (pos_nPos pos) + unat nAddSize) \<and>
     undone (vinfoBlockFile B') = undone (vinfoBlockFile B) \<and>
     nLastBlockFile B' = pos_nFile pos \<and> pos_nFile pos < int (length (vinfoBlockFile B')) \<and>
     length (vinfoBlockFile B') \<le> 2 + length (vinfoBlockFile B) \<and>
     (\<forall>f \<in> set (vinfoBlockFile B'). fi_nSize f < MAX_BLOCKFILE_SIZE)"

definition enough_space :: "u64 \<Rightarrow> u32 \<Rightarrow> bool" where
  "enough_space avail nAddSize \<longleftrightarrow> 52428800 + unat nAddSize + unat BLOCKFILE_CHUNK_SIZE \<le> unat avail"

lemma used_update:
  fixes n :: u32
  assumes "unat n < length info" "unat (fi_nSize f) = s" "fi_nUndoSize f = fi_nUndoSize (info ! unat n)"
  shows "used (info[unat n := f]) = (used info)(uint n := s)" "undone (info[unat n := f]) = undone info"
proof -
  have at: "used (info[unat n := f]) m = ((used info)(uint n := s)) m \<and> undone (info[unat n := f]) m = undone info m" for m
  proof (cases "m = uint n")
    case True
    then have "nat m = unat n" "0 \<le> m" by simp_all
    then show ?thesis using True assms by (simp add: used_def undone_def)
  next
    case False
    then have "0 \<le> m \<Longrightarrow> unat n \<noteq> nat m" by (metis int_nat_eq uint_nat)
    then show ?thesis using False by (simp add: used_def undone_def)
  qed
  show "used (info[unat n := f]) = (used info)(uint n := s)" using at by (intro ext) (rule conjunct1)
  show "undone (info[unat n := f]) = undone info" using at by (intro ext) (rule conjunct2)
qed

text \<open>The first file looked at is there, after the first resize.\<close>

lemma first_resize:
  assumes "files_inv B" "length (vinfoBlockFile B) < 2 ^ 31 - 1"
  defines "n \<equiv> word_of_int (nLastBlockFile B) :: u32" and "info \<equiv> vinfoBlockFile B"
  shows "\<exists>k. (if length info \<le> unat n then resize info (unat (n + 1)) else info) = info @ replicate k CBlockFileInfo_SetNull \<and>
    uint n = nLastBlockFile B \<and> unat n < length info + k \<and> length info + k \<le> max 1 (length info)"
proof -
  have l: "0 \<le> nLastBlockFile B" "nLastBlockFile B < max 1 (int (length info))" using assms(1) by (simp_all add: files_inv_def info_def)
  have n: "uint n = nLastBlockFile B" using l assms(2) by (simp add: n_def info_def uint_word_of_int max_def split: if_splits)
  then have u: "unat n = nat (nLastBlockFile B)" by (simp add: unat_eq_nat_uint)
  show ?thesis
  proof (cases "info = []")
    case True
    then have "n = 0" using u l(1,2) by (simp add: unat_eq_0)
    then show ?thesis using True n by (intro exI [of _ 1]) (simp add: resize_longer)
  next
    case False
    then have "unat n < length info" using u l by (auto simp: max_def split: if_splits)
    then show ?thesis using n by (intro exI [of _ 0]) simp
  qed
qed

lemma sint_small:
  fixes w :: u32
  assumes "uint w < 2 ^ 31"
  shows "sint w = uint w"
proof -
  have "- (2 ^ 31) \<le> uint w" by (rule order_trans [OF _ uint_ge_0]) simp
  then show ?thesis using assms by (simp add: sint_uint signed_take_bit_int_eq_self_iff)
qed

lemma leave_file_kept:
  assumes "healthy (bf_blk B)" "healthy (bf_rev B)" "0 \<le> nLastBlockFile B" "nat (nLastBlockFile B) < length (vinfoBlockFile B)"
    and "covered (used (vinfoBlockFile B)) (bf_blk B)" "covered (undone (vinfoBlockFile B)) (bf_rev B)"
  shows "\<exists>blk revs. (if m \<noteq> nLastBlockFile B then bindE (FlushBlockFile fin B) (\<lambda>B. Inr (B\<lparr>nLastBlockFile := m\<rparr>)) else Inr B) =
      Inr (B\<lparr>bf_blk := blk, bf_rev := revs, nLastBlockFile := m\<rparr>) \<and>
    prefix_kept (used (vinfoBlockFile B)) (bf_blk B) blk \<and> prefix_kept (undone (vinfoBlockFile B)) (bf_rev B) revs"
proof (cases "m = nLastBlockFile B")
  case True
  then show ?thesis using assms(1,2) by (intro exI [of _ "bf_blk B"] exI [of _ "bf_rev B"]) (simp add: prefix_kept_refl)
next
  case False
  from FlushBlockFile_kept [OF assms, of fin] obtain blk revs where
    "FlushBlockFile fin B = Inr (B\<lparr>bf_blk := blk, bf_rev := revs\<rparr>)"
    "prefix_kept (used (vinfoBlockFile B)) (bf_blk B) blk" "prefix_kept (undone (vinfoBlockFile B)) (bf_rev B) revs" by blast
  then show ?thesis using False by (intro exI [of _ blk] exI [of _ revs]) simp
qed

lemma FindBlockPos_grants:
  assumes inv: "files_inv B" and few: "length (vinfoBlockFile B) < 2 ^ 31 - 2"
    and small: "nAddSize < MAX_BLOCKFILE_SIZE" "enough_space avail nAddSize"
  shows "\<exists>pos B'. FindBlockPos avail pos0 nAddSize height time False B = Some (Inr (True, pos, B')) \<and> granted B nAddSize pos B' \<and>
    prefix_kept (used (vinfoBlockFile B)) (bf_blk B) (bf_blk B') \<and> prefix_kept (undone (vinfoBlockFile B)) (bf_rev B) (bf_rev B')"
proof -
  let ?info = "vinfoBlockFile B" and ?n = "word_of_int (nLastBlockFile B) :: u32"
  let ?null = "\<lambda>k. replicate k CBlockFileInfo_SetNull"
  note I = inv [unfolded files_inv_def]
  from first_resize [OF inv] few obtain k where
    k: "(if length ?info \<le> unat ?n then resize ?info (unat (?n + 1)) else ?info) = ?info @ ?null k"
      "uint ?n = nLastBlockFile B" "unat ?n < length ?info + k" "length ?info + k \<le> max 1 (length ?info)" by auto
  have sizes: "\<forall>f \<in> set (?info @ ?null j). fi_nSize f < MAX_BLOCKFILE_SIZE" for j
    using I by (auto simp: CBlockFileInfo_SetNull_def MAX_BLOCKFILE_SIZE_def)
  have "length (?info @ ?null k) < 2 ^ 31" using k(4) few by (auto simp: max_def split: if_splits)
  from FindBlockPos_loop_finds [OF _ this sizes small(1), of ?n] k(3) obtain n' j where
    loop: "FindBlockPos_loop nAddSize ?n (?info @ ?null k) = Some (Inr (n', (?info @ ?null k) @ ?null j))" "j \<le> 1"
      "unat ?n \<le> unat n'" "unat n' < length (?info @ ?null k) + j" "has_room nAddSize (((?info @ ?null k) @ ?null j) ! unat n')" by auto
  define info where "info = ?info @ ?null (k + j)"
  have info: "(?info @ ?null k) @ ?null j = info" by (simp add: info_def replicate_add)
  have same: "used info = used ?info" "undone info = undone ?info" by (simp_all add: info_def nulls_unused)
  have len: "length info \<le> 2 + length ?info" "length info < 2 ^ 31" "unat n' < length info"
    using loop(2,4) k(4) few by (auto simp: info_def max_def split: if_splits)
  have sint: "sint n' = uint n'"
  proof -
    have "uint n' < 2 ^ 31" using len(2,3) by (metis less_trans of_nat_less_numeral_power_cancel_iff uint_nat)
    then show ?thesis by (rule sint_small)
  qed
  let ?B = "B\<lparr>vinfoBlockFile := info\<rparr>" and ?pos = "\<lparr>pos_nFile = uint n', pos_nPos = fi_nSize (info ! unat n')\<rparr>"
  let ?f = "(CBlockFileInfo_AddBlock (info ! unat n') height time)\<lparr>fi_nSize := fi_nSize (info ! unat n') + nAddSize\<rparr>"
  have at: "nat (nLastBlockFile B) \<le> unat n'" using loop(3) unfolding unat_eq_nat_uint k(2) .
  have last: "nat (nLastBlockFile B) < length info" using at len(3) by linarith
  have "healthy (bf_blk ?B)" "healthy (bf_rev ?B)" "0 \<le> nLastBlockFile ?B" "nat (nLastBlockFile ?B) < length (vinfoBlockFile ?B)"
    "covered (used (vinfoBlockFile ?B)) (bf_blk ?B)" "covered (undone (vinfoBlockFile ?B)) (bf_rev ?B)"
    using I last by (simp_all add: same)
  from leave_file_kept [OF this, of "uint n'" True] obtain blk revs where
    leave: "(if uint n' \<noteq> nLastBlockFile ?B then bindE (FlushBlockFile True ?B) (\<lambda>B. Inr (B\<lparr>nLastBlockFile := uint n'\<rparr>)) else Inr ?B) =
      Inr (?B\<lparr>bf_blk := blk, bf_rev := revs, nLastBlockFile := uint n'\<rparr>)"
    and kept: "prefix_kept (used ?info) (bf_blk B) blk" "prefix_kept (undone ?info) (bf_rev B) revs" by (auto simp: same)
  have "healthy blk" "covered (used ?info) blk" using kept(1) I prefix_kept_covered by (auto simp: prefix_kept_def)
  moreover have "52428800 + unat (ucast nAddSize :: u64) + unat BLOCKFILE_CHUNK_SIZE \<le> unat avail"
    using small(2) by (simp add: enough_space_def)
  moreover have "unat (ucast nAddSize :: u64) \<le> 2 ^ 33" using unat_lt2p [of nAddSize] by simp
  ultimately obtain r ff where
    alloc: "FlatFileSeq_Allocate BLOCKFILE_CHUNK_SIZE avail blk ?pos (ucast nAddSize) = (r, False, ff)" "prefix_kept (used ?info) blk ff"
    using Allocate_kept [of blk "uint n'" "ucast nAddSize" BLOCKFILE_CHUNK_SIZE avail "used ?info" "fi_nSize (info ! unat n')"] by auto
  define B' where "B' = B\<lparr>vinfoBlockFile := info[unat n' := ?f], bf_blk := ff, bf_rev := revs, nLastBlockFile := uint n',
    setDirtyFileInfo := insert (uint n') (setDirtyFileInfo B)\<rparr>"
  have "FindBlockPos avail pos0 nAddSize height time False B = Some (Inr (True, ?pos, B'))"
    using k(1) loop(1) [unfolded info] leave [folded sint] alloc(1) [folded sint] len(3)
    by (simp add: FindBlockPos_def Let_def B'_def sint [symmetric] cong: if_cong)
  moreover have room: "unat (fi_nSize (info ! unat n')) + unat nAddSize < unat MAX_BLOCKFILE_SIZE"
    using loop(5) unfolding info has_room_def .
  then have size: "unat (fi_nSize (info ! unat n') + nAddSize) = unat (fi_nSize (info ! unat n')) + unat nAddSize"
    by (simp add: unat_word_ariths MAX_BLOCKFILE_SIZE_def)
  have "granted B nAddSize ?pos B'"
  proof -
    have "used (info[unat n' := ?f]) = (used info)(uint n' := unat (fi_nSize (info ! unat n')) + unat nAddSize)" "undone (info[unat n' := ?f]) = undone info"
      using used_update [OF len(3), of ?f] size by simp_all
    moreover have "used ?info (uint n') = unat (fi_nSize (info ! unat n'))" using len(3) unfolding same(1) [symmetric] by (simp add: used_def)
    moreover have "fi_nSize ?f < MAX_BLOCKFILE_SIZE" using room size by (simp add: word_less_nat_alt)
    then have "\<forall>f \<in> set (info[unat n' := ?f]). fi_nSize f < MAX_BLOCKFILE_SIZE"
      using sizes [of "k + j"] set_update_subset_insert [of info "unat n'" ?f] by (auto simp: info_def)
    moreover have "nLastBlockFile B \<le> uint n'" using at by (simp add: nat_le_iff)
    moreover have "uint n' < int (length info)" using len(3) by (metis of_nat_less_iff uint_nat)
    ultimately show ?thesis using room len by (simp add: granted_def B'_def same)
  qed
  moreover have "prefix_kept (used ?info) (bf_blk B) (bf_blk B')" "prefix_kept (undone ?info) (bf_rev B) (bf_rev B')"
    using kept alloc(2) by (auto simp: B'_def intro: prefix_kept_trans)
  ultimately show ?thesis by blast
qed

section \<open>Records in the files\<close>

text \<open>A record at a position, inside the part of the file that is in use.\<close>

definition record_at :: "(int \<Rightarrow> nat) \<Rightarrow> flat_files \<Rightarrow> FlatFilePos \<Rightarrow> bytes \<Rightarrow> bool" where
  "record_at lim ff pos enc \<longleftrightarrow> 0 \<le> pos_nFile pos \<and> unat (pos_nPos pos) + length enc \<le> lim (pos_nFile pos) \<and>
     take (length enc) (drop (unat (pos_nPos pos)) (bytes_in ff (pos_nFile pos))) = enc"

lemma record_at_kept:
  assumes "record_at lim ff pos enc" "prefix_kept lim ff ff'" "lim (pos_nFile pos) \<le> lim' (pos_nFile pos)"
  shows "record_at lim' ff' pos enc"
proof -
  let ?n = "pos_nFile pos" and ?p = "unat (pos_nPos pos)" and ?l = "length enc"
  have l: "?p + ?l \<le> lim ?n" using assms(1) by (simp add: record_at_def)
  have cut: "take ?l (drop ?p xs) = take ?l (drop ?p (take (lim ?n) xs))" for xs :: bytes
    using l by (simp add: drop_take min_absorb1)
  have "take (lim ?n) (bytes_in ff' ?n) = take (lim ?n) (bytes_in ff ?n)" using assms(2) by (simp add: prefix_kept_def)
  then have "take ?l (drop ?p (bytes_in ff' ?n)) = enc"
    using assms(1) cut [of "bytes_in ff ?n"] cut [of "bytes_in ff' ?n"] by (simp add: record_at_def)
  then show ?thesis using assms(1,3) by (simp add: record_at_def)
qed

lemma record_at_readable:
  assumes "record_at lim ff pos enc" "healthy ff" "covered lim ff" "enc \<noteq> []"
  shows "writable ff pos" "\<exists>d rest. ff_data ff (pos_nFile pos) = Some d \<and> drop (unat (pos_nPos pos)) d = enc @ rest"
proof -
  let ?d = "bytes_in ff (pos_nFile pos)" and ?p = "unat (pos_nPos pos)"
  have e: "take (length enc) (drop ?p ?d) = enc" using assms(1) by (simp add: record_at_def)
  then have "?d \<noteq> []" using assms(4) by auto
  then have "ff_data ff (pos_nFile pos) = Some ?d" by (auto simp: bytes_in_def split: option.splits)
  moreover have "drop ?p ?d = enc @ drop (length enc) (drop ?p ?d)" using e by (metis append_take_drop_id)
  ultimately show "\<exists>d rest. ff_data ff (pos_nFile pos) = Some d \<and> drop ?p d = enc @ rest" by blast
  have "?p + length enc \<le> lim (pos_nFile pos)" "lim (pos_nFile pos) \<le> length ?d" "0 \<le> pos_nFile pos"
    using assms(1,3) by (simp_all add: record_at_def covered_def)
  then show "writable ff pos"
    using assms(2) unfolding writable_def contents_bytes_in healthy_def FlatFilePos_IsNull_def by simp
qed

lemma recorded_kept:
  assumes r: "recorded D ff pos enc trailer ff'" and p: "unat (pos_nPos pos) = lim (pos_nFile pos)" "0 \<le> pos_nFile pos"
    and size: "unat (pos_nPos pos) + 8 < 2 ^ 32" "length (de_message_start D) = 4"
    and old: "healthy ff" "covered lim ff"
  defines "lim' \<equiv> lim(pos_nFile pos := unat (pos_nPos pos) + 8 + length enc + length trailer)"
  shows "prefix_kept lim ff ff'" "covered lim' ff'" "record_at lim' ff' (after_header pos) (enc @ trailer)"
proof -
  let ?n = "pos_nFile pos" and ?p = "unat (pos_nPos pos)"
  from r obtain rest where d: "ff_data ff' ?n = Some (take ?p (bytes_in ff ?n) @ de_message_start D @
      digits_of 4 (length enc mod 2 ^ 32) @ enc @ trailer @ rest)"
    "\<forall>m. m \<noteq> ?n \<longrightarrow> ff_data ff' m = ff_data ff m" "ff_denied ff' = ff_denied ff" "ff_failing ff' = ff_failing ff"
    by (auto simp: recorded_def contents_bytes_in)
  have l: "?p \<le> length (bytes_in ff ?n)" using old(2) p(1) by (simp add: covered_def)
  have here: "bytes_in ff' ?n = take ?p (bytes_in ff ?n) @ de_message_start D @
      digits_of 4 (length enc mod 2 ^ 32) @ enc @ trailer @ rest" using d(1) by (simp add: bytes_in_def)
  have there: "bytes_in ff' m = bytes_in ff m" if "m \<noteq> ?n" for m using d(2) that by (simp add: bytes_in_def)
  have "take (lim m) (bytes_in ff' m) = take (lim m) (bytes_in ff m)" for m
    using p(1) l here there [of m] by (cases "m = ?n") simp_all
  moreover have "healthy ff'" using old(1) d(3,4) by (simp add: healthy_def)
  ultimately show "prefix_kept lim ff ff'" by (simp add: prefix_kept_def)
  have "lim' m \<le> length (bytes_in ff' m)" for m
    using l here there [of m] size old(2) by (cases "m = ?n") (simp_all add: covered_def lim'_def)
  then show "covered lim' ff'" by (simp add: covered_def)
  have p8: "unat (pos_nPos (after_header pos)) = ?p + 8" using size(1) by (rule after_header_word)
  have n8: "pos_nFile (after_header pos) = ?n" by (simp add: after_header_def)
  show "record_at lim' ff' (after_header pos) (enc @ trailer)"
    unfolding record_at_def p8 n8 using here l size p(2) by (simp add: lim'_def)
qed

lemma granted_grows: "granted B nAddSize pos B' \<Longrightarrow> used (vinfoBlockFile B) n \<le> used (vinfoBlockFile B') n"
  unfolding granted_def by (cases "n = pos_nFile pos") simp_all

text \<open>What the node finds again: the blocks and the undo data its files hold.\<close>

definition block_at :: "block_files \<Rightarrow> FlatFilePos \<Rightarrow> CBlock \<Rightarrow> bool" where
  "block_at B pos b \<longleftrightarrow> record_at (used (vinfoBlockFile B)) (bf_blk B) pos (block_enc b)"

definition undo_at :: "disk_env \<Rightarrow> block_files \<Rightarrow> FlatFilePos \<Rightarrow> bytes \<Rightarrow> CBlockUndo \<Rightarrow> bool" where
  "undo_at D B pos hash u \<longleftrightarrow> (let enc = blockundo_enc (de_fully_valid D) u
     in record_at (undone (vinfoBlockFile B)) (bf_rev B) pos (enc @ de_digest D (hash @ enc)))"

text \<open>\<open>B'\<close> still holds what \<open>B\<close> holds.\<close>

definition holds_all :: "block_files \<Rightarrow> block_files \<Rightarrow> bool" where
  "holds_all B B' \<longleftrightarrow> files_inv B' \<and>
     prefix_kept (used (vinfoBlockFile B)) (bf_blk B) (bf_blk B') \<and> prefix_kept (undone (vinfoBlockFile B)) (bf_rev B) (bf_rev B') \<and>
     (\<forall>n. used (vinfoBlockFile B) n \<le> used (vinfoBlockFile B') n \<and> undone (vinfoBlockFile B) n \<le> undone (vinfoBlockFile B') n)"

lemma holds_all_records:
  "holds_all B B' \<Longrightarrow> block_at B pos b \<Longrightarrow> block_at B' pos b"
  "holds_all B B' \<Longrightarrow> undo_at D B pos hash u \<Longrightarrow> undo_at D B' pos hash u"
  unfolding holds_all_def block_at_def undo_at_def Let_def by (blast intro: record_at_kept)+

lemma holds_all_trans:
  assumes "holds_all B B'" "holds_all B' B''"
  shows "holds_all B B''"
  using assms prefix_kept_mono [of "used (vinfoBlockFile B')" "bf_blk B'" "bf_blk B''" "used (vinfoBlockFile B)"]
    prefix_kept_mono [of "undone (vinfoBlockFile B')" "bf_rev B'" "bf_rev B''" "undone (vinfoBlockFile B)"]
  unfolding holds_all_def by (meson order_trans prefix_kept_trans)

lemma holds_all_refl: "files_inv B \<Longrightarrow> holds_all B B"
  by (simp add: holds_all_def files_inv_def prefix_kept_refl)

lemma AcceptBlock_write_stores:
  assumes inv: "files_inv B" "length (vinfoBlockFile B) < 2 ^ 31 - 2"
    and b: "block_ok b" "length (block_enc b) + 8 < unat MAX_BLOCKFILE_SIZE" "enough_space avail (of_nat (length (block_enc b)) + 8)"
    and D: "length (de_message_start D) = 4"
  shows "\<exists>pos B'. AcceptBlock_write D avail None b height state B = Some (Inr ((True, state), pos, B')) \<and> holds_all B B' \<and> block_at B' pos b \<and>
    pos_nFile pos = nLastBlockFile B' \<and> nLastBlockFile B' < int (length (vinfoBlockFile B')) \<and>
    length (vinfoBlockFile B') \<le> 2 + length (vinfoBlockFile B) \<and> undone (vinfoBlockFile B') = undone (vinfoBlockFile B)"
proof -
  let ?add = "of_nat (length (block_enc b)) + 8 :: u32"
  have size: "unat ?add = length (block_enc b) + 8"
    using b(2) by (simp add: MAX_BLOCKFILE_SIZE_def unat_word_ariths unat_of_nat)
  then have "?add < MAX_BLOCKFILE_SIZE" using b(2) by (simp add: word_less_nat_alt)
  from FindBlockPos_grants [OF inv this b(3), of FlatFilePos_SetNull "word_of_int height" "word_of_int (CBlockHeader_GetBlockTime b)"]
  obtain pos B1 where f: "FindBlockPos avail FlatFilePos_SetNull ?add (word_of_int height) (word_of_int (CBlockHeader_GetBlockTime b)) False B =
      Some (Inr (True, pos, B1))" and g: "granted B ?add pos B1"
    and k: "prefix_kept (used (vinfoBlockFile B)) (bf_blk B) (bf_blk B1)" "prefix_kept (undone (vinfoBlockFile B)) (bf_rev B) (bf_rev B1)" by blast
  note I = inv(1) [unfolded files_inv_def] and G = g [unfolded granted_def]
  have old: "healthy (bf_blk B1)" "covered (used (vinfoBlockFile B)) (bf_blk B1)"
    using k(1) I prefix_kept_covered by (auto simp: prefix_kept_def)
  have pos: "0 \<le> pos_nFile pos" "unat (pos_nPos pos) + 8 < 2 ^ 32" "unat (pos_nPos pos) = used (vinfoBlockFile B) (pos_nFile pos)"
    using G I by (simp_all add: MAX_BLOCKFILE_SIZE_def)
  have "writable (bf_blk B1) pos"
    using old pos unfolding writable_def contents_bytes_in healthy_def covered_def FlatFilePos_IsNull_def by simp
  then obtain ff where w: "WriteBlockToDisk D (bf_blk B1) b pos = Inr (True, after_header pos, ff)"
    and r: "recorded D (bf_blk B1) pos (block_enc b) [] ff" using WriteBlockToDisk_records [OF b(1) _ pos(2) D] by blast
  have lim: "(used (vinfoBlockFile B))(pos_nFile pos := unat (pos_nPos pos) + 8 + length (block_enc b) + length ([] :: bytes)) =
    used (vinfoBlockFile B1)" using G size by (simp add: ac_simps)
  note S = recorded_kept [OF r pos(3,1,2) D old, unfolded lim append_Nil2]
  define B' where "B' = B1\<lparr>bf_blk := ff\<rparr>"
  have w: "AcceptBlock_write D avail None b height state B = Some (Inr ((True, state), after_header pos, B'))"
    using f w by (simp add: AcceptBlock_write_def record_sizes(1) B'_def Let_def)
  have "healthy ff" "healthy (bf_rev B1)" using S(1) k(2) by (simp_all add: prefix_kept_def)
  moreover have "covered (undone (vinfoBlockFile B1)) (bf_rev B1)" using prefix_kept_covered [OF k(2)] I G by simp
  moreover have "0 \<le> nLastBlockFile B1" "nLastBlockFile B1 < max 1 (int (length (vinfoBlockFile B1)))"
    "\<forall>f \<in> set (vinfoBlockFile B1). fi_nSize f < MAX_BLOCKFILE_SIZE" using I G by simp_all
  ultimately have "files_inv B'" using S(2) unfolding files_inv_def B'_def by simp
  then have "holds_all B B'"
    using prefix_kept_trans [OF k(1) S(1)] k(2) granted_grows [OF g] G by (simp add: holds_all_def B'_def)
  moreover have "block_at B' (after_header pos) b" using S(3) by (simp add: block_at_def B'_def)
  moreover have "pos_nFile (after_header pos) = nLastBlockFile B'" "nLastBlockFile B' < int (length (vinfoBlockFile B'))"
    "length (vinfoBlockFile B') \<le> 2 + length (vinfoBlockFile B)" "undone (vinfoBlockFile B') = undone (vinfoBlockFile B)"
    using G by (simp_all add: B'_def after_header_def)
  ultimately show ?thesis using w by blast
qed

lemma FindUndoPos_grants:
  assumes inv: "files_inv B" "0 \<le> n" "nat n < length (vinfoBlockFile B)"
    and small: "undone (vinfoBlockFile B) n + unat nAddSize < 2 ^ 32" "52428800 + unat nAddSize + unat UNDOFILE_CHUNK_SIZE \<le> unat avail"
  shows "\<exists>pos B'. FindUndoPos avail state n nAddSize B = Inr ((True, state), pos, B') \<and>
    pos_nFile pos = n \<and> unat (pos_nPos pos) = undone (vinfoBlockFile B) n \<and>
    prefix_kept (undone (vinfoBlockFile B)) (bf_rev B) (bf_rev B') \<and> bf_blk B' = bf_blk B \<and>
    used (vinfoBlockFile B') = used (vinfoBlockFile B) \<and>
    undone (vinfoBlockFile B') = (undone (vinfoBlockFile B))(n := undone (vinfoBlockFile B) n + unat nAddSize) \<and>
    length (vinfoBlockFile B') = length (vinfoBlockFile B) \<and> nLastBlockFile B' = nLastBlockFile B \<and>
    (\<forall>f \<in> set (vinfoBlockFile B'). fi_nSize f < MAX_BLOCKFILE_SIZE)"
proof -
  let ?info = "vinfoBlockFile B" let ?f = "?info ! nat n" let ?g = "?f\<lparr>fi_nUndoSize := fi_nUndoSize ?f + nAddSize\<rparr>"
  let ?pos = "\<lparr>pos_nFile = n, pos_nPos = fi_nUndoSize ?f\<rparr>"
  note I = inv(1) [unfolded files_inv_def]
  have p: "undone ?info n = unat (fi_nUndoSize ?f)" using inv(2,3) by (simp add: undone_def)
  have "unat (ucast nAddSize :: u64) \<le> 2 ^ 33" using unat_lt2p [of nAddSize] by simp
  then obtain r ff where a: "FlatFileSeq_Allocate UNDOFILE_CHUNK_SIZE avail (bf_rev B) ?pos (ucast nAddSize) = (r, False, ff)"
    "prefix_kept (undone ?info) (bf_rev B) ff"
    using Allocate_kept [of "bf_rev B" n "ucast nAddSize" UNDOFILE_CHUNK_SIZE avail "undone ?info" "fi_nUndoSize ?f"] I inv(2) small(2) by auto
  have sum: "unat (fi_nUndoSize ?f + nAddSize) = unat (fi_nUndoSize ?f) + unat nAddSize" using small(1) p by (simp add: unat_word_ariths)
  have "undone (?info[nat n := ?g]) m = ((undone ?info)(n := undone ?info n + unat nAddSize)) m \<and> used (?info[nat n := ?g]) m = used ?info m" for m
  proof (cases "m = n")
    case True
    then show ?thesis using inv(2,3) p sum by (simp add: undone_def used_def)
  next
    case False
    then have "0 \<le> m \<Longrightarrow> nat n \<noteq> nat m" using inv(2) by simp
    then show ?thesis using False by (simp add: undone_def used_def)
  qed
  then have u: "undone (?info[nat n := ?g]) = (undone ?info)(n := undone ?info n + unat nAddSize)" "used (?info[nat n := ?g]) = used ?info"
    by (simp_all add: fun_eq_iff)
  have "fi_nSize ?f < MAX_BLOCKFILE_SIZE" using I inv(3) by simp
  then have "\<forall>f \<in> set (?info[nat n := ?g]). fi_nSize f < MAX_BLOCKFILE_SIZE"
    using I set_update_subset_insert [of ?info "nat n" ?g] by auto
  then show ?thesis using a u p inv(2,3) by (simp add: FindUndoPos_def Let_def)
qed

text \<open>What the undo data of a block needs to be written.\<close>

definition undo_fits :: "disk_env \<Rightarrow> u64 \<Rightarrow> CBlockUndo \<Rightarrow> CBlockIndex \<Rightarrow> block_files \<Rightarrow> bool" where
  "undo_fits D avail u pindex B \<longleftrightarrow> (let l = length (blockundo_enc (de_fully_valid D) u) + 40
     in blockundo_ok u \<and> 0 \<le> nFile pindex \<and> nat (nFile pindex) < length (vinfoBlockFile B) \<and>
        undone (vinfoBlockFile B) (nFile pindex) + l < 2 ^ 32 \<and> 52428800 + l + unat UNDOFILE_CHUNK_SIZE \<le> unat avail)"

definition disk_ok :: "disk_env \<Rightarrow> bool" where
  "disk_ok D \<longleftrightarrow> length (de_message_start D) = 4 \<and> (\<forall>x. length (de_digest D x) = 32) \<and>
     decompresses (de_fully_valid D) (de_decompress D) \<and> sizes_ok D"

lemma write_undo_stores:
  assumes inv: "files_inv B" and fits: "undo_fits D avail u pindex B" and D: "disk_ok D"
  shows "\<exists>pindex' B'. ConnectBlock_write_undo D avail state u hash pindex B = Inr ((True, state), pindex', B') \<and>
    holds_all B B' \<and> undo_at D B' (GetUndoPos pindex') hash u \<and> length (vinfoBlockFile B') = length (vinfoBlockFile B) \<and>
    pindex' = pindex\<lparr>nUndoPos := nUndoPos pindex', nStatus := nStatus pindex OR BLOCK_HAVE_UNDO\<rparr>"
proof -
  let ?enc = "blockundo_enc (de_fully_valid D) u" and ?n = "nFile pindex" and ?info = "vinfoBlockFile B"
  let ?add = "of_nat (length ?enc + 40) :: u32"
  note F = fits [unfolded undo_fits_def Let_def] and I = inv [unfolded files_inv_def] and D' = D [unfolded disk_ok_def]
  have size: "unat ?add = length ?enc + 40" using F unfolding unat_of_nat by (simp add: take_bit_nat_eq_self)
  have fit: "undone ?info ?n + unat ?add < 2 ^ 32" "52428800 + unat ?add + unat UNDOFILE_CHUNK_SIZE \<le> unat avail"
    unfolding size using F by simp_all
  have n: "0 \<le> ?n" "nat ?n < length ?info" using F by simp_all
  from FindUndoPos_grants [OF inv n fit, of state] obtain pos B1 where
    f: "FindUndoPos avail state ?n ?add B = Inr ((True, state), pos, B1)" "pos_nFile pos = ?n" "unat (pos_nPos pos) = undone ?info ?n"
    and k: "prefix_kept (undone ?info) (bf_rev B) (bf_rev B1)"
    and g: "bf_blk B1 = bf_blk B" "used (vinfoBlockFile B1) = used ?info"
      "undone (vinfoBlockFile B1) = (undone ?info)(?n := undone ?info ?n + unat ?add)"
      "length (vinfoBlockFile B1) = length ?info" "nLastBlockFile B1 = nLastBlockFile B"
      "\<forall>f \<in> set (vinfoBlockFile B1). fi_nSize f < MAX_BLOCKFILE_SIZE" by blast
  have old: "healthy (bf_rev B1)" "covered (undone ?info) (bf_rev B1)"
    using k I prefix_kept_covered by (auto simp: prefix_kept_def)
  have pos: "0 \<le> pos_nFile pos" "unat (pos_nPos pos) + 8 < 2 ^ 32" "unat (pos_nPos pos) = undone ?info (pos_nFile pos)"
    using n f fit size by simp_all
  have "writable (bf_rev B1) pos"
    using old pos unfolding writable_def contents_bytes_in healthy_def covered_def FlatFilePos_IsNull_def by simp
  moreover have u: "blockundo_ok u" "length (de_message_start D) = 4" "decompresses (de_fully_valid D) (de_decompress D)" "\<And>x. length (de_digest D x) = 32"
    using F D' by simp_all
  ultimately obtain ff where w: "UndoWriteToDisk D (bf_rev B1) u pos hash = Inr (True, after_header pos, ff)"
    and r: "recorded D (bf_rev B1) pos ?enc (de_digest D (hash @ ?enc)) ff"
    using UndoWriteToDisk_records [OF u(1) _ pos(2) u(2,3)] by blast
  have lim: "(undone ?info)(pos_nFile pos := unat (pos_nPos pos) + 8 + length ?enc + length (de_digest D (hash @ ?enc))) =
    undone (vinfoBlockFile B1)" using g(3) f(2,3) size u(4) by (simp add: ac_simps)
  note S = recorded_kept [OF r pos(3,1,2) u(2) old, unfolded lim]
  define B' where "B' = B1\<lparr>bf_rev := ff\<rparr>"
  define pindex' where "pindex' = pindex\<lparr>nUndoPos := pos_nPos (after_header pos), nStatus := nStatus pindex OR BLOCK_HAVE_UNDO\<rparr>"
  have "ConnectBlock_write_undo D avail state u hash pindex B = Inr ((True, state), pindex', B')"
    using f(1) w by (simp add: ConnectBlock_write_undo_def record_sizes(2) [OF u(1)] B'_def pindex'_def Let_def)
  moreover have "healthy ff" using S(1) by (simp add: prefix_kept_def)
  then have "files_inv B'" using S(2) I g unfolding files_inv_def B'_def by simp
  then have "holds_all B B'"
    using prefix_kept_trans [OF k S(1)] prefix_kept_refl [of "bf_blk B" "used ?info"] I g by (simp add: holds_all_def B'_def)
  moreover have "GetUndoPos pindex' = after_header pos"
  proof -
    have "(nStatus pindex OR BLOCK_HAVE_UNDO) AND BLOCK_HAVE_UNDO = BLOCK_HAVE_UNDO"
      by (rule bit_eqI) (auto simp: bit_and_iff bit_or_iff)
    then show ?thesis using f(2) by (simp add: GetUndoPos_def pindex'_def BLOCK_HAVE_UNDO_def after_header_def)
  qed
  then have "undo_at D B' (GetUndoPos pindex') hash u" using S(3) by (simp add: undo_at_def B'_def Let_def)
  ultimately show ?thesis using g(4) by (intro exI [of _ pindex'] exI [of _ B']) (simp add: B'_def pindex'_def)
qed

section \<open>The files as a store\<close>

text \<open>A step of the node on its files, with the record it writes.\<close>

datatype file_record = Block_record FlatFilePos CBlock | Undo_record FlatFilePos bytes CBlockUndo

inductive files_step :: "disk_env \<Rightarrow> block_files \<Rightarrow> file_record \<Rightarrow> block_files \<Rightarrow> bool" for D where
  block: "AcceptBlock_write D avail None b height state B = Some (Inr ((True, state'), pos, B')) \<Longrightarrow>
    block_ok b \<Longrightarrow> length (block_enc b) + 8 < unat MAX_BLOCKFILE_SIZE \<Longrightarrow> enough_space avail (of_nat (length (block_enc b)) + 8) \<Longrightarrow>
    length (vinfoBlockFile B) < 2 ^ 31 - 2 \<Longrightarrow> files_step D B (Block_record pos b) B'"
| undo: "ConnectBlock_write_undo D avail state u hash pindex B = Inr ((True, state'), pindex', B') \<Longrightarrow>
    undo_fits D avail u pindex B \<Longrightarrow> files_step D B (Undo_record (GetUndoPos pindex') hash u) B'"

inductive files_run :: "disk_env \<Rightarrow> block_files \<Rightarrow> file_record list \<Rightarrow> block_files \<Rightarrow> bool" for D where
  none: "files_run D B [] B"
| step: "files_run D B rs B' \<Longrightarrow> files_step D B' r B'' \<Longrightarrow> files_run D B (rs @ [r]) B''"

primrec holds_record :: "disk_env \<Rightarrow> block_files \<Rightarrow> file_record \<Rightarrow> bool" where
  "holds_record D B (Block_record pos b) \<longleftrightarrow> block_ok b \<and> block_at B pos b"
| "holds_record D B (Undo_record pos hash u) \<longleftrightarrow> blockundo_ok u \<and> undo_at D B pos hash u"

lemma files_step_holds:
  assumes "files_step D B r B'" "files_inv B" "disk_ok D"
  shows "holds_all B B' \<and> holds_record D B' r"
  using assms(1)
proof cases
  case (block avail b height state state' pos)
  have "length (de_message_start D) = 4" using assms(3) by (simp add: disk_ok_def)
  from AcceptBlock_write_stores [OF assms(2) block(6,3,4,5) this, of height state] block(1,2,3) show ?thesis by auto
next
  case (undo avail state u hash pindex state' pindex')
  from write_undo_stores [OF assms(2) undo(3) assms(3), of state hash] undo(1,2,3) show ?thesis
    by (auto simp: undo_fits_def Let_def)
qed

lemma holds_record_kept: "holds_all B B' \<Longrightarrow> holds_record D B r \<Longrightarrow> holds_record D B' r"
  by (cases r) (auto intro: holds_all_records)

lemma files_run_holds:
  assumes "files_run D B rs B'" "files_inv B" "disk_ok D"
  shows "holds_all B B' \<and> (\<forall>r \<in> set rs. holds_record D B' r)"
  using assms(1,2)
proof induction
  case none
  then show ?case by (simp add: holds_all_refl)
next
  case (step B rs B' r B'')
  have "files_inv B'" using step.IH [OF step.prems] by (simp add: holds_all_def)
  from files_step_holds [OF step.hyps(2) this assms(3)] step.IH [OF step.prems] show ?case
    by (auto intro: holds_all_trans holds_record_kept)
qed

lemma block_at_readable:
  assumes "block_at B pos b" "files_inv B" "block_ok b" "sizes_ok D" "GetBlockPos pindex = pos"
    and "CBlock_IsProofOfWork b \<longrightarrow> CheckProofOfWork (de_host D) P (phashBlock pindex) (hd_nBits b)"
    and "CBlockHeader_GetHash (de_host D) (de_quark D) (de_digest D) b = Inr (phashBlock pindex)"
  shows "ReadBlockFromDisk D P (bf_blk B) pindex = Inr (Some b)"
proof -
  have "header_ok b" using assms(3) by (simp add: block_ok_def)
  note hash = GetHash_header_enc [OF this, of "de_host D" "de_quark D" "de_digest D"]
  have "0 < length (block_enc b)" by (simp add: block_enc_def header_enc_def int32_enc_def)
  then have "block_enc b \<noteq> []" by simp
  from record_at_readable [OF assms(1) [unfolded block_at_def] _ _ this] assms(2) obtain d rest where
    w: "writable (bf_blk B) pos" "ff_data (bf_blk B) (pos_nFile pos) = Some d" "drop (unat (pos_nPos pos)) d = block_enc b @ rest"
    by (auto simp: files_inv_def)
  from ReadBlockFromDisk_accepts [OF assms(3,4), of "bf_blk B" pindex, unfolded assms(5), OF w] show ?thesis
    using assms(6,7) hash by (simp split: if_splits)
qed

lemma undo_at_readable:
  assumes "undo_at D B pos hash u" "files_inv B" "blockundo_ok u" "disk_ok D"
  shows "UndoReadFromDisk D (bf_rev B) pos hash = Some u"
proof -
  let ?enc = "blockundo_enc (de_fully_valid D) u"
  note D = assms(4) [unfolded disk_ok_def]
  have "?enc @ de_digest D (hash @ ?enc) \<noteq> []" using D by (metis append_is_Nil_conv length_0_conv zero_neq_numeral)
  from record_at_readable [OF assms(1) [unfolded undo_at_def Let_def] _ _ this] assms(2) obtain d rest where
    w: "writable (bf_rev B) pos" "ff_data (bf_rev B) (pos_nFile pos) = Some d"
      "drop (unat (pos_nPos pos)) d = ?enc @ de_digest D (hash @ ?enc) @ rest" by (auto simp: files_inv_def)
  then show ?thesis using UndoReadFromDisk_checks [OF assms(3) _ _ w, of hash] D by simp
qed

section \<open>Properties\<close>

text \<open>
  Property C40.  The search for room ends: for every block smaller than a block file, \<open>FindBlockPos\<close> returns a
  position in the current file or a later one, behind everything the file holds, and the file stays below its limit; a file it leaves is cut to the part in use.  The bytes in use in any block or undo
  file are not touched.
\<close>

theorem FindBlockPos_returns:
  assumes "files_inv B" "length (vinfoBlockFile B) < 2 ^ 31 - 2" "nAddSize < MAX_BLOCKFILE_SIZE" "enough_space avail nAddSize"
  shows "\<exists>pos B'. FindBlockPos avail pos0 nAddSize height time False B = Some (Inr (True, pos, B')) \<and>
    pos_nFile pos \<ge> nLastBlockFile B \<and>
    unat (pos_nPos pos) = used (vinfoBlockFile B) (pos_nFile pos) \<and>
    used (vinfoBlockFile B') (pos_nFile pos) = unat (pos_nPos pos) + unat nAddSize \<and>
    unat (pos_nPos pos) + unat nAddSize < unat MAX_BLOCKFILE_SIZE \<and>
    (\<forall>n. n \<noteq> pos_nFile pos \<longrightarrow> used (vinfoBlockFile B') n = used (vinfoBlockFile B) n) \<and>
    (\<forall>n. take (used (vinfoBlockFile B) n) (bytes_in (bf_blk B') n) = take (used (vinfoBlockFile B) n) (bytes_in (bf_blk B) n)) \<and>
    (\<forall>n. take (undone (vinfoBlockFile B) n) (bytes_in (bf_rev B') n) = take (undone (vinfoBlockFile B) n) (bytes_in (bf_rev B) n))"
proof -
  from FindBlockPos_grants [OF assms, of pos0 height "time"] obtain pos B' where
    f: "FindBlockPos avail pos0 nAddSize height time False B = Some (Inr (True, pos, B'))" and g: "granted B nAddSize pos B'"
    and k: "prefix_kept (used (vinfoBlockFile B)) (bf_blk B) (bf_blk B')" "prefix_kept (undone (vinfoBlockFile B)) (bf_rev B) (bf_rev B')" by blast
  from g have "pos_nFile pos \<ge> nLastBlockFile B" "unat (pos_nPos pos) = used (vinfoBlockFile B) (pos_nFile pos)"
    "used (vinfoBlockFile B') (pos_nFile pos) = unat (pos_nPos pos) + unat nAddSize"
    "unat (pos_nPos pos) + unat nAddSize < unat MAX_BLOCKFILE_SIZE"
    "\<forall>n. n \<noteq> pos_nFile pos \<longrightarrow> used (vinfoBlockFile B') n = used (vinfoBlockFile B) n" by (simp_all add: granted_def)
  with f k show ?thesis unfolding prefix_kept_def by blast
qed

text \<open>
  Property C4.  However the node interleaves writing blocks and undo data, every record it wrote stays where it is:
  at the end each block is read back through an index entry with its position and hash, and each undo
  record under the hash it was written with.
\<close>

theorem BlockFiles_keep_records:
  assumes "files_inv B" "files_run D B rs B'" "disk_ok D"
  shows "files_inv B' \<and>
    (\<forall>b pindex P. Block_record (GetBlockPos pindex) b \<in> set rs \<and>
       CBlockHeader_GetHash (de_host D) (de_quark D) (de_digest D) b = Inr (phashBlock pindex) \<and>
       (CBlock_IsProofOfWork b \<longrightarrow> CheckProofOfWork (de_host D) P (phashBlock pindex) (hd_nBits b)) \<longrightarrow>
       ReadBlockFromDisk D P (bf_blk B') pindex = Inr (Some b)) \<and>
    (\<forall>pos hash u. Undo_record pos hash u \<in> set rs \<longrightarrow> UndoReadFromDisk D (bf_rev B') pos hash = Some u)"
proof (intro conjI allI impI)
  from files_run_holds [OF assms(2,1,3)] have h: "holds_all B B'" "\<forall>r \<in> set rs. holds_record D B' r" by simp_all
  then show inv: "files_inv B'" by (simp add: holds_all_def)
  show "ReadBlockFromDisk D P (bf_blk B') pindex = Inr (Some b)"
    if "Block_record (GetBlockPos pindex) b \<in> set rs \<and>
      CBlockHeader_GetHash (de_host D) (de_quark D) (de_digest D) b = Inr (phashBlock pindex) \<and>
      (CBlock_IsProofOfWork b \<longrightarrow> CheckProofOfWork (de_host D) P (phashBlock pindex) (hd_nBits b))" for b pindex P
    using h(2) that assms(3) by (intro block_at_readable [OF _ inv _ _ refl]) (auto simp: disk_ok_def)
  show "UndoReadFromDisk D (bf_rev B') pos hash = Some u" if "Undo_record pos hash u \<in> set rs" for pos hash u
    using h(2) that by (intro undo_at_readable [OF _ inv _ assms(3)]) auto
qed

section \<open>Witnesses\<close>

definition fresh_files :: block_files where
  "fresh_files = \<lparr>bf_blk = \<lparr>ff_data = Map.empty, ff_denied = (\<lambda>_. False), ff_failing = (\<lambda>_. False)\<rparr>,
     bf_rev = \<lparr>ff_data = Map.empty, ff_denied = (\<lambda>_. False), ff_failing = (\<lambda>_. False)\<rparr>,
     vinfoBlockFile = [], nLastBlockFile = 0, setDirtyFileInfo = {}, bf_aborted = []\<rparr>"

lemma fresh_files_ok:
  "files_inv fresh_files" "length (vinfoBlockFile fresh_files) < 2 ^ 31 - 2"
  "used (vinfoBlockFile fresh_files) n = 0" "undone (vinfoBlockFile fresh_files) n = 0"
  by (simp_all add: fresh_files_def files_inv_def healthy_def covered_def used_def undone_def)

theorem FindBlockPos_returns_witness:
  "\<exists>pos B'. FindBlockPos (2 ^ 40) FlatFilePos_SetNull 308 1 1700000000 False fresh_files = Some (Inr (True, pos, B')) \<and>
    pos_nPos pos = 0 \<and> used (vinfoBlockFile B') (pos_nFile pos) = 308"
proof -
  have "(308 :: u32) < MAX_BLOCKFILE_SIZE" "enough_space (2 ^ 40) 308"
    by (simp_all add: MAX_BLOCKFILE_SIZE_def enough_space_def BLOCKFILE_CHUNK_SIZE_def)
  from FindBlockPos_returns [OF fresh_files_ok(1,2) this, of FlatFilePos_SetNull 1 1700000000] show ?thesis
    by (auto simp: fresh_files_ok unat_eq_0)
qed

lemma sample_disk_disk_ok: "disk_ok sample_disk"
  using sample_disk_ok by (simp add: disk_ok_def)

text \<open>The index entry of the block stored first, before its undo data is written.\<close>

definition first_index :: "FlatFilePos \<Rightarrow> CBlockIndex" where
  "first_index pos = (sample_block 1 None None)\<lparr>nFile := pos_nFile pos, nDataPos := pos_nPos pos, nStatus := BLOCK_HAVE_DATA\<rparr>"

lemma sample_run:
  "\<exists>pos upos B. files_run sample_disk fresh_files
     [Block_record pos sample_pos_block, Undo_record upos (replicate 32 1) \<lparr>vtxundo = [\<lparr>vprevout = []\<rparr>]\<rparr>] B"
proof -
  let ?u = "\<lparr>vtxundo = [\<lparr>vprevout = []\<rparr>]\<rparr>"
  have size: "length (block_enc sample_pos_block) + 8 < unat MAX_BLOCKFILE_SIZE"
    "enough_space (2 ^ 40) (of_nat (length (block_enc sample_pos_block)) + 8)"
    using sample_pos_block_ok(3)
    by (auto simp: MAX_BLOCKFILE_SIZE_def enough_space_def BLOCKFILE_CHUNK_SIZE_def unat_word_ariths unat_of_nat)
  from AcceptBlock_write_stores [OF fresh_files_ok(1,2) sample_pos_block_ok(2) size, of sample_disk 1 CValidationState_new] obtain pos B where
    w: "AcceptBlock_write sample_disk (2 ^ 40) None sample_pos_block 1 CValidationState_new fresh_files = Some (Inr ((True, CValidationState_new), pos, B))"
    and B: "holds_all fresh_files B" "pos_nFile pos = nLastBlockFile B" "nLastBlockFile B < int (length (vinfoBlockFile B))"
      "undone (vinfoBlockFile B) = undone (vinfoBlockFile fresh_files)" by (auto simp: sample_disk_def)
  have s1: "files_step sample_disk fresh_files (Block_record pos sample_pos_block) B"
    by (rule files_step.block [OF w sample_pos_block_ok(2) size fresh_files_ok(2)])
  have inv: "files_inv B" using B(1) by (simp add: holds_all_def)
  have "undo_fits sample_disk (2 ^ 40) ?u (first_index pos) B"
    using inv B(2,3,4)
    by (auto simp: undo_fits_def blockundo_ok_def txundo_ok_def vec_ok_def MAX_SIZE_def first_index_def files_inv_def fresh_files_ok
        blockundo_enc_def txundo_enc_def vec_enc_def compact_bytes_def UNDOFILE_CHUNK_SIZE_def)
  from write_undo_stores [OF inv this sample_disk_disk_ok, of CValidationState_new "replicate 32 1"] obtain pindex' B' where
    "ConnectBlock_write_undo sample_disk (2 ^ 40) CValidationState_new ?u (replicate 32 1) (first_index pos) B =
      Inr ((True, CValidationState_new), pindex', B')" by blast
  from files_step.undo [OF this \<open>undo_fits sample_disk (2 ^ 40) ?u (first_index pos) B\<close>]
  have s2: "files_step sample_disk B (Undo_record (GetUndoPos pindex') (replicate 32 1) ?u) B'" .
  from files_run.step [OF files_run.step [OF files_run.none s1] s2] show ?thesis by auto
qed

theorem BlockFiles_keep_records_witness:
  "\<exists>pos upos B. files_run sample_disk fresh_files
     [Block_record pos sample_pos_block, Undo_record upos (replicate 32 1) \<lparr>vtxundo = [\<lparr>vprevout = []\<rparr>]\<rparr>] B \<and>
    files_inv B \<and> UndoReadFromDisk sample_disk (bf_rev B) upos (replicate 32 1) = Some \<lparr>vtxundo = [\<lparr>vprevout = []\<rparr>]\<rparr>"
proof -
  from sample_run obtain pos upos B where
    r: "files_run sample_disk fresh_files
     [Block_record pos sample_pos_block, Undo_record upos (replicate 32 1) \<lparr>vtxundo = [\<lparr>vprevout = []\<rparr>]\<rparr>] B" by blast
  from BlockFiles_keep_records [OF fresh_files_ok(1) this sample_disk_disk_ok] r show ?thesis by auto
qed

end
