(* ===== verification/Inputs.thy ===== *)
theory Inputs
  imports Connect Money
begin

text \<open>
  The inputs of a transaction against the set of unspent outputs: \<open>GetSpendHeight\<close>,
  \<open>CheckTxInputs\<close> and \<open>CheckInputs\<close> of \<open>validation.cpp\<close> and \<open>GetP2SHSigOpCount\<close> of \<open>consensus/tx_verify.cpp\<close> on
  the coin caches.  The script interpreter is an argument; its signature cache is left out.
\<close>

section \<open>Inputs\<close>

text \<open>
  A script check is the output spent, the transaction, the index of the input and the flags.  What it
  answers, and the error string it leaves, come from the script interpreter.
\<close>

type_synonym script_check = "CTxOut \<times> CTransaction \<times> nat \<times> u32"

record inputs_env =
  ix_params :: Params
  ix_nMaxMoneyOut :: nat
  ix_index :: index
  ix_mapBlockIndex :: "bytes \<rightharpoonup> addr"
  ix_check :: "script_check \<Rightarrow> bool"
  ix_error :: "script_check \<Rightarrow> string"
  ix_not_mandatory :: u32

definition REJECT_NONSTANDARD :: u32 where "REJECT_NONSTANDARD = 0x40"

definition GetSpendHeight ::
  "inputs_env \<Rightarrow> 't CCoinsViewCache \<Rightarrow> 't view \<Rightarrow> (int \<times> 't CCoinsViewCache \<times> 't view) res" where
  "GetSpendHeight I c b =
     (case CacheGetBestBlock c b of
        (h, c, b) \<Rightarrow>
          (case ix_mapBlockIndex I h of
             None \<Rightarrow> Inl (UndefinedBehaviour ''mapBlockIndex.find()->second'')
           | Some a \<Rightarrow> bindE (deref (ix_index I) (Some a)) (\<lambda>pindexPrev. Inr (nHeight pindexPrev + 1, c, b))))"

text \<open>The loop over the inputs: a verdict, or the value that came in.\<close>

fun CheckTxInputs_loop ::
  "'t coins_env \<Rightarrow> inputs_env \<Rightarrow> CTxIn list \<Rightarrow> CValidationState \<Rightarrow> 't CCoinsViewCache \<Rightarrow> 't view \<Rightarrow> int \<Rightarrow> CAmount
     \<Rightarrow> (((bool \<times> CValidationState) + CAmount) \<times> 't CCoinsViewCache \<times> 't view) res" where
  "CheckTxInputs_loop E I [] state c b nSpendHeight valueIn = Inr (Inr valueIn, c, b)"
| "CheckTxInputs_loop E I (txin # rest) state c b nSpendHeight valueIn =
     (case AccessCoin E c b (prevout txin) of
        (coin, c, b) \<Rightarrow>
          if Coin_IsSpent coin then Inl (AssertFailed ''!coin.IsSpent()'')
          else if (fCoinBase coin \<or> fCoinStake coin) \<and>
                  nSpendHeight - uint (coin_nHeight coin) < nCoinbaseMaturity (ix_params I)
          then Inr (Inl (CValidationState_Invalid state False REJECT_INVALID ''bad-txns-premature-spend-of-coinbase-coinstake''
                 (''tried to spend coinbase/coinstake at depth '' @
                  decimal (unat (word_of_int nSpendHeight - coin_nHeight coin)))), c, b)
          else
            bindE (add_amount valueIn (nValue (coin_out coin))) (\<lambda>valueIn.
              if \<not> MoneyRange (ix_nMaxMoneyOut I) (nValue (coin_out coin)) \<or> \<not> MoneyRange (ix_nMaxMoneyOut I) valueIn
              then Inr (Inl (DoS state 100 False REJECT_INVALID ''bad-txns-inputvalues-outofrange'' False ''''), c, b)
              else CheckTxInputs_loop E I rest state c b nSpendHeight valueIn))"

text \<open>What came in against what goes out, once the value of the inputs is known.\<close>

definition CheckTxInputs_values :: "CTransaction \<Rightarrow> CValidationState \<Rightarrow> CAmount \<Rightarrow> (bool \<times> CValidationState) res" where
  "CheckTxInputs_values tx state valueIn =
     bindE (GetShieldedValueIn tx) (\<lambda>shielded.
     bindE (add_amount valueIn shielded) (\<lambda>valueIn.
       if \<not> IsCoinStake tx then
         bindE (GetValueOut tx) (\<lambda>valueOut.
           if valueIn < valueOut then
             bindE (FormatMoney valueIn False) (\<lambda>i.
             bindE (FormatMoney valueOut False) (\<lambda>out.
               Inr (DoS state 100 False REJECT_INVALID ''bad-txns-in-belowout'' False
                      (''value in ('' @ i @ '') < value out ('' @ out @ '')''))))
           else
             bindE (add_amount valueIn (- valueOut)) (\<lambda>nTxFee.
               if nTxFee < 0 then Inr (DoS state 100 False REJECT_INVALID ''bad-txns-fee-negative'' False '''')
               else Inr (True, state)))
       else Inr (True, state)))"

definition CheckTxInputs ::
  "'t coins_env \<Rightarrow> inputs_env \<Rightarrow> CTransaction \<Rightarrow> CValidationState \<Rightarrow> 't CCoinsViewCache \<Rightarrow> 't view \<Rightarrow> int
     \<Rightarrow> ((bool \<times> CValidationState) \<times> 't CCoinsViewCache \<times> 't view) res" where
  "CheckTxInputs E I tx state c b nSpendHeight =
     (case HaveInputs E c b tx of
        (have, c, b) \<Rightarrow>
          if \<not> have then Inr (CValidationState_Invalid state False 0 '''' ''Inputs unavailable'', c, b)
          else
            case HaveShieldedRequirements E c b tx of
              (met, c, b) \<Rightarrow>
                if \<not> met then Inr (CValidationState_Invalid state False 0 '''' '''', c, b)
                else
                  bindE (CheckTxInputs_loop E I (vin tx) state c b nSpendHeight 0) (\<lambda>(r, c, b).
                  case r of
                    Inl verdict \<Rightarrow> Inr (verdict, c, b)
                  | Inr valueIn \<Rightarrow> bindE (CheckTxInputs_values tx state valueIn) (\<lambda>verdict. Inr (verdict, c, b))))"

text \<open>The script checks of the inputs from input \<open>i\<close> on, queued when \<open>pvChecks\<close> holds and run at once otherwise.\<close>

fun CheckScripts ::
  "'t coins_env \<Rightarrow> inputs_env \<Rightarrow> CTransaction \<Rightarrow> CTxIn list \<Rightarrow> nat \<Rightarrow> u32 \<Rightarrow> bool \<Rightarrow> script_check list \<Rightarrow> CValidationState
     \<Rightarrow> 't CCoinsViewCache \<Rightarrow> 't view \<Rightarrow> ((bool \<times> CValidationState) \<times> script_check list \<times> 't CCoinsViewCache \<times> 't view) res" where
  "CheckScripts E I tx [] i flags pvChecks checks state c b = Inr ((True, state), checks, c, b)"
| "CheckScripts E I tx (txin # rest) i flags pvChecks checks state c b =
     (case AccessCoin E c b (prevout txin) of
        (coin, c, b) \<Rightarrow>
          if Coin_IsSpent coin then Inl (AssertFailed ''!coin.IsSpent()'')
          else
            let check = (coin_out coin, tx, i, flags)
            in if pvChecks then CheckScripts E I tx rest (Suc i) flags pvChecks (checks @ [check]) state c b
               else if \<not> ix_check I check then
                 if flags AND ix_not_mandatory I \<noteq> 0 \<and> ix_check I (coin_out coin, tx, i, flags AND NOT (ix_not_mandatory I))
                 then Inr (CValidationState_Invalid state False REJECT_NONSTANDARD
                        (''non-mandatory-script-verify-flag ('' @ ix_error I check @ '')'') '''', checks, c, b)
                 else Inr (DoS state 100 False REJECT_INVALID
                        (''mandatory-script-verify-flag-failed ('' @ ix_error I check @ '')'') False '''', checks, c, b)
               else CheckScripts E I tx rest (Suc i) flags pvChecks checks state c b)"

definition CheckInputs ::
  "'t coins_env \<Rightarrow> inputs_env \<Rightarrow> CTransaction \<Rightarrow> CValidationState \<Rightarrow> 't CCoinsViewCache \<Rightarrow> 't view \<Rightarrow> bool \<Rightarrow> u32 \<Rightarrow> bool
     \<Rightarrow> ((bool \<times> CValidationState) \<times> script_check list \<times> 't CCoinsViewCache \<times> 't view) res" where
  "CheckInputs E I tx state c b fScriptChecks flags pvChecks =
     (if \<not> IsCoinBase tx \<and> \<not> HasZerocoinSpendInputs tx then
        bindE (GetSpendHeight I c b) (\<lambda>(nSpendHeight, c, b).
        bindE (CheckTxInputs E I tx state c b nSpendHeight) (\<lambda>((ok, state), c, b).
          if \<not> ok then Inr ((False, state), [], c, b)
          else if fScriptChecks then CheckScripts E I tx (vin tx) 0 flags pvChecks [] state c b
          else Inr ((True, state), [], c, b)))
      else Inr ((True, state), [], c, b))"

text \<open>
  \<open>GetP2SHSigOpCount\<close> asks the view for the outputs the inputs spend.
\<close>

fun P2SHSigOps_loop ::
  "host_order \<Rightarrow> 't coins_env \<Rightarrow> CTxIn list \<Rightarrow> u32 \<Rightarrow> 't CCoinsViewCache \<Rightarrow> 't view \<Rightarrow> (u32 \<times> 't CCoinsViewCache \<times> 't view) res" where
  "P2SHSigOps_loop h E [] nSigOps c b = Inr (nSigOps, c, b)"
| "P2SHSigOps_loop h E (txin # rest) nSigOps c b =
     (case AccessCoin E c b (prevout txin) of
        (coin, c, b) \<Rightarrow>
          let prevkey = scriptPubKey (coin_out coin)
          in if IsPayToScriptHash prevkey
             then bindE (GetSigOpCount_P2SH h prevkey (scriptSig txin)) (\<lambda>n. P2SHSigOps_loop h E rest (nSigOps + n) c b)
             else P2SHSigOps_loop h E rest nSigOps c b)"

definition GetP2SHSigOpCount_view ::
  "host_order \<Rightarrow> 't coins_env \<Rightarrow> CTransaction \<Rightarrow> 't CCoinsViewCache \<Rightarrow> 't view \<Rightarrow> (u32 \<times> 't CCoinsViewCache \<times> 't view) res" where
  "GetP2SHSigOpCount_view h E tx c b =
     (if IsCoinBase tx \<or> HasZerocoinSpendInputs tx then Inr (0, c, b) else P2SHSigOps_loop h E (vin tx) 0 c b)"

section \<open>The checks only read the view\<close>

lemma at_reads: "at E c b st \<Longrightarrow> reads E (c, b) (c', b') \<Longrightarrow> at E c' b' st"
  by (simp add: at_def reads_def del: folded_views)

lemma at_inv: "at E c b st \<Longrightarrow> view_inv E (Cache c b)" "at E c b st \<Longrightarrow> chain_of E (Cache c b) = st"
  by (simp_all add: at_def del: folded_views)

lemma at_fields:
  assumes "at E c b st"
  shows "utxo (Cache c b) = cs_utxo st" "nullifiers (Cache c b) = cs_nullifiers st" "anchors E (Cache c b) = cs_anchors st"
    "best_anchor E (Cache c b) = cs_anchor st" "best_block (Cache c b) = cs_block st"
  using assms by (auto simp: at_def simp del: folded_views)

lemma AccessCoin_at:
  assumes "at E c b st" "AccessCoin E c b p = (coin, c', b')"
  shows "at E c' b' st" "cs_utxo st p = live coin"
  using AccessCoin_reads [OF at_inv(1) [OF assms(1)] assms(2)] at_reads [OF assms(1)] at_fields [OF assms(1)] by simp_all

lemma HaveInputs_at:
  assumes "at E c b st" "HaveInputs E c b tx = (h, c', b')"
  shows "at E c' b' st" "h \<longleftrightarrow> IsCoinBase tx \<or> HasZerocoinSpendInputs tx \<or> (\<forall>i \<in> set (vin tx). cs_utxo st (prevout i) \<noteq> None)"
  using HaveInputs_decides [OF at_inv(1) [OF assms(1)] assms(2)] at_reads [OF assms(1)] at_fields [OF assms(1)] by simp_all

lemma HaveShieldedRequirements_at:
  assumes "at E c b st" "HaveShieldedRequirements E c b tx = (q, c', b')"
  shows "at E c' b' st" "q \<longleftrightarrow> (IsShieldedTx tx \<longrightarrow> (\<forall>d \<in> set_option (sapData tx). \<forall>x \<in> set (vShieldedSpend d).
    \<not> cs_nullifiers st (sp_nullifier x) \<and> cs_anchors st (sp_anchor x)))"
  using HaveShieldedRequirements_decides [OF at_inv(1) [OF assms(1)] assms(2)] at_reads [OF assms(1)] at_fields [OF assms(1)] by simp_all

lemma GetBestBlock_at:
  assumes "at E c b st" "CacheGetBestBlock c b = (h, c', b')"
  shows "at E c' b' st" "h = cs_block st"
  using CacheGetBestBlock_reads [OF at_inv(1) [OF assms(1)] assms(2)] at_reads [OF assms(1)] at_fields [OF assms(1)]
  by simp_all

lemma CheckTxInputs_loop_at:
  "at E c b st \<Longrightarrow> CheckTxInputs_loop E I ins state c b h v = Inr (r, c', b') \<Longrightarrow> at E c' b' st"
proof (induction ins arbitrary: c b v)
  case (Cons i ins)
  obtain coin c1 b1 where a: "AccessCoin E c b (prevout i) = (coin, c1, b1)" by (cases "AccessCoin E c b (prevout i)")
  then show ?case using Cons.IH [OF AccessCoin_at(1) [OF Cons.prems(1) a]] AccessCoin_at(1) [OF Cons.prems(1) a] Cons.prems(2)
    by (auto simp: bind_simps split: if_splits)
qed simp

lemma CheckTxInputs_at:
  assumes "at E c b st" "CheckTxInputs E I tx state c b h = Inr (r, c', b')"
  shows "at E c' b' st"
proof -
  obtain h1 c1 b1 where a: "HaveInputs E c b tx = (h1, c1, b1)" by (cases "HaveInputs E c b tx")
  obtain h2 c2 b2 where s: "HaveShieldedRequirements E c1 b1 tx = (h2, c2, b2)" by (cases "HaveShieldedRequirements E c1 b1 tx")
  have at1: "at E c1 b1 st" by (rule HaveInputs_at(1) [OF assms(1) a])
  have at2: "at E c2 b2 st" by (rule HaveShieldedRequirements_at(1) [OF at1 s])
  show ?thesis
  proof (cases "h1 \<and> h2")
    case True
    then obtain q c3 b3 where l: "CheckTxInputs_loop E I (vin tx) state c2 b2 h 0 = Inr (q, c3, b3)"
      using assms(2) by (cases "CheckTxInputs_loop E I (vin tx) state c2 b2 h 0") (auto simp: CheckTxInputs_def a s)
    have "c3 = c' \<and> b3 = b'" using assms(2) True l by (cases q) (auto simp: CheckTxInputs_def a s bind_simps)
    then show ?thesis using CheckTxInputs_loop_at [OF at2 l] by simp
  next
    case False
    then show ?thesis using assms(2) at1 at2 by (auto simp: CheckTxInputs_def a s split: if_splits)
  qed
qed

lemma CheckScripts_at:
  "at E c b st \<Longrightarrow> CheckScripts E I tx ins i flags pv checks state c b = Inr (r, checks', c', b') \<Longrightarrow> at E c' b' st"
proof (induction ins arbitrary: c b i checks)
  case (Cons txin ins)
  obtain coin c1 b1 where a: "AccessCoin E c b (prevout txin) = (coin, c1, b1)" by (cases "AccessCoin E c b (prevout txin)")
  then show ?case using Cons.IH [OF AccessCoin_at(1) [OF Cons.prems(1) a]] AccessCoin_at(1) [OF Cons.prems(1) a] Cons.prems(2)
    by (auto simp: Let_def split: if_splits)
qed simp

lemma GetSpendHeight_at: "at E c b st \<Longrightarrow> GetSpendHeight I c b = Inr (h, c', b') \<Longrightarrow> at E c' b' st"
  using GetBestBlock_at(1) by (fastforce simp: GetSpendHeight_def bind_simps split: prod.splits option.splits)

lemma CheckInputs_at:
  assumes "at E c b st" "CheckInputs E I tx state c b sc flags pv = Inr (r, checks, c', b')"
  shows "at E c' b' st"
  using assms
  by (auto simp: CheckInputs_def bind_simps split: if_splits
      intro: CheckScripts_at [OF CheckTxInputs_at [OF GetSpendHeight_at]] CheckTxInputs_at [OF GetSpendHeight_at])

lemma P2SHSigOps_loop_at:
  "at E c b st \<Longrightarrow> P2SHSigOps_loop h E ins n c b = Inr (r, c', b') \<Longrightarrow> at E c' b' st"
proof (induction ins arbitrary: c b n)
  case (Cons txin ins)
  obtain coin c1 b1 where a: "AccessCoin E c b (prevout txin) = (coin, c1, b1)" by (cases "AccessCoin E c b (prevout txin)")
  then show ?case using Cons.IH [OF AccessCoin_at(1) [OF Cons.prems(1) a]] Cons.prems(2)
    by (auto simp: Let_def bind_simps split: if_splits)
qed simp

lemma GetP2SHSigOpCount_at:
  "at E c b st \<Longrightarrow> GetP2SHSigOpCount_view h E tx c b = Inr (r, c', b') \<Longrightarrow> at E c' b' st"
  by (auto simp: GetP2SHSigOpCount_view_def split: if_splits intro: P2SHSigOps_loop_at)

lemma GetValueIn_loop_at: "at E c b st \<Longrightarrow> GetValueIn_loop E c b ins n = Inr (r, c', b') \<Longrightarrow> at E c' b' st"
proof (induction ins arbitrary: c b n)
  case (Cons txin ins)
  obtain coin c1 b1 where a: "AccessCoin E c b (prevout txin) = (coin, c1, b1)" by (cases "AccessCoin E c b (prevout txin)")
  then show ?case using Cons.IH [OF AccessCoin_at(1) [OF Cons.prems(1) a]] Cons.IH [OF Cons.prems(1)] Cons.prems(2)
    by (auto simp: bind_simps split: if_splits)
qed simp

lemma GetValueIn_at: "at E c b st \<Longrightarrow> GetValueIn E c b tx = Inr (r, c', b') \<Longrightarrow> at E c' b' st"
  by (auto simp: GetValueIn_def bind_simps split: if_splits dest: GetValueIn_loop_at)

section \<open>Amounts\<close>

definition input_value :: "chainstate \<Rightarrow> CTxIn list \<Rightarrow> CAmount" where
  "input_value st ins = (\<Sum>i\<leftarrow>ins. nValue (coin_out (the (cs_utxo st (prevout i)))))"

definition shielded_in :: "CTransaction \<Rightarrow> CAmount" where
  "shielded_in tx =
     (case sapData tx of None \<Rightarrow> 0 | Some d \<Rightarrow> if hasSaplingData tx \<and> valueBalance d > 0 then valueBalance d else 0)"

definition value_out :: "CTransaction \<Rightarrow> CAmount" where
  "value_out tx = shielded_out tx + sum_list (map nValue (vout tx))"

text \<open>The amounts of the unspent outputs are those \<open>CheckTransaction\<close> lets through.\<close>

definition priced :: "nat \<Rightarrow> chainstate \<Rightarrow> bool" where
  "priced m st \<longleftrightarrow> (\<forall>p coin. cs_utxo st p = Some coin \<longrightarrow> 0 \<le> nValue (coin_out coin) \<and> nValue (coin_out coin) \<le> int m)"

lemma MoneyRange_room:
  assumes "MoneyRange m v" "m \<le> 2 ^ 60"
  shows "0 \<le> v" "v < 2 ^ 62"
proof -
  show "0 \<le> v" using assms(1) by (simp add: MoneyRange_def)
  show "v < 2 ^ 62"
  proof (rule ccontr)
    assume "\<not> v < 2 ^ 62"
    then have "2 ^ 62 \<le> nat v" by simp
    then have "double_round (2 ^ 62) \<le> double_round (nat v)" by (rule double_round_mono)
    moreover have "double_round (0x1351eb851eb852 * double_round m) \<le> double_round (0x1351eb851eb852 * 2 ^ 60)"
      using double_round_mono [OF assms(2)] bit_len_eq [of 60 "2 ^ 60"]
      by (intro double_round_mono mult_le_mono2) (simp add: double_round_def Let_def round_half_even_def)
    moreover have "double_round (2 ^ 62) = 2 ^ 62" "double_round (0x1351eb851eb852 * 2 ^ 60) = 0x1351eb851eb852 * 2 ^ 60"
      using bit_len_eq [of 62 "2 ^ 62"] bit_len_eq [of 112 "0x1351eb851eb852 * 2 ^ 60"]
      by (simp_all add: double_round_def Let_def round_half_even_def)
    ultimately show False using assms(1) by (simp add: MoneyRange_def)
  qed
qed

lemma GetValueOut_loop_exact:
  assumes "\<forall>t \<in> set outs. 0 \<le> nValue t" "0 \<le> v" "v + sum_list (map nValue outs) \<le> int64_max"
  shows "GetValueOut_loop outs v = Inr (v + sum_list (map nValue outs))"
  using assms
proof (induction outs arbitrary: v)
  case (Cons t outs)
  have "0 \<le> sum_list (map nValue outs)" using Cons.prems(1) by (intro sum_list_nonneg) auto
  then have "add_amount v (nValue t) = Inr (v + nValue t)" using Cons.prems by (simp add: add_amount_def int64_min_def)
  then show ?case using Cons.IH [of "v + nValue t"] Cons.prems by (simp add: add.assoc)
qed simp

lemma GetValueOut_exact:
  assumes "tx_valid m cold tx" "tx_ok tx" "m \<le> 2 ^ 60"
  shows "GetValueOut tx = Inr (value_out tx)" "0 \<le> value_out tx" "value_out tx \<le> int64_max"
proof -
  let ?s = "sum_list (map nValue (vout tx))"
  have outs: "\<forall>t \<in> set (vout tx). 0 \<le> nValue t" using assms(1) by (auto simp: tx_valid_def output_valid_def)
  then have s: "0 \<le> ?s" by (intro sum_list_nonneg) auto
  have sap: "valueBalance d \<noteq> int64_min \<and> isSaplingVersion tx" if "sapData tx = Some d" "hasSaplingData tx" for d
    using assms(1) that by (auto simp: tx_valid_def sapling_valid_def)
  have amt: "amount_ok (valueBalance d)" if "sapData tx = Some d" "hasSaplingData tx" for d
    using assms(2) sap [OF that] that by (auto simp: tx_ok_def Sapling_ok_def)
  have so: "0 \<le> shielded_out tx" "shielded_out tx \<le> int64_max"
    using sap amt by (auto simp: shielded_out_def amount_ok_def int64_min_def int64_max_def split: option.split)
  show "0 \<le> value_out tx" using s so by (simp add: value_out_def)
  show le: "value_out tx \<le> int64_max"
  proof (cases "vout tx = []")
    case False
    then have "MoneyRange m (value_out tx)" using assms(1) by (simp add: tx_valid_def value_out_def)
    from MoneyRange_room(2) [OF this assms(3)] show ?thesis by (simp add: int64_max_def)
  qed (use so in \<open>simp add: value_out_def\<close>)
  have loop: "GetValueOut_loop (vout tx) 0 = Inr ?s"
    using GetValueOut_loop_exact [OF outs, of 0] le so by (simp add: value_out_def)
  show "GetValueOut tx = Inr (value_out tx)"
  proof (cases "sapData tx")
    case (Some d)
    show ?thesis
    proof (cases "hasSaplingData tx \<and> valueBalance d < 0")
      case True
      then show ?thesis using loop sap [OF Some] le s Some
        by (simp add: GetValueOut_def neg_amount_def add_amount_def value_out_def shielded_out_def int64_min_def)
    qed (use loop Some in \<open>auto simp: GetValueOut_def value_out_def shielded_out_def\<close>)
  qed (use loop in \<open>simp add: GetValueOut_def value_out_def shielded_out_def\<close>)
qed

lemma shielded_in_exact:
  assumes "tx_valid m cold tx" "m \<le> 2 ^ 60"
  shows "GetShieldedValueIn tx = Inr (shielded_in tx)" "0 \<le> shielded_in tx" "shielded_in tx < 2 ^ 62"
proof -
  show "GetShieldedValueIn tx = Inr (shielded_in tx)"
    using assms(1) by (auto simp: GetShieldedValueIn_def shielded_in_def tx_valid_def sapling_valid_def split: option.split)
  show "0 \<le> shielded_in tx" by (simp add: shielded_in_def split: option.split)
  show "shielded_in tx < 2 ^ 62"
  proof (cases "shielded_in tx = 0")
    case False
    then have "MoneyRange m (shielded_in tx)"
      using assms(1) by (auto simp: shielded_in_def tx_valid_def sapling_valid_def split: option.splits if_splits)
    then show ?thesis using MoneyRange_room(2) [OF _ assms(2)] by blast
  qed simp
qed

text \<open>The rule for one input.\<close>

definition input_mature :: "inputs_env \<Rightarrow> chainstate \<Rightarrow> int \<Rightarrow> CTxIn \<Rightarrow> bool" where
  "input_mature I st h i \<longleftrightarrow> (case cs_utxo st (prevout i) of None \<Rightarrow> False
     | Some coin \<Rightarrow> fCoinBase coin \<or> fCoinStake coin \<longrightarrow> h - uint (coin_nHeight coin) \<ge> nCoinbaseMaturity (ix_params I))"

lemma CheckTxInputs_loop_exact:
  assumes "at E c b st" "priced m st" "m \<le> 2 ^ 60" "ix_nMaxMoneyOut I = m" "\<forall>i \<in> set ins. cs_utxo st (prevout i) \<noteq> None" "MoneyRange m v"
  shows "\<exists>r c' b'. CheckTxInputs_loop E I ins state c b h v = Inr (r, c', b') \<and> at E c' b' st \<and>
    (if (\<forall>i \<in> set ins. input_mature I st h i) \<and> MoneyRange m (v + input_value st ins) then r = Inr (v + input_value st ins)
     else \<exists>s. r = Inl (False, s))"
  using assms(1,5,6)
proof (induction ins arbitrary: c b v)
  case Nil
  then show ?case by (simp add: input_value_def)
next
  case (Cons i ins)
  obtain coin c1 b1 where a: "AccessCoin E c b (prevout i) = (coin, c1, b1)" by (cases "AccessCoin E c b (prevout i)")
  note A = AccessCoin_at [OF Cons.prems(1) a]
  have coin: "cs_utxo st (prevout i) = Some coin" "\<not> Coin_IsSpent coin"
    using A(2) Cons.prems(2) by (auto simp: live_def split: if_splits)
  then have p: "0 \<le> nValue (coin_out coin)" "nValue (coin_out coin) \<le> int m" using assms(2) by (auto simp: priced_def)
  let ?w = "v + nValue (coin_out coin)"
  note room = MoneyRange_room [OF Cons.prems(3) assms(3)]
  have "int m \<le> 2 ^ 60" using assms(3) by (metis of_nat_le_iff of_nat_numeral of_nat_power)
  then have add: "add_amount v (nValue (coin_out coin)) = Inr ?w"
    using p room by (simp add: add_amount_def int64_min_def int64_max_def)
  have rest: "0 \<le> input_value st ins"
    unfolding input_value_def using assms(2) Cons.prems(2) by (intro sum_list_nonneg) (auto simp: priced_def)
  have sum: "v + input_value st (i # ins) = ?w + input_value st ins" by (simp add: input_value_def coin(1))
  show ?case
  proof (cases "input_mature I st h i")
    case False
    then show ?thesis using a A(1) coin
      by (auto simp: input_mature_def CValidationState_Invalid_def Let_def not_le DoS_def)
  next
    case mature: True
    show ?thesis
    proof (cases "MoneyRange m ?w")
      case True
      have "MoneyRange m (nValue (coin_out coin))" using MoneyRange_down [OF True p(1)] room(1) by simp
      then have "CheckTxInputs_loop E I (i # ins) state c b h v = CheckTxInputs_loop E I ins state c1 b1 h ?w"
        using a coin mature add True assms(4) by (auto simp: input_mature_def)
      moreover have "\<forall>i \<in> set ins. cs_utxo st (prevout i) \<noteq> None" using Cons.prems(2) by simp
      ultimately show ?thesis using Cons.IH [OF A(1) _ True] mature unfolding sum by simp
    next
      case False
      then have "\<not> MoneyRange m (v + input_value st (i # ins))"
        unfolding sum using MoneyRange_down [of m "?w + input_value st ins" ?w] rest p(1) room(1) by auto
      then show ?thesis using a A(1) coin mature add False assms(4) by (auto simp: input_mature_def DoS_def Let_def)
    qed
  qed
qed

lemma CheckTxInputs_values_exact:
  assumes "tx_valid m cold tx" "tx_ok tx" "m \<le> 2 ^ 60" "0 \<le> v" "v < 2 ^ 62"
  shows "\<exists>ok s. CheckTxInputs_values tx state v = Inr (ok, s) \<and>
    (ok \<longleftrightarrow> IsCoinStake tx \<or> value_out tx \<le> v + shielded_in tx) \<and> (ok \<longrightarrow> s = state)"
proof -
  note i = shielded_in_exact [OF assms(1,3)] and o = GetValueOut_exact [OF assms(1-3)]
  have add: "add_amount v (shielded_in tx) = Inr (v + shielded_in tx)"
    using i assms(4,5) by (simp add: add_amount_def int64_min_def int64_max_def)
  have money: "\<exists>q. FormatMoney n False = Inr q" if "0 \<le> n" for n
    using that by (auto simp: FormatMoney_def neg_amount_def int64_min_def Let_def)
  show ?thesis
  proof (cases "IsCoinStake tx \<or> \<not> v + shielded_in tx < value_out tx")
    case True
    have "add_amount (v + shielded_in tx) (- value_out tx) = Inr (v + shielded_in tx - value_out tx)"
      if "\<not> v + shielded_in tx < value_out tx"
      using that i o assms(4,5) by (simp add: add_amount_def int64_min_def int64_max_def)
    then show ?thesis using True i(1) o(1) add by (auto simp: CheckTxInputs_values_def)
  next
    case False
    then show ?thesis
      using i(1) o(1) add money [of "v + shielded_in tx"] money [OF o(2)] assms(4) i(2)
      by (auto simp: CheckTxInputs_values_def DoS_def Let_def)
  qed
qed

section \<open>Properties\<close>

text \<open>What the shielded spends of a transaction need: unspent nullifiers and known anchors.\<close>

definition shielded_met :: "chainstate \<Rightarrow> CTransaction \<Rightarrow> bool" where
  "shielded_met st tx \<longleftrightarrow> (IsShieldedTx tx \<longrightarrow> (\<forall>d \<in> set_option (sapData tx). \<forall>x \<in> set (vShieldedSpend d).
     \<not> cs_nullifiers st (sp_nullifier x) \<and> cs_anchors st (sp_anchor x)))"

text \<open>
  Property C6.  For every transaction that passed the context-free checks, \<open>CheckTxInputs\<close> returns a verdict: no
  sum overflows and no assertion fails.  It accepts exactly when every input spends an unspent output that is mature, the shielded
  spends find their anchors and unspent nullifiers, the value of the inputs is in range, and no more goes out
  than came in, coinstakes excepted.  The chain state behind the view is left alone, and so is the validation state on acceptance.
\<close>

theorem CheckTxInputs_exact:
  assumes "at E c b st" "priced m st" "m \<le> 2 ^ 60" "ix_nMaxMoneyOut I = m" "tx_ok tx" "tx_valid m cold tx"
    and "\<not> IsCoinBase tx" "\<not> HasZerocoinSpendInputs tx"
  shows "\<exists>ok s c' b'. CheckTxInputs E I tx state c b h = Inr ((ok, s), c', b') \<and> at E c' b' st \<and>
    (ok \<longleftrightarrow> (\<forall>i \<in> set (vin tx). input_mature I st h i) \<and> shielded_met st tx \<and> MoneyRange m (input_value st (vin tx)) \<and>
      (IsCoinStake tx \<or> value_out tx \<le> input_value st (vin tx) + shielded_in tx)) \<and>
    (ok \<longrightarrow> s = state)"
proof -
  obtain h1 c1 b1 where a: "HaveInputs E c b tx = (h1, c1, b1)" by (cases "HaveInputs E c b tx")
  obtain h2 c2 b2 where s: "HaveShieldedRequirements E c1 b1 tx = (h2, c2, b2)" by (cases "HaveShieldedRequirements E c1 b1 tx")
  note A = HaveInputs_at [OF assms(1) a]
  note S = HaveShieldedRequirements_at [OF A(1) s, folded shielded_met_def]
  show ?thesis
  proof (cases "h1 \<and> h2")
    case False
    then have "\<not> ((\<forall>i \<in> set (vin tx). input_mature I st h i) \<and> shielded_met st tx)"
      using A(2) S(2) assms(7,8) by (auto simp: input_mature_def split: option.splits)
    then show ?thesis using False A(1) S(1) by (auto simp: CheckTxInputs_def a s CValidationState_Invalid_def DoS_def Let_def)
  next
    case True
    then have have_in: "\<forall>i \<in> set (vin tx). cs_utxo st (prevout i) \<noteq> None" and met: "shielded_met st tx"
      using A(2) S(2) assms(7,8) by simp_all
    have zero: "MoneyRange m 0" by (simp add: MoneyRange_def double_round_def Let_def round_half_even_def)
    from CheckTxInputs_loop_exact [OF S(1) assms(2-4) have_in zero, of state h] obtain r c3 b3 where
      l: "CheckTxInputs_loop E I (vin tx) state c2 b2 h 0 = Inr (r, c3, b3)" "at E c3 b3 st"
      "if (\<forall>i \<in> set (vin tx). input_mature I st h i) \<and> MoneyRange m (input_value st (vin tx)) then r = Inr (input_value st (vin tx))
       else \<exists>s. r = Inl (False, s)" by auto
    show ?thesis
    proof (cases "(\<forall>i \<in> set (vin tx). input_mature I st h i) \<and> MoneyRange m (input_value st (vin tx))")
      case in_range: True
      note v = MoneyRange_room [OF conjunct2 [OF in_range] assms(3)]
      from CheckTxInputs_values_exact [OF assms(6,5,3) v, of state] obtain ok q where
        "CheckTxInputs_values tx state (input_value st (vin tx)) = Inr (ok, q)"
        "ok \<longleftrightarrow> IsCoinStake tx \<or> value_out tx \<le> input_value st (vin tx) + shielded_in tx" "ok \<longrightarrow> q = state" by blast
      then show ?thesis using True l in_range met by (auto simp: CheckTxInputs_def a s)
    next
      case False
      then obtain q where "r = Inl (False, q)" using l(3) by (auto split: if_splits)
      then show ?thesis using True l(1,2) False
        by (intro exI [of _ False] exI [of _ q] exI [of _ c3] exI [of _ b3]) (auto simp: CheckTxInputs_def a s)
    qed
  qed
qed

section \<open>Witnesses\<close>

definition spending_tx :: CTransaction where
  "spending_tx = CMutableTransaction_new\<lparr>vin := [\<lparr>prevout = sample_out, scriptSig = [], nSequence = 5\<rparr>], vout := [CTxOut_new 4 [0x51]]\<rparr>"

definition sample_inputs :: inputs_env where
  "sample_inputs = \<lparr>ix_params = main_consensus, ix_nMaxMoneyOut = 1800000000000000, ix_index = (\<lambda>_. None), ix_mapBlockIndex = (\<lambda>_. None),
     ix_check = (\<lambda>_. True), ix_error = (\<lambda>_. ''''), ix_not_mandatory = 0\<rparr>"

lemma spending_tx_ok:
  "tx_ok spending_tx" "tx_valid 1800000000000000 True spending_tx" "\<not> IsCoinBase spending_tx" "\<not> HasZerocoinSpendInputs spending_tx"
  "\<not> IsCoinStake spending_tx" "value_out spending_tx = 4" "shielded_in spending_tx = 0"
proof -
  note tx = spending_tx_def CMutableTransaction_new_def CTxOut_new_def sample_out_def isSaplingVersion_def TxVersion_SAPLING_def
    IsNormalType_def TxType_NORMAL_def SaplingTxData_new_def
  show "tx_ok spending_tx"
    by (simp add: tx_ok_def tx vec_ok_def CTxIn_ok_def COutPoint_ok_def bytevec_ok_def CTxOut_ok_def amount_ok_def
        int64_min_def int64_max_def MAX_SIZE_def Sapling_ok_def)
  have len: "length (tx_enc spending_tx) \<le> 200"
    by (simp add: tx_enc_def int16_enc_def vec_enc_def compact_bytes_def CTxIn_enc_def COutPoint_enc_def
        bytevec_enc_def CTxOut_enc_def amount_enc_def opt_enc_def Sapling_enc_def tx)
  show zc: "\<not> HasZerocoinSpendInputs spending_tx"
    by (simp add: HasZerocoinSpendInputs_def tx CTxIn_IsZerocoinSpend_def CTxIn_IsZerocoinPublicSpend_def blob_replicate
        IsZerocoinPublicSpend_def StartsWithOpcode_def)
  show cb: "\<not> IsCoinBase spending_tx" by (simp add: IsCoinBase_def tx COutPoint_IsNull_def blob_replicate)
  show cs: "\<not> IsCoinStake spending_tx" by (simp add: IsCoinStake_def tx COutPoint_IsNull_def blob_replicate Let_def)
  have sap: "\<not> hasSaplingData spending_tx" by (simp add: hasSaplingData_def tx hasBindingSig_def list_ex_iff)
  then show out: "value_out spending_tx = 4" "shielded_in spending_tx = 0"
    by (simp_all add: value_out_def shielded_out_def shielded_in_def tx)
  have "MoneyRange 1800000000000000 4" using MoneyRange_main [of 4] by simp
  moreover have "\<not> IsShieldedTx spending_tx" using sap by (simp add: IsShieldedTx_def)
  moreover have "inputs_distinct (vin spending_tx)" by (simp add: inputs_distinct_def tx)
  moreover have "\<forall>t \<in> set (vout spending_tx). output_valid 1800000000000000 spending_tx True t"
    by (simp add: tx output_valid_def CTxOut_IsEmpty_def IsPayToColdStaking_def)
  moreover have "\<forall>txin \<in> set (vin spending_tx). \<not> COutPoint_IsNull (prevout txin)" by (simp add: tx COutPoint_IsNull_def blob_replicate)
  moreover have "vin spending_tx \<noteq> []" "vout spending_tx \<noteq> []" "tx_nVersion spending_tx = 1" by (simp_all add: tx)
  moreover have "sapling_valid 1800000000000000 spending_tx" using sap by (simp add: sapling_valid_def)
  ultimately show "tx_valid 1800000000000000 True spending_tx"
    unfolding tx_valid_def using len cb out(1)
    by (auto simp: value_out_def MAX_ZEROCOIN_TX_SIZE_def TxVersion_TOOHIGH_def)
qed

theorem CheckTxInputs_exact_witness:
  "\<exists>c s c' b'. CheckTxInputs sample_env sample_inputs spending_tx CValidationState_new c (DB Map.empty) 100 = Inr ((True, s), c', b') \<and>
    s = CValidationState_new"
proof -
  let ?st = "chain_of sample_env (Cache CCoinsViewCache_new (DB Map.empty))"
  have at: "at sample_env CCoinsViewCache_new (DB Map.empty) ?st" using sample_inv by (simp add: at_def del: folded_views)
  have none: "cs_utxo ?st p = None" for p
    using at_fields(1) [OF at] by (simp add: CCoinsViewCache_new_def through_simps db_GetCoin_def fun_eq_iff)
  from AddCoin_at [OF at sample_coin_facts(1,2), of False sample_out] obtain c where
    c: "at sample_env c (DB Map.empty) (with_coin ?st sample_out sample_coin)" using none by auto
  let ?s = "with_coin ?st sample_out sample_coin"
  have u: "cs_utxo ?s = [sample_out \<mapsto> sample_coin]" using none sample_coin_facts by (auto simp: with_coin_def)
  have coin: "nValue (coin_out sample_coin) = 5" "\<not> fCoinBase sample_coin" "\<not> fCoinStake sample_coin"
    by (simp_all add: sample_coin_def Coin_of_def CTxOut_new_def)
  have p: "priced 1800000000000000 ?s" unfolding priced_def u using coin by (auto split: if_splits)
  have v: "input_value ?s (vin spending_tx) = 5" "\<forall>i \<in> set (vin spending_tx). input_mature sample_inputs ?s 100 i"
    unfolding input_value_def input_mature_def u using coin by (simp_all add: spending_tx_def)
  have "MoneyRange 1800000000000000 5" using MoneyRange_main [of 5] by simp
  moreover have "shielded_met ?s spending_tx"
    by (simp add: shielded_met_def IsShieldedTx_def isSaplingVersion_def spending_tx_def CMutableTransaction_new_def TxVersion_SAPLING_def)
  moreover have "1800000000000000 \<le> (2 :: nat) ^ 60" "ix_nMaxMoneyOut sample_inputs = 1800000000000000" by (simp_all add: sample_inputs_def)
  ultimately show ?thesis
    using CheckTxInputs_exact [OF c p _ _ spending_tx_ok(1-4), of sample_inputs CValidationState_new 100] spending_tx_ok(6,7) v
    by (intro exI [of _ c]) auto
qed

end
