(* ===== verification/ConnectBlock.thy ===== *)
theory ConnectBlock
  imports Inputs CheckBlock BlockFiles
begin

text \<open>
  Connecting a block: \<open>ConnectBlock\<close> of \<open>validation.cpp\<close> over the coin caches, the undo files and the checks of the
  other theories.  Other subsystems share a state of type
  \<open>'x\<close>; what \<open>ConnectBlock\<close> calls on them is in \<open>connect_env\<close>.  Logging and the timing
  statistics are left out, and with them the counters only they use.
\<close>

section \<open>Amounts of a block\<close>

definition GetBlockValue :: "int \<Rightarrow> CAmount" where
  "GetBlockValue height =
     (if height = 0 then 6600000 * COIN
      else if height > 0 \<and> height \<le> 3000 then 1 * COIN
      else if height > 3000 \<and> height \<le> 100000 then 1 * COIN
      else if height > 100000 \<and> height \<le> 200000 then 2 * COIN
      else if height > 200000 \<and> height \<le> 300000 then 3 * COIN
      else if height > 300000 \<and> height \<le> 400000 then 4 * COIN
      else if height > 400000 \<and> height \<le> 500000 then 5 * COIN
      else if height > 500000 \<and> height \<le> 600000 then 6 * COIN
      else if height > 600000 \<and> height \<le> 700000 then 7 * COIN
      else if height > 700000 \<and> height \<le> 800000 then 8 * COIN
      else if height > 800000 \<and> height \<le> 900000 then 9 * COIN
      else if height > 900000 \<and> height \<le> 1000000 then 10 * COIN
      else if height > 1000000 \<and> height \<le> 1100000 then 9 * COIN
      else if height > 1100000 \<and> height \<le> 1200000 then 8 * COIN
      else if height > 1200000 \<and> height \<le> 1300000 then 7 * COIN
      else if height > 1300000 \<and> height \<le> 2200000 then 3 * COIN
      else 1 * COIN)"

section \<open>ConnectBlock\<close>

definition BLOCK_VALID_SCRIPTS :: u32 where "BLOCK_VALID_SCRIPTS = 5"

record CDiskTxPos = FlatFilePos +
  nTxOffset :: u32

text \<open>
  What \<open>ConnectBlock\<close> asks of the rest of the node.  \<open>cx_garbage\<close> is the value of its local
  \<open>nHeight\<close>, which it never sets, and \<open>cx_append\<close> the operation of the note commitment tree.
\<close>

record ('t, 'x) connect_env =
  cx_check :: check_env
  cx_inputs :: inputs_env
  cx_disk :: disk_env
  cx_append :: "'t \<Rightarrow> bytes \<Rightarrow> 't"
  cx_verify_best :: "bytes \<Rightarrow> 'x \<Rightarrow> bool"
  cx_write_best :: "bytes \<Rightarrow> 'x \<Rightarrow> 'x"
  cx_total_blocks_estimate :: int
  cx_script_threads :: bool
  cx_sapling_maintenance :: int
  cx_zerocoin_spends :: "CTransaction \<Rightarrow> int \<Rightarrow> CValidationState \<Rightarrow> bool \<times> CValidationState \<times> bytes list"
  cx_payee_valid :: "CBlock \<Rightarrow> addr option \<Rightarrow> int \<Rightarrow> 'x \<Rightarrow> bool"
  cx_garbage :: int
  cx_coinbase_value_valid :: "CTransaction \<Rightarrow> CAmount \<Rightarrow> CValidationState \<Rightarrow> bool \<times> CValidationState"
  cx_special :: "CBlock \<Rightarrow> bool \<Rightarrow> CValidationState \<Rightarrow> 'x \<Rightarrow> (bool \<times> CValidationState) \<times> 'x"
  cx_avail :: u64
  cx_dirty :: "'x \<Rightarrow> 'x"
  cx_write_spends :: "bytes list \<Rightarrow> 'x \<Rightarrow> bool \<times> 'x"
  cx_txindex :: bool
  cx_write_txindex :: "(bytes \<times> CDiskTxPos) list \<Rightarrow> 'x \<Rightarrow> bool \<times> 'x"
  cx_last_checkpoint :: int
  cx_last_invalid :: int
  cx_main_network :: bool
  cx_checksum :: "'x \<Rightarrow> 'x"
  cx_accumulator_wipe :: "'x \<Rightarrow> 'x"
  cx_clear_invalid :: "'x \<Rightarrow> 'x"

definition SkipInvalidUTXOS :: "('t, 'x) connect_env \<Rightarrow> int \<Rightarrow> bool res" where
  "SkipInvalidUTXOS X height =
     (if \<not> cx_main_network X then Inr False
      else bindE (NetworkUpgradeActive height (ck_params (cx_check X)) (upgrade_idx UPGRADE_ZC)) (\<lambda>zc.
             Inr (zc \<and> height \<le> cx_last_invalid X)))"

text \<open>The locals of \<open>ConnectBlock\<close> that its loop changes, with the view and the state.\<close>

record 't connecting =
  cn_c :: "'t CCoinsViewCache"
  cn_b :: "'t view"
  cn_state :: CValidationState
  cn_fees :: CAmount
  cn_value_in :: CAmount
  cn_value_out :: CAmount
  cn_sigops :: u32
  cn_undo :: CBlockUndo
  cn_tree :: 't
  cn_spends :: "bytes list"
  cn_vpos :: "(bytes \<times> CDiskTxPos) list"
  cn_pos :: CDiskTxPos
  cn_checks :: "script_check list"

definition SCRIPT_VERIFY_P2SH :: u32 where "SCRIPT_VERIFY_P2SH = 1"
definition SCRIPT_VERIFY_DERSIG :: u32 where "SCRIPT_VERIFY_DERSIG = 4"
definition SCRIPT_VERIFY_CHECKLOCKTIMEVERIFY :: u32 where "SCRIPT_VERIFY_CHECKLOCKTIMEVERIFY = 512"

definition note_commitments :: "CTransaction \<Rightarrow> bytes list" where
  "note_commitments tx =
     (if IsShieldedTx tx then case sapData tx of None \<Rightarrow> [] | Some d \<Rightarrow> map out_cmu (vShieldedOutput d) else [])"

text \<open>
  One round of the loop, in three parts: the inputs are there, the values and scripts are right, the
  transaction is applied.  \<open>False\<close> means that \<open>ConnectBlock\<close> returns false with the state reached.
\<close>

definition ConnectTx_available ::
  "'t coins_env \<Rightarrow> ('t, 'x) connect_env \<Rightarrow> bool \<Rightarrow> int \<Rightarrow> CTransaction \<Rightarrow> 't connecting \<Rightarrow> (bool \<times> 't connecting) res" where
  "ConnectTx_available E X isV5UpgradeEnforced height tx n =
     (if \<not> isV5UpgradeEnforced \<and> HasZerocoinSpendInputs tx then
        (case cx_zerocoin_spends X tx height (cn_state n) of
           (ok, state, spends) \<Rightarrow>
             Inr (ok, n\<lparr>cn_state := state, cn_spends := cn_spends n @ spends\<rparr>))
      else if \<not> IsCoinBase tx then
        (case HaveInputs E (cn_c n) (cn_b n) tx of
           (have, c, b) \<Rightarrow>
             if \<not> have then
               Inr (False, n\<lparr>cn_c := c, cn_b := b,
                 cn_state := snd (DoS (cn_state n) 100 False REJECT_INVALID ''bad-txns-inputs-missingorspent'' False '''')\<rparr>)
             else
               case HaveShieldedRequirements E c b tx of
                 (met, c, b) \<Rightarrow>
                   if \<not> met then
                     Inr (False, n\<lparr>cn_c := c, cn_b := b,
                       cn_state := snd (DoS (cn_state n) 100 False REJECT_INVALID ''bad-txns-sapling-requirements-not-met'' False '''')\<rparr>)
                   else
                     bindE (GetP2SHSigOpCount_view (ck_host (cx_check X)) E tx c b) (\<lambda>(ops, c, b).
                       let n = n\<lparr>cn_c := c, cn_b := b, cn_sigops := cn_sigops n + ops\<rparr>
                       in if unat (cn_sigops n) > MAX_BLOCK_SIGOPS_CURRENT
                          then Inr (False, n\<lparr>cn_state := snd (DoS (cn_state n) 100 False REJECT_INVALID ''bad-blk-sigops'' False '''')\<rparr>)
                          else Inr (True, n)))
      else Inr (True, n))"

definition ConnectTx_inputs ::
  "'t coins_env \<Rightarrow> ('t, 'x) connect_env \<Rightarrow> bool \<Rightarrow> bool \<Rightarrow> CTransaction \<Rightarrow> 't connecting \<Rightarrow> (bool \<times> 't connecting) res" where
  "ConnectTx_inputs E X fScriptChecks fCLTVIsActivated tx n =
     bindE (GetValueOut tx) (\<lambda>txValueOut.
     bindE (if IsCoinBase tx then Inr (True, n)
            else
              bindE (GetValueIn E (cn_c n) (cn_b n) tx) (\<lambda>(txValueIn, c, b).
              bindE (if \<not> IsCoinStake tx then bindE (add_amount txValueIn (- txValueOut)) (\<lambda>d. add_amount (cn_fees n) d)
                     else Inr (cn_fees n)) (\<lambda>fees.
              bindE (add_amount (cn_value_in n) txValueIn) (\<lambda>valueIn.
                let flags = SCRIPT_VERIFY_P2SH OR SCRIPT_VERIFY_DERSIG;
                    flags = (if fCLTVIsActivated then flags OR SCRIPT_VERIFY_CHECKLOCKTIMEVERIFY else flags)
                in bindE (CheckInputs E (cx_inputs X) tx (cn_state n) c b fScriptChecks flags (cx_script_threads X))
                     (\<lambda>((ok, state), checks, c, b).
                       Inr (ok, n\<lparr>cn_c := c, cn_b := b, cn_state := state, cn_fees := fees, cn_value_in := valueIn,
                                  cn_checks := (if ok then cn_checks n @ checks else cn_checks n)\<rparr>)))))) (\<lambda>(ok, n).
       if \<not> ok then Inr (False, n)
       else bindE (add_amount (cn_value_out n) txValueOut) (\<lambda>valueOut. Inr (True, n\<lparr>cn_value_out := valueOut\<rparr>))))"

definition ConnectTx_update ::
  "'t coins_env \<Rightarrow> ('t, 'x) connect_env \<Rightarrow> int \<Rightarrow> nat \<Rightarrow> CTransaction \<Rightarrow> 't connecting \<Rightarrow> 't connecting res" where
  "ConnectTx_update E X height i tx n =
     bindE (SkipInvalidUTXOS X height) (\<lambda>fSkipInvalid.
       case UpdateCoins E (ck_txhash (cx_check X) tx) tx (cn_c n) (cn_b n) \<lparr>vprevout = []\<rparr> height fSkipInvalid of
         (Some e, u, c, b) \<Rightarrow> Inl e
       | (None, u, c, b) \<Rightarrow>
           bindE (GetSerializeSize SerializeTransaction (de_host (cx_disk X)) tx (de_client_version (cx_disk X))) (\<lambda>size.
             Inr (n\<lparr>cn_c := c, cn_b := b,
               cn_undo := (if i > 0 then (cn_undo n)\<lparr>vtxundo := vtxundo (cn_undo n) @ [u]\<rparr> else cn_undo n),
               cn_tree := foldl (cx_append X) (cn_tree n) (note_commitments tx),
               cn_vpos := cn_vpos n @ [(ck_txhash (cx_check X) tx, cn_pos n)],
               cn_pos := (cn_pos n)\<lparr>nTxOffset := nTxOffset (cn_pos n) + of_nat size\<rparr>\<rparr>)))"

record connect_flags =
  cf_v5 :: bool
  cf_scripts :: bool
  cf_cltv :: bool
  cf_maintenance :: bool

fun ConnectTxs ::
  "'t coins_env \<Rightarrow> ('t, 'x) connect_env \<Rightarrow> connect_flags \<Rightarrow> int \<Rightarrow> CTransaction list \<Rightarrow> nat \<Rightarrow> 't connecting
     \<Rightarrow> (bool \<times> 't connecting) res" where
  "ConnectTxs E X F height [] i n = Inr (True, n)"
| "ConnectTxs E X F height (tx # rest) i n =
     bindE (GetLegacySigOpCount (ck_host (cx_check X)) tx) (\<lambda>ops.
       let n = n\<lparr>cn_sigops := cn_sigops n + ops\<rparr>
       in if unat (cn_sigops n) > MAX_BLOCK_SIGOPS_CURRENT
          then Inr (False, n\<lparr>cn_state := snd (DoS (cn_state n) 100 False REJECT_INVALID ''bad-blk-sigops'' False '''')\<rparr>)
          else if \<not> ck_initial_download (cx_check X) \<and> cf_maintenance F \<and> IsShieldedTx tx
          then Inr (False, n\<lparr>cn_state := snd (DoS (cn_state n) 100 False 0 '''' False '''')\<rparr>)
          else
            bindE (ConnectTx_available E X (cf_v5 F) height tx n) (\<lambda>(ok, n).
            if \<not> ok then Inr (False, n)
            else
              bindE (ConnectTx_inputs E X (cf_scripts F) (cf_cltv F) tx n) (\<lambda>(ok, n).
              if \<not> ok then Inr (False, n)
              else bindE (ConnectTx_update E X height i tx n) (\<lambda>n. ConnectTxs E X F height rest (Suc i) n))))"

text \<open>The state of the node that \<open>ConnectBlock\<close> changes.\<close>

record ('t, 'x) node =
  nd_c :: "'t CCoinsViewCache"
  nd_b :: "'t view"
  nd_files :: block_files
  nd_pindex :: CBlockIndex
  nd_block :: CBlock
  nd_rejected :: rejected
  nd_x :: 'x

definition node_AbortNode :: "CValidationState \<Rightarrow> string \<Rightarrow> ('t, 'x) node \<Rightarrow> (bool \<times> CValidationState) \<times> ('t, 'x) node" where
  "node_AbortNode state msg nd = (case AbortNode state msg (nd_files nd) of (v, B) \<Rightarrow> (v, nd\<lparr>nd_files := B\<rparr>))"

text \<open>
  The checks before the loop; they return a verdict for \<open>ConnectBlock\<close>, or the flags for the loop.
\<close>

definition ConnectBlock_before ::
  "('t, 'x) connect_env \<Rightarrow> CValidationState \<Rightarrow> bool \<Rightarrow> ('t, 'x) node
     \<Rightarrow> (((bool \<times> CValidationState) + (connect_flags \<times> bool)) \<times> ('t, 'x) node) res" where
  "ConnectBlock_before X state fJustCheck nd =
     (let K = cx_check X; P = ck_params K; block = nd_block nd; pindex = nd_pindex nd; height = nHeight pindex
      in bindE (if pprev pindex = None then Inr UINT256_ZERO
                else bindE (deref (ck_index K) (pprev pindex)) (\<lambda>prev. Inr (phashBlock prev))) (\<lambda>hashPrev.
         case CacheGetBestBlock (nd_c nd) (nd_b nd) of
           (best, c, b) \<Rightarrow>
             let nd = nd\<lparr>nd_c := c, nd_b := b\<rparr>
             in if hashPrev \<noteq> best then Inl (AssertFailed ''hashPrevBlock == view.GetBestBlock()'')
                else
                  bindE (NetworkUpgradeActive height P (upgrade_idx UPGRADE_POS)) (\<lambda>isPoSActive.
                  bindE (NetworkUpgradeActive height P (upgrade_idx UPGRADE_V5_0)) (\<lambda>v5.
                  bindE (NetworkUpgradeActive height P (upgrade_idx UPGRADE_V6_0)) (\<lambda>v6.
                  let isPoSBlock = CBlock_IsProofOfStake block
                  in if \<not> v6 \<and> isPoSBlock \<and> (length (vout (vtx block ! 0)) \<noteq> 1 \<or> \<not> CTxOut_IsEmpty (vout (vtx block ! 0) ! 0))
                     then Inr (Inl (DoS state 100 False REJECT_INVALID ''bad-cb-pos'' False ''coinbase output not empty for proof-of-stake block''), nd)
                     else if pprev pindex \<noteq> None \<and> v6 \<and> \<not> cx_verify_best X hashPrev (nd_x nd)
                     then (case node_AbortNode state ''Found EvoDB inconsistency, you must reindex to continue'' nd of (r, nd) \<Rightarrow> Inr (Inl r, nd))
                     else
                       bindE (CBlockHeader_GetHash (ck_host K) (ck_quark K) (ck_digest K) block) (\<lambda>hash.
                       if hash = hashGenesisBlock P
                       then Inr (Inl (True, state), if fJustCheck then nd else nd\<lparr>nd_c := SetBestBlock (nd_c nd) (phashBlock pindex)\<rparr>)
                       else if \<not> isPoSActive \<and> isPoSBlock
                       then Inr (Inl (DoS state 100 False REJECT_INVALID ''PoS-early'' False ''''), nd)
                       else if isPoSActive \<and> \<not> isPoSBlock
                       then Inr (Inl (DoS state 100 False REJECT_INVALID ''PoW-ended'' False ''''), nd)
                       else if (case nChainSaplingValue pindex of None \<Rightarrow> False | Some v \<Rightarrow> v < 0)
                       then Inr (Inl (DoS state 100 False REJECT_INVALID ''turnstile-violation-sapling-shielded-pool'' False ''''), nd)
                       else
                         let fScriptChecks = (height \<ge> cx_total_blocks_estimate X)
                         in bindE (if fScriptChecks \<and> pprev pindex \<noteq> None
                                   then bindE (deref (ck_index K) (pprev pindex)) (\<lambda>prev.
                                          NetworkUpgradeActive (nHeight prev) P (upgrade_idx UPGRADE_BIP65))
                                   else Inr False) (\<lambda>cltv.
                              Inr (Inr (\<lparr>cf_v5 = v5, cf_scripts = fScriptChecks, cf_cltv = cltv,
                                         cf_maintenance = uint (hd_nTime block) > cx_sapling_maintenance X\<rparr>, v6), nd))))))))"

text \<open>After the loop: the checks of the block as a whole; the verdict, if there is one.\<close>

definition ConnectBlock_after ::
  "'t coins_env \<Rightarrow> ('t, 'x) connect_env \<Rightarrow> connect_flags \<Rightarrow> bool \<Rightarrow> bool \<Rightarrow> 't connecting \<Rightarrow> ('t, 'x) node
     \<Rightarrow> ((bool \<times> CValidationState) option \<times> CValidationState \<times> ('t, 'x) node) res" where
  "ConnectBlock_after E X F v6 fJustCheck n nd =
     (let K = cx_check X; block = nd_block nd; pindex = nd_pindex nd; state = cn_state n
      in case PushAnchor E (cn_c n) (cn_b n) (cn_tree n) of
           (c, b) \<Rightarrow>
             let nd = nd\<lparr>nd_c := c, nd_b := b\<rparr>
             in if cf_v5 F \<and> hd_hashFinalSaplingRoot block \<noteq> env_root E (cn_tree n)
                then Inr (Some (DoS state 100 False REJECT_INVALID ''bad-sapling-root-in-block'' False ''''), state, nd)
                else if \<not> cn_fees n \<ge> 0 then Inl (AssertFailed ''nFees >= 0'')
                else
                  bindE (bindE (add_amount (cn_value_out n) (- cn_value_in n)) (\<lambda>d. add_amount d (cn_fees n))) (\<lambda>nMint.
                  bindE (add_amount (GetBlockValue (nHeight pindex)) 1) (\<lambda>nExpectedMint.
                  bindE (if \<not> CBlock_IsProofOfStake block then add_amount nExpectedMint (cn_fees n) else Inr nExpectedMint) (\<lambda>nExpectedMint.
                    let nBudgetAmt = 0
                    in if \<not> ck_initial_download K \<and> \<not> cx_payee_valid X block (pprev pindex) (cx_garbage X) (nd_x nd)
                       then bindE (CBlockHeader_GetHash (ck_host K) (ck_quark K) (ck_digest K) block) (\<lambda>hash.
                              Inr (Some (DoS state 0 False REJECT_INVALID ''bad-cb-payee'' False ''Couldn't find patriotnode/budget payment''),
                                state, nd\<lparr>nd_rejected := emplace_rejected (nd_rejected nd) hash (ck_time K)\<rparr>))
                       else
                         case (if CBlock_IsProofOfStake block \<and> v6
                               then cx_coinbase_value_valid X (vtx block ! 0) nBudgetAmt state else (True, state)) of
                           (ok, state) \<Rightarrow>
                             if \<not> ok then Inr (Some (False, state), state, nd)
                             else if \<not> list_all (ix_check (cx_inputs X)) (cn_checks n)
                             then Inr (Some (DoS state 100 False REJECT_INVALID ''block-validation-failed'' False ''''), state, nd)
                             else
                               case cx_special X block fJustCheck state (nd_x nd) of
                                 ((ok, state), x) \<Rightarrow>
                                   let nd = nd\<lparr>nd_x := x\<rparr>
                                   in if \<not> ok then Inr (Some (False, state), state, nd)
                                      else if fJustCheck then Inr (Some (True, state), state, nd)
                                      else Inr (None, state, nd)))))"

text \<open>Writing the undo data when the block index has none, and the validity reached.\<close>

definition ConnectBlock_undo ::
  "('t, 'x) connect_env \<Rightarrow> 't connecting \<Rightarrow> CValidationState \<Rightarrow> ('t, 'x) node
     \<Rightarrow> ((bool \<times> CValidationState) option \<times> CValidationState \<times> ('t, 'x) node) res" where
  "ConnectBlock_undo X n state nd =
     (let pindex = nd_pindex nd
      in bindE (if FlatFilePos_IsNull (GetUndoPos pindex) then Inr True
                else bindE (BlockIndex_IsValid pindex BLOCK_VALID_SCRIPTS) (\<lambda>valid. Inr (\<not> valid))) (\<lambda>todo.
         if \<not> todo then Inr (None, state, nd)
         else
           bindE (if FlatFilePos_IsNull (GetUndoPos pindex) then
                    bindE (deref (ck_index (cx_check X)) (pprev pindex)) (\<lambda>prev.
                    bindE (ConnectBlock_write_undo (cx_disk X) (cx_avail X) state (cn_undo n) (phashBlock prev) pindex (nd_files nd))
                      (\<lambda>((ok, state), pindex, B).
                        Inr (if ok then None else Some (False, state), state, nd\<lparr>nd_pindex := pindex, nd_files := B\<rparr>)))
                  else Inr (None, state, nd)) (\<lambda>(r, state, nd).
           case r of
             Some v \<Rightarrow> Inr (Some v, state, nd)
           | None \<Rightarrow>
               bindE (RaiseValidity (nd_pindex nd) BLOCK_VALID_SCRIPTS) (\<lambda>(raised, pindex).
                 Inr (None, state, nd\<lparr>nd_pindex := pindex, nd_x := cx_dirty X (nd_x nd)\<rparr>)))))"

definition ConnectBlock_store ::
  "('t, 'x) connect_env \<Rightarrow> 't connecting \<Rightarrow> CValidationState \<Rightarrow> ('t, 'x) node
     \<Rightarrow> ((bool \<times> CValidationState) \<times> ('t, 'x) node) res" where
  "ConnectBlock_store X n state nd =
     bindE (ConnectBlock_undo X n state nd) (\<lambda>(r, state, nd).
     case r of
       Some v \<Rightarrow> Inr (v, nd)
     | None \<Rightarrow>
         case (if cn_spends n \<noteq> [] then cx_write_spends X (cn_spends n) (nd_x nd) else (True, nd_x nd)) of
           (ok, x) \<Rightarrow>
             let nd = nd\<lparr>nd_x := x\<rparr>
             in if \<not> ok then Inr (node_AbortNode state ''Failed to record coin serials to database'' nd)
                else
                  case (if cx_txindex X then cx_write_txindex X (cn_vpos n) (nd_x nd) else (True, nd_x nd)) of
                    (ok, x) \<Rightarrow>
                      let nd = nd\<lparr>nd_x := x\<rparr>
                      in if \<not> ok then Inr (node_AbortNode state ''Failed to write transaction index'' nd)
                         else
                           let hash = phashBlock (nd_pindex nd); height = nHeight (nd_pindex nd);
                               nd = nd\<lparr>nd_c := SetBestBlock (nd_c nd) hash, nd_x := cx_write_best X hash (nd_x nd)\<rparr>
                           in bindE (NetworkUpgradeActive height (ck_params (cx_check X)) (upgrade_idx UPGRADE_ZC_V2)) (\<lambda>zc.
                                let x = nd_x nd;
                                    x = (if zc \<and> height < cx_last_checkpoint X then cx_checksum X x
                                         else if height > cx_last_checkpoint X + 100 then cx_accumulator_wipe X x else x);
                                    x = (if height = cx_last_invalid X + 100 then cx_clear_invalid X x else x)
                                in Inr ((True, state), nd\<lparr>nd_x := x\<rparr>)))"

definition ConnectBlock ::
  "'t coins_env \<Rightarrow> ('t, 'x) connect_env \<Rightarrow> CValidationState \<Rightarrow> bool \<Rightarrow> ('t, 'x) node
     \<Rightarrow> ((bool \<times> CValidationState) \<times> ('t, 'x) node) res" where
  "ConnectBlock E X state fJustCheck nd =
     bindE (CheckBlock (cx_check X) (nd_block nd) state (\<not> fJustCheck) (\<not> fJustCheck) (\<not> fJustCheck) (nd_rejected nd))
       (\<lambda>((ok, state), block, rej).
       let nd = nd\<lparr>nd_block := block, nd_rejected := rej\<rparr>
       in if \<not> ok then
            Inr (if corruptionPossible state
                 then node_AbortNode state ''Corrupt block found indicating potential hardware failure; shutting down'' nd
                 else ((False, state), nd))
          else
            bindE (ConnectBlock_before X state fJustCheck nd) (\<lambda>(r, nd).
            case r of
              Inl v \<Rightarrow> Inr (v, nd)
            | Inr (F, v6) \<Rightarrow>
                case CacheGetBestAnchor E (nd_c nd) (nd_b nd) of
                  (anchor, c, b) \<Rightarrow>
                    case CacheGetSaplingAnchorAt E c b anchor of
                      (None, c, b) \<Rightarrow> Inl (AssertFailed ''view.GetSaplingAnchorAt(view.GetBestAnchor(), sapling_tree)'')
                    | (Some tree, c, b) \<Rightarrow>
                        let blockPos = GetBlockPos (nd_pindex nd);
                            n = \<lparr>cn_c = c, cn_b = b, cn_state = state, cn_fees = 0, cn_value_in = 0, cn_value_out = 0, cn_sigops = 0,
                                 cn_undo = \<lparr>vtxundo = []\<rparr>, cn_tree = tree, cn_spends = [], cn_vpos = [],
                                 cn_pos = \<lparr>pos_nFile = pos_nFile blockPos, pos_nPos = pos_nPos blockPos,
                                   nTxOffset = of_nat (GetSizeOfCompactSize (of_nat (length (vtx (nd_block nd)))))\<rparr>, cn_checks = []\<rparr>
                        in bindE (ConnectTxs E X F (nHeight (nd_pindex nd)) (vtx (nd_block nd)) 0 n) (\<lambda>(ok, n).
                           if \<not> ok then Inr ((False, cn_state n), nd\<lparr>nd_c := cn_c n, nd_b := cn_b n\<rparr>)
                           else
                             bindE (ConnectBlock_after E X F v6 fJustCheck n nd) (\<lambda>(r, state, nd).
                             case r of Some v \<Rightarrow> Inr (v, nd) | None \<Rightarrow> ConnectBlock_store X n state nd))))"

section \<open>The transactions of a block\<close>

text \<open>What the context-free checks say of a transaction, as far as the view is concerned.\<close>

definition static_ok :: "CTransaction \<Rightarrow> bool" where
  "static_ok tx \<longleftrightarrow> length (vout tx) \<le> 2 ^ 32 \<and> (\<forall>t \<in> set (vout tx). \<not> CTxOut_IsNull t \<and> nRounds t = - 10) \<and>
     (plain_inputs tx \<longrightarrow> distinct (map prevout (vin tx))) \<and>
     (\<forall>d. sapData tx = Some d \<and> vShieldedSpend d \<noteq> [] \<longrightarrow> plain_inputs tx \<and> IsShieldedTx tx)"

lemma sorted_wrt_distinct: "sorted_wrt (\<lambda>a b. f a \<noteq> f b) xs \<Longrightarrow> distinct (map f xs)"
  by (induction xs) auto

lemma tx_valid_static:
  assumes "tx_ok tx" "tx_valid m cold tx"
  shows "static_ok tx"
proof -
  have v: "length (vout tx) \<le> unat MAX_SIZE" "\<forall>t \<in> set (vout tx). nRounds t = - 10"
    using assms(1) by (auto simp: tx_ok_def vec_ok_def list_all_iff CTxOut_ok_def)
  have "unat MAX_SIZE \<le> 2 ^ 32" using unat_lt2p [of MAX_SIZE] by (simp add: MAX_SIZE_def)
  then have "length (vout tx) \<le> 2 ^ 32" using v(1) by linarith
  moreover have "\<forall>t \<in> set (vout tx). \<not> CTxOut_IsNull t"
    using assms(2) by (auto simp: tx_valid_def output_valid_def CTxOut_IsNull_def)
  moreover have "distinct (map prevout (vin tx))" if "plain_inputs tx"
  proof -
    have "\<forall>i \<in> set (vin tx). \<not> CTxIn_IsZerocoinSpend i" using that by (auto simp: HasZerocoinSpendInputs_def list_ex_iff)
    moreover have "inputs_distinct (vin tx)" using assms(2) by (simp add: tx_valid_def)
    ultimately have "sorted_wrt (\<lambda>a b. prevout a \<noteq> prevout b) (vin tx)"
      unfolding inputs_distinct_def by (elim sorted_wrt_mono_rel [rotated]) auto
    then show ?thesis by (rule sorted_wrt_distinct)
  qed
  moreover have "plain_inputs tx \<and> IsShieldedTx tx" if "sapData tx = Some d" "vShieldedSpend d \<noteq> []" for d
  proof -
    have "hasSaplingData tx" using that by (simp add: hasSaplingData_def)
    then show ?thesis using assms(2) by (auto simp: tx_valid_def sapling_valid_def IsShieldedTx_def)
  qed
  ultimately show ?thesis using v(2) by (auto simp: static_ok_def)
qed

lemma static_applicable:
  assumes st: "static_ok tx" and fresh: "\<And>n. cs_utxo st \<lparr>op_hash = txid, op_n = n\<rparr> = None"
    and ins: "plain_inputs tx \<Longrightarrow> (\<forall>i \<in> set (vin tx). cs_utxo st (prevout i) \<noteq> None) \<and> shielded_met st tx"
  shows "applicable txid tx st"
proof -
  have sap: "plain_inputs tx \<and> IsShieldedTx tx" if "sapData tx = Some d" "vShieldedSpend d \<noteq> []" for d
    using st that by (simp add: static_ok_def)
  have outs: "length (vout tx) \<le> 2 ^ 32" "\<forall>t \<in> set (vout tx). \<not> CTxOut_IsNull t \<and> nRounds t = - 10" using st by (simp_all add: static_ok_def)
  show ?thesis
  proof (cases "plain_inputs tx")
    case True
    then have "distinct (map prevout (vin tx))" using st by (simp add: static_ok_def)
    moreover have "\<not> cs_nullifiers st (sp_nullifier s)" if "sapData tx = Some d" "s \<in> set (vShieldedSpend d)" for d s
    proof -
      have "vShieldedSpend d \<noteq> []" using that(2) by auto
      then show ?thesis using ins [OF True] sap [OF that(1)] that by (auto simp: shielded_met_def)
    qed
    ultimately show ?thesis using True ins [OF True] outs fresh by (simp add: applicable_def)
  next
    case False
    then have "sapData tx = Some d \<Longrightarrow> vShieldedSpend d = []" for d using sap by blast
    then show ?thesis unfolding applicable_def using False outs fresh by (simp only: if_False) blast
  qed
qed

lemma fresh_applied:
  assumes "\<And>n. cs_utxo st \<lparr>op_hash = h, op_n = n\<rparr> = None" "h \<noteq> txid"
  shows "cs_utxo (applied txid tx height st) \<lparr>op_hash = h, op_n = n\<rparr> = None"
proof -
  let ?p = "\<lparr>op_hash = h, op_n = n\<rparr>"
  have "outs_map txid cb cs height (vout tx) 0 ?p = None" for cb cs
    using outs_map_dom [of txid cb cs height "vout tx" 0 ?p] assms(2) by fastforce
  then show ?thesis using assms(1) [of n]
    by (auto simp: applied_def Let_def nullifiers_set_def map_add_def without_inputs_def split: option.split)
qed

lemma ConnectTx_available_at:
  assumes "at E (cn_c n) (cn_b n) st" "ConnectTx_available E X v5 height tx n = Inr (True, n')"
  shows "at E (cn_c n') (cn_b n') st" "cn_undo n' = cn_undo n" "cn_tree n' = cn_tree n"
    "plain_inputs tx \<Longrightarrow> (\<forall>i \<in> set (vin tx). cs_utxo st (prevout i) \<noteq> None) \<and> shielded_met st tx"
proof -
  obtain h1 c1 b1 where a: "HaveInputs E (cn_c n) (cn_b n) tx = (h1, c1, b1)" by (cases "HaveInputs E (cn_c n) (cn_b n) tx")
  obtain h2 c2 b2 where s: "HaveShieldedRequirements E c1 b1 tx = (h2, c2, b2)" by (cases "HaveShieldedRequirements E c1 b1 tx")
  note A = HaveInputs_at [OF assms(1) a]
  note S = HaveShieldedRequirements_at [OF A(1) s, folded shielded_met_def]
  have *: "at E (cn_c n') (cn_b n') st \<and> cn_undo n' = cn_undo n \<and> cn_tree n' = cn_tree n \<and>
    (plain_inputs tx \<longrightarrow> (\<forall>i \<in> set (vin tx). cs_utxo st (prevout i) \<noteq> None) \<and> shielded_met st tx)"
  proof (cases "(\<not> v5 \<and> HasZerocoinSpendInputs tx) \<or> IsCoinBase tx")
    case True
    then show ?thesis using assms by (auto simp: ConnectTx_available_def split: if_splits prod.splits)
  next
    case False
    then have h: "h1" "h2" using assms(2) by (auto simp: ConnectTx_available_def a s split: if_splits)
    then obtain ops c3 b3 where p: "GetP2SHSigOpCount_view (ck_host (cx_check X)) E tx c2 b2 = Inr (ops, c3, b3)"
      using assms(2) False by (auto simp: ConnectTx_available_def a s bind_simps split: if_splits)
    have "n' = n\<lparr>cn_c := c3, cn_b := b3, cn_sigops := cn_sigops n + ops\<rparr>"
      using assms(2) False h p by (auto simp: ConnectTx_available_def a s Let_def split: if_splits)
    then show ?thesis using GetP2SHSigOpCount_at [OF S(1) p] h A(2) S(2) by auto
  qed
  then show "at E (cn_c n') (cn_b n') st" "cn_undo n' = cn_undo n" "cn_tree n' = cn_tree n"
    "plain_inputs tx \<Longrightarrow> (\<forall>i \<in> set (vin tx). cs_utxo st (prevout i) \<noteq> None) \<and> shielded_met st tx" by blast+
qed

lemma ConnectTx_inputs_at:
  assumes "at E (cn_c n) (cn_b n) st" "ConnectTx_inputs E X sc cltv tx n = Inr (ok, n')"
  shows "at E (cn_c n') (cn_b n') st \<and> cn_undo n' = cn_undo n \<and> cn_tree n' = cn_tree n"
proof -
  from assms(2) obtain txValueOut where v: "GetValueOut tx = Inr txValueOut" by (auto simp: ConnectTx_inputs_def bind_simps)
  show ?thesis
  proof (cases "IsCoinBase tx")
    case True
    then show ?thesis using assms v by (auto simp: ConnectTx_inputs_def bind_simps split: if_splits)
  next
    case False
    then obtain vi c1 b1 where g: "GetValueIn E (cn_c n) (cn_b n) tx = Inr (vi, c1, b1)"
      using assms(2) v by (auto simp: ConnectTx_inputs_def bind_simps)
    obtain ok1 s1 checks c2 b2 flags where c: "CheckInputs E (cx_inputs X) tx (cn_state n) c1 b1 sc flags (cx_script_threads X) = Inr ((ok1, s1), checks, c2, b2)"
      and n': "cn_c n' = c2" "cn_b n' = b2" "cn_undo n' = cn_undo n" "cn_tree n' = cn_tree n"
      using assms(2) v g False by (auto simp: ConnectTx_inputs_def bind_simps Let_def split: if_splits)
    show ?thesis using CheckInputs_at [OF GetValueIn_at [OF assms(1) g] c] n' by simp
  qed
qed

text \<open>The undo record of a transaction and its note commitments.\<close>

definition undo_record :: "CTransaction \<Rightarrow> chainstate \<Rightarrow> CTxUndo" where
  "undo_record tx st = \<lparr>vprevout = (if plain_inputs tx then map (\<lambda>i. the (cs_utxo st (prevout i))) (vin tx) else [])\<rparr>"

lemma ConnectTx_update_at:
  assumes "at E (cn_c n) (cn_b n) st" "applicable (ck_txhash (cx_check X) tx) tx st" "SkipInvalidUTXOS X height = Inr False"
    and "ConnectTx_update E X height i tx n = Inr n'"
  shows "at E (cn_c n') (cn_b n') (applied (ck_txhash (cx_check X) tx) tx height st)"
    "vtxundo (cn_undo n') = vtxundo (cn_undo n) @ (if i > 0 then [undo_record tx st] else [])"
    "cn_tree n' = foldl (cx_append X) (cn_tree n) (note_commitments tx)"
proof -
  from UpdateCoins_at [OF assms(1,2), of "\<lparr>vprevout = []\<rparr>" height] obtain c1 b1 where
    u: "UpdateCoins E (ck_txhash (cx_check X) tx) tx (cn_c n) (cn_b n) \<lparr>vprevout = []\<rparr> height False = (None, undo_record tx st, c1, b1)"
    "at E c1 b1 (applied (ck_txhash (cx_check X) tx) tx height st)" by (auto simp: undo_record_def)
  then show "at E (cn_c n') (cn_b n') (applied (ck_txhash (cx_check X) tx) tx height st)"
    "vtxundo (cn_undo n') = vtxundo (cn_undo n) @ (if i > 0 then [undo_record tx st] else [])"
    "cn_tree n' = foldl (cx_append X) (cn_tree n) (note_commitments tx)"
    using assms(3,4) by (auto simp: ConnectTx_update_def bind_simps split: if_splits)
qed

lemma ConnectTxs_at:
  assumes "at E (cn_c n) (cn_b n) st" "ConnectTxs E X F height txs i n = Inr (True, n')"
    and "\<forall>tx \<in> set txs. static_ok tx" "distinct (map (ck_txhash (cx_check X)) txs)"
    and "\<forall>tx \<in> set txs. \<forall>k. cs_utxo st \<lparr>op_hash = ck_txhash (cx_check X) tx, op_n = k\<rparr> = None"
    and "SkipInvalidUTXOS X height = Inr False"
  shows "all_applicable (ck_txhash (cx_check X)) height txs st \<and>
    at E (cn_c n') (cn_b n') (all_applied (ck_txhash (cx_check X)) height txs st) \<and>
    vtxundo (cn_undo n') = vtxundo (cn_undo n) @ (let r = undo_records (ck_txhash (cx_check X)) height txs st in if i = 0 then tl r else r) \<and>
    cn_tree n' = foldl (cx_append X) (cn_tree n) (concat (map note_commitments txs))"
  using assms(1-5)
proof (induction txs arbitrary: n st i)
  case Nil
  then show ?case by simp
next
  case (Cons tx txs)
  let ?h = "ck_txhash (cx_check X)"
  from Cons.prems(2) obtain ops where g: "GetLegacySigOpCount (ck_host (cx_check X)) tx = Inr ops" by (auto simp: bind_simps)
  define n0 where "n0 = n\<lparr>cn_sigops := cn_sigops n + ops\<rparr>"
  have at0: "at E (cn_c n0) (cn_b n0) st" "cn_undo n0 = cn_undo n" "cn_tree n0 = cn_tree n" using Cons.prems(1) by (simp_all add: n0_def)
  from Cons.prems(2) g obtain n1 n2 n3 where
    s: "ConnectTx_available E X (cf_v5 F) height tx n0 = Inr (True, n1)"
    "ConnectTx_inputs E X (cf_scripts F) (cf_cltv F) tx n1 = Inr (True, n2)"
    "ConnectTx_update E X height i tx n2 = Inr n3" "ConnectTxs E X F height txs (Suc i) n3 = Inr (True, n')"
    by (auto simp: bind_simps n0_def Let_def split: if_splits)
  note A = ConnectTx_available_at [OF at0(1) s(1)]
  note I = ConnectTx_inputs_at [OF A(1) s(2)]
  have app: "applicable (?h tx) tx st"
    using Cons.prems(3,5) A(4) by (intro static_applicable) auto
  note U = ConnectTx_update_at [OF conjunct1 [OF I] app assms(6) s(3)]
  have "\<forall>t \<in> set txs. \<forall>k. cs_utxo (applied (?h tx) tx height st) \<lparr>op_hash = ?h t, op_n = k\<rparr> = None"
  proof (intro ballI allI fresh_applied)
    fix t k assume t: "t \<in> set txs"
    then show "cs_utxo st \<lparr>op_hash = ?h t, op_n = k\<rparr> = None" for k using Cons.prems(5) by simp
    show "?h t \<noteq> ?h tx" using Cons.prems(4) t by (force simp: image_iff)
  qed
  from Cons.IH [OF U(1) s(4) _ _ this] Cons.prems(3,4) app U(2,3) A(2,3) I at0(2,3) show ?case
    by (auto simp: Let_def undo_record_def)
qed

section \<open>The stages of ConnectBlock\<close>

lemma ConnectBlock_before_at:
  assumes "at E (nd_c nd) (nd_b nd) st" "ConnectBlock_before X state False nd = Inr (Inr (F, v6), nd1)"
  shows "at E (nd_c nd1) (nd_b nd1) st" "\<exists>c b. nd1 = nd\<lparr>nd_c := c, nd_b := b\<rparr>"
    "pprev (nd_pindex nd) \<noteq> None \<Longrightarrow> \<exists>prev. deref (ck_index (cx_check X)) (pprev (nd_pindex nd)) = Inr prev \<and> phashBlock prev = cs_block st"
proof -
  obtain best c b where g: "CacheGetBestBlock (nd_c nd) (nd_b nd) = (best, c, b)" by (cases "CacheGetBestBlock (nd_c nd) (nd_b nd)")
  note G = GetBestBlock_at [OF assms(1) g]
  obtain hashPrev where h: "(if pprev (nd_pindex nd) = None then Inr UINT256_ZERO
      else bindE (deref (ck_index (cx_check X)) (pprev (nd_pindex nd))) (\<lambda>prev. Inr (phashBlock prev))) = Inr hashPrev"
    using assms(2) by (auto simp: ConnectBlock_before_def bind_simps Let_def)
  have e: "hashPrev = best"
    using assms(2) unfolding ConnectBlock_before_def Let_def h bindE_Inr g by (auto split: if_splits)
  have n: "nd1 = nd\<lparr>nd_c := c, nd_b := b\<rparr>"
    using assms(2) e unfolding ConnectBlock_before_def Let_def h bindE_Inr g
    by (auto simp: bind_simps split: if_splits prod.splits)
  show "at E (nd_c nd1) (nd_b nd1) st" "\<exists>c b. nd1 = nd\<lparr>nd_c := c, nd_b := b\<rparr>" using n G(1) by auto
  show "\<exists>prev. deref (ck_index (cx_check X)) (pprev (nd_pindex nd)) = Inr prev \<and> phashBlock prev = cs_block st" if "pprev (nd_pindex nd) \<noteq> None"
    using h that e G(2) by (auto simp: bind_simps)
qed

text \<open>The chain state once the tree of the block is its best anchor.\<close>

definition anchored :: "'t coins_env \<Rightarrow> bytes \<Rightarrow> chainstate \<Rightarrow> chainstate" where
  "anchored E root st = (if cs_anchor st = root then st else st\<lparr>cs_anchors := (cs_anchors st)(root := True), cs_anchor := root\<rparr>)"

lemma ConnectBlock_after_at:
  assumes "at E (cn_c n) (cn_b n) st" "ConnectBlock_after E X F v6 False n nd = Inr (None, state, nd2)"
    and "\<not> base_blob_IsNull (env_root E (cn_tree n))"
  shows "at E (nd_c nd2) (nd_b nd2) (anchored E (env_root E (cn_tree n)) st)" "nd_pindex nd2 = nd_pindex nd" "nd_files nd2 = nd_files nd" "nd_block nd2 = nd_block nd"
proof -
  obtain c b where p: "PushAnchor E (cn_c n) (cn_b n) (cn_tree n) = (c, b)" by (cases "PushAnchor E (cn_c n) (cn_b n) (cn_tree n)")
  have "\<exists>x. nd2 = nd\<lparr>nd_c := c, nd_b := b, nd_x := x\<rparr>"
    using assms(2) unfolding ConnectBlock_after_def Let_def p
    by (auto simp: bind_simps split: if_splits prod.splits)
  then show "at E (nd_c nd2) (nd_b nd2) (anchored E (env_root E (cn_tree n)) st)" "nd_pindex nd2 = nd_pindex nd" "nd_files nd2 = nd_files nd" "nd_block nd2 = nd_block nd"
    using PushAnchor_at [OF assms(1,3) p] by (auto simp: anchored_def)
qed

text \<open>Raising the validity of an index entry leaves its place on disk.\<close>

lemma RaiseValidity_keeps:
  assumes "RaiseValidity b BLOCK_VALID_SCRIPTS = Inr (r, b')"
  shows "GetUndoPos b' = GetUndoPos b" "phashBlock b' = phashBlock b" "nHeight b' = nHeight b" "pprev b' = pprev b"
proof -
  have "((x AND NOT BLOCK_VALID_MASK) OR BLOCK_VALID_SCRIPTS) AND BLOCK_HAVE_UNDO = x AND BLOCK_HAVE_UNDO" for x
  proof -
    have "((x AND NOT BLOCK_VALID_MASK) OR BLOCK_VALID_SCRIPTS) AND BLOCK_HAVE_UNDO =
      (x AND (NOT BLOCK_VALID_MASK AND BLOCK_HAVE_UNDO)) OR (BLOCK_VALID_SCRIPTS AND BLOCK_HAVE_UNDO)"
      by (rule bit_word_eqI) (auto simp: bit_simps)
    then show ?thesis by (simp add: BLOCK_VALID_MASK_def BLOCK_VALID_SCRIPTS_def BLOCK_HAVE_UNDO_def)
  qed
  then show "GetUndoPos b' = GetUndoPos b" "phashBlock b' = phashBlock b" "nHeight b' = nHeight b" "pprev b' = pprev b"
    using assms by (auto simp: RaiseValidity_def GetUndoPos_def split: if_splits)
qed

lemma ConnectBlock_undo_at:
  assumes "ConnectBlock_undo X n state nd = Inr (None, state', nd')" "FlatFilePos_IsNull (GetUndoPos (nd_pindex nd))"
    and files: "files_inv (nd_files nd)" "disk_ok (cx_disk X)" "undo_fits (cx_disk X) (cx_avail X) (cn_undo n) (nd_pindex nd) (nd_files nd)"
  obtains prev where "deref (ck_index (cx_check X)) (pprev (nd_pindex nd)) = Inr prev"
    "undo_at (cx_disk X) (nd_files nd') (GetUndoPos (nd_pindex nd')) (phashBlock prev) (cn_undo n)"
    "holds_all (nd_files nd) (nd_files nd')" "\<not> FlatFilePos_IsNull (GetUndoPos (nd_pindex nd'))"
    "nd_c nd' = nd_c nd" "nd_b nd' = nd_b nd" "phashBlock (nd_pindex nd') = phashBlock (nd_pindex nd)"
    "nHeight (nd_pindex nd') = nHeight (nd_pindex nd)" "pprev (nd_pindex nd') = pprev (nd_pindex nd)" "nd_block nd' = nd_block nd"
proof -
  let ?p = "nd_pindex nd"
  from assms(1,2) obtain prev where prev: "deref (ck_index (cx_check X)) (pprev ?p) = Inr prev"
    by (auto simp: ConnectBlock_undo_def bind_simps Let_def)
  from write_undo_stores [OF files(1,3,2), of state "phashBlock prev"] obtain p1 B where
    w: "ConnectBlock_write_undo (cx_disk X) (cx_avail X) state (cn_undo n) (phashBlock prev) ?p (nd_files nd) = Inr ((True, state), p1, B)"
    and u: "holds_all (nd_files nd) B" "undo_at (cx_disk X) B (GetUndoPos p1) (phashBlock prev) (cn_undo n)"
    and p1: "p1 = ?p\<lparr>nUndoPos := nUndoPos p1, nStatus := nStatus ?p OR BLOCK_HAVE_UNDO\<rparr>" by blast
  from assms(1,2) prev w obtain r p2 where v: "RaiseValidity p1 BLOCK_VALID_SCRIPTS = Inr (r, p2)"
    and nd': "nd' = nd\<lparr>nd_pindex := p2, nd_files := B, nd_x := cx_dirty X (nd_x nd)\<rparr>"
    by (auto simp: ConnectBlock_undo_def bind_simps Let_def)
  note k = RaiseValidity_keeps [OF v]
  have p1': "phashBlock p1 = phashBlock ?p" "nHeight p1 = nHeight ?p" "pprev p1 = pprev ?p" "nFile p1 = nFile ?p"
    "nStatus p1 = nStatus ?p OR BLOCK_HAVE_UNDO"
    by (subst p1, simp)+
  have "bit (nStatus p1 AND BLOCK_HAVE_UNDO) 4" unfolding p1' by (simp add: BLOCK_HAVE_UNDO_def bit_simps)
  then have "nStatus p1 AND BLOCK_HAVE_UNDO \<noteq> 0" by fastforce
  moreover have "0 \<le> nFile p1" using files(3) p1'(4) by (simp add: undo_fits_def Let_def)
  ultimately have "\<not> FlatFilePos_IsNull (GetUndoPos p1)" by (auto simp: GetUndoPos_def FlatFilePos_IsNull_def)
  then show thesis using that [OF prev] u k p1' nd' by simp
qed

lemma ConnectBlock_store_at:
  assumes "ConnectBlock_store X n state nd = Inr ((True, state'), nd')" "FlatFilePos_IsNull (GetUndoPos (nd_pindex nd))"
    and files: "files_inv (nd_files nd)" "disk_ok (cx_disk X)" "undo_fits (cx_disk X) (cx_avail X) (cn_undo n) (nd_pindex nd) (nd_files nd)"
    and view: "at E (nd_c nd) (nd_b nd) st" "\<not> base_blob_IsNull (phashBlock (nd_pindex nd))"
  obtains prev where "deref (ck_index (cx_check X)) (pprev (nd_pindex nd)) = Inr prev"
    "undo_at (cx_disk X) (nd_files nd') (GetUndoPos (nd_pindex nd')) (phashBlock prev) (cn_undo n)"
    "holds_all (nd_files nd) (nd_files nd')" "\<not> FlatFilePos_IsNull (GetUndoPos (nd_pindex nd'))"
    "at E (nd_c nd') (nd_b nd') (st\<lparr>cs_block := phashBlock (nd_pindex nd)\<rparr>)" "phashBlock (nd_pindex nd') = phashBlock (nd_pindex nd)"
    "nHeight (nd_pindex nd') = nHeight (nd_pindex nd)" "pprev (nd_pindex nd') = pprev (nd_pindex nd)" "nd_block nd' = nd_block nd"
proof -
  obtain r s nd1 where u: "ConnectBlock_undo X n state nd = Inr (r, s, nd1)"
    using assms(1) by (auto simp: ConnectBlock_store_def bind_simps)
  have "r = None"
  proof (cases r)
    case (Some v)
    then have "v = (True, state')" using assms(1) u by (simp add: ConnectBlock_store_def)
    then show ?thesis using u Some by (auto simp: ConnectBlock_undo_def bind_simps Let_def split: if_splits option.splits)
  qed
  note u' = u [unfolded this]
  obtain x where nd': "nd' = nd1\<lparr>nd_c := SetBestBlock (nd_c nd1) (phashBlock (nd_pindex nd1)), nd_x := x\<rparr>"
    using assms(1) unfolding ConnectBlock_store_def u' bindE_Inr
    by (auto simp: bind_simps Let_def node_AbortNode_def AbortNode_def CValidationState_Error_def split: if_splits prod.splits)
  obtain prev where a: "deref (ck_index (cx_check X)) (pprev (nd_pindex nd)) = Inr prev"
      "undo_at (cx_disk X) (nd_files nd1) (GetUndoPos (nd_pindex nd1)) (phashBlock prev) (cn_undo n)"
      "holds_all (nd_files nd) (nd_files nd1)" "\<not> FlatFilePos_IsNull (GetUndoPos (nd_pindex nd1))"
      "nd_c nd1 = nd_c nd" "nd_b nd1 = nd_b nd" "phashBlock (nd_pindex nd1) = phashBlock (nd_pindex nd)"
      "nHeight (nd_pindex nd1) = nHeight (nd_pindex nd)" "pprev (nd_pindex nd1) = pprev (nd_pindex nd)" "nd_block nd1 = nd_block nd"
    by (rule ConnectBlock_undo_at [OF u' assms(2) files])
  show thesis using that [OF a(1)] a(2-) SetBestBlock_at [OF view] by (simp add: nd')
qed

text \<open>The tree that the block starts from.\<close>

lemma sapling_tree_at:
  assumes "at E c b st" "CacheGetBestAnchor E c b = (anchor, c1, b1)" "CacheGetSaplingAnchorAt E c1 b1 anchor = (Some tree, c2, b2)"
  shows "at E c2 b2 st" "env_root E tree = cs_anchor st"
proof -
  have "reads E (c, b) (c1, b1)" "anchor = cs_anchor st"
    using GetBestAnchor_reads(2) [OF at_inv(1) [OF assms(1)] assms(2)] assms(1) by (auto simp: at_def simp del: folded_views)
  note 1 = at_reads [OF assms(1) this(1)] this(2)
  show "at E c2 b2 st" "env_root E tree = cs_anchor st"
    using GetSaplingAnchorAt_reads(2) [OF at_inv(1) [OF 1(1)] assms(3)] at_reads [OF 1(1)] 1(2) by auto
qed

text \<open>What makes a block and an index entry fit for \<open>ConnectBlock\<close>: the block as it comes from the wire or the disk.\<close>

definition connectable :: "('t, 'x) connect_env \<Rightarrow> CValidationState \<Rightarrow> CBlock \<Rightarrow> bool" where
  "connectable X state b \<longleftrightarrow> \<not> fChecked b \<and> block_ok b \<and> length (block_enc b) < 2 ^ 32 \<and> ck_nMaxMoneyOut (cx_check X) \<le> 2 ^ 61 \<and>
     (\<forall>tx st. ck_special (cx_check X) tx state = (True, st) \<longrightarrow> st = state) \<and>
     (if hd_nVersion b < 4 then ck_quark (cx_check X) else ck_digest (cx_check X)) (header_enc b) \<noteq> hashGenesisBlock (ck_params (cx_check X))"

lemma CheckBlock_static:
  assumes "CheckBlock (cx_check X) b state pow merkle sig rej = Inr ((True, st), b', rej')" "connectable X state b"
  shows "\<forall>tx \<in> set (vtx b). static_ok tx" "st = state" "vtx b' = vtx b" "\<exists>cb rest. vtx b = cb # rest \<and> IsCoinBase cb"
    "CBlockHeader_GetHash (ck_host (cx_check X)) (ck_quark (cx_check X)) (ck_digest (cx_check X)) b' \<noteq> Inr (hashGenesisBlock (ck_params (cx_check X)))"
proof -
  note C = assms(2) [unfolded connectable_def]
  have "\<not> fChecked b" "block_ok b" "length (block_enc b) < 2 ^ 32" "ck_nMaxMoneyOut (cx_check X) \<le> 2 ^ 61"
    "\<And>tx st. ck_special (cx_check X) tx state = (True, st) \<Longrightarrow> st = state" using C by blast+
  then obtain cold where h: "header_rules (cx_check X) pow merkle b" "block_txs_valid (cx_check X) cold state b" "st = state"
    "b' = (if pow \<and> merkle \<and> sig then b\<lparr>fChecked := True\<rparr> else b)"
    by (rule CheckBlock_accepts [OF assms(1)])
  have "\<forall>tx \<in> set (vtx b). tx_ok tx" using C by (simp add: block_ok_def vec_ok_def list_all_iff)
  then show "\<forall>tx \<in> set (vtx b). static_ok tx" using h(2) tx_valid_static by (auto simp: block_txs_valid_def)
  show "st = state" "vtx b' = vtx b" "\<exists>cb rest. vtx b = cb # rest \<and> IsCoinBase cb"
    using h by (auto simp: header_rules_def block_shape_def)
  have "header_ok b'" "header_enc b' = header_enc b" "hd_nVersion b' = hd_nVersion b"
    using C unfolding h(4) by (simp_all add: block_ok_def header_ok_def header_enc_def)
  then show "CBlockHeader_GetHash (ck_host (cx_check X)) (ck_quark (cx_check X)) (ck_digest (cx_check X)) b' \<noteq> Inr (hashGenesisBlock (ck_params (cx_check X)))"
    using C by (simp add: GetHash_header_enc split: if_splits)
qed

text \<open>Neither group of checks accepts the block by itself.\<close>

lemma DoS_refuses [simp]: "\<not> fst (DoS state l False code reason possible msg)"
  by (simp add: DoS_def Let_def)

lemma node_AbortNode_refuses: "node_AbortNode state msg nd = ((ok, state'), nd') \<Longrightarrow> \<not> ok"
  by (auto simp: node_AbortNode_def AbortNode_def CValidationState_Error_def Let_def)

lemma ConnectBlock_before_refuses:
  assumes "ConnectBlock_before X state False nd = Inr (Inl v, nd1)"
    and "CBlockHeader_GetHash (ck_host (cx_check X)) (ck_quark (cx_check X)) (ck_digest (cx_check X)) (nd_block nd) \<noteq> Inr (hashGenesisBlock (ck_params (cx_check X)))"
  shows "\<not> fst v"
proof -
  obtain best c b where g: "CacheGetBestBlock (nd_c nd) (nd_b nd) = (best, c, b)" by (cases "CacheGetBestBlock (nd_c nd) (nd_b nd)")
  let ?nd = "nd\<lparr>nd_c := c, nd_b := b\<rparr>"
  obtain ok s nd2 where a: "node_AbortNode state ''Found EvoDB inconsistency, you must reindex to continue'' ?nd = ((ok, s), nd2)"
    by (metis prod.exhaust)
  obtain hashPrev where h: "(if pprev (nd_pindex nd) = None then Inr UINT256_ZERO
      else bindE (deref (ck_index (cx_check X)) (pprev (nd_pindex nd))) (\<lambda>prev. Inr (phashBlock prev))) = Inr hashPrev"
    using assms(1) by (auto simp: ConnectBlock_before_def bind_simps Let_def)
  show ?thesis
    using assms node_AbortNode_refuses [OF a] unfolding ConnectBlock_before_def Let_def h bindE_Inr g prod.case a
    by (auto simp: bind_simps split: if_splits)
qed

lemma ConnectBlock_after_refuses:
  assumes "ConnectBlock_after E X F v6 False n nd = Inr (Some v, state, nd1)"
  shows "\<not> fst v"
proof -
  obtain c b where p: "PushAnchor E (cn_c n) (cn_b n) (cn_tree n) = (c, b)" by (cases "PushAnchor E (cn_c n) (cn_b n) (cn_tree n)")
  obtain ok s where v: "cx_coinbase_value_valid X (vtx (nd_block nd) ! 0) 0 (cn_state n) = (ok, s)"
    by (cases "cx_coinbase_value_valid X (vtx (nd_block nd) ! 0) 0 (cn_state n)")
  show ?thesis using assms unfolding ConnectBlock_after_def Let_def p v
    by (auto simp: bind_simps split: if_splits prod.splits)
qed

text \<open>An accepted block has gone through all stages.\<close>

lemma ConnectBlock_stages:
  assumes "ConnectBlock E X state False nd = Inr ((True, state'), nd')" "connectable X state (nd_block nd)"
  obtains block rej F v6 nd1 anchor c b tree c1 b1 n0 n state1 nd2 where
    "CheckBlock (cx_check X) (nd_block nd) state True True True (nd_rejected nd) = Inr ((True, state), block, rej)"
    "ConnectBlock_before X state False (nd\<lparr>nd_block := block, nd_rejected := rej\<rparr>) = Inr (Inr (F, v6), nd1)"
    "CacheGetBestAnchor E (nd_c nd1) (nd_b nd1) = (anchor, c, b)" "CacheGetSaplingAnchorAt E c b anchor = (Some tree, c1, b1)"
    "ConnectTxs E X F (nHeight (nd_pindex nd1)) (vtx (nd_block nd1)) 0 n0 = Inr (True, n)"
    "cn_c n0 = c1" "cn_b n0 = b1" "cn_undo n0 = \<lparr>vtxundo = []\<rparr>" "cn_tree n0 = tree"
    "ConnectBlock_after E X F v6 False n nd1 = Inr (None, state1, nd2)" "ConnectBlock_store X n state1 nd2 = Inr ((True, state'), nd')"
proof -
  obtain ok s1 block rej where c: "CheckBlock (cx_check X) (nd_block nd) state True True True (nd_rejected nd) = Inr ((ok, s1), block, rej)"
    using assms(1) by (auto simp: ConnectBlock_def bind_simps)
  have ok: "ok = True"
  proof (rule ccontr)
    assume "ok \<noteq> True"
    then show False using assms(1) c by (auto simp: ConnectBlock_def Let_def dest: node_AbortNode_refuses split: if_splits)
  qed
  note C = CheckBlock_static [OF c [unfolded ok] assms(2)]
  obtain r nd1 where p: "ConnectBlock_before X state False (nd\<lparr>nd_block := block, nd_rejected := rej\<rparr>) = Inr (r, nd1)"
    using assms(1) c ok C(2) by (auto simp: ConnectBlock_def bind_simps Let_def)
  obtain F v6 where r: "r = Inr (F, v6)"
  proof (cases r)
    case (Inl v)
    then have "v = (True, state')" using assms(1) c ok C(2) p by (simp add: ConnectBlock_def Let_def)
    then show thesis using ConnectBlock_before_refuses [OF p [unfolded Inl]] C(5) by simp
  qed auto
  obtain anchor c b where a: "CacheGetBestAnchor E (nd_c nd1) (nd_b nd1) = (anchor, c, b)" by (cases "CacheGetBestAnchor E (nd_c nd1) (nd_b nd1)")
  obtain t c1 b1 where t: "CacheGetSaplingAnchorAt E c b anchor = (t, c1, b1)" by (cases "CacheGetSaplingAnchorAt E c b anchor")
  note run = assms(1) [unfolded ConnectBlock_def, simplified c ok C(2) p r a t Let_def bindE_Inr not_True_eq_False if_False sum.case prod.case simp_thms]
  obtain tree where tree: "t = Some tree" using run by (cases t) auto
  define n0 where "n0 = \<lparr>cn_c = c1, cn_b = b1, cn_state = state, cn_fees = 0, cn_value_in = 0, cn_value_out = 0, cn_sigops = 0,
    cn_undo = \<lparr>vtxundo = []\<rparr>, cn_tree = tree, cn_spends = [], cn_vpos = [],
    cn_pos = \<lparr>pos_nFile = pos_nFile (GetBlockPos (nd_pindex nd1)), pos_nPos = pos_nPos (GetBlockPos (nd_pindex nd1)),
      nTxOffset = of_nat (GetSizeOfCompactSize (of_nat (length (vtx (nd_block nd1)))))\<rparr>, cn_checks = []\<rparr>"
  have n0: "cn_c n0 = c1" "cn_b n0 = b1" "cn_undo n0 = \<lparr>vtxundo = []\<rparr>" "cn_tree n0 = tree" by (simp_all add: n0_def)
  note run1 = run [unfolded tree option.case, folded n0_def]
  obtain n where loop: "ConnectTxs E X F (nHeight (nd_pindex nd1)) (vtx (nd_block nd1)) 0 n0 = Inr (True, n)"
    using run1 by (auto simp: bind_simps split: if_splits)
  then have later: "bindE (ConnectBlock_after E X F v6 False n nd1) (\<lambda>(r, state, nd).
      case r of Some v \<Rightarrow> Inr (v, nd) | None \<Rightarrow> ConnectBlock_store X n state nd) = Inr ((True, state'), nd')"
    using run1 by simp
  then obtain r2 state1 nd2 where after: "ConnectBlock_after E X F v6 False n nd1 = Inr (r2, state1, nd2)" by (auto simp: bind_simps)
  have "r2 = None"
    using ConnectBlock_after_refuses [of E X F v6 n nd1 _ state1 nd2] after later by (cases r2) auto
  then show thesis using that c ok C(2) p r a t tree loop n0 after later by auto
qed

section \<open>The whole block\<close>

definition final_root :: "'t coins_env \<Rightarrow> ('t, 'x) connect_env \<Rightarrow> CTransaction list \<Rightarrow> 't \<Rightarrow> bytes" where
  "final_root E X txs tree = env_root E (foldl (cx_append X) tree (concat (map note_commitments txs)))"

lemma anchored_connected:
  "(anchored E root (all_applied hash height txs st))\<lparr>cs_block := h\<rparr> = connected E hash height txs root h st"
  by (simp add: anchored_def connected_def with_tip_def all_applied_tip Let_def)

lemma ConnectBlock_connects:
  fixes nd :: "('t, 'x) node"
  defines "txs \<equiv> vtx (nd_block nd)" and "height \<equiv> nHeight (nd_pindex nd)" and "p \<equiv> nd_pindex nd"
  assumes run: "ConnectBlock E X state False nd = Inr ((True, state'), nd')"
    and b: "connectable X state (nd_block nd)" and view: "at E (nd_c nd) (nd_b nd) st"
    and txs: "distinct (map (ck_txhash (cx_check X)) txs)"
      "\<forall>tx \<in> set txs. \<forall>k. cs_utxo st \<lparr>op_hash = ck_txhash (cx_check X) tx, op_n = k\<rparr> = None"
      "SkipInvalidUTXOS X height = Inr False"
    and root: "\<And>tree. env_root E tree = cs_anchor st \<Longrightarrow> \<not> base_blob_IsNull (final_root E X txs tree)"
    and idx: "\<not> base_blob_IsNull (phashBlock p)" "FlatFilePos_IsNull (GetUndoPos p)"
    and files: "files_inv (nd_files nd)" "disk_ok (cx_disk X)"
      "undo_fits (cx_disk X) (cx_avail X) \<lparr>vtxundo = tl (undo_records (ck_txhash (cx_check X)) height txs st)\<rparr> p (nd_files nd)"
  obtains tree prev cb rest where "env_root E tree = cs_anchor st"
    "all_applicable (ck_txhash (cx_check X)) height txs st" "vtx (nd_block nd') = txs" "txs = cb # rest" "IsCoinBase cb"
    "at E (nd_c nd') (nd_b nd') (connected E (ck_txhash (cx_check X)) height txs (final_root E X txs tree) (phashBlock p) st)"
    "deref (ck_index (cx_check X)) (pprev p) = Inr prev" "phashBlock prev = cs_block st"
    "undo_at (cx_disk X) (nd_files nd') (GetUndoPos (nd_pindex nd')) (phashBlock prev) \<lparr>vtxundo = tl (undo_records (ck_txhash (cx_check X)) height txs st)\<rparr>"
    "holds_all (nd_files nd) (nd_files nd')" "\<not> FlatFilePos_IsNull (GetUndoPos (nd_pindex nd'))"
    "phashBlock (nd_pindex nd') = phashBlock p" "nHeight (nd_pindex nd') = height" "pprev (nd_pindex nd') = pprev p"
proof -
  let ?h = "ck_txhash (cx_check X)"
  from ConnectBlock_stages [OF run b] obtain block rej F v6 nd1 anchor c b' tree c1 b1 n0 n state1 nd2 where
    s: "CheckBlock (cx_check X) (nd_block nd) state True True True (nd_rejected nd) = Inr ((True, state), block, rej)"
      "ConnectBlock_before X state False (nd\<lparr>nd_block := block, nd_rejected := rej\<rparr>) = Inr (Inr (F, v6), nd1)"
      "CacheGetBestAnchor E (nd_c nd1) (nd_b nd1) = (anchor, c, b')" "CacheGetSaplingAnchorAt E c b' anchor = (Some tree, c1, b1)"
      "ConnectTxs E X F (nHeight (nd_pindex nd1)) (vtx (nd_block nd1)) 0 n0 = Inr (True, n)"
    and n0: "cn_c n0 = c1" "cn_b n0 = b1" "cn_undo n0 = \<lparr>vtxundo = []\<rparr>" "cn_tree n0 = tree"
    and r: "ConnectBlock_after E X F v6 False n nd1 = Inr (None, state1, nd2)" "ConnectBlock_store X n state1 nd2 = Inr ((True, state'), nd')" .
  note C = CheckBlock_static [OF s(1) b]
  obtain cb rest where shape: "txs = cb # rest" "IsCoinBase cb" using C(4) by (auto simp: txs_def)
  have at0: "at E (nd_c (nd\<lparr>nd_block := block, nd_rejected := rej\<rparr>)) (nd_b (nd\<lparr>nd_block := block, nd_rejected := rej\<rparr>)) st" using view by simp
  note P = ConnectBlock_before_at [OF at0 s(2)]
  have nd1: "nd_pindex nd1 = p" "nd_files nd1 = nd_files nd" "vtx (nd_block nd1) = txs"
    using P(2) C(3) by (auto simp: p_def txs_def)
  note T = sapling_tree_at [OF P(1) s(3,4)]
  have "at E (cn_c n0) (cn_b n0) st" using T(1) n0 by simp
  from ConnectTxs_at [OF this s(5) [unfolded nd1, folded p_def] _ txs(1)] 
  have L: "all_applicable ?h height txs st" "at E (cn_c n) (cn_b n) (all_applied ?h height txs st)"
    "cn_undo n = \<lparr>vtxundo = tl (undo_records ?h height txs st)\<rparr>" "env_root E (cn_tree n) = final_root E X txs tree"
    using C(1) txs(2,3) n0 by (auto simp: height_def p_def txs_def final_root_def)
  note A = ConnectBlock_after_at [OF L(2) r(1)]
  have A': "at E (nd_c nd2) (nd_b nd2) (anchored E (final_root E X txs tree) (all_applied ?h height txs st))" "nd_pindex nd2 = p"
    "nd_files nd2 = nd_files nd" "vtx (nd_block nd2) = txs"
    using A root [OF T(2)] L(4) nd1 by simp_all
  obtain prev where S: "deref (ck_index (cx_check X)) (pprev p) = Inr prev"
    "undo_at (cx_disk X) (nd_files nd') (GetUndoPos (nd_pindex nd')) (phashBlock prev) (cn_undo n)"
    "holds_all (nd_files nd2) (nd_files nd')" "\<not> FlatFilePos_IsNull (GetUndoPos (nd_pindex nd'))"
    "at E (nd_c nd') (nd_b nd') ((anchored E (final_root E X txs tree) (all_applied ?h height txs st))\<lparr>cs_block := phashBlock p\<rparr>)"
    "phashBlock (nd_pindex nd') = phashBlock p" "nHeight (nd_pindex nd') = height" "pprev (nd_pindex nd') = pprev p" "nd_block nd' = nd_block nd2"
    using ConnectBlock_store_at [OF r(2) _ _ _ _ A'(1)] idx files A' L(3) by (auto simp: height_def p_def)
  have "phashBlock prev = cs_block st" using P(3) S(1) by (cases "pprev p") (auto simp: p_def deref_def)
  then show thesis using that [OF T(2) L(1) _ shape _ S(1)] S(2-) A' L(3) by (simp add: anchored_connected)
qed

section \<open>Properties\<close>

text \<open>
  Property C5.  A block that \<open>ConnectBlock\<close> accepts has been applied: every transaction's inputs were there
  when its turn came, the view stands for the old chain state with the block's transactions applied in
  order, the new note commitment tree as best anchor and the block as tip, and the undo file holds the coins
  the block has spent under the position that the index entry now names.  Every record of the block and undo files is kept.  The
  hypotheses: the block is as it comes from the wire or the disk and is not the genesis block, its
  transactions have new and different hashes, the tree's root is not zero, there is room for the undo data.
\<close>

theorem ConnectBlock_applies:
  assumes run: "ConnectBlock E X state False nd = Inr ((True, state'), nd')"
    and b: "connectable X state (nd_block nd)" and view: "at E (nd_c nd) (nd_b nd) st"
    and "txs = vtx (nd_block nd)" "height = nHeight (nd_pindex nd)" "hash = ck_txhash (cx_check X)"
    and txs: "distinct (map hash txs)" "\<forall>tx \<in> set txs. \<forall>k. cs_utxo st \<lparr>op_hash = hash tx, op_n = k\<rparr> = None"
      "SkipInvalidUTXOS X height = Inr False"
    and root: "\<And>tree. env_root E tree = cs_anchor st \<Longrightarrow> \<not> base_blob_IsNull (final_root E X txs tree)"
    and idx: "\<not> base_blob_IsNull (phashBlock (nd_pindex nd))" "FlatFilePos_IsNull (GetUndoPos (nd_pindex nd))"
    and "undo = \<lparr>vtxundo = tl (undo_records hash height txs st)\<rparr>"
    and files: "files_inv (nd_files nd)" "disk_ok (cx_disk X)" "undo_fits (cx_disk X) (cx_avail X) undo (nd_pindex nd) (nd_files nd)"
  shows "\<exists>tree. env_root E tree = cs_anchor st \<and> all_applicable hash height txs st \<and>
      at E (nd_c nd') (nd_b nd') (connected E hash height txs (final_root E X txs tree) (phashBlock (nd_pindex nd)) st) \<and>
    UndoReadFromDisk (cx_disk X) (bf_rev (nd_files nd')) (GetUndoPos (nd_pindex nd')) (cs_block st) = Some undo \<and>
    holds_all (nd_files nd) (nd_files nd')"
proof -
  note eqs = assms(4-6) assms(13)
  obtain tree q cb rest where r: "env_root E tree = cs_anchor st" "all_applicable hash height txs st"
    "vtx (nd_block nd') = txs" "txs = cb # rest" "IsCoinBase cb"
    "at E (nd_c nd') (nd_b nd') (connected E hash height txs (final_root E X txs tree) (phashBlock (nd_pindex nd)) st)"
    "deref (ck_index (cx_check X)) (pprev (nd_pindex nd)) = Inr q" "phashBlock q = cs_block st"
    "undo_at (cx_disk X) (nd_files nd') (GetUndoPos (nd_pindex nd')) (phashBlock q) undo"
    "holds_all (nd_files nd) (nd_files nd')" "\<not> FlatFilePos_IsNull (GetUndoPos (nd_pindex nd'))"
    "phashBlock (nd_pindex nd') = phashBlock (nd_pindex nd)" "nHeight (nd_pindex nd') = height" "pprev (nd_pindex nd') = pprev (nd_pindex nd)"
    unfolding eqs by (rule ConnectBlock_connects [OF run b view txs [unfolded eqs] root [unfolded eqs] idx files [unfolded eqs]])
  have "blockundo_ok undo" "files_inv (nd_files nd')" using files(3) r(10) by (simp_all add: undo_fits_def holds_all_def Let_def)
  from undo_at_readable [OF r(9) this(2,1) files(2)] r(1,2,6,8,10) show ?thesis by auto
qed

text \<open>
  Property C1.  \<open>DisconnectBlock\<close> is the inverse of \<open>ConnectBlock\<close>: after a block has been connected,
  disconnecting it with the undo data read back from the undo file is clean and leaves the view standing for
  exactly the chain state before the block: coins with their heights and flags, nullifiers, anchors, best
  anchor and best block.  Besides the hypotheses for connecting, the previous index entry names the previous best anchor,
  the block's root is the old one or a new one, and the other subsystems agree to the disconnection.
\<close>

theorem ConnectBlock_DisconnectBlock:
  assumes run: "ConnectBlock E X state False nd = Inr ((True, state'), nd')"
    and b: "connectable X state (nd_block nd)" and view: "at E (nd_c nd) (nd_b nd) st"
    and "txs = vtx (nd_block nd)" "height = nHeight (nd_pindex nd)" "hash = ck_txhash (cx_check X)"
    and txs: "distinct (map hash txs)" "\<forall>tx \<in> set txs. \<forall>k. cs_utxo st \<lparr>op_hash = hash tx, op_n = k\<rparr> = None"
      "SkipInvalidUTXOS X height = Inr False"
    and root: "\<And>tree. env_root E tree = cs_anchor st \<Longrightarrow> \<not> base_blob_IsNull (final_root E X txs tree) \<and>
      (final_root E X txs tree = cs_anchor st \<or> \<not> cs_anchors st (final_root E X txs tree) \<and> final_root E X txs tree \<noteq> env_empty_root E)"
    and idx: "\<not> base_blob_IsNull (phashBlock (nd_pindex nd))" "FlatFilePos_IsNull (GetUndoPos (nd_pindex nd))"
    and "undo = \<lparr>vtxundo = tl (undo_records hash height txs st)\<rparr>"
    and files: "files_inv (nd_files nd)" "disk_ok (cx_disk X)" "undo_fits (cx_disk X) (cx_avail X) undo (nd_pindex nd) (nd_files nd)"
    and st: "utxo_wf st" "(word_of_int height :: u32) \<noteq> 0" "\<not> base_blob_IsNull (cs_block st)" "\<not> base_blob_IsNull (cs_anchor st)"
    and prev: "deref (ck_index (cx_check X)) (pprev (nd_pindex nd)) = Inr prev"
      "NetworkUpgradeActive (nHeight prev) P (upgrade_idx UPGRADE_V5_0) = Inr v5"
      "(if v5 then hashFinalSaplingRoot prev else env_empty_root E) = cs_anchor st"
      "NetworkUpgradeActive height P (upgrade_idx UPGRADE_V6_0) = Inr v6" "NetworkUpgradeActive height P (upgrade_idx UPGRADE_ZC_V2) = Inr zc"
    and D: "dx_hash D = hash" "dx_undo D = UndoReadFromDisk (cx_disk X) (bf_rev (nd_files nd'))"
      "\<And>tx x. fst (dx_zerocoin D tx x)" "\<And>x. fst (dx_undo_special D x)" "v6 \<longrightarrow> dx_verify_best D (phashBlock (nd_pindex nd)) x"
  shows "\<exists>x' c' b'. DisconnectBlock E D P (ck_index (cx_check X)) (vtx (nd_block nd')) (nd_pindex nd') x (nd_c nd') (nd_b nd') =
      Inr (DISCONNECT_OK, x', c', b') \<and> at E c' b' st"
proof -
  note eqs = assms(4-6) assms(13)
  obtain tree q cb rest where r: "env_root E tree = cs_anchor st" "all_applicable hash height txs st"
    "vtx (nd_block nd') = txs" "txs = cb # rest" "IsCoinBase cb"
    "at E (nd_c nd') (nd_b nd') (connected E hash height txs (final_root E X txs tree) (phashBlock (nd_pindex nd)) st)"
    "deref (ck_index (cx_check X)) (pprev (nd_pindex nd)) = Inr q" "phashBlock q = cs_block st"
    "undo_at (cx_disk X) (nd_files nd') (GetUndoPos (nd_pindex nd')) (phashBlock q) undo"
    "holds_all (nd_files nd) (nd_files nd')" "\<not> FlatFilePos_IsNull (GetUndoPos (nd_pindex nd'))"
    "phashBlock (nd_pindex nd') = phashBlock (nd_pindex nd)" "nHeight (nd_pindex nd') = height" "pprev (nd_pindex nd') = pprev (nd_pindex nd)"
    unfolding eqs by (rule ConnectBlock_connects [OF run b view txs [unfolded eqs] conjunct1 [OF root [unfolded eqs]] idx files [unfolded eqs]])
  have "blockundo_ok undo" "files_inv (nd_files nd')" using files(3) r(10) by (simp_all add: undo_fits_def holds_all_def Let_def)
  then have u: "dx_undo D (GetUndoPos (nd_pindex nd')) (phashBlock prev) = Some undo"
    using undo_at_readable [OF r(9) _ _ files(2)] D(2) prev(1) r(7) by simp
  show ?thesis unfolding r(3)
  proof (rule DisconnectBlock_at)
    show "at E (nd_c nd') (nd_b nd') (connected E (dx_hash D) (nHeight (nd_pindex nd')) txs (final_root E X txs tree) (phashBlock (nd_pindex nd')) st)"
      using r(6,12,13) D(1) by simp
  qed (use r root [OF r(1)] st prev D u assms(13) in \<open>auto\<close>)
qed

section \<open>Witnesses\<close>

definition minting_block :: CBlock where
  "minting_block = sample_pow_block\<lparr>hd_nBits := 0x03000001\<rparr>"

text \<open>The main network with an easy target, before proof of stake.\<close>

definition easy_consensus :: Params where
  "easy_consensus = main_consensus\<lparr>powLimit := 0x7f # replicate 31 0x7f\<rparr>"

lemma pow_ok: "CheckProofOfWork LittleEndianHost easy_consensus h 0x03000001"
proof -
  have "SetCompact 0x03000001 = (base_uint_of64 8 1, False, False)"
    by (simp add: SetCompact_def Let_def)
  moreover have "1 \<le> val_of (powLimit easy_consensus)" by (simp add: easy_consensus_def)
  moreover have "length (powLimit easy_consensus) = 32" by (simp add: easy_consensus_def)
  ultimately show ?thesis
    by (simp add: CheckProofOfWork_def IsNull_val compare_vals val_UintToArith256)
qed

lemma easy_upgrades:
  "NetworkUpgradeActive 1 easy_consensus (upgrade_idx u) = Inr (u = BASE_NETWORK)"
  "NetworkUpgradeActive 0 easy_consensus (upgrade_idx u) = Inr (u = BASE_NETWORK)"
  by (cases u; simp add: NetworkUpgradeActive_def NetworkUpgradeState_def MAX_NETWORK_UPGRADES_def
      NO_ACTIVATION_HEIGHT_def easy_consensus_def main_consensus_def main_upgrades_def main_upgrade_def eval_nat_numeral)+

definition minting_index :: CBlockIndex where
  "minting_index = tip_index\<lparr>phashBlock := replicate 32 2, pprev := Some 0, nHeight := 1\<rparr>"

definition minting_check :: check_env where
  "minting_check = sample_check\<lparr>ck_params := easy_consensus, ck_index := [0 \<mapsto> tip_index], ck_initial_download := True\<rparr>"

definition minting_env :: "(u8, unit) connect_env" where
  "minting_env = \<lparr>cx_check = minting_check, cx_inputs = sample_inputs, cx_disk = sample_disk, cx_append = (\<lambda>t _. t + 1),
     cx_verify_best = (\<lambda>_ _. True), cx_write_best = (\<lambda>_ x. x), cx_total_blocks_estimate = 0, cx_script_threads = True,
     cx_sapling_maintenance = 4000000000, cx_zerocoin_spends = (\<lambda>_ _ s. (True, s, [])), cx_payee_valid = (\<lambda>_ _ _ _. True),
     cx_garbage = 0, cx_coinbase_value_valid = (\<lambda>_ _ s. (True, s)), cx_special = (\<lambda>_ _ s x. ((True, s), x)), cx_avail = 2 ^ 40,
     cx_dirty = (\<lambda>x. x), cx_write_spends = (\<lambda>_ x. (True, x)), cx_txindex = True, cx_write_txindex = (\<lambda>_ x. (True, x)),
     cx_last_checkpoint = 0, cx_last_invalid = 0, cx_main_network = False, cx_checksum = (\<lambda>x. x), cx_accumulator_wipe = (\<lambda>x. x),
     cx_clear_invalid = (\<lambda>x. x)\<rparr>"

definition minting_node :: "(u8, unit) node" where
  "minting_node = \<lparr>nd_c = CCoinsViewCache_new\<lparr>hashBlock := replicate 32 1\<rparr>, nd_b = DB Map.empty,
     nd_files = fresh_files\<lparr>vinfoBlockFile := [CBlockFileInfo_SetNull]\<rparr>, nd_pindex = minting_index, nd_block = minting_block,
     nd_rejected = Map.empty, nd_x = ()\<rparr>"

definition minting_state :: chainstate where
  "minting_state = chain_of sample_env (Cache (nd_c minting_node) (nd_b minting_node))"

lemma minting_at: "at sample_env (nd_c minting_node) (nd_b minting_node) minting_state"
  using sample_inv by (simp add: at_def minting_state_def minting_node_def CCoinsViewCache_new_def)

lemma minting_state_fields:
  "cs_utxo minting_state = Map.empty" "cs_nullifiers minting_state = (\<lambda>_. False)" "cs_anchor minting_state = env_empty_root sample_env"
  "cs_block minting_state = replicate 32 1" "cs_anchors minting_state = (\<lambda>r. r = env_empty_root sample_env)"
  by (simp_all add: minting_state_def minting_node_def CCoinsViewCache_new_def through_simps db_GetCoin_def fun_eq_iff
      db_GetBestAnchor_def db_GetNullifier_def db_GetSaplingAnchorAt_def blob_replicate base_blob_new_def)

lemma minting_block_ok:
  "block_ok minting_block" "length (block_enc minting_block) \<le> 1000" "\<not> fChecked minting_block" "\<not> CBlock_IsProofOfStake minting_block"
  "vtx minting_block = [sample_coinbase]" "length (header_enc minting_block) > 32"
proof -
  note block = minting_block_def sample_pow_block_def CBlock_of_def CBlockHeader_new_def CBlockHeader.extend_def CBlock.fields_def CBlockHeader_CURRENT_VERSION_def
  show "\<not> fChecked minting_block" "vtx minting_block = [sample_coinbase]" "\<not> CBlock_IsProofOfStake minting_block"
    by (simp_all add: block CBlock_IsProofOfStake_def)
  show "block_ok minting_block" using sample_coinbase_ok(1)
    by (simp add: block_ok_def block header_ok_def int32_ok_def UINT256_ZERO_def vec_ok_def MAX_SIZE_def bytevec_ok_def CBlock_IsProofOfStake_def)
  show "length (block_enc minting_block) \<le> 1000" using sample_coinbase_ok(5)
    by (simp add: block_enc_def block header_enc_def int32_enc_def vec_enc_def compact_bytes_def bytevec_enc_def UINT256_ZERO_def CBlock_IsProofOfStake_def)
  show "length (header_enc minting_block) > 32" by (simp add: block header_enc_def int32_enc_def UINT256_ZERO_def)
qed

lemma minting_connectable: "connectable minting_env CValidationState_new minting_block"
proof -
  have "length (hashGenesisBlock easy_consensus) = 32" by (simp add: easy_consensus_def main_consensus_def)
  then have "rev (header_enc minting_block) \<noteq> hashGenesisBlock easy_consensus" using minting_block_ok(6) by (metis length_rev nat_neq_iff)
  then show ?thesis using minting_block_ok by (simp add: connectable_def minting_env_def minting_check_def sample_check_def)
qed

lemma minting_env_simps:
  "cx_check minting_env = minting_check" "ck_params minting_check = easy_consensus" "ck_host minting_check = LittleEndianHost"
  "ck_index minting_check = [0 \<mapsto> tip_index]" "cx_total_blocks_estimate minting_env = 0" "cx_sapling_maintenance minting_env = 4000000000"
  "nd_pindex minting_node = minting_index" "nd_block minting_node = minting_block" "nd_rejected minting_node = Map.empty"
  "pprev minting_index = Some 0" "nHeight minting_index = 1" "nHeight tip_index = 0" "phashBlock tip_index = replicate 32 1"
  "nChainSaplingValue minting_index = None" "phashBlock minting_index = replicate 32 2" "nStatus minting_index = 8"
  "ck_quark minting_check = rev" "ck_digest minting_check = rev" "cx_disk minting_env = sample_disk"
  by (simp_all add: minting_env_def minting_check_def sample_check_def minting_node_def minting_index_def tip_index_def)

lemma minting_checks:
  "CheckBlock minting_check minting_block CValidationState_new True True True Map.empty =
     Inr ((True, CValidationState_new), minting_block\<lparr>fChecked := True\<rparr>, Map.empty)"
proof (subst CheckBlock_True)
  have "CheckProofOfWork (ck_host minting_check) (ck_params minting_check) h (hd_nBits minting_block)" for h
    using pow_ok [of h] by (simp add: minting_check_def sample_check_def minting_block_def)
  moreover have "hashMerkleRoot minting_block = tree_root (ck_combine minting_check) (map (ck_txhash minting_check) (vtx minting_block)) \<and>
      \<not> mutated_list (ck_combine minting_check) (map (ck_txhash minting_check) (vtx minting_block))"
    using one_leaf by (simp add: minting_block_ok minting_check_def sample_check_def minting_block_def)
      (simp add: sample_pow_block_def CBlock_of_def CBlockHeader.extend_def CBlock.fields_def)
  moreover have "block_shape minting_block" using sample_coinbase_ok by (simp add: block_shape_def minting_block_ok)
  moreover have "shielded_size sample_coinbase = 0" using sample_coinbase_ok(6) by (simp add: shielded_size_def)
  ultimately have "header_rules minting_check True True minting_block"
    using minting_block_ok by (simp add: header_rules_def MAX_BLOCK_SIZE_CURRENT_def)
  moreover have "block_txs_valid minting_check True CValidationState_new minting_block"
    using sample_coinbase_ok by (simp add: block_txs_valid_def minting_block_ok minting_check_def sample_check_def)
  moreover have "tx_sigops LittleEndianHost sample_coinbase = 0"
    using tx_sigops_count(1) [of sample_coinbase LittleEndianHost] sample_coinbase_ok(5,7) by auto
  then have "sigops_within minting_check minting_block"
    by (simp add: sigops_within_def minting_block_ok minting_check_def sample_check_def)
  ultimately show "header_rules minting_check True True minting_block \<and> block_txs_valid minting_check True CValidationState_new minting_block \<and>
      sigops_within minting_check minting_block \<and> (True \<longrightarrow> ck_signature minting_check minting_block) \<and> CValidationState_new = CValidationState_new \<and>
      (Map.empty :: rejected) = Map.empty \<and> minting_block\<lparr>fChecked := True\<rparr> = (if True \<and> True \<and> True then minting_block\<lparr>fChecked := True\<rparr> else minting_block)"
    by (simp add: minting_check_def sample_check_def)
  show "CheckBlock_payments minting_check minting_block CValidationState_new Map.empty = Inr (Inr True, Map.empty)"
    by (simp add: CheckBlock_payments_def minting_check_def sample_check_def CChain_Tip_def)
qed (use minting_block_ok in \<open>simp_all add: minting_check_def sample_check_def\<close>)

lemma minting_before:
  "ConnectBlock_before minting_env CValidationState_new False (minting_node\<lparr>nd_block := minting_block\<lparr>fChecked := True\<rparr>\<rparr>) =
     Inr (Inr (\<lparr>cf_v5 = False, cf_scripts = True, cf_cltv = False, cf_maintenance = False\<rparr>, False), minting_node\<lparr>nd_block := minting_block\<lparr>fChecked := True\<rparr>\<rparr>)"
proof -
  let ?b = "minting_block\<lparr>fChecked := True\<rparr>"
  obtain hash where h: "CBlockHeader_GetHash LittleEndianHost (ck_quark minting_check) (ck_digest minting_check) ?b = Inr hash"
    "hash \<noteq> hashGenesisBlock easy_consensus"
    using CheckBlock_static(5) [of minting_env, unfolded minting_env_simps, OF minting_checks minting_connectable]
      GetHash_header_enc [of ?b] minting_block_ok(1) by (auto simp: block_ok_def header_ok_def minting_env_simps)
  have t: "hd_nTime minting_block = 0" "\<not> CBlock_IsProofOfStake ?b" using minting_block_ok(4)
    by (simp_all add: minting_block_def sample_pow_block_def CBlock_of_def CBlockHeader.extend_def CBlockHeader_new_def CBlock_IsProofOfStake_def)
  have g: "CacheGetBestBlock (nd_c minting_node) (nd_b minting_node) = (replicate 32 1, nd_c minting_node, nd_b minting_node)"
    by (simp add: CacheGetBestBlock_def minting_node_def blob_replicate)
  have d: "deref [0 \<mapsto> tip_index] (Some 0) = Inr tip_index" by (simp add: deref_def)
  have u: "NetworkUpgradeActive 1 easy_consensus (upgrade_idx UPGRADE_POS) = Inr False" "NetworkUpgradeActive 1 easy_consensus (upgrade_idx UPGRADE_V5_0) = Inr False"
    "NetworkUpgradeActive 1 easy_consensus (upgrade_idx UPGRADE_V6_0) = Inr False" "NetworkUpgradeActive 0 easy_consensus (upgrade_idx UPGRADE_BIP65) = Inr False"
    unfolding easy_upgrades by simp_all
  show ?thesis
    using h(2) t by (simp add: ConnectBlock_before_def Let_def minting_env_simps g d u [simplified] h(1) [unfolded minting_env_simps])
qed

lemma minting_undo:
  "undo_records hash height [sample_coinbase] st = [\<lparr>vprevout = []\<rparr>]" "note_commitments sample_coinbase = []"
  using sample_coinbase_ok(3,6) by (simp_all add: note_commitments_def)

lemma minting_fits:
  "files_inv (nd_files minting_node)" "undo_fits sample_disk (2 ^ 40) \<lparr>vtxundo = []\<rparr> minting_index (nd_files minting_node)"
  "FlatFilePos_IsNull (GetUndoPos minting_index)"
  by (simp_all add: files_inv_def minting_node_def fresh_files_def healthy_def covered_def used_def undone_def CBlockFileInfo_SetNull_def
      MAX_BLOCKFILE_SIZE_def undo_fits_def blockundo_ok_def vec_ok_def blockundo_enc_def vec_enc_def compact_bytes_def
      UNDOFILE_CHUNK_SIZE_def minting_index_def tip_index_def GetUndoPos_def BLOCK_HAVE_UNDO_def FlatFilePos_IsNull_def
      FlatFilePos_SetNull_def Let_def)

lemma minting_loop:
  assumes "at sample_env (cn_c n) (cn_b n) minting_state" "cn_fees n = 0" "cn_value_in n = 0" "cn_value_out n = 0" "cn_sigops n = 0"
  shows "\<exists>n'. ConnectTxs sample_env minting_env \<lparr>cf_v5 = False, cf_scripts = True, cf_cltv = False, cf_maintenance = False\<rparr> 1
      [sample_coinbase] 0 n = Inr (True, n') \<and> cn_fees n' = 0 \<and> cn_value_in n' = 0 \<and> cn_value_out n' = 1000 * COIN \<and>
      cn_checks n' = cn_checks n \<and> cn_spends n' = cn_spends n \<and> cn_undo n' = cn_undo n \<and> cn_state n' = cn_state n"
proof -
  let ?h = "ck_txhash minting_check sample_coinbase"
  have tx: "\<not> HasZerocoinSpendInputs sample_coinbase"
    by (simp add: HasZerocoinSpendInputs_def sample_coinbase_def CTxIn_IsZerocoinSpend_def CTxIn_IsZerocoinPublicSpend_def
        IsZerocoinSpend_def IsZerocoinPublicSpend_def StartsWithOpcode_def CMutableTransaction_new_def)
  have "static_ok sample_coinbase" using tx_valid_static [OF sample_coinbase_ok(1,2)] .
  then have "applicable ?h sample_coinbase minting_state"
    using static_applicable [of sample_coinbase minting_state ?h] sample_coinbase_ok(3) by (simp add: minting_state_fields)
  from UpdateCoins_at [OF assms(1) this, of "\<lparr>vprevout = []\<rparr>" 1] obtain u c b where
    u: "UpdateCoins sample_env ?h sample_coinbase (cn_c n) (cn_b n) \<lparr>vprevout = []\<rparr> 1 False = (None, u, c, b)" by blast
  have z: "GetSerializeSize SerializeTransaction (de_host (cx_disk minting_env)) sample_coinbase (de_client_version (cx_disk minting_env)) =
      Inr (length (tx_enc sample_coinbase))"
    by (rule GetSerializeSize_counts) (rule sz_cnt.transaction_counts)
  have a: "add_amount 0 (1000 * COIN) = Inr (1000 * COIN)" by (simp add: add_amount_def int64_min_def int64_max_def COIN_def)
  have s: "SkipInvalidUTXOS minting_env 1 = Inr False" by (simp add: SkipInvalidUTXOS_def minting_env_def)
  show ?thesis using assms(2-) tx sample_coinbase_ok minting_undo(2)
    by (simp add: minting_env_simps ConnectTx_available_def ConnectTx_inputs_def ConnectTx_update_def Let_def a s u z [unfolded minting_env_simps] MAX_BLOCK_SIGOPS_CURRENT_def)
qed

lemma minting_connects: "\<exists>state nd. ConnectBlock sample_env minting_env CValidationState_new False minting_node = Inr ((True, state), nd)"
proof -
  let ?nd = "minting_node\<lparr>nd_block := minting_block\<lparr>fChecked := True\<rparr>\<rparr>"
  let ?F = "\<lparr>cf_v5 = False, cf_scripts = True, cf_cltv = False, cf_maintenance = False\<rparr>"
  obtain anchor c b where a: "CacheGetBestAnchor sample_env (nd_c minting_node) (nd_b minting_node) = (anchor, c, b)"
    by (cases "CacheGetBestAnchor sample_env (nd_c minting_node) (nd_b minting_node)")
  obtain t c1 b1 where t: "CacheGetSaplingAnchorAt sample_env c b anchor = (t, c1, b1)" by (cases "CacheGetSaplingAnchorAt sample_env c b anchor")
  have "reads sample_env (nd_c minting_node, nd_b minting_node) (c, b)" "anchor = cs_anchor minting_state"
    using GetBestAnchor_reads(2) [OF at_inv(1) [OF minting_at] a] at_fields [OF minting_at] by (auto simp del: folded_views)
  note c = at_reads [OF minting_at this(1)] this(2)
  have "t \<noteq> None"
    using GetSaplingAnchorAt_reads(2) [OF at_inv(1) [OF c(1)] t] at_fields [OF c(1)] c(2) minting_state_fields(3,5)
    by (auto simp del: folded_views)
  then obtain tree where tree: "t = Some tree" by blast
  note c1 = sapling_tree_at(1) [OF minting_at a t [unfolded tree]]
  define n0 where "n0 = \<lparr>cn_c = c1, cn_b = b1, cn_state = CValidationState_new, cn_fees = 0, cn_value_in = 0, cn_value_out = 0, cn_sigops = 0,
    cn_undo = \<lparr>vtxundo = []\<rparr>, cn_tree = tree, cn_spends = [], cn_vpos = [],
    cn_pos = \<lparr>pos_nFile = pos_nFile (GetBlockPos minting_index), pos_nPos = pos_nPos (GetBlockPos minting_index),
      nTxOffset = of_nat (GetSizeOfCompactSize (of_nat (length (vtx minting_block))))\<rparr>, cn_checks = []\<rparr>"
  obtain n where n: "ConnectTxs sample_env minting_env ?F 1 [sample_coinbase] 0 n0 = Inr (True, n)"
    "cn_fees n = 0" "cn_value_in n = 0" "cn_value_out n = 1000 * COIN" "cn_checks n = []" "cn_spends n = []" "cn_undo n = \<lparr>vtxundo = []\<rparr>"
    using minting_loop [of n0] c1 by (auto simp: n0_def)
  obtain c2 b2 where p: "PushAnchor sample_env (cn_c n) (cn_b n) (cn_tree n) = (c2, b2)" by (cases "PushAnchor sample_env (cn_c n) (cn_b n) (cn_tree n)")
  have am: "add_amount (1000 * COIN) 0 = Inr (1000 * COIN)" "add_amount (GetBlockValue 1) 1 = Inr (COIN + 1)" "add_amount (COIN + 1) 0 = Inr (COIN + 1)"
    by (simp_all add: add_amount_def int64_min_def int64_max_def COIN_def GetBlockValue_def)
  have after: "ConnectBlock_after sample_env minting_env ?F False False n ?nd = Inr (None, cn_state n, ?nd\<lparr>nd_c := c2, nd_b := b2\<rparr>)"
    using n am p minting_block_ok(4)
    by (simp add: ConnectBlock_after_def Let_def minting_env_simps CBlock_IsProofOfStake_def) (simp add: minting_env_def minting_check_def sample_check_def)
  have "disk_ok (cx_disk minting_env)" using sample_disk_disk_ok by (simp add: minting_env_def)
  from write_undo_stores [OF minting_fits(1) minting_fits(2) sample_disk_disk_ok, of "cn_state n" "replicate 32 1"] obtain pindex B where
    w: "ConnectBlock_write_undo sample_disk (2 ^ 40) (cn_state n) \<lparr>vtxundo = []\<rparr> (replicate 32 1) minting_index (nd_files minting_node) =
      Inr ((True, cn_state n), pindex, B)"
    and q: "pindex = minting_index\<lparr>nUndoPos := nUndoPos pindex, nStatus := nStatus minting_index OR BLOCK_HAVE_UNDO\<rparr>"
    by blast
  have "nHeight pindex = 1" by (subst q) (simp add: minting_env_simps)
  moreover have "\<exists>r p2. RaiseValidity pindex BLOCK_VALID_SCRIPTS = Inr (r, p2)"
    by (cases "RaiseValidity pindex BLOCK_VALID_SCRIPTS")
      (auto simp: RaiseValidity_def BLOCK_VALID_SCRIPTS_def BLOCK_VALID_MASK_def split: if_splits)
  ultimately obtain r p2 where v: "RaiseValidity pindex BLOCK_VALID_SCRIPTS = Inr (r, p2)" "nHeight p2 = 1"
    using RaiseValidity_keeps(3) by fastforce
  have u: "NetworkUpgradeActive 1 easy_consensus (upgrade_idx UPGRADE_ZC_V2) = Inr False" unfolding easy_upgrades by simp
  have x: "cx_avail minting_env = 2 ^ 40" "cx_dirty minting_env = (\<lambda>x. x)" "cx_txindex minting_env"
    "cx_write_txindex minting_env = (\<lambda>_ x. (True, x))" "cx_last_checkpoint minting_env = 0" "cx_last_invalid minting_env = 0"
    by (simp_all add: minting_env_def)
  have d: "deref [0 \<mapsto> tip_index] (Some 0) = Inr tip_index" by (simp add: deref_def)
  have "\<exists>nd. ConnectBlock_undo minting_env n (cn_state n) (?nd\<lparr>nd_c := c2, nd_b := b2\<rparr>) =
      Inr (None, cn_state n, nd) \<and> nHeight (nd_pindex nd) = 1"
    using minting_fits(3) d w v x n(7) by (auto simp: ConnectBlock_undo_def Let_def minting_env_simps)
  then have "\<exists>nd. ConnectBlock_store minting_env n (cn_state n) (?nd\<lparr>nd_c := c2, nd_b := b2\<rparr>) = Inr ((True, cn_state n), nd)"
    using x n(6) u [simplified] by (auto simp: ConnectBlock_store_def Let_def minting_env_simps)
  then obtain nd where store: "ConnectBlock_store minting_env n (cn_state n) (?nd\<lparr>nd_c := c2, nd_b := b2\<rparr>) = Inr ((True, cn_state n), nd)" by blast
  have e: "minting_node\<lparr>nd_block := bl, nd_rejected := Map.empty\<rparr> = minting_node\<lparr>nd_block := bl\<rparr>" for bl by (simp add: minting_node_def)
  have v: "vtx (minting_block\<lparr>fChecked := True\<rparr>) = vtx minting_block" by simp
  have "ConnectBlock sample_env minting_env CValidationState_new False minting_node = Inr ((True, cn_state n), nd)"
    using n(1)
    by (simp add: ConnectBlock_def minting_env_simps Let_def minting_checks e minting_before a t tree minting_block_ok(5) n0_def after store
        del: CacheGetBestAnchor.simps CacheGetSaplingAnchorAt.simps ConnectTxs.simps)
  then show ?thesis by blast
qed

lemma minting_hyps:
  "distinct (map (ck_txhash minting_check) (vtx minting_block))" "SkipInvalidUTXOS minting_env 1 = Inr False"
  "final_root sample_env minting_env (vtx minting_block) tree = env_root sample_env tree"
  "\<not> base_blob_IsNull (phashBlock minting_index)" "disk_ok (cx_disk minting_env)" "utxo_wf minting_state"
  "undo_fits (cx_disk minting_env) (cx_avail minting_env) \<lparr>vtxundo = []\<rparr> minting_index (nd_files minting_node)"
  "tl (undo_records hash height (vtx minting_block) st) = []" "\<not> base_blob_IsNull (cs_block minting_state)"
  "\<not> base_blob_IsNull (cs_anchor minting_state)"
  using minting_fits(2) sample_disk_disk_ok sample_root(1) [of 0]
  by (simp_all add: minting_block_ok SkipInvalidUTXOS_def minting_env_def final_root_def minting_undo(2) minting_env_simps blob_replicate
      utxo_wf_def minting_state_fields) (simp add: sample_env_def)

theorem ConnectBlock_applies_witness:
  "\<exists>state nd. ConnectBlock sample_env minting_env CValidationState_new False minting_node = Inr ((True, state), nd) \<and>
    UndoReadFromDisk sample_disk (bf_rev (nd_files nd)) (GetUndoPos (nd_pindex nd)) (replicate 32 1) = Some \<lparr>vtxundo = []\<rparr>"
proof -
  from minting_connects obtain state nd where
    run: "ConnectBlock sample_env minting_env CValidationState_new False minting_node = Inr ((True, state), nd)" by blast
  from ConnectBlock_applies [OF run _ minting_at refl refl refl _ _ _ _ _ _ refl minting_fits(1)] show ?thesis
    using run minting_connectable minting_hyps minting_fits minting_state_fields sample_root
    by (intro exI [of _ state] exI [of _ nd]) (auto simp: minting_env_simps)
qed

theorem ConnectBlock_DisconnectBlock_witness:
  "\<exists>state nd. ConnectBlock sample_env minting_env CValidationState_new False minting_node = Inr ((True, state), nd) \<and>
    (\<exists>x' c' b'. DisconnectBlock sample_env
       \<lparr>dx_hash = ck_txhash minting_check, dx_undo = UndoReadFromDisk sample_disk (bf_rev (nd_files nd)), dx_verify_best = (\<lambda>_ _. True), dx_abort = (\<lambda>_ x. x),
        dx_undo_special = (\<lambda>x. (True, x)), dx_zerocoin = (\<lambda>_ x. (True, x)), dx_budget = (\<lambda>_ x. x), dx_write_best = (\<lambda>_ x. x),
        dx_checksum = (\<lambda>x. x), dx_last_checkpoint = 0\<rparr>
       easy_consensus (ck_index minting_check) (vtx (nd_block nd)) (nd_pindex nd) () (nd_c nd) (nd_b nd) = Inr (DISCONNECT_OK, x', c', b') \<and>
     at sample_env c' b' minting_state)"
proof -
  from minting_connects obtain state nd where
    run: "ConnectBlock sample_env minting_env CValidationState_new False minting_node = Inr ((True, state), nd)" by blast
  let ?D = "\<lparr>dx_hash = ck_txhash minting_check, dx_undo = UndoReadFromDisk sample_disk (bf_rev (nd_files nd)), dx_verify_best = (\<lambda>_ _. True), dx_abort = (\<lambda>_ x. x),
    dx_undo_special = (\<lambda>x. (True, x)), dx_zerocoin = (\<lambda>_ x. (True, x)), dx_budget = (\<lambda>_ x. x), dx_write_best = (\<lambda>_ x. x),
    dx_checksum = (\<lambda>x. x), dx_last_checkpoint = 0\<rparr> :: unit disconnect_env"
  have d: "deref [0 \<mapsto> tip_index] (Some 0) = Inr tip_index" by (simp add: deref_def)
  have u: "NetworkUpgradeActive (nHeight tip_index) easy_consensus (upgrade_idx UPGRADE_V5_0) = Inr False"
    "NetworkUpgradeActive 1 easy_consensus (upgrade_idx UPGRADE_V6_0) = Inr False" "NetworkUpgradeActive 1 easy_consensus (upgrade_idx UPGRADE_ZC_V2) = Inr False"
    unfolding minting_env_simps easy_upgrades by simp_all
  from ConnectBlock_DisconnectBlock [OF run _ minting_at refl refl refl _ _ _ _ _ _ refl minting_fits(1), of tip_index easy_consensus False False False ?D "()"]
  show ?thesis
    using run minting_connectable minting_hyps minting_fits minting_state_fields sample_root d u [simplified minting_env_simps]
    by (intro exI [of _ state] exI [of _ nd]) (auto simp: minting_env_simps)
qed

text \<open>
  Property C39.  The amount a block mints is not checked: \<open>ConnectBlock\<close> computes what the block mints and what it may
  mint and never compares the two.  At height 1, where the block value is one coin, a proof-of-work block
  that pays 1000 coins to its miner and has no other transaction is connected.
\<close>

theorem ConnectBlock_ignores_mint:
  "\<exists>state nd. ConnectBlock sample_env minting_env CValidationState_new False minting_node = Inr ((True, state), nd) \<and>
    vtx (nd_block minting_node) = [sample_coinbase] \<and> GetValueOut sample_coinbase = Inr (1000 * COIN) \<and>
    GetBlockValue (nHeight (nd_pindex minting_node)) = 1 * COIN"
  using minting_connects sample_coinbase_ok(4) minting_block_ok(5) by (simp add: minting_env_simps GetBlockValue_def)

end
