(* ===== verification/Spec2Isabelle.thy ===== *)
theory Spec2Isabelle
  imports Containers Uint256 Pow Script CoinsSpec Compressor Merkle Undo Connect Disk CheckBlock Money BlockFiles Inputs ConnectBlock
begin

text \<open>
  A verification library for the consensus core of the TrumpCoin node, a proof-of-stake coin of the
  PIVX family with Sapling shielded transactions.  File names below are relative to \<open>src/src/\<close>.

  \<^bold>\<open>The program.\<close>  A node receives transactions and blocks as bytes, decodes them with the stream and
  serialisation templates (\<open>streams.h\<close>, \<open>serialize.h\<close>), checks what can be checked without context
  (\<open>consensus/tx_verify.cpp\<close>), places blocks in an index that forms a tree with skip pointers
  (\<open>chain.h\<close>, \<open>chain.cpp\<close>), computes the difficulty the next block has to meet (\<open>pow.cpp\<close> over the
  256-bit integers of \<open>arith_uint256.h\<close>), and keeps the unspent outputs, Sapling anchors and
  nullifiers of the active chain in caches stacked over a database (\<open>coins.h\<close>, \<open>coins.cpp\<close>,
  \<open>txdb.cpp\<close>, \<open>sapling/sapling_txdb.cpp\<close>).  Spending conditions are scripts (\<open>script/script.h\<close>,
  \<open>script/script.cpp\<close>).  \<open>validation.cpp\<close> puts these together: a block is checked, written to a block file,
  connected to the coin caches with its undo data written to an undo file, and disconnected again when
  another branch wins.

  \<^bold>\<open>Conventions.\<close>  A C++ struct is a record, an enum or tagged union a datatype, a \<open>w\<close>-bit
  unsigned integer a word of \<open>w\<close> bits where wrap-around matters and a natural number with the bound
  written out elsewhere; \<open>int64_t\<close> amounts are integers, and an operation that would leave their
  range is undefined behaviour.  Everything that may throw returns a value of type \<open>'a res\<close>: \<open>Inl\<close>
  of an \<open>exc\<close> (a failed stream, a failed assert, an exception of the program, undefined behaviour)
  or \<open>Inr\<close> of the result.  State is passed explicitly.  Loops are recursive functions with a
  termination proof; no model uses fuel.  The one loop that may walk a cyclic index,
  \<open>SetTip_loop\<close> with its relatives, is a \<open>partial_function\<close> into \<open>option\<close>, and the theorems about it
  show that it returns.  Code outside the repository or behind elliptic curves, zero-knowledge
  proofs and hashing is an argument of the definitions that use it.

  \<^bold>\<open>The theories.\<close>

  \<^item> \<open>Prelude\<close>: machine integers, exceptions as values, little-endian digit lists, the collection of
    facts the components share.

  \<^item> \<open>Endian\<close> (\<open>compat/byteswap.h\<close>, \<open>compat/endian.h\<close>, \<open>crypto/common.h\<close>): byte swaps and the
    conversions for both byte orders.  What is written and read does not depend on the host.

  \<^item> \<open>Streams\<close> (\<open>streams.h\<close>): \<open>CBaseDataStream\<close>, \<open>CVectorWriter\<close>, \<open>CAutoFile\<close>, \<open>OverrideStream\<close>,
    \<open>CSizeComputer\<close>.  The locales \<open>byte_sink\<close> and \<open>byte_source\<close> state what a template relies on and are
    interpreted on each stream; a data stream below \<open>2 ^ 31\<close> bytes refines a queue of unread bytes; a
    read whose end wraps at 32 bits passes the end-of-data test.

  \<^item> \<open>Serialize\<close>, \<open>Codecs\<close>, \<open>Containers\<close> (\<open>serialize.h\<close>): compact sizes, variable-length integers,
    formatters, strings, vectors, maps and the other containers; what each writer emits, what each
    reader accepts, that encodings are unique and read back.

  \<^item> \<open>Arith_Uint256\<close>, \<open>Compact\<close> (\<open>arith_uint256.h\<close>, \<open>arith_uint256.cpp\<close>): big integers as limbs, their
    operations as arithmetic modulo a power of two, long division, the compact target format.

  \<^item> \<open>Uint256\<close> (\<open>uint256.h\<close>, \<open>uint256.cpp\<close>, parts of \<open>utilstrencodings.cpp\<close>): opaque blobs and their
    hexadecimal form.

  \<^item> \<open>Params\<close> (\<open>consensus/params.h\<close>, \<open>consensus/upgrades.cpp\<close>, the main network of \<open>chainparams.cpp\<close>):
    network upgrades and height rules.

  \<^item> \<open>Chain\<close> (\<open>chain.h\<close>, \<open>chain.cpp\<close>): index entries in a store of addresses.  On a well-formed index
    (each entry one above its \<open>pprev\<close>, skip pointers to the ancestor at the skip height)
    \<open>GetAncestor\<close> equals walking back, \<open>BuildSkip\<close> keeps the index well formed, \<open>SetTip\<close>, \<open>FindFork\<close>
    and \<open>LastCommonAncestor\<close> compute what they say.

  \<^item> \<open>Pow\<close> (\<open>pow.cpp\<close>): both retargeting rules, \<open>CheckProofOfWork\<close>, \<open>GetBlockProof\<close>.

  \<^item> \<open>Script\<close> (\<open>script/script.h\<close>, \<open>script/script.cpp\<close>): opcodes, script numbers, building and walking
    scripts, \<open>FindAndDelete\<close> as exact removal at opcode boundaries, counting signature operations.

  \<^item> \<open>Transaction\<close> (\<open>primitives/transaction.h\<close>, \<open>primitives/transaction.cpp\<close>,
    \<open>sapling/sapling_transaction.h\<close>): transactions, their predicates and their wire format.

  \<^item> \<open>TxVerify\<close> (\<open>consensus/tx_verify.cpp\<close>, \<open>sapling/sapling_validation.cpp\<close>, \<open>consensus/validation.h\<close>):
    \<open>CheckTransaction\<close> decides a list of rules, with the exemption the code makes for transactions
    without shielded data; how it reports; two transactions it treats wrongly.

  \<^item> \<open>Coins\<close>, \<open>CoinsInv\<close>, \<open>CoinsFlush\<close>, \<open>CoinsSpec\<close> (\<open>coins.h\<close>, \<open>coins.cpp\<close>, \<open>txdb.cpp\<close>,
    \<open>sapling/sapling_txdb.cpp\<close>): the caches over a database, the abstract chain state a stack of
    views stands for, the invariant of the DIRTY and FRESH flags, refinement of every operation with
    the answer it gives, of flushing, and what a crash between two batches leaves.

  \<^item> \<open>Compressor\<close> (\<open>compressor.h\<close>, \<open>compressor.cpp\<close>): amounts and scripts in the compact form of the coin
    database; a coin reads back unchanged.

  \<^item> \<open>Merkle\<close> (\<open>consensus/merkle.cpp\<close>): the constant-space computation of roots and branches equals the
    level-by-level tree, its mutation flag is exact, and an unmutated list is determined by its root and
    the number of levels.

  \<^item> \<open>Hash\<close>, \<open>Block\<close>, \<open>Undo\<close>, \<open>Disk\<close> (\<open>hash.h\<close>, \<open>primitives/block.h\<close>, \<open>undo.h\<close>, \<open>flatfile.cpp\<close> and parts of
    \<open>validation.cpp\<close>): hashing streams over a digest, headers and blocks, undo records, and the functions that write
    blocks and undo data into a file and read them back with their checksum.

  \<^item> \<open>BlockFiles\<close> (\<open>chain.h\<close>, \<open>flatfile.cpp\<close>, \<open>util/system.cpp\<close>, \<open>validation.cpp\<close>): \<open>FindBlockPos\<close>, \<open>FindUndoPos\<close>,
    \<open>FlushBlockFile\<close> and the allocation of space in the block and undo files.  The steps of the node
    on its files are an inductive relation; every run keeps the invariant and every record written so far
    readable.  \<open>FindBlockPos_loop\<close> is a \<open>partial_function\<close>; it returns for every block smaller than a file.

  \<^item> \<open>CheckBlock\<close> (\<open>validation.cpp\<close>): the checks of a block that need no spent outputs, which decide a list of
    rules, that for the free output of a cold stake included.

  \<^item> \<open>Inputs\<close> (\<open>validation.cpp\<close>, \<open>consensus/tx_verify.cpp\<close>): \<open>CheckTxInputs\<close> and \<open>CheckInputs\<close> over a view, in
    terms of the chain state the view stands for.

  \<^item> \<open>Connect\<close>, \<open>ConnectBlock\<close> (\<open>validation.cpp\<close>): \<open>UpdateCoins\<close>, \<open>ApplyTxInUndo\<close> and \<open>DisconnectBlock\<close>; then
    \<open>ConnectBlock\<close>, from \<open>CheckBlock\<close> to the new best block, with its undo data in the undo file.  What the two ask the masternode
    layer, the zerocoin database and the transaction index is in the records \<open>connect_env\<close> and \<open>disconnect_env\<close>.  A
    connected block is applied to the chain state, and disconnecting it restores the chain state before.

  \<^item> \<open>Money\<close> (\<open>utilmoneystr.cpp\<close>): printing and parsing of amounts.

  \<^bold>\<open>Not modelled.\<close>  The memory pool, the activation of the best chain and the header checks that need context.  The wallet, the network code, the RPC server, the graphical interface and the
  masternode layer: they are I/O, threads and glue around databases.  Hash functions, elliptic
  curves, BLS and the zero-knowledge verifier: the models take them as arguments.  Floating point,
  except for the one comparison in \<open>MoneyRange\<close>, whose double arithmetic is exact on the amounts it sees.
\<close>

end
